(* ===== verification/Prelude.thy ===== *)
theory Prelude
  imports Complex_Main "HOL-Library.AList" "HOL-Library.Multiset"
begin

text \<open>
  Shared vocabulary of the development.

  Every Python function that is modelled returns a value of \<open>exn + 'a\<close> (\<open>Inl\<close> the
  exception it raises) and, where it mutates an object, the object's state after the
  call: a raise does not undo the writes that came before it, so a fallible stateful
  operation has the type \<open>'s \<Rightarrow> (exn + 'a) \<times> 's\<close>.

  A Python dict preserves insertion order and the sources iterate over dicts, so a dict is
  an association list with distinct keys: \<open>AList.update\<close> is \<open>d[k] = v\<close> (in place for a key that
  is there, at the end otherwise), \<open>AList.delete\<close> is \<open>d.pop(k, None)\<close>, \<open>map_of\<close> is \<open>d.get\<close>.

  Wall-clock and monotonic times, ratios and other floats are exact rationals here:
  rounding is not modelled. Times are arguments of the operations that read a clock.
\<close>

section \<open>Exceptions and results\<close>

datatype exn =
    KeyError
  | ValueError
  | RuntimeError
  | TypeError
  | IndexError
  | AssertionError
  | AttributeError
  | ZeroDivisionError
  | OverflowError
  | WireError
  | SafetensorError
  | StreamError string
  | RouterReplayCacheFull
  | RouterReplayDuplicateError "string list"

type_synonym 'a res = "exn + 'a"

type_synonym ('s, 'a) op = "'s \<Rightarrow> 'a res \<times> 's"

type_synonym time = rat

section \<open>Dictionaries with insertion order\<close>

type_synonym ('k, 'v) dict = "('k \<times> 'v) list"

abbreviation keys :: "('k, 'v) dict \<Rightarrow> 'k list" where
  "keys d \<equiv> map fst d"

definition dict_wf :: "('k, 'v) dict \<Rightarrow> bool" where
  "dict_wf d \<longleftrightarrow> distinct (keys d)"

definition dict_get :: "('k, 'v) dict \<Rightarrow> 'k \<Rightarrow> 'v \<Rightarrow> 'v" where
  "dict_get d k v0 = (case map_of d k of None \<Rightarrow> v0 | Some v \<Rightarrow> v)"

definition dict_values :: "('k, 'v) dict \<Rightarrow> 'v list" where
  "dict_values d = map snd d"

definition dict_count :: "('v \<Rightarrow> bool) \<Rightarrow> ('k, 'v) dict \<Rightarrow> nat" where
  "dict_count P d = length (filter (\<lambda>p. P (snd p)) d)"

section \<open>Python's min, max and sorted with a key\<close>

text \<open>
  \<open>min(xs, key=f)\<close> and \<open>max(xs, key=f)\<close> return the first element of extreme key and raise
  on an empty sequence, which every caller modelled here excludes before the call.
  \<open>sorted(xs, key=f)\<close> is stable, as \<open>sort_key\<close> is; \<open>reverse=True\<close> keeps equal elements
  in their original order.
\<close>

fun first_min :: "('a \<Rightarrow> 'b::linorder) \<Rightarrow> 'a \<Rightarrow> 'a list \<Rightarrow> 'a" where
  "first_min f m [] = m"
| "first_min f m (x # xs) = first_min f (if f x < f m then x else m) xs"

fun first_max :: "('a \<Rightarrow> 'b::linorder) \<Rightarrow> 'a \<Rightarrow> 'a list \<Rightarrow> 'a" where
  "first_max f m [] = m"
| "first_max f m (x # xs) = first_max f (if f m < f x then x else m) xs"

fun min_by :: "('a \<Rightarrow> 'b::linorder) \<Rightarrow> 'a list \<Rightarrow> 'a res" where
  "min_by f [] = Inl ValueError"
| "min_by f (x # xs) = Inr (first_min f x xs)"

definition sorted_desc :: "('a \<Rightarrow> 'b::linorder) \<Rightarrow> 'a list \<Rightarrow> 'a list" where
  "sorted_desc f xs = rev (sort_key f (rev xs))"

definition enumerate_from :: "nat \<Rightarrow> 'a list \<Rightarrow> (nat \<times> 'a) list" where
  "enumerate_from n xs = zip [n..<n + length xs] xs"

section \<open>Collections of simplification rules\<close>

named_theorems dict_simps \<open>reading a dict after a write\<close>
named_theorems frame_simps \<open>fields an operation leaves alone\<close>

section \<open>Lemmas on dictionaries\<close>

declare update_conv' [dict_simps] and delete_conv' [dict_simps] and update_keys [dict_simps]
  and delete_keys [dict_simps]

lemma dict_wf_Nil [simp]: "dict_wf []"
  by (simp add: dict_wf_def)

lemma dict_wf_update [simp]: "dict_wf d \<Longrightarrow> dict_wf (AList.update k v d)"
  by (simp add: dict_wf_def distinct_update)

lemma dict_wf_delete [simp]: "dict_wf d \<Longrightarrow> dict_wf (AList.delete k d)"
  by (simp add: dict_wf_def distinct_delete)

lemma map_of_None_keys: "map_of d k = None \<longleftrightarrow> k \<notin> set (keys d)"
  by (simp add: map_of_eq_None_iff)

lemma map_of_Some_keys: "k \<in> set (keys d) \<longleftrightarrow> (\<exists>v. map_of d k = Some v)"
  by (metis map_of_None_keys not_None_eq option.distinct(1))

lemma dict_get_Some [simp]: "map_of d k = Some v \<Longrightarrow> dict_get d k x = v"
  by (simp add: dict_get_def)

lemma dict_get_None [simp]: "map_of d k = None \<Longrightarrow> dict_get d k x = x"
  by (simp add: dict_get_def)

lemma map_of_delete: "map_of (AList.delete k d) x = (if x = k then None else map_of d x)"
  by (simp add: delete_conv')

lemma map_of_update: "map_of (AList.update k v d) x = (if x = k then Some v else map_of d x)"
  by (simp add: update_conv')

lemma dict_in_iff: "dict_wf d \<Longrightarrow> (k, v) \<in> set d \<longleftrightarrow> map_of d k = Some v"
  by (simp add: dict_wf_def)

lemma update_same: "map_of d k = Some v \<Longrightarrow> AList.update k v d = d"
  by (induction d) (auto split: if_splits)

lemma set_keys_update: "set (keys (AList.update k v d)) = insert k (set (keys d))"
  by (simp add: dom_update)

lemma update_map_snd:
  "AList.update k (f v) (map (\<lambda>(a, b). (a, f b)) d) = map (\<lambda>(a, b). (a, f b)) (AList.update k v d)"
  by (induction d) auto

lemma delete_map_snd:
  "AList.delete k (map (\<lambda>(a, b). (a, f b)) d) = map (\<lambda>(a, b). (a, f b)) (AList.delete k d)"
  by (induction d) auto

lemma set_delete: "set (AList.delete k d) = {p \<in> set d. fst p \<noteq> k}"
  by (auto simp: AList.delete_eq)

lemma update_new: "k \<notin> set (keys d) \<Longrightarrow> AList.update k v d = d @ [(k, v)]"
  by (induction d) auto

lemma keys_update_cong:
  "keys d = keys e \<Longrightarrow> keys (AList.update k v d) = keys (AList.update k w e)"
  by (simp add: update_keys flip: set_map)

lemma keys_update_present: "k \<in> set (keys d) \<Longrightarrow> keys (AList.update k v d) = keys d"
  by (simp add: update_keys)

lemma sum_values_delete:
  "dict_wf d \<Longrightarrow>
   sum_list (map snd (AList.delete k d)) = sum_list (map snd d) - dict_get d k (0::int)"
proof (induction d)
  case Nil
  then show ?case by (simp add: dict_get_def)
next
  case (Cons p d)
  obtain a b where p: "p = (a, b)" by fastforce
  from Cons.prems p have wf: "dict_wf d" and a: "a \<notin> set (keys d)"
    by (auto simp: dict_wf_def)
  show ?case
  proof (cases "a = k")
    case True
    with a have "AList.delete k d = d" by (intro delete_id) auto
    with True p show ?thesis by (simp add: dict_get_def)
  next
    case False
    with p Cons.IH [OF wf] show ?thesis by (simp add: dict_get_def)
  qed
qed

lemma sum_values_update:
  "dict_wf d \<Longrightarrow>
   sum_list (map snd (AList.update k v d)) = sum_list (map snd d) - dict_get d k 0 + (v::int)"
proof (induction d)
  case Nil
  then show ?case by (simp add: dict_get_def)
next
  case (Cons p d)
  obtain a b where p: "p = (a, b)" by fastforce
  from Cons.prems p have wf: "dict_wf d" by (auto simp: dict_wf_def)
  show ?case
    using Cons.IH [OF wf] p by (cases "a = k") (auto simp: dict_get_def)
qed

lemma mset_values_update:
  "dict_wf d \<Longrightarrow> mset (concat (dict_values (AList.update k v d))) + mset (dict_get d k []) =
   mset (concat (dict_values d)) + mset v"
  by (induction d) (auto simp: dict_values_def dict_get_def dict_wf_def)

lemma dict_count_update:
  "dict_count P (AList.update k v d) + (case map_of d k of None \<Rightarrow> 0 | Some v0 \<Rightarrow> if P v0 then 1 else 0)
     = dict_count P d + (if P v then 1 else 0)"
  by (induction d) (auto simp: dict_count_def split: option.splits)

lemma dict_count_pos: "map_of d k = Some v \<Longrightarrow> P v \<Longrightarrow> 0 < dict_count P d"
  by (force simp: dict_count_def filter_empty_conv dest: map_of_SomeD)

lemma dict_count_zero: "dict_wf d \<Longrightarrow> (\<And>k v. map_of d k = Some v \<Longrightarrow> \<not> P v) \<Longrightarrow> dict_count P d = 0"
  by (auto simp: dict_count_def dict_wf_def filter_empty_conv)

section \<open>Lemmas on the keyed extrema and sorting\<close>

lemma first_min_in: "first_min f m xs \<in> insert m (set xs)"
  by (induction xs arbitrary: m) (auto split: if_splits)

lemma first_min_le: "x \<in> insert m (set xs) \<Longrightarrow> f (first_min f m xs) \<le> f x"
proof (induction xs arbitrary: m x)
  case Nil
  then show ?case by simp
next
  case (Cons y ys)
  let ?m = "if f y < f m then y else m"
  have le: "f (first_min f ?m ys) \<le> f ?m" by (rule Cons.IH) simp
  show ?case
  proof (cases "x \<in> set ys")
    case True
    then show ?thesis using Cons.IH [of x ?m] by simp
  next
    case False
    with Cons.prems have "f ?m \<le> f x" by (auto simp: not_less)
    with le show ?thesis by simp
  qed
qed

lemma min_by_Inr: "min_by f xs = Inr x \<Longrightarrow> x \<in> set xs \<and> (\<forall>y\<in>set xs. f x \<le> f y)"
  by (cases xs) (use first_min_in [of f] first_min_le [of _ _ _ f] in auto)

lemma min_by_Inl: "min_by f xs = Inl e \<longleftrightarrow> xs = [] \<and> e = ValueError"
  by (cases xs) auto

lemma first_max_in: "first_max f m xs \<in> insert m (set xs)"
  by (induction xs arbitrary: m) (auto split: if_splits)

lemma first_max_ge: "x \<in> insert m (set xs) \<Longrightarrow> f x \<le> f (first_max f m xs)"
proof (induction xs arbitrary: m x)
  case Nil
  then show ?case by simp
next
  case (Cons y ys)
  let ?m = "if f m < f y then y else m"
  have ge: "f ?m \<le> f (first_max f ?m ys)" by (rule Cons.IH) simp
  show ?case
  proof (cases "x \<in> set ys")
    case True
    then show ?thesis using Cons.IH [of x ?m] by simp
  next
    case False
    with Cons.prems have "f x \<le> f ?m" by (auto simp: not_less)
    with ge show ?thesis by simp
  qed
qed

lemma mset_sorted_desc [simp]: "mset (sorted_desc f xs) = mset xs"
  by (simp add: sorted_desc_def)

lemma set_sorted_desc [simp]: "set (sorted_desc f xs) = set xs"
  by (simp add: sorted_desc_def)

lemma length_sorted_desc [simp]: "length (sorted_desc f xs) = length xs"
  by (simp add: sorted_desc_def)

lemma sorted_desc_sorted: "sorted (rev (map f (sorted_desc f xs)))"
  by (simp add: sorted_desc_def rev_map)

lemma length_enumerate_from [simp]: "length (enumerate_from n xs) = length xs"
  by (simp add: enumerate_from_def)

lemma map_snd_enumerate_from [simp]: "map snd (enumerate_from n xs) = xs"
  by (simp add: enumerate_from_def)

lemma map_fst_enumerate_from [simp]: "map fst (enumerate_from n xs) = [n..<n + length xs]"
  by (simp add: enumerate_from_def)

lemma mset_concat_extend: "j < length as \<Longrightarrow> mset (concat (as[j := as ! j @ ys])) = mset ys + mset (concat as)"
proof (induction as arbitrary: j)
  case (Cons a as)
  then show ?case by (cases j) auto
qed simp

end
