(* ===== verification/Router_Replay_Cache.thy ===== *)
theory Router_Replay_Cache
  imports Prelude
begin

text \<open>
  The router-replay caches of \<open>inference/server/router_replay/cache.py\<close>: a byte-bounded store of
  expert-routing tensors keyed by sample id. The base class has one \<open>_put\<close> that calls two virtual
  methods, the eviction hook and the suppression hook; the sampling side (\<open>RouterReplayCacheTX\<close>)
  overrides both and keeps tombstones, the training side (\<open>RouterReplayCacheRX\<close>) inherits the
  do-nothing hooks. Every method runs under the object's lock, so an operation is one step.
\<close>

section \<open>Tensors\<close>

datatype dtype = UInt8 | UInt16 | OtherDtype nat

record tensor =
  t_dtype :: dtype
  t_shape :: "nat list"
  t_data :: "int list"
  t_device :: string

datatype pyvalue = NdArray tensor | TorchTensor tensor | OtherValue

fun element_size :: "dtype \<Rightarrow> nat" where
  "element_size UInt8 = 1"
| "element_size UInt16 = 2"
| "element_size (OtherDtype n) = n"

definition numel :: "tensor \<Rightarrow> nat" where
  "numel t = prod_list (t_shape t)"

definition nbytes :: "tensor \<Rightarrow> int" where
  "nbytes t = int (element_size (t_dtype t) * numel t)"

text \<open>
  \<open>Tensor.to(torch.uint8)\<close> keeps the value modulo 256 (integer tensors); the device move, the
  contiguity copy and the ownership clone do not change the value.
\<close>

definition to_uint8 :: "tensor \<Rightarrow> tensor" where
  "to_uint8 t = t\<lparr>t_dtype := UInt8, t_data := map (\<lambda>x. x mod 256) (t_data t)\<rparr>"

definition coerce_tensor :: "string \<Rightarrow> pyvalue \<Rightarrow> tensor res" where
  "coerce_tensor dev v =
     (let finish = (\<lambda>t. let t1 = (if t_dtype t \<in> {UInt8, UInt16} then t else to_uint8 t);
                            t2 = (if t_device t1 \<noteq> dev then t1\<lparr>t_device := dev\<rparr> else t1)
                        in t2)
      in case v of
           NdArray t \<Rightarrow> Inr (finish t)
         | TorchTensor t \<Rightarrow> Inr (finish t)
         | OtherValue \<Rightarrow> Inl TypeError)"

section \<open>Identifiers and eviction summaries\<close>

definition is_exact_replay_id :: "string \<Rightarrow> bool" where
  "is_exact_replay_id sid \<longleftrightarrow> take 4 sid = ''rr1:''"

record eviction_summary =
  ev_reason :: string
  ev_projected_before :: int
  ev_projected_after :: int
  ev_target_bytes :: "int option"
  ev_count :: nat
  ev_bytes :: int
  ev_sample_ids_head :: "string list"

definition ev_new :: "string \<Rightarrow> int \<Rightarrow> int option \<Rightarrow> eviction_summary" where
  "ev_new reason projected target =
     \<lparr>ev_reason = reason, ev_projected_before = projected, ev_projected_after = projected,
      ev_target_bytes = target, ev_count = 0, ev_bytes = 0, ev_sample_ids_head = []\<rparr>"

definition ev_evicted :: "eviction_summary \<Rightarrow> bool" where
  "ev_evicted ev \<longleftrightarrow> 0 < ev_count ev"

definition ev_record :: "string \<Rightarrow> int \<Rightarrow> int \<Rightarrow> eviction_summary \<Rightarrow> eviction_summary" where
  "ev_record sid removed projected ev =
     ev\<lparr>ev_count := ev_count ev + 1,
        ev_bytes := ev_bytes ev + removed,
        ev_sample_ids_head :=
          (if length (ev_sample_ids_head ev) < 16 then ev_sample_ids_head ev @ [sid]
           else ev_sample_ids_head ev),
        ev_projected_after := projected\<rparr>"

section \<open>The base class\<close>

record rr_cache =
  rr_device :: string
  rr_max_bytes :: int
  rr_data :: "(string, tensor) dict"
  rr_sizes :: "(string, int) dict"
  rr_created_at :: "(string, time) dict"
  rr_last_touched :: "(string, time) dict"
  rr_bytes_in_use :: int
  rr_peak_bytes_in_use :: int
  rr_n_put :: nat
  rr_n_overwrite :: nat
  rr_n_duplicate_rejected :: nat
  rr_n_pop :: nat
  rr_n_discard :: nat
  rr_n_evicted_lru :: nat
  rr_n_evicted_ttl :: nat

definition rr_init :: "string \<Rightarrow> int \<Rightarrow> rr_cache" where
  "rr_init dev mb =
     \<lparr>rr_device = dev, rr_max_bytes = mb, rr_data = [], rr_sizes = [], rr_created_at = [],
      rr_last_touched = [], rr_bytes_in_use = 0, rr_peak_bytes_in_use = 0, rr_n_put = 0,
      rr_n_overwrite = 0, rr_n_duplicate_rejected = 0, rr_n_pop = 0, rr_n_discard = 0,
      rr_n_evicted_lru = 0, rr_n_evicted_ttl = 0\<rparr>"

definition rr_held :: "'a rr_cache_scheme \<Rightarrow> string list" where
  "rr_held c = keys (rr_data c)"

definition rr_remove_metadata :: "string \<Rightarrow> 'a rr_cache_scheme \<Rightarrow> int \<times> 'a rr_cache_scheme" where
  "rr_remove_metadata sid c =
     (let removed = dict_get (rr_sizes c) sid 0
      in (removed,
          c\<lparr>rr_sizes := AList.delete sid (rr_sizes c),
            rr_created_at := AList.delete sid (rr_created_at c),
            rr_last_touched := AList.delete sid (rr_last_touched c),
            rr_bytes_in_use := rr_bytes_in_use c - removed\<rparr>))"

text \<open>\<open>self._data.pop(sid)\<close> followed by \<open>self._remove_metadata_locked(sid)\<close>, as every remover does.\<close>

definition rr_drop :: "string \<Rightarrow> 'a rr_cache_scheme \<Rightarrow> int \<times> 'a rr_cache_scheme" where
  "rr_drop sid c = rr_remove_metadata sid (c\<lparr>rr_data := AList.delete sid (rr_data c)\<rparr>)"

type_synonym 'c evict_hook =
  "string \<Rightarrow> int \<Rightarrow> int \<Rightarrow> time \<Rightarrow> 'c \<Rightarrow> (int \<times> eviction_summary list) \<times> 'c"

type_synonym 'c suppress_hook = "string \<Rightarrow> time \<Rightarrow> 'c \<Rightarrow> bool \<times> 'c"

definition rr_store :: "string \<Rightarrow> tensor \<Rightarrow> int \<Rightarrow> time \<Rightarrow> int \<Rightarrow> 'a rr_cache_scheme \<Rightarrow> 'a rr_cache_scheme" where
  "rr_store sid t new_bytes now projected c =
     (let c1 = (if sid \<in> set (keys (rr_data c)) then c\<lparr>rr_n_overwrite := rr_n_overwrite c + 1\<rparr>
                else c\<lparr>rr_created_at := AList.update sid now (rr_created_at c)\<rparr>)
      in c1\<lparr>rr_data := AList.update sid t (rr_data c1),
            rr_sizes := AList.update sid new_bytes (rr_sizes c1),
            rr_last_touched := AList.update sid now (rr_last_touched c1),
            rr_bytes_in_use := projected,
            rr_peak_bytes_in_use := max (rr_peak_bytes_in_use c1) projected,
            rr_n_put := rr_n_put c1 + 1\<rparr>)"

definition rr_put_with ::
  "'a rr_cache_scheme evict_hook \<Rightarrow> 'a rr_cache_scheme suppress_hook \<Rightarrow>
   bool \<Rightarrow> string \<Rightarrow> pyvalue \<Rightarrow> time \<Rightarrow> ('a rr_cache_scheme, unit) op" where
  "rr_put_with evict suppress replace sid v now c =
     (case coerce_tensor (rr_device c) v of
        Inl e \<Rightarrow> (Inl e, c)
      | Inr t \<Rightarrow>
          (let new_bytes = nbytes t;
               (suppressed, c1) = (if replace then (False, c) else suppress sid now c)
           in if suppressed then (Inr (), c1)
              else if \<not> replace \<and> sid \<in> set (keys (rr_data c1))
              then (Inl (RouterReplayDuplicateError [sid]),
                    c1\<lparr>rr_n_duplicate_rejected := rr_n_duplicate_rejected c1 + 1\<rparr>)
              else (let old_bytes = dict_get (rr_sizes c1) sid 0;
                        projected = rr_bytes_in_use c1 - old_bytes + new_bytes;
                        ((projected', evictions), c2) = evict sid projected new_bytes now c1
                    in if rr_max_bytes c2 < projected' then (Inl RouterReplayCacheFull, c2)
                       else (Inr (), rr_store sid t new_bytes now projected' c2))))"

definition rr_pop :: "string \<Rightarrow> ('a rr_cache_scheme, tensor) op" where
  "rr_pop sid c =
     (case map_of (rr_data c) sid of
        None \<Rightarrow> (Inl KeyError, c)
      | Some t \<Rightarrow> (let (removed, c') = rr_drop sid c
                    in (Inr t, c'\<lparr>rr_n_pop := rr_n_pop c' + 1\<rparr>)))"

definition rr_get :: "string \<Rightarrow> time \<Rightarrow> ('a rr_cache_scheme, tensor) op" where
  "rr_get sid now c =
     (case map_of (rr_data c) sid of
        None \<Rightarrow> (Inl KeyError, c)
      | Some t \<Rightarrow> (Inr t, c\<lparr>rr_last_touched := AList.update sid now (rr_last_touched c)\<rparr>))"

fun rr_discard_loop :: "string list \<Rightarrow> nat \<Rightarrow> 'a rr_cache_scheme \<Rightarrow> nat \<times> 'a rr_cache_scheme" where
  "rr_discard_loop [] removed c = (removed, c)"
| "rr_discard_loop (sid # sids) removed c =
     (if sid \<in> set (keys (rr_data c)) then rr_discard_loop sids (removed + 1) (snd (rr_drop sid c))
      else rr_discard_loop sids removed c)"

definition rr_discard :: "string list \<Rightarrow> 'a rr_cache_scheme \<Rightarrow> nat \<times> 'a rr_cache_scheme" where
  "rr_discard sids c =
     (let (removed, c') = rr_discard_loop sids 0 c
      in (removed, c'\<lparr>rr_n_discard := rr_n_discard c' + removed\<rparr>))"

definition rr_clear :: "'a rr_cache_scheme \<Rightarrow> nat \<times> 'a rr_cache_scheme" where
  "rr_clear c =
     (length (rr_data c),
      c\<lparr>rr_data := [], rr_sizes := [], rr_created_at := [], rr_last_touched := [],
        rr_bytes_in_use := 0\<rparr>)"

definition rr_contains :: "string \<Rightarrow> 'a rr_cache_scheme \<Rightarrow> bool" where
  "rr_contains sid c \<longleftrightarrow> sid \<in> set (keys (rr_data c))"

definition rr_len :: "'a rr_cache_scheme \<Rightarrow> nat" where
  "rr_len c = length (rr_data c)"

definition rr_peek :: "string \<Rightarrow> 'a rr_cache_scheme \<Rightarrow> (nat list \<times> dtype \<times> int) option res" where
  "rr_peek sid c =
     (case map_of (rr_data c) sid of
        None \<Rightarrow> Inr None
      | Some t \<Rightarrow> (case map_of (rr_sizes c) sid of
                      None \<Rightarrow> Inl KeyError
                    | Some b \<Rightarrow> Inr (Some (t_shape t, t_dtype t, b))))"

definition rr_stats :: "'a rr_cache_scheme \<Rightarrow> (string, int) dict" where
  "rr_stats c =
     [(''entries'', int (length (rr_data c))),
      (''bytes_in_use'', rr_bytes_in_use c),
      (''peak_bytes_in_use'', rr_peak_bytes_in_use c),
      (''max_bytes'', rr_max_bytes c),
      (''n_put'', int (rr_n_put c)),
      (''n_overwrite'', int (rr_n_overwrite c)),
      (''n_duplicate_rejected'', int (rr_n_duplicate_rejected c)),
      (''n_pop'', int (rr_n_pop c)),
      (''n_discard'', int (rr_n_discard c)),
      (''n_evicted_lru'', int (rr_n_evicted_lru c)),
      (''n_evicted_ttl'', int (rr_n_evicted_ttl c))]"

text \<open>The base class's own hooks, which \<open>RouterReplayCacheRX\<close> inherits.\<close>

definition base_evict :: "'c evict_hook" where
  "base_evict sid projected new_bytes now c = ((projected, []), c)"

definition base_suppress :: "'c suppress_hook" where
  "base_suppress sid now c = (False, c)"

definition rx_put :: "string \<Rightarrow> pyvalue \<Rightarrow> time \<Rightarrow> (rr_cache, unit) op" where
  "rx_put = rr_put_with base_evict base_suppress True"

definition rx_put_new :: "string \<Rightarrow> pyvalue \<Rightarrow> time \<Rightarrow> (rr_cache, unit) op" where
  "rx_put_new = rr_put_with base_evict base_suppress False"

section \<open>The sampling side\<close>

record rr_tx = rr_cache +
  tx_tombstones :: "(string, time) dict"
  tx_ttl_s :: time
  tx_evict_min_age_s :: time
  tx_low_watermark_ratio :: rat

definition tx_init :: "string \<Rightarrow> int \<Rightarrow> rat \<Rightarrow> rat \<Rightarrow> rat \<Rightarrow> rr_tx" where
  "tx_init dev mb ttl min_age ratio =
     rr_cache.extend (rr_init dev mb)
       (rr_tx.fields [] (max 0 ttl) (max 0 min_age) (min 1 (max (1/10) ratio)))"

fun expire_loop :: "time \<Rightarrow> time \<Rightarrow> (string, time) dict \<Rightarrow> (string, time) dict" where
  "expire_loop ttl now [] = []"
| "expire_loop ttl now ((sid, created) # rest) =
     (if now - created < ttl then (sid, created) # rest else expire_loop ttl now rest)"

definition tx_expire_tombstones :: "time \<Rightarrow> rr_tx \<Rightarrow> rr_tx" where
  "tx_expire_tombstones now c =
     (if tx_ttl_s c \<le> 0 then c
      else c\<lparr>tx_tombstones := expire_loop (tx_ttl_s c) now (tx_tombstones c)\<rparr>)"

definition tx_suppress :: "rr_tx suppress_hook" where
  "tx_suppress sid now c =
     (let c' = tx_expire_tombstones now c
      in (is_exact_replay_id sid \<and> sid \<in> set (keys (tx_tombstones c')), c'))"

fun ttl_loop :: "string list \<Rightarrow> int \<Rightarrow> eviction_summary \<Rightarrow> rr_tx \<Rightarrow> int \<times> eviction_summary \<times> rr_tx" where
  "ttl_loop [] projected ev c = (projected, ev, c)"
| "ttl_loop (sid # sids) projected ev c =
     (if sid \<in> set (keys (rr_data c))
      then (let (removed, c') = rr_drop sid c; projected' = projected - removed
            in ttl_loop sids projected' (ev_record sid removed projected' ev)
                 (c'\<lparr>rr_n_evicted_ttl := rr_n_evicted_ttl c' + 1\<rparr>))
      else ttl_loop sids projected ev c)"

fun lru_loop ::
  "(time \<times> string) list \<Rightarrow> int \<Rightarrow> time \<Rightarrow> bool \<Rightarrow> int \<Rightarrow> eviction_summary \<Rightarrow> rr_tx \<Rightarrow>
   int \<times> eviction_summary \<times> rr_tx" where
  "lru_loop [] target now respect projected ev c = (projected, ev, c)"
| "lru_loop ((touched, sid) # cands) target now respect projected ev c =
     (if projected \<le> target then (projected, ev, c)
      else if respect \<and> now - dict_get (rr_created_at c) sid touched < tx_evict_min_age_s c
      then lru_loop cands target now respect projected ev c
      else (let (removed, c') = rr_drop sid c; projected' = projected - removed
            in lru_loop cands target now respect projected' (ev_record sid removed projected' ev)
                 (c'\<lparr>rr_n_evicted_lru := rr_n_evicted_lru c' + 1\<rparr>)))"

definition lru_candidates :: "string \<Rightarrow> time \<Rightarrow> rr_tx \<Rightarrow> (time \<times> string) list" where
  "lru_candidates sample_id now c =
     sort_key fst
       (map (\<lambda>sid. (dict_get (rr_last_touched c) sid (dict_get (rr_created_at c) sid now), sid))
          (filter (\<lambda>sid. sid \<noteq> sample_id) (keys (rr_data c))))"

definition tx_evict_lru :: "string \<Rightarrow> int \<Rightarrow> int \<Rightarrow> time \<Rightarrow> bool \<Rightarrow> rr_tx \<Rightarrow> int \<times> eviction_summary \<times> rr_tx" where
  "tx_evict_lru sample_id projected target now respect c =
     lru_loop (lru_candidates sample_id now c) target now respect projected
       (ev_new ''lru'' projected (Some target)) c"

definition ttl_expired :: "string \<Rightarrow> time \<Rightarrow> rr_tx \<Rightarrow> string list" where
  "ttl_expired sample_id now c =
     map fst (filter (\<lambda>(sid, created). sid \<noteq> sample_id \<and> tx_ttl_s c \<le> now - created) (rr_created_at c))"

definition tx_evict_ttl :: "string \<Rightarrow> int \<Rightarrow> time \<Rightarrow> rr_tx \<Rightarrow> int \<times> eviction_summary list \<times> rr_tx" where
  "tx_evict_ttl sample_id projected now c =
     (if 0 < tx_ttl_s c
      then (let (p, ev, c') = ttl_loop (ttl_expired sample_id now c) projected
                                (ev_new ''ttl'' projected None) c
            in (p, if ev_evicted ev then [ev] else [], c'))
      else (projected, [], c))"

definition tx_evict :: "rr_tx evict_hook" where
  "tx_evict sample_id projected new_bytes now c =
     (let (p1, events1, c1) = tx_evict_ttl sample_id projected now c
      in if p1 \<le> rr_max_bytes c1 then ((p1, events1), c1)
         else (let target = min \<lfloor>of_int (rr_max_bytes c1) * tx_low_watermark_ratio c1\<rfloor> (rr_max_bytes c1);
                   (p2, ev2, c2) = tx_evict_lru sample_id p1 target now True c1;
                   events2 = (if ev_evicted ev2 then events1 @ [ev2] else events1)
               in if p2 \<le> rr_max_bytes c2 then ((p2, events2), c2)
                  else (let (p3, ev3, c3) = tx_evict_lru sample_id p2 (rr_max_bytes c2) now False c2
                        in ((p3, if ev_evicted ev3 then events2 @ [ev3] else events2), c3))))"

definition tx_put :: "string \<Rightarrow> pyvalue \<Rightarrow> time \<Rightarrow> (rr_tx, unit) op" where
  "tx_put = rr_put_with tx_evict tx_suppress True"

text \<open>The override of \<open>put_new\<close> reads the clock twice: once before and once inside the base \<open>_put\<close>.\<close>

definition tx_put_new :: "string \<Rightarrow> pyvalue \<Rightarrow> time \<Rightarrow> time \<Rightarrow> (rr_tx, unit) op" where
  "tx_put_new sid v now1 now2 c =
     (if \<not> is_exact_replay_id sid then rr_put_with tx_evict tx_suppress False sid v now2 c
      else (let (suppressed, c1) = tx_suppress sid now1 c
            in if suppressed then (Inr (), c1)
               else rr_put_with tx_evict tx_suppress False sid v now2 c1))"

definition tx_snapshot :: "time \<Rightarrow> rr_tx \<Rightarrow> (string, tensor) dict \<times> rr_tx" where
  "tx_snapshot now c =
     (rr_data c,
      c\<lparr>rr_last_touched := fold (\<lambda>sid d. AList.update sid now d) (keys (rr_data c)) (rr_last_touched c)\<rparr>)"

fun tx_discard_loop :: "string list \<Rightarrow> time \<Rightarrow> nat \<Rightarrow> rr_tx \<Rightarrow> nat \<times> rr_tx" where
  "tx_discard_loop [] now removed c = (removed, c)"
| "tx_discard_loop (sid # sids) now removed c =
     (if sid \<in> set (keys (rr_data c))
      then tx_discard_loop sids now (removed + 1) (snd (rr_drop sid c))
      else if is_exact_replay_id sid
      then tx_discard_loop sids now removed
             (c\<lparr>tx_tombstones := AList.update sid now (AList.delete sid (tx_tombstones c))\<rparr>)
      else tx_discard_loop sids now removed c)"

definition tx_discard :: "string list \<Rightarrow> time \<Rightarrow> rr_tx \<Rightarrow> nat \<times> rr_tx" where
  "tx_discard sids now c =
     (let (removed, c') = tx_discard_loop sids now 0 (tx_expire_tombstones now c)
      in (removed, c'\<lparr>rr_n_discard := rr_n_discard c' + removed\<rparr>))"

definition tx_clear :: "rr_tx \<Rightarrow> nat \<times> rr_tx" where
  "tx_clear c =
     (length (rr_data c),
      c\<lparr>rr_data := [], rr_sizes := [], rr_created_at := [], rr_last_touched := [],
        rr_bytes_in_use := 0, tx_tombstones := []\<rparr>)"

section \<open>Sequences of calls on the sampling side\<close>

datatype tx_call =
    TxPut string pyvalue time
  | TxPutNew string pyvalue time time
  | TxPop string
  | TxGet string time
  | TxSnapshot time
  | TxDiscard "string list" time
  | TxClear

fun tx_exec :: "tx_call \<Rightarrow> rr_tx \<Rightarrow> rr_tx" where
  "tx_exec (TxPut sid v now) c = snd (tx_put sid v now c)"
| "tx_exec (TxPutNew sid v now1 now2) c = snd (tx_put_new sid v now1 now2 c)"
| "tx_exec (TxPop sid) c = snd (rr_pop sid c)"
| "tx_exec (TxGet sid now) c = snd (rr_get sid now c)"
| "tx_exec (TxSnapshot now) c = snd (tx_snapshot now c)"
| "tx_exec (TxDiscard sids now) c = snd (tx_discard sids now c)"
| "tx_exec TxClear c = snd (tx_clear c)"

inductive tx_reachable :: "rr_tx \<Rightarrow> rr_tx \<Rightarrow> bool" for c0 where
  tx_start: "tx_reachable c0 c0"
| tx_call: "tx_reachable c0 c \<Longrightarrow> tx_reachable c0 (tx_exec call c)"

section \<open>The accounting invariant\<close>

definition rr_inv :: "'a rr_cache_scheme \<Rightarrow> bool" where
  "rr_inv c \<longleftrightarrow>
     dict_wf (rr_data c) \<and>
     rr_sizes c = map (\<lambda>(k, t). (k, nbytes t)) (rr_data c) \<and>
     keys (rr_created_at c) = keys (rr_data c) \<and>
     keys (rr_last_touched c) = keys (rr_data c) \<and>
     rr_bytes_in_use c = sum_list (map snd (rr_sizes c)) \<and>
     rr_bytes_in_use c \<le> rr_peak_bytes_in_use c \<and>
     rr_peak_bytes_in_use c \<le> rr_max_bytes c"

text \<open>\<open>rr_shrinks keep c c'\<close>: \<open>c'\<close> is \<open>c\<close> with some entries removed, the entry \<open>keep\<close> not among them.\<close>

definition rr_shrinks :: "string \<Rightarrow> 'a rr_cache_scheme \<Rightarrow> 'a rr_cache_scheme \<Rightarrow> bool" where
  "rr_shrinks keep c c' \<longleftrightarrow>
     rr_inv c' \<and>
     map_of (rr_data c') \<subseteq>\<^sub>m map_of (rr_data c) \<and>
     map_of (rr_data c') keep = map_of (rr_data c) keep \<and>
     rr_max_bytes c' = rr_max_bytes c \<and> rr_device c' = rr_device c"

lemma nbytes_nonneg [simp]: "0 \<le> nbytes t"
  by (simp add: nbytes_def)

lemma rr_inv_counters [simp]:
  "rr_inv (c\<lparr>rr_n_put := n\<rparr>) = rr_inv c"
  "rr_inv (c\<lparr>rr_n_overwrite := n\<rparr>) = rr_inv c"
  "rr_inv (c\<lparr>rr_n_duplicate_rejected := n\<rparr>) = rr_inv c"
  "rr_inv (c\<lparr>rr_n_pop := n\<rparr>) = rr_inv c"
  "rr_inv (c\<lparr>rr_n_discard := n\<rparr>) = rr_inv c"
  "rr_inv (c\<lparr>rr_n_evicted_lru := n\<rparr>) = rr_inv c"
  "rr_inv (c\<lparr>rr_n_evicted_ttl := n\<rparr>) = rr_inv c"
  by (simp_all add: rr_inv_def)

lemma rr_inv_tombstones [simp]: "rr_inv (c\<lparr>tx_tombstones := d\<rparr>) = rr_inv c"
  by (simp add: rr_inv_def)

lemma rr_sizes_lookup:
  "rr_inv c \<Longrightarrow> map_of (rr_sizes c) sid = map_option nbytes (map_of (rr_data c) sid)"
  by (simp add: rr_inv_def map_of_map)

lemma rr_size_get:
  "rr_inv c \<Longrightarrow> dict_get (rr_sizes c) sid 0 = (case map_of (rr_data c) sid of None \<Rightarrow> 0 | Some t \<Rightarrow> nbytes t)"
  by (simp add: dict_get_def rr_sizes_lookup split: option.splits)

lemma rr_size_get_nonneg: "rr_inv c \<Longrightarrow> 0 \<le> dict_get (rr_sizes c) sid 0"
  by (simp add: rr_size_get split: option.splits)

lemma rr_sizes_wf: "rr_inv c \<Longrightarrow> dict_wf (rr_sizes c)"
  by (simp add: rr_inv_def dict_wf_def comp_def case_prod_beta)

lemma rr_drop_fields [frame_simps, simp]:
  "rr_data (snd (rr_drop sid c)) = AList.delete sid (rr_data c)"
  "rr_sizes (snd (rr_drop sid c)) = AList.delete sid (rr_sizes c)"
  "rr_created_at (snd (rr_drop sid c)) = AList.delete sid (rr_created_at c)"
  "rr_last_touched (snd (rr_drop sid c)) = AList.delete sid (rr_last_touched c)"
  "rr_bytes_in_use (snd (rr_drop sid c)) = rr_bytes_in_use c - dict_get (rr_sizes c) sid 0"
  "rr_max_bytes (snd (rr_drop sid c)) = rr_max_bytes c"
  "rr_peak_bytes_in_use (snd (rr_drop sid c)) = rr_peak_bytes_in_use c"
  "rr_device (snd (rr_drop sid c)) = rr_device c"
  "fst (rr_drop sid c) = dict_get (rr_sizes c) sid 0"
  by (simp_all add: rr_drop_def rr_remove_metadata_def Let_def)

lemma tx_drop_fields [frame_simps, simp]:
  "tx_tombstones (snd (rr_drop sid c)) = tx_tombstones c"
  "tx_ttl_s (snd (rr_drop sid c)) = tx_ttl_s c"
  "tx_evict_min_age_s (snd (rr_drop sid c)) = tx_evict_min_age_s c"
  "tx_low_watermark_ratio (snd (rr_drop sid c)) = tx_low_watermark_ratio c"
  by (simp_all add: rr_drop_def rr_remove_metadata_def Let_def)

lemma rr_inv_drop: "rr_inv c \<Longrightarrow> rr_inv (snd (rr_drop sid c))"
  using rr_size_get_nonneg [of c sid] rr_sizes_wf [of c] sum_values_delete [of "rr_sizes c" sid]
  by (auto simp: rr_inv_def delete_map_snd dict_simps)

lemma rr_shrinks_refl: "rr_inv c \<Longrightarrow> rr_shrinks keep c c"
  by (simp add: rr_shrinks_def)

lemma rr_shrinks_trans: "rr_shrinks k a b \<Longrightarrow> rr_shrinks k b c \<Longrightarrow> rr_shrinks k a c"
  by (auto simp: rr_shrinks_def intro: map_le_trans)

lemma rr_shrinks_drop: "rr_inv c \<Longrightarrow> sid \<noteq> keep \<Longrightarrow> rr_shrinks keep c (snd (rr_drop sid c))"
  by (auto simp: rr_shrinks_def rr_inv_drop dict_simps map_le_def dom_def)

lemma rr_shrinks_counter [simp]:
  "rr_shrinks keep c (c'\<lparr>rr_n_evicted_ttl := n\<rparr>) = rr_shrinks keep c c'"
  "rr_shrinks keep c (c'\<lparr>rr_n_evicted_lru := n\<rparr>) = rr_shrinks keep c c'"
  by (simp_all add: rr_shrinks_def)

lemma rr_inv_store:
  assumes inv: "rr_inv c" and p: "projected = rr_bytes_in_use c - dict_get (rr_sizes c) sid 0 + nbytes t"
    and le: "projected \<le> rr_max_bytes c"
  shows "rr_inv (rr_store sid t (nbytes t) now projected c)"
proof -
  have k: "keys (AList.update sid now (rr_last_touched c)) = keys (AList.update sid t (rr_data c))"
    "keys (AList.update sid now (rr_created_at c)) = keys (AList.update sid t (rr_data c))"
    using inv by (auto simp: rr_inv_def intro: keys_update_cong)
  show ?thesis
    using assms k rr_sizes_wf [OF inv] sum_values_update [of "rr_sizes c" sid "nbytes t"]
    by (auto simp: rr_inv_def rr_store_def Let_def update_map_snd keys_update_present simp flip: set_map)
qed

lemma rr_store_data [simp]:
  "rr_data (rr_store sid t b now p c) = AList.update sid t (rr_data c)"
  "rr_bytes_in_use (rr_store sid t b now p c) = p"
  "rr_max_bytes (rr_store sid t b now p c) = rr_max_bytes c"
  "rr_device (rr_store sid t b now p c) = rr_device c"
  by (auto simp: rr_store_def Let_def)

text \<open>One call of \<open>_put\<close>, with the results of its two virtual calls named.\<close>

lemma rr_put_with_eq:
  assumes "(if replace then (False, c) else suppress sid now c) = (sup0, c1)"
    and "coerce_tensor (rr_device c) v = Inr t"
    and "evict sid (rr_bytes_in_use c1 - dict_get (rr_sizes c1) sid 0 + nbytes t) (nbytes t) now c1
           = ((p', evs), c2)"
  shows "rr_put_with evict suppress replace sid v now c =
    (if sup0 then (Inr (), c1)
     else if \<not> replace \<and> sid \<in> set (keys (rr_data c1))
     then (Inl (RouterReplayDuplicateError [sid]),
           c1\<lparr>rr_n_duplicate_rejected := rr_n_duplicate_rejected c1 + 1\<rparr>)
     else if rr_max_bytes c2 < p' then (Inl RouterReplayCacheFull, c2)
     else (Inr (), rr_store sid t (nbytes t) now p' c2))"
  using assms by (simp add: rr_put_with_def Let_def del: set_map)

lemma rr_put_with_type_error:
  "coerce_tensor (rr_device c) v = Inl e \<Longrightarrow> rr_put_with evict suppress replace sid v now c = (Inl e, c)"
  by (simp add: rr_put_with_def)

section \<open>The contract of the virtual methods\<close>

text \<open>
  What \<open>_put\<close> needs of the methods a subclass overrides. The eviction hook may remove entries other
  than the one being stored and reports the projected byte count after its removals; the
  suppression hook may only touch subclass state.
\<close>

locale replay_hooks =
  fixes evict :: "'a rr_cache_scheme evict_hook"
    and suppress :: "'a rr_cache_scheme suppress_hook"
  assumes evict_shrinks: "rr_inv c \<Longrightarrow> rr_shrinks sid c (snd (evict sid p nb now c))"
    and evict_projected: "rr_inv c \<Longrightarrow>
      fst (fst (evict sid p nb now c)) = p - (rr_bytes_in_use c - rr_bytes_in_use (snd (evict sid p nb now c)))"
    and suppress_inv: "rr_inv c \<Longrightarrow> rr_inv (snd (suppress sid now c))"
    and suppress_data: "rr_data (snd (suppress sid now c)) = rr_data c"
    and suppress_max_bytes: "rr_max_bytes (snd (suppress sid now c)) = rr_max_bytes c"
begin

lemma evict_keeps_size:
  assumes "rr_inv c"
  shows "dict_get (rr_sizes (snd (evict sid p nb now c))) sid 0 = dict_get (rr_sizes c) sid 0"
  using evict_shrinks [OF assms, of sid p nb now] rr_size_get [OF assms]
  by (simp add: rr_shrinks_def rr_size_get)

lemma put_call:
  assumes inv: "rr_inv c" and t: "coerce_tensor (rr_device c) v = Inr t"
  obtains sup0 c1 p' evs c2 where
    "(if replace then (False, c) else suppress sid now c) = (sup0, c1)"
    "rr_inv c1" "rr_data c1 = rr_data c" "rr_max_bytes c1 = rr_max_bytes c"
    "evict sid (rr_bytes_in_use c1 - dict_get (rr_sizes c1) sid 0 + nbytes t) (nbytes t) now c1
       = ((p', evs), c2)"
    "rr_shrinks sid c1 c2"
    "p' = rr_bytes_in_use c2 - dict_get (rr_sizes c2) sid 0 + nbytes t"
proof -
  obtain sup0 c1 where c1: "(if replace then (False, c) else suppress sid now c) = (sup0, c1)"
    by fastforce
  have 1: "rr_inv c1" "rr_data c1 = rr_data c" "rr_max_bytes c1 = rr_max_bytes c"
    using c1 inv suppress_inv [OF inv, of sid now] suppress_data [of sid now c]
      suppress_max_bytes [of sid now c] by (auto split: if_splits)
  let ?p = "rr_bytes_in_use c1 - dict_get (rr_sizes c1) sid 0 + nbytes t"
  obtain p' evs c2 where e: "evict sid ?p (nbytes t) now c1 = ((p', evs), c2)"
    by (metis surj_pair)
  have 2: "rr_shrinks sid c1 c2"
    using evict_shrinks [OF 1(1), of sid ?p "nbytes t" now] e by simp
  have 3: "p' = rr_bytes_in_use c2 - dict_get (rr_sizes c2) sid 0 + nbytes t"
    using evict_projected [OF 1(1), of sid ?p "nbytes t" now]
      evict_keeps_size [OF 1(1), of sid ?p "nbytes t" now] e by simp
  show thesis by (rule that [OF c1 1 e 2 3])
qed

lemma put_inv:
  assumes inv: "rr_inv c"
  shows "rr_inv (snd (rr_put_with evict suppress replace sid v now c))"
proof (cases "coerce_tensor (rr_device c) v")
  case (Inl e)
  with inv show ?thesis by (simp add: rr_put_with_type_error)
next
  case (Inr t)
  obtain sup0 c1 p' evs c2 where
    c1: "(if replace then (False, c) else suppress sid now c) = (sup0, c1)" "rr_inv c1"
      "rr_data c1 = rr_data c" "rr_max_bytes c1 = rr_max_bytes c"
    and e: "evict sid (rr_bytes_in_use c1 - dict_get (rr_sizes c1) sid 0 + nbytes t) (nbytes t) now c1
       = ((p', evs), c2)"
    and sh: "rr_shrinks sid c1 c2"
    and p': "p' = rr_bytes_in_use c2 - dict_get (rr_sizes c2) sid 0 + nbytes t"
    by (rule put_call [OF inv Inr, of replace sid now])
  from sh have inv2: "rr_inv c2" by (simp add: rr_shrinks_def)
  have "p' \<le> rr_max_bytes c2 \<Longrightarrow> rr_inv (rr_store sid t (nbytes t) now p' c2)"
    by (rule rr_inv_store [OF inv2 p'])
  then show ?thesis using c1(2) inv2 unfolding rr_put_with_eq [where suppress = suppress and evict = evict, OF c1(1) Inr e] by simp
qed

lemma put_stores:
  assumes inv: "rr_inv c" and t: "coerce_tensor (rr_device c) v = Inr t"
    and ok: "rr_put_with evict suppress True sid v now c = (Inr (), c')"
  shows "map_of (rr_data c') sid = Some t"
    and "k \<noteq> sid \<Longrightarrow> map_of (rr_data c') k = None \<or> map_of (rr_data c') k = map_of (rr_data c) k"
proof -
  let ?p = "rr_bytes_in_use c - dict_get (rr_sizes c) sid 0 + nbytes t"
  obtain p' evs c2 where e: "evict sid ?p (nbytes t) now c = ((p', evs), c2)"
    by (metis surj_pair)
  with ok t have c': "c' = rr_store sid t (nbytes t) now p' c2"
    by (auto simp: rr_put_with_def Let_def split: if_splits)
  then show "map_of (rr_data c') sid = Some t" by (simp add: dict_simps)
  show "k \<noteq> sid \<Longrightarrow> map_of (rr_data c') k = None \<or> map_of (rr_data c') k = map_of (rr_data c) k"
    using evict_shrinks [OF inv, of sid ?p "nbytes t" now] e c'
    by (auto simp: rr_shrinks_def dict_simps map_le_def dom_def)
qed

lemma put_others:
  assumes inv: "rr_inv c"
  shows "rr_max_bytes (snd (rr_put_with evict suppress replace sid v now c)) = rr_max_bytes c"
    and "k \<noteq> sid \<Longrightarrow>
      map_of (rr_data (snd (rr_put_with evict suppress replace sid v now c))) k \<in> {None, map_of (rr_data c) k}"
proof -
  have "rr_max_bytes (snd (rr_put_with evict suppress replace sid v now c)) = rr_max_bytes c \<and>
    (k \<noteq> sid \<longrightarrow>
      map_of (rr_data (snd (rr_put_with evict suppress replace sid v now c))) k \<in> {None, map_of (rr_data c) k})"
  proof (cases "coerce_tensor (rr_device c) v")
    case (Inl e)
    then show ?thesis by (simp add: rr_put_with_type_error)
  next
    case (Inr t)
    obtain sup0 c1 p' evs c2 where
      c1: "(if replace then (False, c) else suppress sid now c) = (sup0, c1)" "rr_inv c1"
        "rr_data c1 = rr_data c" "rr_max_bytes c1 = rr_max_bytes c"
      and e: "evict sid (rr_bytes_in_use c1 - dict_get (rr_sizes c1) sid 0 + nbytes t) (nbytes t) now c1
         = ((p', evs), c2)"
      and sh: "rr_shrinks sid c1 c2"
      and p': "p' = rr_bytes_in_use c2 - dict_get (rr_sizes c2) sid 0 + nbytes t"
      by (rule put_call [OF inv Inr, of replace sid now])
    from sh c1 have "rr_max_bytes c2 = rr_max_bytes c"
      and "map_of (rr_data c2) k \<in> {None, map_of (rr_data c) k}"
      by (auto simp: rr_shrinks_def map_le_def dom_def)
    then show ?thesis using c1 unfolding rr_put_with_eq [where suppress = suppress and evict = evict, OF c1(1) Inr e]
      by (simp add: dict_simps del: set_map)
  qed
  then show "rr_max_bytes (snd (rr_put_with evict suppress replace sid v now c)) = rr_max_bytes c"
    "k \<noteq> sid \<Longrightarrow>
      map_of (rr_data (snd (rr_put_with evict suppress replace sid v now c))) k \<in> {None, map_of (rr_data c) k}"
    by blast+
qed

lemma put_full_keeps:
  assumes inv: "rr_inv c" and full: "rr_put_with evict suppress True sid v now c = (Inl RouterReplayCacheFull, c')"
  shows "map_of (rr_data c') sid = map_of (rr_data c) sid"
proof (cases "coerce_tensor (rr_device c) v")
  case (Inl e)
  with full have "e = RouterReplayCacheFull" "c' = c" by (auto simp: rr_put_with_def)
  then show ?thesis by simp
next
  case (Inr t)
  let ?p = "rr_bytes_in_use c - dict_get (rr_sizes c) sid 0 + nbytes t"
  obtain p' evs c2 where e: "evict sid ?p (nbytes t) now c = ((p', evs), c2)"
    by (metis surj_pair)
  with full Inr have "c' = c2" by (auto simp: rr_put_with_def Let_def split: if_splits)
  with evict_shrinks [OF inv, of sid ?p "nbytes t" now] e show ?thesis
    by (simp add: rr_shrinks_def)
qed

end

section \<open>The eviction hook of the sampling side\<close>

definition tx_frame :: "rr_tx \<Rightarrow> rr_tx \<Rightarrow> bool" where
  "tx_frame c c' \<longleftrightarrow>
     tx_tombstones c' = tx_tombstones c \<and> tx_ttl_s c' = tx_ttl_s c \<and>
     tx_evict_min_age_s c' = tx_evict_min_age_s c \<and>
     tx_low_watermark_ratio c' = tx_low_watermark_ratio c"

definition tx_shrinks :: "string \<Rightarrow> int \<Rightarrow> rr_tx \<Rightarrow> int \<Rightarrow> rr_tx \<Rightarrow> bool" where
  "tx_shrinks keep p c p' c' \<longleftrightarrow>
     rr_shrinks keep c c' \<and> tx_frame c c' \<and> p' = p - (rr_bytes_in_use c - rr_bytes_in_use c')"

lemma tx_shrinks_refl: "rr_inv c \<Longrightarrow> tx_shrinks keep p c p c"
  by (simp add: tx_shrinks_def tx_frame_def rr_shrinks_refl)

lemma tx_shrinks_trans: "tx_shrinks k p a q b \<Longrightarrow> tx_shrinks k q b r c \<Longrightarrow> tx_shrinks k p a r c"
  by (auto simp: tx_shrinks_def tx_frame_def intro: rr_shrinks_trans)

lemma tx_shrinks_inv: "tx_shrinks k p a q b \<Longrightarrow> rr_inv b"
  by (simp add: tx_shrinks_def rr_shrinks_def)

lemma tx_shrinks_drop:
  "rr_inv c \<Longrightarrow> keep \<noteq> sid \<Longrightarrow>
   tx_shrinks keep p c (p - dict_get (rr_sizes c) sid 0) (snd (rr_drop sid c))"
  by (simp add: tx_shrinks_def tx_frame_def rr_shrinks_drop [of c sid keep])

lemma tx_shrinks_counter [simp]:
  "tx_shrinks keep p c p' (c'\<lparr>rr_n_evicted_ttl := n\<rparr>) = tx_shrinks keep p c p' c'"
  "tx_shrinks keep p c p' (c'\<lparr>rr_n_evicted_lru := n\<rparr>) = tx_shrinks keep p c p' c'"
  by (simp_all add: tx_shrinks_def tx_frame_def)

lemma ttl_loop_shrinks:
  "ttl_loop sids p ev c = (p', ev', c') \<Longrightarrow> rr_inv c \<Longrightarrow> keep \<notin> set sids \<Longrightarrow> tx_shrinks keep p c p' c'"
proof (induction sids arbitrary: p ev c)
  case Nil
  then show ?case by (simp add: tx_shrinks_refl)
next
  case (Cons sid sids)
  show ?case
  proof (cases "sid \<in> set (keys (rr_data c))")
    case False
    with Cons show ?thesis by simp
  next
    case True
    let ?d = "(snd (rr_drop sid c))\<lparr>rr_n_evicted_ttl := rr_n_evicted_ttl (snd (rr_drop sid c)) + 1\<rparr>"
    let ?p = "p - dict_get (rr_sizes c) sid 0"
    have step: "tx_shrinks keep p c ?p ?d"
      using tx_shrinks_drop [of c keep sid p] Cons.prems by simp
    have "tx_shrinks keep ?p ?d p' c'"
    proof (rule Cons.IH)
      show "ttl_loop sids ?p (ev_record sid (dict_get (rr_sizes c) sid 0) ?p ev) ?d = (p', ev', c')"
        using Cons.prems True by (simp add: case_prod_beta Let_def)
      show "rr_inv ?d" using Cons.prems by (simp add: rr_inv_drop)
    qed (use Cons.prems in simp)
    with step show ?thesis by (rule tx_shrinks_trans)
  qed
qed

lemma lru_loop_shrinks:
  "lru_loop cands target now respect p ev c = (p', ev', c') \<Longrightarrow> rr_inv c \<Longrightarrow>
   keep \<notin> snd ` set cands \<Longrightarrow> tx_shrinks keep p c p' c'"
proof (induction cands arbitrary: p ev c)
  case Nil
  then show ?case by (simp add: tx_shrinks_refl)
next
  case (Cons cand cands)
  obtain touched sid where cand: "cand = (touched, sid)" by fastforce
  consider "p \<le> target"
    | "\<not> p \<le> target" "respect \<and> now - dict_get (rr_created_at c) sid touched < tx_evict_min_age_s c"
    | "\<not> p \<le> target" "\<not> (respect \<and> now - dict_get (rr_created_at c) sid touched < tx_evict_min_age_s c)"
    by blast
  then show ?case
  proof cases
    case 1
    with Cons.prems cand show ?thesis by (simp add: tx_shrinks_refl)
  next
    case 2
    with Cons cand show ?thesis by simp
  next
    case 3
    let ?d = "(snd (rr_drop sid c))\<lparr>rr_n_evicted_lru := rr_n_evicted_lru (snd (rr_drop sid c)) + 1\<rparr>"
    let ?p = "p - dict_get (rr_sizes c) sid 0"
    have step: "tx_shrinks keep p c ?p ?d"
      using tx_shrinks_drop [of c keep sid p] Cons.prems cand by simp
    have "tx_shrinks keep ?p ?d p' c'"
    proof (rule Cons.IH)
      show "lru_loop cands target now respect ?p (ev_record sid (dict_get (rr_sizes c) sid 0) ?p ev) ?d
              = (p', ev', c')"
        using Cons.prems 3 cand by (simp add: case_prod_beta Let_def)
      show "rr_inv ?d" using Cons.prems by (simp add: rr_inv_drop)
    qed (use Cons.prems in simp)
    with step show ?thesis by (rule tx_shrinks_trans)
  qed
qed

text \<open>Without the age guard the loop removes a prefix of its candidates, and stops only when it fits.\<close>

lemma lru_loop_prefix:
  "lru_loop cands target now False p ev c = (p', ev', c') \<Longrightarrow>
   \<exists>n\<le>length cands. set (keys (rr_data c')) = set (keys (rr_data c)) - snd ` set (take n cands) \<and>
        (p' \<le> target \<or> n = length cands)"
proof (induction cands arbitrary: p ev c)
  case Nil
  then show ?case by simp
next
  case (Cons cand cands)
  obtain touched sid where cand: "cand = (touched, sid)" by fastforce
  show ?case
  proof (cases "p \<le> target")
    case True
    with Cons.prems cand show ?thesis by (intro exI [of _ 0]) simp
  next
    case False
    let ?d = "(snd (rr_drop sid c))\<lparr>rr_n_evicted_lru := rr_n_evicted_lru (snd (rr_drop sid c)) + 1\<rparr>"
    let ?p = "p - dict_get (rr_sizes c) sid 0"
    have "lru_loop cands target now False ?p (ev_record sid (dict_get (rr_sizes c) sid 0) ?p ev) ?d
            = (p', ev', c')"
      using Cons.prems False cand by (simp add: case_prod_beta Let_def)
    from Cons.IH [OF this] obtain n where n: "n \<le> length cands"
      "set (keys (rr_data c')) = set (keys (rr_data ?d)) - snd ` set (take n cands)"
      "p' \<le> target \<or> n = length cands" by blast
    have "set (keys (rr_data ?d)) = set (keys (rr_data c)) - {sid}"
      by (simp add: delete_keys del: set_map)
    with n cand show ?thesis by (intro exI [of _ "Suc n"]) auto
  qed
qed

lemma set_lru_candidates: "snd ` set (lru_candidates sid now c) = set (keys (rr_data c)) - {sid}"
  by (force simp: lru_candidates_def image_iff)

lemma sorted_lru_candidates: "sorted (map fst (lru_candidates sid now c))"
  by (simp add: lru_candidates_def)

lemma tx_evict_lru_shrinks:
  assumes "tx_evict_lru sid p target now respect c = (p', ev', c')" "rr_inv c"
  shows "tx_shrinks sid p c p' c'"
  using assms lru_loop_shrinks [of "lru_candidates sid now c" target now respect p _ c p' ev' c' sid]
  by (simp add: tx_evict_lru_def set_lru_candidates)

lemma tx_evict_lru_fits:
  assumes "tx_evict_lru sid p target now False c = (p', ev', c')"
  shows "p' \<le> target \<or> set (keys (rr_data c')) \<subseteq> {sid}"
  using lru_loop_prefix [OF assms [unfolded tx_evict_lru_def]] set_lru_candidates [of sid now c]
  by (auto simp del: set_map)

lemma ttl_expired_others: "sid \<notin> set (ttl_expired sid now c)"
  by (auto simp: ttl_expired_def)

lemma tx_evict_ttl_shrinks:
  assumes s1: "tx_evict_ttl sid p now c = (p', evs, c')" and inv: "rr_inv c"
  shows "tx_shrinks sid p c p' c'"
proof (cases "0 < tx_ttl_s c")
  case True
  obtain q ev d where l: "ttl_loop (ttl_expired sid now c) p (ev_new ''ttl'' p None) c = (q, ev, d)"
    by (metis prod_cases3)
  from True s1 l have "q = p'" "d = c'" by (auto simp: tx_evict_ttl_def)
  with ttl_loop_shrinks [OF l inv ttl_expired_others] show ?thesis by simp
next
  case False
  with s1 inv show ?thesis by (simp add: tx_evict_ttl_def tx_shrinks_refl)
qed

text \<open>The three stages of \<open>_evict_for_put_locked\<close>, each shrinking the cache around the stored id.\<close>

lemma tx_evict_stages:
  assumes e: "tx_evict sid p nb now c = ((p', evs), c')" and inv: "rr_inv c"
  shows "tx_shrinks sid p c p' c' \<and> (p' \<le> rr_max_bytes c \<or> set (keys (rr_data c')) \<subseteq> {sid})"
proof -
  obtain p1 ev1 c1 where s1: "tx_evict_ttl sid p now c = (p1, ev1, c1)" by (metis prod_cases3)
  have sh1: "tx_shrinks sid p c p1 c1"
    by (rule tx_evict_ttl_shrinks [OF s1 inv])
  then have inv1: "rr_inv c1" and mb1: "rr_max_bytes c1 = rr_max_bytes c"
    by (auto simp: tx_shrinks_def rr_shrinks_def)
  let ?target = "min \<lfloor>of_int (rr_max_bytes c1) * tx_low_watermark_ratio c1\<rfloor> (rr_max_bytes c1)"
  obtain p2 ev2 c2 where s2: "tx_evict_lru sid p1 ?target now True c1 = (p2, ev2, c2)"
    by (metis prod_cases3)
  have sh2: "tx_shrinks sid p c p2 c2"
    by (rule tx_shrinks_trans [OF sh1 tx_evict_lru_shrinks [OF s2 inv1]])
  then have inv2: "rr_inv c2" and mb2: "rr_max_bytes c2 = rr_max_bytes c"
    by (auto simp: tx_shrinks_def rr_shrinks_def)
  obtain p3 ev3 c3 where s3: "tx_evict_lru sid p2 (rr_max_bytes c2) now False c2 = (p3, ev3, c3)"
    by (metis prod_cases3)
  have sh3: "tx_shrinks sid p c p3 c3"
    by (rule tx_shrinks_trans [OF sh2 tx_evict_lru_shrinks [OF s3 inv2]])
  have fits: "p3 \<le> rr_max_bytes c \<or> set (keys (rr_data c3)) \<subseteq> {sid}"
    using tx_evict_lru_fits [OF s3] mb2 by simp
  consider "p1 \<le> rr_max_bytes c" "p' = p1" "c' = c1"
    | "p2 \<le> rr_max_bytes c" "p' = p2" "c' = c2" | "p' = p3" "c' = c3"
    using e mb1 mb2 unfolding tx_evict_def s1 Let_def prod.case s2 s3
    by (simp split: if_splits)
  then show ?thesis
    by cases (use sh1 sh2 sh3 fits in simp_all)
qed

lemma tx_suppress_frame [frame_simps, simp]:
  "rr_data (snd (tx_suppress sid now c)) = rr_data c"
  "rr_max_bytes (snd (tx_suppress sid now c)) = rr_max_bytes c"
  "rr_device (snd (tx_suppress sid now c)) = rr_device c"
  "rr_inv (snd (tx_suppress sid now c)) = rr_inv c"
  "tx_ttl_s (snd (tx_suppress sid now c)) = tx_ttl_s c"
  by (simp_all add: tx_suppress_def tx_expire_tombstones_def Let_def)

section \<open>Both subclasses meet the contract\<close>

interpretation rx: replay_hooks "base_evict :: rr_cache evict_hook" base_suppress
  by unfold_locales (simp_all add: base_evict_def base_suppress_def rr_shrinks_refl)

interpretation tx: replay_hooks tx_evict tx_suppress
proof (unfold_locales, goal_cases)
  case (1 c sid p nb now)
  obtain p' evs c' where e: "tx_evict sid p nb now c = ((p', evs), c')" by (metis surj_pair)
  from tx_evict_stages [OF e 1] e show ?case by (simp add: tx_shrinks_def)
next
  case (2 c sid p nb now)
  obtain p' evs c' where e: "tx_evict sid p nb now c = ((p', evs), c')" by (metis surj_pair)
  from tx_evict_stages [OF e 2] e show ?case by (simp add: tx_shrinks_def)
qed simp_all

section \<open>Every call preserves the invariant\<close>

lemma rr_inv_init: "0 \<le> mb \<Longrightarrow> rr_inv (tx_init dev mb ttl age ratio)"
  by (simp add: rr_inv_def tx_init_def rr_init_def rr_cache.extend_def rr_tx.fields_def)

lemma rr_inv_last_touched:
  "rr_inv c \<Longrightarrow> keys d = keys (rr_data c) \<Longrightarrow> rr_inv (c\<lparr>rr_last_touched := d\<rparr>)"
  by (auto simp: rr_inv_def)

lemma rr_inv_touch:
  assumes "rr_inv c" "sid \<in> set (keys (rr_data c))"
  shows "rr_inv (c\<lparr>rr_last_touched := AList.update sid now (rr_last_touched c)\<rparr>)"
proof (rule rr_inv_last_touched [OF assms(1)])
  from assms have "keys (rr_last_touched c) = keys (rr_data c)" by (simp add: rr_inv_def)
  with assms(2) show "keys (AList.update sid now (rr_last_touched c)) = keys (rr_data c)"
    by (simp add: keys_update_present del: set_map)
qed

lemma rr_bytes_nonneg: "rr_inv c \<Longrightarrow> 0 \<le> rr_bytes_in_use c"
  by (auto simp: rr_inv_def intro!: sum_list_nonneg)

lemma rr_inv_pop: "rr_inv c \<Longrightarrow> rr_inv (snd (rr_pop sid c))"
  by (simp add: rr_pop_def case_prod_beta rr_inv_drop split: option.splits)

lemma rr_inv_get: "rr_inv c \<Longrightarrow> rr_inv (snd (rr_get sid now c))"
  by (auto simp: rr_get_def map_of_Some_keys simp del: set_map split: option.splits intro!: rr_inv_touch)

lemma keys_fold_touch:
  "set sids \<subseteq> set (keys d) \<Longrightarrow> keys (fold (\<lambda>sid d. AList.update sid now d) sids d) = keys d"
  by (induction sids arbitrary: d) (auto simp: keys_update_present simp del: set_map)

lemma rr_inv_snapshot: "rr_inv c \<Longrightarrow> rr_inv (snd (tx_snapshot now c))"
  using keys_fold_touch [of "keys (rr_data c)" "rr_last_touched c" now]
  by (simp add: tx_snapshot_def, intro rr_inv_last_touched) (auto simp: rr_inv_def simp del: set_map)

lemma rr_inv_expire [simp]: "rr_inv (tx_expire_tombstones now c) = rr_inv c"
  by (simp add: tx_expire_tombstones_def)

lemma rr_inv_tx_discard_loop: "rr_inv c \<Longrightarrow> rr_inv (snd (tx_discard_loop sids now n c))"
  by (induction sids arbitrary: n c) (auto simp: rr_inv_drop)

lemma rr_inv_tx_discard: "rr_inv c \<Longrightarrow> rr_inv (snd (tx_discard sids now c))"
  by (simp add: tx_discard_def case_prod_beta Let_def rr_inv_tx_discard_loop)

lemma rr_inv_discard_loop: "rr_inv c \<Longrightarrow> rr_inv (snd (rr_discard_loop sids n c))"
  by (induction sids arbitrary: n c) (auto simp: rr_inv_drop)

lemma rr_inv_tx_clear: "rr_inv c \<Longrightarrow> rr_inv (snd (tx_clear c))"
  using rr_bytes_nonneg [of c] by (auto simp: tx_clear_def rr_inv_def)

lemma rr_inv_put_new:
  assumes "rr_inv c"
  shows "rr_inv (snd (tx_put_new sid v now1 now2 c))"
  using tx.put_inv [OF assms] tx.put_inv [of "snd (tx_suppress sid now1 c)"] assms
  by (simp add: tx_put_new_def case_prod_beta Let_def)

lemma tx_exec_inv: "rr_inv c \<Longrightarrow> rr_inv (tx_exec call c)"
  by (cases call)
    (auto simp: tx_put_def intro: tx.put_inv rr_inv_put_new rr_inv_pop rr_inv_get
       rr_inv_snapshot rr_inv_tx_discard rr_inv_tx_clear)

lemma tx_reachable_inv: "tx_reachable c0 c \<Longrightarrow> rr_inv c0 \<Longrightarrow> rr_inv c"
  by (induction rule: tx_reachable.induct) (auto intro: tx_exec_inv)

section \<open>Lemmas behind the properties\<close>

lemma rr_size_le_bytes: "rr_inv c \<Longrightarrow> dict_get (rr_sizes c) sid 0 \<le> rr_bytes_in_use c"
  using rr_bytes_nonneg [OF rr_inv_drop, of c sid] by simp

lemma rr_bytes_only:
  assumes inv: "rr_inv c" and only: "set (keys (rr_data c)) \<subseteq> {sid}"
  shows "rr_bytes_in_use c = dict_get (rr_sizes c) sid 0"
proof -
  have "rr_data (snd (rr_drop sid c)) = []"
    using only by (auto simp: AList.delete_eq filter_empty_conv)
  with rr_inv_drop [OF inv, of sid] have "rr_bytes_in_use (snd (rr_drop sid c)) = 0"
    by (simp add: rr_inv_def)
  then show ?thesis by simp
qed

lemma tx_put_result:
  assumes inv: "rr_inv c" and t: "coerce_tensor (rr_device c) v = Inr t"
  shows "fst (tx_put sid v now c) =
           (if nbytes t \<le> rr_max_bytes c then Inr () else Inl RouterReplayCacheFull)"
proof -
  let ?p = "rr_bytes_in_use c - dict_get (rr_sizes c) sid 0 + nbytes t"
  obtain p' evs c' where e: "tx_evict sid ?p (nbytes t) now c = ((p', evs), c')" by (metis surj_pair)
  from tx_evict_stages [OF e inv] have sh: "tx_shrinks sid ?p c p' c'"
    and fits: "p' \<le> rr_max_bytes c \<or> set (keys (rr_data c')) \<subseteq> {sid}" by blast+
  from sh have inv': "rr_inv c'" and mb: "rr_max_bytes c' = rr_max_bytes c"
    by (auto simp: tx_shrinks_def rr_shrinks_def)
  have p': "p' = rr_bytes_in_use c' - dict_get (rr_sizes c') sid 0 + nbytes t"
    using sh tx.evict_keeps_size [OF inv, of sid ?p "nbytes t" now] e by (simp add: tx_shrinks_def)
  with rr_size_le_bytes [OF inv', of sid] have "nbytes t \<le> p'" by simp
  moreover have "p' \<le> rr_max_bytes c \<or> p' = nbytes t"
    using fits p' rr_bytes_only [OF inv', of sid] by auto
  ultimately have "p' \<le> rr_max_bytes c' \<longleftrightarrow> nbytes t \<le> rr_max_bytes c" using mb by auto
  with t e show ?thesis by (auto simp: tx_put_def rr_put_with_def Let_def)
qed

lemma expire_loop_keeps:
  "(sid, t) \<in> set d \<Longrightarrow> now - t < ttl \<Longrightarrow> (sid, t) \<in> set (expire_loop ttl now d)"
  by (induction ttl now d rule: expire_loop.induct) auto

lemma expire_loop_subset: "set (expire_loop ttl now d) \<subseteq> set d"
  by (induction ttl now d rule: expire_loop.induct) auto

lemma tx_put_tombstones:
  assumes inv: "rr_inv c" and tomb: "(s, t) \<in> set (tx_tombstones c)"
    and window: "replace \<or> tx_ttl_s c \<le> 0 \<or> now - t < tx_ttl_s c"
  shows "(s, t) \<in> set (tx_tombstones (snd (rr_put_with tx_evict tx_suppress replace sid v now c)))
    \<and> tx_ttl_s (snd (rr_put_with tx_evict tx_suppress replace sid v now c)) = tx_ttl_s c"
proof (cases "coerce_tensor (rr_device c) v")
  case (Inl e)
  with tomb show ?thesis by (simp add: rr_put_with_type_error)
next
  case (Inr x)
  obtain sup0 c1 p' evs c2 where
    c1: "(if replace then (False, c) else tx_suppress sid now c) = (sup0, c1)" "rr_inv c1"
      "rr_data c1 = rr_data c" "rr_max_bytes c1 = rr_max_bytes c"
    and e: "tx_evict sid (rr_bytes_in_use c1 - dict_get (rr_sizes c1) sid 0 + nbytes x) (nbytes x) now c1
       = ((p', evs), c2)"
    and sh: "rr_shrinks sid c1 c2"
    and p': "p' = rr_bytes_in_use c2 - dict_get (rr_sizes c2) sid 0 + nbytes x"
    by (rule tx.put_call [OF inv Inr, of replace sid now])
  have t1: "(s, t) \<in> set (tx_tombstones c1)" "tx_ttl_s c1 = tx_ttl_s c"
    using c1(1) tomb window expire_loop_keeps [of s t "tx_tombstones c" now "tx_ttl_s c"]
    by (auto simp: tx_suppress_def tx_expire_tombstones_def Let_def split: if_splits)
  have "tx_frame c1 c2" using tx_evict_stages [OF e c1(2)] by (simp add: tx_shrinks_def)
  with t1 show ?thesis unfolding rr_put_with_eq [where suppress = tx_suppress and evict = tx_evict, OF c1(1) Inr e]
    by (simp add: tx_frame_def rr_store_def Let_def del: set_map)
qed

section \<open>Discarded ids stay out\<close>

text \<open>Calls that happen between a discard at \<open>t0\<close> and the end of its tombstone's life.\<close>

fun tx_within :: "string \<Rightarrow> time \<Rightarrow> time \<Rightarrow> tx_call \<Rightarrow> bool" where
  "tx_within sid t0 ttl (TxPut s v now) = (s \<noteq> sid)"
| "tx_within sid t0 ttl (TxPutNew s v now1 now2) =
     (ttl \<le> 0 \<or> now1 - t0 < ttl \<and> now2 - t0 < ttl)"
| "tx_within sid t0 ttl (TxDiscard sids now) = (t0 \<le> now \<and> (ttl \<le> 0 \<or> now - t0 < ttl))"
| "tx_within sid t0 ttl TxClear = False"
| "tx_within sid t0 ttl call = True"

definition tx_tombed :: "string \<Rightarrow> time \<Rightarrow> time \<Rightarrow> rr_tx \<Rightarrow> bool" where
  "tx_tombed sid t0 ttl c \<longleftrightarrow>
     rr_inv c \<and> map_of (rr_data c) sid = None \<and> tx_ttl_s c = ttl \<and>
     (\<exists>t\<ge>t0. (sid, t) \<in> set (tx_tombstones c))"

lemma tx_tombed_suppress:
  assumes "tx_tombed sid t0 ttl c" "ttl \<le> 0 \<or> now - t0 < ttl"
  shows "tx_tombed sid t0 ttl (snd (tx_suppress s now c))"
    and "is_exact_replay_id sid \<Longrightarrow> fst (tx_suppress sid now c)"
proof -
  from assms obtain t where t: "t0 \<le> t" "(sid, t) \<in> set (tx_tombstones c)" "ttl \<le> 0 \<or> now - t < ttl"
    by (force simp: tx_tombed_def)
  with assms(1) expire_loop_keeps [of sid t "tx_tombstones c" now ttl]
  have k: "(sid, t) \<in> set (tx_tombstones (tx_expire_tombstones now c))"
    by (auto simp: tx_expire_tombstones_def tx_tombed_def)
  with assms(1) t show "tx_tombed sid t0 ttl (snd (tx_suppress s now c))"
    by (auto simp: tx_tombed_def tx_suppress_def Let_def tx_expire_tombstones_def)
  show "is_exact_replay_id sid \<Longrightarrow> fst (tx_suppress sid now c)"
    using k by (force simp: tx_suppress_def Let_def)
qed

lemma tx_tombed_put_with:
  assumes tomb: "tx_tombed sid t0 ttl c" and s: "s \<noteq> sid"
    and w: "replace \<or> ttl \<le> 0 \<or> now - t0 < ttl"
  shows "tx_tombed sid t0 ttl (snd (rr_put_with tx_evict tx_suppress replace s v now c))"
proof -
  from tomb have inv: "rr_inv c" and none: "map_of (rr_data c) sid = None" and ttl: "tx_ttl_s c = ttl"
    by (auto simp: tx_tombed_def)
  from tomb obtain t where t: "t0 \<le> t" "(sid, t) \<in> set (tx_tombstones c)" by (auto simp: tx_tombed_def)
  from w t(1) ttl have "replace \<or> tx_ttl_s c \<le> 0 \<or> now - t < tx_ttl_s c" by auto
  from tx_put_tombstones [OF inv t(2) this, of s v] ttl
    t tx.put_inv [OF inv, of replace s v now] tx.put_others(2) [OF inv, of sid s replace v now] s none
  show ?thesis by (auto simp: tx_tombed_def)
qed

lemma tx_tombed_discard_loop:
  assumes "tx_tombed sid t0 ttl c" "t0 \<le> now"
  shows "tx_tombed sid t0 ttl (snd (tx_discard_loop sids now n c))"
  using assms
proof (induction sids arbitrary: n c)
  case Nil
  then show ?case by simp
next
  case (Cons s sids)
  have a: "tx_tombed sid t0 ttl (snd (rr_drop s c))"
    using Cons.prems by (auto simp: tx_tombed_def rr_inv_drop dict_simps)
  have b: "tx_tombed sid t0 ttl
      (c\<lparr>tx_tombstones := AList.update s now (AList.delete s (tx_tombstones c))\<rparr>)"
  proof (cases "s = sid")
    case True
    have "(sid, now) \<in> set (AList.update sid now (AList.delete sid (tx_tombstones c)))"
      by (intro map_of_SomeD) (simp add: dict_simps)
    with True Cons.prems show ?thesis by (auto simp: tx_tombed_def)
  next
    case False
    have "s \<notin> set (keys (AList.delete s (tx_tombstones c)))" by (simp add: delete_keys del: set_map)
    with False Cons.prems show ?thesis by (auto simp: tx_tombed_def update_new set_delete)
  qed
  show ?case using Cons.IH [OF a] Cons.IH [OF b] Cons.IH [OF Cons.prems(1)] Cons.prems(2) by simp
qed

lemma tx_tombed_exec:
  assumes tomb: "tx_tombed sid t0 ttl c" and ex: "is_exact_replay_id sid"
    and w: "tx_within sid t0 ttl call"
  shows "tx_tombed sid t0 ttl (tx_exec call c)"
proof (cases call)
  case (TxPut s v now)
  with w tomb show ?thesis by (auto simp: tx_put_def intro: tx_tombed_put_with)
next
  case (TxPutNew s v now1 now2)
  with w have w1: "ttl \<le> 0 \<or> now1 - t0 < ttl" and w2: "ttl \<le> 0 \<or> now2 - t0 < ttl" by auto
  note tomb1 = tx_tombed_suppress(1) [OF tomb w1, of s]
  show ?thesis
  proof (cases "s = sid")
    case True
    with ex tx_tombed_suppress(2) [OF tomb w1 ex] tomb1 TxPutNew show ?thesis
      by (simp add: tx_put_new_def case_prod_beta Let_def)
  next
    case False
    with w2 tomb tomb1 TxPutNew show ?thesis
      by (auto simp: tx_put_new_def case_prod_beta Let_def intro: tx_tombed_put_with)
  qed
next
  case (TxDiscard sids now)
  with w have "t0 \<le> now" "ttl \<le> 0 \<or> now - t0 < ttl" by auto
  with tx_tombed_suppress(1) [OF tomb, of now sid] have "tx_tombed sid t0 ttl (tx_expire_tombstones now c)"
    by (simp add: tx_suppress_def Let_def)
  from tx_tombed_discard_loop [OF this \<open>t0 \<le> now\<close>, of sids 0] TxDiscard show ?thesis
    by (auto simp: tx_discard_def case_prod_beta Let_def tx_tombed_def)
next
  case (TxPop s)
  with tomb rr_inv_pop [of c s] show ?thesis
    by (auto simp: tx_tombed_def rr_pop_def case_prod_beta dict_simps split: option.splits)
next
  case (TxGet s now)
  with tomb rr_inv_get [of c s now] show ?thesis
    by (auto simp: tx_tombed_def rr_get_def split: option.splits)
next
  case (TxSnapshot now)
  with tomb rr_inv_snapshot [of c now] show ?thesis
    by (auto simp: tx_tombed_def tx_snapshot_def)
next
  case TxClear
  with w show ?thesis by simp
qed

lemma tx_exec_max_bytes: "rr_inv c \<Longrightarrow> rr_max_bytes (tx_exec call c) = rr_max_bytes c"
proof (cases call)
  case (TxPutNew sid v now1 now2)
  moreover assume "rr_inv c"
  ultimately show ?thesis
    using tx.put_others(1) [of c] tx.put_others(1) [of "snd (tx_suppress sid now1 c)"]
    by (simp add: tx_put_new_def case_prod_beta Let_def)
next
  case (TxDiscard sids now)
  have "rr_max_bytes (snd (tx_discard_loop sids now n d)) = rr_max_bytes d" for n d
    by (induction sids arbitrary: n d) auto
  with TxDiscard show ?thesis
    by (simp add: tx_discard_def case_prod_beta Let_def tx_expire_tombstones_def)
qed (auto simp: tx_put_def tx.put_others(1) rr_pop_def rr_get_def tx_snapshot_def tx_clear_def
       case_prod_beta split: option.splits)

lemma tx_reachable_max_bytes:
  "tx_reachable c0 c \<Longrightarrow> rr_inv c0 \<Longrightarrow> rr_max_bytes c = rr_max_bytes c0"
  by (induction rule: tx_reachable.induct) (auto simp: tx_exec_max_bytes tx_reachable_inv)

section \<open>Properties\<close>

text \<open>
  C26. Whatever sequence of calls a fresh sampling-side cache has served, its byte counter is the
  sum of the sizes of the tensors it holds and never exceeds the configured maximum, no id is held
  twice, and every held id has exactly one size, creation time and last-touch time. Calls that
  raise (a full cache, a duplicate, a wrong type, a missing key) are among the calls.
\<close>

theorem tx_cache_accounting:
  assumes "0 \<le> mb" and "tx_reachable (tx_init dev mb ttl age ratio) c"
  shows "rr_bytes_in_use c = (\<Sum>t\<leftarrow>map snd (rr_data c). nbytes t) \<and> rr_bytes_in_use c \<le> mb \<and>
         distinct (rr_held c) \<and> keys (rr_sizes c) = rr_held c \<and>
         keys (rr_created_at c) = rr_held c \<and> keys (rr_last_touched c) = rr_held c"
proof -
  have inv0: "rr_inv (tx_init dev mb ttl age ratio)" using assms(1) by (rule rr_inv_init)
  have "rr_inv c" by (rule tx_reachable_inv [OF assms(2) inv0])
  moreover have "rr_max_bytes c = mb"
    using tx_reachable_max_bytes [OF assms(2) inv0]
    by (simp add: tx_init_def rr_init_def rr_cache.extend_def)
  ultimately show ?thesis
    by (auto simp: rr_inv_def rr_held_def dict_wf_def comp_def case_prod_beta)
qed

definition demo_tensor :: tensor where
  "demo_tensor = \<lparr>t_dtype = UInt8, t_shape = [2, 2], t_data = [1, 2, 3, 4], t_device = ''cpu''\<rparr>"

definition demo_tx :: rr_tx where
  "demo_tx = tx_exec (TxPut ''a'' (TorchTensor demo_tensor) 1) (tx_init ''cpu'' 10 100 0 1)"

lemmas tx_eval_simps =
  tx_put_def tx_put_new_def rr_put_with_def coerce_tensor_def demo_tensor_def tx_init_def rr_init_def
  rr_cache.extend_def rr_tx.fields_def tx_evict_def tx_evict_ttl_def ttl_expired_def tx_evict_lru_def
  lru_candidates_def nbytes_def numel_def rr_store_def rr_drop_def rr_remove_metadata_def ev_new_def
  ev_record_def ev_evicted_def dict_get_def rr_held_def tx_suppress_def tx_expire_tombstones_def
  is_exact_replay_id_def

lemma demo_tx_eq:
  "demo_tx = rr_cache.extend
     \<lparr>rr_device = ''cpu'', rr_max_bytes = 10, rr_data = [(''a'', demo_tensor)], rr_sizes = [(''a'', 4)],
      rr_created_at = [(''a'', 1)], rr_last_touched = [(''a'', 1)], rr_bytes_in_use = 4,
      rr_peak_bytes_in_use = 4, rr_n_put = 1, rr_n_overwrite = 0, rr_n_duplicate_rejected = 0,
      rr_n_pop = 0, rr_n_discard = 0, rr_n_evicted_lru = 0, rr_n_evicted_ttl = 0\<rparr>
     (rr_tx.fields [] 100 0 1)"
  by (simp add: demo_tx_def tx_eval_simps)

lemma demo_tx_inv: "rr_inv demo_tx"
  unfolding demo_tx_def by (rule tx_exec_inv) (simp add: rr_inv_init)

theorem tx_cache_accounting_witness:
  "rr_bytes_in_use demo_tx = (\<Sum>t\<leftarrow>map snd (rr_data demo_tx). nbytes t) \<and> rr_bytes_in_use demo_tx \<le> 10"
proof -
  have "tx_reachable (tx_init ''cpu'' 10 100 0 1) demo_tx"
    unfolding demo_tx_def by (intro tx_reachable.intros)
  from tx_cache_accounting [OF _ this] show ?thesis by simp
qed

text \<open>
  A put on the sampling side raises the cache-full error exactly when the tensor alone is larger
  than the whole cache: eviction always makes room for anything that can fit.
\<close>

theorem tx_put_full_iff:
  assumes "rr_inv c" and "coerce_tensor (rr_device c) v = Inr t"
  shows "(fst (tx_put sid v now c) = Inl RouterReplayCacheFull \<longleftrightarrow> rr_max_bytes c < nbytes t) \<and>
         (fst (tx_put sid v now c) = Inr () \<longleftrightarrow> nbytes t \<le> rr_max_bytes c)"
  using tx_put_result [OF assms, of sid now] by auto

theorem tx_put_full_iff_witness:
  "fst (tx_put ''b'' (TorchTensor (demo_tensor\<lparr>t_shape := [11]\<rparr>)) 2 demo_tx) = Inl RouterReplayCacheFull"
proof -
  let ?t = "demo_tensor\<lparr>t_shape := [11]\<rparr>"
  have t: "coerce_tensor (rr_device demo_tx) (TorchTensor ?t) = Inr ?t"
    by (simp add: demo_tx_eq coerce_tensor_def demo_tensor_def rr_cache.extend_def)
  have "rr_max_bytes demo_tx < nbytes ?t"
    by (simp add: demo_tx_eq nbytes_def numel_def demo_tensor_def rr_cache.extend_def)
  with tx_put_full_iff [OF demo_tx_inv t] show ?thesis by blast
qed

text \<open>
  An oversized put empties the cache before it raises: every entry other than a previous one
  under the same id is gone afterwards.
\<close>

theorem tx_oversized_put_flushes:
  assumes inv: "rr_inv c" and t: "coerce_tensor (rr_device c) v = Inr t" and big: "rr_max_bytes c < nbytes t"
  shows "set (rr_held (snd (tx_put sid v now c))) \<subseteq> {sid}"
proof -
  let ?p = "rr_bytes_in_use c - dict_get (rr_sizes c) sid 0 + nbytes t"
  obtain p' evs c' where e: "tx_evict sid ?p (nbytes t) now c = ((p', evs), c')" by (metis surj_pair)
  from tx_evict_stages [OF e inv] have sh: "tx_shrinks sid ?p c p' c'"
    and fits: "p' \<le> rr_max_bytes c \<or> set (keys (rr_data c')) \<subseteq> {sid}" by blast+
  then have inv': "rr_inv c'" and mb: "rr_max_bytes c' = rr_max_bytes c"
    by (auto simp: tx_shrinks_def rr_shrinks_def)
  have "p' = rr_bytes_in_use c' - dict_get (rr_sizes c') sid 0 + nbytes t"
    using sh tx.evict_keeps_size [OF inv, of sid ?p "nbytes t" now] e by (simp add: tx_shrinks_def)
  with rr_size_le_bytes [OF inv', of sid] big have "rr_max_bytes c < p'" by simp
  with t e fits mb show ?thesis
    by (simp add: tx_put_def rr_put_with_def rr_held_def Let_def del: set_map)
qed

theorem tx_oversized_put_flushes_witness:
  "rr_held demo_tx = [''a''] \<and>
   set (rr_held (snd (tx_put ''b'' (TorchTensor (demo_tensor\<lparr>t_shape := [11]\<rparr>)) 2 demo_tx))) \<subseteq> {''b''}"
proof -
  let ?t = "demo_tensor\<lparr>t_shape := [11]\<rparr>"
  have t: "coerce_tensor (rr_device demo_tx) (TorchTensor ?t) = Inr ?t"
    by (simp add: demo_tx_eq coerce_tensor_def demo_tensor_def rr_cache.extend_def)
  have big: "rr_max_bytes demo_tx < nbytes ?t"
    by (simp add: demo_tx_eq nbytes_def numel_def demo_tensor_def rr_cache.extend_def)
  have "rr_held demo_tx = [''a'']" by (simp add: demo_tx_eq rr_held_def rr_cache.extend_def)
  with tx_oversized_put_flushes [OF demo_tx_inv t big] show ?thesis by blast
qed

text \<open>
  What a successful put stored is what a read returns, and every other entry is either
  unchanged or evicted.
\<close>

theorem tx_put_get:
  assumes "rr_inv c" and "coerce_tensor (rr_device c) v = Inr t"
    and "tx_put sid v now c = (Inr (), c')"
  shows "fst (rr_get sid now' c') = Inr t \<and>
         (\<forall>k. k \<noteq> sid \<longrightarrow> fst (rr_get k now' c') \<in> {Inl KeyError, fst (rr_get k now' c)})"
proof (intro conjI allI impI)
  note st = tx.put_stores [OF assms(1,2) assms(3) [unfolded tx_put_def]]
  show "fst (rr_get sid now' c') = Inr t" using st(1) by (simp add: rr_get_def)
  show "fst (rr_get k now' c') \<in> {Inl KeyError, fst (rr_get k now' c)}" if "k \<noteq> sid" for k
    using st(2) [OF that] by (auto simp: rr_get_def split: option.splits)
qed

theorem tx_put_get_witness:
  "fst (rr_get ''b'' 5 (snd (tx_put ''b'' (NdArray demo_tensor) 3 demo_tx))) = Inr demo_tensor"
proof -
  have t: "coerce_tensor (rr_device demo_tx) (NdArray demo_tensor) = Inr demo_tensor"
    by (simp add: demo_tx_eq coerce_tensor_def demo_tensor_def rr_cache.extend_def)
  have "nbytes demo_tensor \<le> rr_max_bytes demo_tx"
    by (simp add: demo_tx_eq nbytes_def numel_def demo_tensor_def rr_cache.extend_def)
  with tx_put_result [OF demo_tx_inv t, of "''b''" 3]
  have "tx_put ''b'' (NdArray demo_tensor) 3 demo_tx = (Inr (), snd (tx_put ''b'' (NdArray demo_tensor) 3 demo_tx))"
    by (simp add: prod_eq_iff)
  from tx_put_get [OF demo_tx_inv t this] show ?thesis by blast
qed

text \<open>
  The unconditional pass of the LRU eviction removes entries in the order they were last
  touched: no entry that survives it was touched before one that it evicted, and it goes on until
  the projected size is within the target or nothing else is left.
\<close>

theorem tx_evict_lru_order:
  assumes ev: "tx_evict_lru sid p target now False c = (p', ev', c')"
    and a: "a \<in> set (rr_held c)" "a \<notin> set (rr_held c')" "a \<noteq> sid"
    and b: "b \<in> set (rr_held c')" "b \<noteq> sid"
  shows "dict_get (rr_last_touched c) a (dict_get (rr_created_at c) a now)
           \<le> dict_get (rr_last_touched c) b (dict_get (rr_created_at c) b now)"
proof -
  let ?cands = "lru_candidates sid now c"
  let ?touched = "\<lambda>k. dict_get (rr_last_touched c) k (dict_get (rr_created_at c) k now)"
  obtain n where n: "set (keys (rr_data c')) = set (keys (rr_data c)) - snd ` set (take n ?cands)"
    using lru_loop_prefix [OF ev [unfolded tx_evict_lru_def]] by blast
  have fst_c: "x \<in> set ?cands \<Longrightarrow> fst x = ?touched (snd x)" for x
    by (auto simp: lru_candidates_def)
  from a n have "a \<in> snd ` set (take n ?cands)" by (auto simp: rr_held_def simp del: set_map)
  then obtain i where i: "i < n" "i < length ?cands" "snd (?cands ! i) = a"
    by (auto simp: in_set_conv_nth)
  from b n have "b \<in> set (keys (rr_data c))" and bn: "b \<notin> snd ` set (take n ?cands)"
    by (auto simp: rr_held_def simp del: set_map)
  with b(2) set_lru_candidates [of sid now c] have "b \<in> snd ` set ?cands" by (simp del: set_map)
  then obtain j where j: "j < length ?cands" "snd (?cands ! j) = b"
    by (auto simp: in_set_conv_nth)
  have "\<not> j < n"
  proof
    assume "j < n"
    with j(1) have "?cands ! j \<in> set (take n ?cands)"
      by (metis in_set_conv_nth length_take min_less_iff_conj nth_take)
    with bn j(2) show False by blast
  qed
  with i j sorted_lru_candidates [of sid now c] have "fst (?cands ! i) \<le> fst (?cands ! j)"
    by (simp add: sorted_iff_nth_mono)
  with i j fst_c show ?thesis by (metis nth_mem)
qed

definition demo_tx3 :: rr_tx where
  "demo_tx3 = tx_exec (TxPut ''c'' (TorchTensor demo_tensor) 3)
     (tx_exec (TxPut ''b'' (TorchTensor demo_tensor) 2) (tx_init ''cpu'' 10 100 0 1))"

theorem tx_evict_lru_order_witness:
  "rr_held demo_tx3 = [''b'', ''c''] \<and>
   rr_held (snd (snd (tx_evict_lru ''x'' 12 10 4 False demo_tx3))) = [''c''] \<and>
   dict_get (rr_last_touched demo_tx3) ''b'' (dict_get (rr_created_at demo_tx3) ''b'' 4)
     \<le> dict_get (rr_last_touched demo_tx3) ''c'' (dict_get (rr_created_at demo_tx3) ''c'' 4)"
proof -
  have h: "rr_held demo_tx3 = [''b'', ''c'']"
    by (simp add: demo_tx3_def tx_eval_simps)
  have h': "rr_held (snd (snd (tx_evict_lru ''x'' 12 10 4 False demo_tx3))) = [''c'']"
    by (simp add: demo_tx3_def tx_eval_simps)
  obtain p' ev' c' where ev: "tx_evict_lru ''x'' 12 10 4 False demo_tx3 = (p', ev', c')"
    by (metis prod_cases3)
  from tx_evict_lru_order [OF ev, of "''b''" "''c''"] h h' ev show ?thesis by simp
qed

text \<open>
  An exact replay id that was discarded before its tensor arrived stays out of the cache: any
  calls within the tombstone's life, inserts of that same id included, leave it absent (a plain
  \<open>put\<close> of the id and a \<open>clear\<close> are the only ways around the tombstone).
\<close>

theorem tx_discarded_id_stays_out:
  assumes inv: "rr_inv c" and ex: "is_exact_replay_id sid" and absent: "sid \<notin> set (rr_held c)"
    and mem: "sid \<in> set sids"
    and within: "list_all (tx_within sid t0 (tx_ttl_s c)) calls"
  shows "sid \<notin> set (rr_held (fold tx_exec calls (snd (tx_discard sids t0 c))))"
proof -
  have tomb: "tx_tombed sid t0 (tx_ttl_s d) (snd (tx_discard_loop ss t0 n d))"
    if "rr_inv d" "sid \<in> set ss" "map_of (rr_data d) sid = None" for ss n d
    using that
  proof (induction ss arbitrary: n d)
    case Nil
    then show ?case by simp
  next
    case (Cons s ss)
    show ?case
    proof (cases "s = sid")
      case True
      let ?d = "d\<lparr>tx_tombstones := AList.update sid t0 (AList.delete sid (tx_tombstones d))\<rparr>"
      have "(sid, t0) \<in> set (tx_tombstones ?d)" by (intro map_of_SomeD) (simp add: dict_simps)
      with Cons.prems have "tx_tombed sid t0 (tx_ttl_s d) ?d" by (auto simp: tx_tombed_def)
      from tx_tombed_discard_loop [OF this order_refl, of ss n] True ex Cons.prems(3) show ?thesis
        by (simp add: map_of_None_keys del: set_map)
    next
      case False
      have "map_of (rr_data (snd (rr_drop s d))) sid = None" using Cons.prems by (simp add: dict_simps)
      with False Cons.prems Cons.IH [of "snd (rr_drop s d)"] Cons.IH [of d]
        Cons.IH [of "d\<lparr>tx_tombstones := AList.update s t0 (AList.delete s (tx_tombstones d))\<rparr>"]
      show ?thesis by (simp add: rr_inv_drop)
    qed
  qed
  have "tx_tombed sid t0 (tx_ttl_s c) (snd (tx_discard sids t0 c))"
    using tomb [of "tx_expire_tombstones t0 c" sids 0] inv absent mem
    by (auto simp: tx_discard_def case_prod_beta Let_def tx_expire_tombstones_def tx_tombed_def
        rr_held_def map_of_None_keys simp del: set_map)
  moreover have "tx_tombed sid t0 (tx_ttl_s c) d \<Longrightarrow> tx_tombed sid t0 (tx_ttl_s c) (fold tx_exec calls d)" for d
    using within by (induction calls arbitrary: d) (auto intro: tx_tombed_exec [OF _ ex])
  ultimately have "tx_tombed sid t0 (tx_ttl_s c) (fold tx_exec calls (snd (tx_discard sids t0 c)))"
    by blast
  then show ?thesis by (simp add: tx_tombed_def rr_held_def map_of_None_keys del: set_map)
qed

theorem tx_discarded_id_stays_out_witness:
  "''rr1:7'' \<notin> set (rr_held (fold tx_exec [TxPutNew ''rr1:7'' (TorchTensor demo_tensor) 8 9]
     (snd (tx_discard [''rr1:7''] 5 demo_tx))))"
proof (rule tx_discarded_id_stays_out [OF demo_tx_inv])
  show "is_exact_replay_id ''rr1:7''" by (simp add: is_exact_replay_id_def)
  show "''rr1:7'' \<notin> set (rr_held demo_tx)" by (simp add: demo_tx_eq rr_held_def rr_cache.extend_def)
  show "list_all (tx_within ''rr1:7'' 5 (tx_ttl_s demo_tx)) [TxPutNew ''rr1:7'' (TorchTensor demo_tensor) 8 9]"
    by (simp add: demo_tx_eq rr_cache.extend_def rr_tx.fields_def)
qed simp

end
