(* ===== verification/Metrics.thy ===== *)
theory Metrics
  imports Prelude
begin

text \<open>
  The metric buffers of \<open>inference/server/metrics.py\<close>: the bounded ring that holds request records
  and replica snapshots, the worker-side collector that thins snapshots and accumulates lifetime
  totals, and the per-replica history of concurrency limits with its binary-search lookup. Each
  method runs under its object's lock; clock readings are arguments.
\<close>

section \<open>The bounded ring\<close>

record 'a bounded_deque =
  bd_maxlen :: nat
  bd_buf :: "'a list"

definition bd_new :: "nat \<Rightarrow> 'a bounded_deque" where
  "bd_new max_items = \<lparr>bd_maxlen = max_items, bd_buf = []\<rparr>"

text \<open>\<open>deque(maxlen=n).append\<close> drops from the left what no longer fits.\<close>

definition bd_push :: "'a \<Rightarrow> 'a bounded_deque \<Rightarrow> 'a bounded_deque" where
  "bd_push x d =
     (let buf = bd_buf d @ [x] in d\<lparr>bd_buf := drop (length buf - bd_maxlen d) buf\<rparr>)"

definition bd_drain :: "'a bounded_deque \<Rightarrow> 'a list \<times> 'a bounded_deque" where
  "bd_drain d = (bd_buf d, d\<lparr>bd_buf := []\<rparr>)"

definition bd_len :: "'a bounded_deque \<Rightarrow> nat" where
  "bd_len d = length (bd_buf d)"

section \<open>Records\<close>

record request_record =
  rc_request_id :: nat
  rc_replica_id :: nat
  rc_arrival_time :: time
  rc_submitted_time :: time
  rc_completion_time :: time
  rc_prompt_len :: int
  rc_generation_len :: int
  rc_prefix_cache_len :: int
  rc_streaming :: bool
  rc_first_delta_time :: "time option"

record replica_snapshot =
  sn_replica_id :: nat
  sn_timestamp :: time
  sn_kv_cache_usage :: rat
  sn_num_running_reqs :: int
  sn_num_waiting_reqs :: int
  sn_max_concurrency :: int
  sn_num_tokens_in_step :: int

record engine_totals =
  et_started_at :: time
  et_num_preempted_reqs :: int
  et_num_drafts :: int
  et_num_draft_tokens :: int
  et_num_accepted_tokens :: int

text \<open>
  What the collector reads of vLLM's statistics objects. \<open>is_prompt_tokens\<close> is the count the
  collector reads from \<open>prompt_token_stats.computed\<close> or \<open>num_prompt_tokens\<close>, whichever is there.
\<close>

record spec_stats =
  sp_num_drafts :: int
  sp_num_draft_tokens :: int
  sp_num_accepted_tokens :: int

record scheduler_stats =
  ss_spec_decoding_stats :: "spec_stats option"
  ss_kv_cache_usage :: rat
  ss_num_running_reqs :: int
  ss_num_waiting_reqs :: int

record iteration_stats =
  is_num_preempted_reqs :: int
  is_num_generation_tokens :: int
  is_prompt_tokens :: int

section \<open>The worker-side collector\<close>

record collector =
  co_replica_id :: nat
  co_min_interval_s :: rat
  co_snapshots :: "replica_snapshot bounded_deque"
  co_last_record_time :: time
  co_totals :: engine_totals

definition co_new :: "nat \<Rightarrow> nat \<Rightarrow> rat \<Rightarrow> time \<Rightarrow> collector" where
  "co_new replica_id max_snapshots min_interval now =
     \<lparr>co_replica_id = replica_id, co_min_interval_s = max 0 min_interval,
      co_snapshots = bd_new max_snapshots, co_last_record_time = 0,
      co_totals = \<lparr>et_started_at = now, et_num_preempted_reqs = 0, et_num_drafts = 0,
                   et_num_draft_tokens = 0, et_num_accepted_tokens = 0\<rparr>\<rparr>"

definition add_preempted :: "iteration_stats option \<Rightarrow> engine_totals \<Rightarrow> engine_totals" where
  "add_preempted it tot =
     (case it of None \<Rightarrow> tot
      | Some i \<Rightarrow> tot\<lparr>et_num_preempted_reqs := et_num_preempted_reqs tot + is_num_preempted_reqs i\<rparr>)"

definition add_spec :: "spec_stats option \<Rightarrow> engine_totals \<Rightarrow> engine_totals" where
  "add_spec sp tot =
     (case sp of None \<Rightarrow> tot
      | Some s \<Rightarrow> tot\<lparr>et_num_drafts := et_num_drafts tot + sp_num_drafts s,
                      et_num_draft_tokens := et_num_draft_tokens tot + sp_num_draft_tokens s,
                      et_num_accepted_tokens := et_num_accepted_tokens tot + sp_num_accepted_tokens s\<rparr>)"

definition push_snapshot ::
  "scheduler_stats option \<Rightarrow> iteration_stats option \<Rightarrow> time \<Rightarrow> collector \<Rightarrow> collector" where
  "push_snapshot sst ist now c =
     (let c1 = c\<lparr>co_totals := add_preempted ist (co_totals c)\<rparr>
      in case sst of
           None \<Rightarrow> c1
         | Some s \<Rightarrow>
             (let c2 = c1\<lparr>co_totals := add_spec (ss_spec_decoding_stats s) (co_totals c1)\<rparr>
              in if 0 < co_min_interval_s c2 \<and> now - co_last_record_time c2 < co_min_interval_s c2
                 then c2
                 else (let tokens = (case ist of None \<Rightarrow> 0
                                     | Some i \<Rightarrow> is_num_generation_tokens i + is_prompt_tokens i)
                       in c2\<lparr>co_last_record_time := now,
                             co_snapshots := bd_push
                               \<lparr>sn_replica_id = co_replica_id c2, sn_timestamp = now,
                                sn_kv_cache_usage = ss_kv_cache_usage s,
                                sn_num_running_reqs = ss_num_running_reqs s,
                                sn_num_waiting_reqs = ss_num_waiting_reqs s,
                                sn_max_concurrency = 0,
                                sn_num_tokens_in_step = tokens\<rparr> (co_snapshots c2)\<rparr>)))"

definition drain_snapshots :: "collector \<Rightarrow> replica_snapshot list \<times> collector" where
  "drain_snapshots c =
     (let (out, d) = bd_drain (co_snapshots c) in (out, c\<lparr>co_snapshots := d\<rparr>))"

definition spec_decoding_totals :: "collector \<Rightarrow> int \<times> int \<times> int" where
  "spec_decoding_totals c =
     (et_num_drafts (co_totals c), et_num_draft_tokens (co_totals c), et_num_accepted_tokens (co_totals c))"

definition collector_latest :: "collector \<Rightarrow> rat \<times> int \<times> int" where
  "collector_latest c =
     (let buf = bd_buf (co_snapshots c)
      in if buf = [] then (0, 0, 0)
         else (sn_kv_cache_usage (last buf), sn_num_running_reqs (last buf), sn_num_waiting_reqs (last buf)))"

section \<open>Binary search, as the standard library's bisect module does it\<close>

function bisect_right_loop :: "'a::linorder list \<Rightarrow> 'a \<Rightarrow> nat \<Rightarrow> nat \<Rightarrow> nat" where
  "bisect_right_loop a x lo hi =
     (if lo < hi
      then (let mid = (lo + hi) div 2
            in if x < a ! mid then bisect_right_loop a x lo mid
               else bisect_right_loop a x (mid + 1) hi)
      else lo)"
  by pat_completeness auto
termination
  by (relation "measure (\<lambda>(a, x, lo, hi). hi - lo)") auto

function bisect_left_loop :: "'a::linorder list \<Rightarrow> 'a \<Rightarrow> nat \<Rightarrow> nat \<Rightarrow> nat" where
  "bisect_left_loop a x lo hi =
     (if lo < hi
      then (let mid = (lo + hi) div 2
            in if a ! mid < x then bisect_left_loop a x (mid + 1) hi
               else bisect_left_loop a x lo mid)
      else lo)"
  by pat_completeness auto
termination
  by (relation "measure (\<lambda>(a, x, lo, hi). hi - lo)") auto

declare bisect_right_loop.simps [simp del] and bisect_left_loop.simps [simp del]

definition bisect_right :: "'a::linorder list \<Rightarrow> 'a \<Rightarrow> nat" where
  "bisect_right a x = bisect_right_loop a x 0 (length a)"

definition bisect_left :: "'a::linorder list \<Rightarrow> 'a \<Rightarrow> nat" where
  "bisect_left a x = bisect_left_loop a x 0 (length a)"

section \<open>The concurrency-limit history\<close>

record history =
  h_retention_s :: time
  h_times :: "time list"
  h_limits :: "int list"

definition history_new :: "time \<Rightarrow> history" where
  "history_new retention = \<lparr>h_retention_s = retention, h_times = [], h_limits = []\<rparr>"

definition history_evict_old :: "time \<Rightarrow> history \<Rightarrow> history" where
  "history_evict_old now h =
     (let cutoff = now - h_retention_s h; i = bisect_left (h_times h) cutoff
      in if 0 < i then h\<lparr>h_times := drop i (h_times h), h_limits := drop i (h_limits h)\<rparr> else h)"

definition history_record :: "int \<Rightarrow> time \<Rightarrow> history \<Rightarrow> history" where
  "history_record limit now h =
     (if h_limits h \<noteq> [] \<and> last (h_limits h) = limit then h
      else history_evict_old now
             (h\<lparr>h_times := h_times h @ [now], h_limits := h_limits h @ [limit]\<rparr>))"

definition history_at :: "time \<Rightarrow> history \<Rightarrow> int" where
  "history_at timestamp h =
     (if h_times h = [] then 0
      else (let i = bisect_right (h_times h) timestamp
            in if i = 0 then h_limits h ! 0 else h_limits h ! (i - 1)))"

text \<open>A log of \<open>record\<close> calls, oldest first, and the limit the log says was in force at a time.\<close>

definition history_run :: "(time \<times> int) list \<Rightarrow> history \<Rightarrow> history" where
  "history_run calls h = fold (\<lambda>(now, limit) h. history_record limit now h) calls h"

definition limit_in_force :: "(time \<times> int) list \<Rightarrow> time \<Rightarrow> int" where
  "limit_in_force calls t = snd (last (filter (\<lambda>p. fst p \<le> t) calls))"

section \<open>Lemmas on the ring\<close>

lemma bd_push_buf: "bd_buf (bd_push x d) = drop (length (bd_buf d) + 1 - bd_maxlen d) (bd_buf d @ [x])"
  by (simp add: bd_push_def Let_def)

lemma bd_push_maxlen [simp]: "bd_maxlen (bd_push x d) = bd_maxlen d"
  by (simp add: bd_push_def Let_def)

lemma bd_len_push: "bd_len (bd_push x d) \<le> bd_maxlen d"
  by (simp add: bd_len_def bd_push_buf)

lemma bd_fold_push:
  "length (bd_buf d) \<le> bd_maxlen d \<Longrightarrow>
   bd_buf (fold bd_push xs d) = drop (length (bd_buf d @ xs) - bd_maxlen d) (bd_buf d @ xs)"
proof (induction xs arbitrary: d)
  case Nil
  then show ?case by simp
next
  case (Cons x xs)
  let ?k = "length (bd_buf d) + 1 - bd_maxlen d"
  define zs where "zs = bd_buf d @ x # xs"
  have len: "length (bd_buf (bd_push x d)) \<le> bd_maxlen (bd_push x d)" by (simp add: bd_push_buf)
  have "bd_buf (bd_push x d) @ xs = drop ?k zs"
    by (cases "bd_maxlen d") (auto simp: bd_push_buf zs_def)
  with Cons.IH [OF len]
  have "bd_buf (fold bd_push (x # xs) d) = drop (length (drop ?k zs) - bd_maxlen d) (drop ?k zs)"
    by simp
  also have "\<dots> = drop ((length zs - ?k - bd_maxlen d) + ?k) zs" by simp
  also have "(length zs - ?k - bd_maxlen d) + ?k = length zs - bd_maxlen d"
    using Cons.prems by (simp add: zs_def)
  finally show ?case by (simp add: zs_def)
qed

section \<open>Lemmas on binary search\<close>

lemma bisect_right_loop_spec:
  assumes "sorted a" "lo \<le> hi" "hi \<le> length a" "\<forall>i<lo. a ! i \<le> x" "\<forall>i. hi \<le> i \<and> i < length a \<longrightarrow> x < a ! i"
  shows "bisect_right_loop a x lo hi \<le> length a \<and> (\<forall>i<bisect_right_loop a x lo hi. a ! i \<le> x) \<and>
         (\<forall>i. bisect_right_loop a x lo hi \<le> i \<and> i < length a \<longrightarrow> x < a ! i)"
  using assms
proof (induction a x lo hi rule: bisect_right_loop.induct)
  case (1 a x lo hi)
  show ?case
  proof (cases "lo < hi")
    case False
    then have "bisect_right_loop a x lo hi = lo" by (simp add: bisect_right_loop.simps [of a x lo hi])
    moreover have "lo = hi" using False "1.prems"(2) by simp
    ultimately show ?thesis using "1.prems" by simp
  next
    case True
    let ?mid = "(lo + hi) div 2"
    from True "1.prems"(2,3) have mid: "lo \<le> ?mid" "?mid < hi" "?mid < length a" by auto
    show ?thesis
    proof (cases "x < a ! ?mid")
      case True
      have above: "\<forall>i. ?mid \<le> i \<and> i < length a \<longrightarrow> x < a ! i"
        using True "1.prems"(1) mid by (meson order_less_le_trans sorted_nth_mono)
      have eq: "bisect_right_loop a x lo hi = bisect_right_loop a x lo ?mid"
        using True \<open>lo < hi\<close> by (simp add: bisect_right_loop.simps [of a x lo hi] Let_def)
      show ?thesis
        unfolding eq
        by (rule "1.IH"(1) [OF \<open>lo < hi\<close> refl True "1.prems"(1) mid(1) _ "1.prems"(4) above])
          (use mid in simp)
    next
      case False
      have below: "\<forall>i<?mid + 1. a ! i \<le> x"
        using False "1.prems"(1) mid by (metis Suc_eq_plus1 leI less_Suc_eq_le order_trans sorted_nth_mono)
      have eq: "bisect_right_loop a x lo hi = bisect_right_loop a x (?mid + 1) hi"
        using False \<open>lo < hi\<close> by (simp add: bisect_right_loop.simps [of a x lo hi] Let_def)
      show ?thesis
        unfolding eq
        by (rule "1.IH"(2) [OF \<open>lo < hi\<close> refl False "1.prems"(1) _ "1.prems"(3) below "1.prems"(5)])
          (use mid in simp)
    qed
  qed
qed

lemma bisect_left_loop_spec:
  assumes "sorted a" "lo \<le> hi" "hi \<le> length a" "\<forall>i<lo. a ! i < x" "\<forall>i. hi \<le> i \<and> i < length a \<longrightarrow> x \<le> a ! i"
  shows "bisect_left_loop a x lo hi \<le> length a \<and> (\<forall>i<bisect_left_loop a x lo hi. a ! i < x) \<and>
         (\<forall>i. bisect_left_loop a x lo hi \<le> i \<and> i < length a \<longrightarrow> x \<le> a ! i)"
  using assms
proof (induction a x lo hi rule: bisect_left_loop.induct)
  case (1 a x lo hi)
  show ?case
  proof (cases "lo < hi")
    case False
    then have "bisect_left_loop a x lo hi = lo" by (simp add: bisect_left_loop.simps [of a x lo hi])
    moreover have "lo = hi" using False "1.prems"(2) by simp
    ultimately show ?thesis using "1.prems" by simp
  next
    case True
    let ?mid = "(lo + hi) div 2"
    from True "1.prems"(2,3) have mid: "lo \<le> ?mid" "?mid < hi" "?mid < length a" by auto
    show ?thesis
    proof (cases "a ! ?mid < x")
      case True
      have below: "\<forall>i<?mid + 1. a ! i < x"
        using True "1.prems"(1) mid by (metis Suc_eq_plus1 less_Suc_eq_le order_le_less_trans sorted_nth_mono)
      have eq: "bisect_left_loop a x lo hi = bisect_left_loop a x (?mid + 1) hi"
        using True \<open>lo < hi\<close> by (simp add: bisect_left_loop.simps [of a x lo hi] Let_def)
      show ?thesis
        unfolding eq
        by (rule "1.IH"(1) [OF \<open>lo < hi\<close> refl True "1.prems"(1) _ "1.prems"(3) below "1.prems"(5)])
          (use mid in simp)
    next
      case False
      have above: "\<forall>i. ?mid \<le> i \<and> i < length a \<longrightarrow> x \<le> a ! i"
        using False "1.prems"(1) mid by (metis leI order_trans sorted_nth_mono)
      have eq: "bisect_left_loop a x lo hi = bisect_left_loop a x lo ?mid"
        using False \<open>lo < hi\<close> by (simp add: bisect_left_loop.simps [of a x lo hi] Let_def)
      show ?thesis
        unfolding eq
        by (rule "1.IH"(2) [OF \<open>lo < hi\<close> refl False "1.prems"(1) mid(1) _ "1.prems"(4) above])
          (use mid in simp)
    qed
  qed
qed

lemma bisect_right_spec:
  "sorted a \<Longrightarrow> bisect_right a x \<le> length a \<and> (\<forall>i<bisect_right a x. a ! i \<le> x) \<and>
     (\<forall>i. bisect_right a x \<le> i \<and> i < length a \<longrightarrow> x < a ! i)"
  unfolding bisect_right_def by (rule bisect_right_loop_spec) auto

lemma bisect_left_spec:
  "sorted a \<Longrightarrow> bisect_left a x \<le> length a \<and> (\<forall>i<bisect_left a x. a ! i < x) \<and>
     (\<forall>i. bisect_left a x \<le> i \<and> i < length a \<longrightarrow> x \<le> a ! i)"
  unfolding bisect_left_def by (rule bisect_left_loop_spec) auto

lemma bisect_right_take:
  assumes "sorted (map fst zs)"
  shows "filter (\<lambda>p. fst p \<le> x) zs = take (bisect_right (map fst zs) x) zs"
proof -
  let ?n = "bisect_right (map fst zs) x"
  have "filter (\<lambda>p. fst p \<le> x) (take ?n zs) = take ?n zs"
    using bisect_right_spec [OF assms, of x] by (fastforce simp: filter_id_conv in_set_conv_nth)
  moreover have "filter (\<lambda>p. fst p \<le> x) (drop ?n zs) = []"
  proof -
    have "x < fst p" if p: "p \<in> set (drop ?n zs)" for p
    proof -
      from p obtain i where "i < length zs - ?n" "p = zs ! (?n + i)"
        using bisect_right_spec [OF assms, of x] by (auto simp: in_set_conv_nth)
      with bisect_right_spec [OF assms, of x] show ?thesis by simp
    qed
    then show ?thesis by (auto simp: filter_empty_conv not_le)
  qed
  ultimately show ?thesis
    by (metis append_Nil2 append_take_drop_id filter_append)
qed

section \<open>Lemmas on the history\<close>

definition samples :: "history \<Rightarrow> (time \<times> int) list" where
  "samples h = zip (h_times h) (h_limits h)"

definition history_wf :: "history \<Rightarrow> bool" where
  "history_wf h \<longleftrightarrow> sorted (h_times h) \<and> length (h_limits h) = length (h_times h)"

lemma map_fst_samples: "history_wf h \<Longrightarrow> map fst (samples h) = h_times h"
  by (simp add: samples_def history_wf_def)

lemma map_snd_samples: "history_wf h \<Longrightarrow> map snd (samples h) = h_limits h"
  by (simp add: samples_def history_wf_def)

lemma history_at_last:
  assumes wf: "history_wf h" and some: "\<exists>s\<in>set (h_times h). s \<le> t"
  shows "history_at t h = snd (last (filter (\<lambda>p. fst p \<le> t) (samples h)))"
proof -
  let ?i = "bisect_right (h_times h) t"
  note f = bisect_right_take [of "samples h" t, unfolded map_fst_samples [OF wf]]
  have srt: "sorted (h_times h)" using wf by (simp add: history_wf_def)
  have i: "0 < ?i" "?i \<le> length (h_times h)"
  proof -
    from some obtain j where "j < length (h_times h)" "h_times h ! j \<le> t" by (auto simp: in_set_conv_nth)
    then have "\<not> ?i \<le> j" using bisect_right_spec [OF srt, of t] by auto
    then show "0 < ?i" by simp
    show "?i \<le> length (h_times h)" using bisect_right_spec [OF srt, of t] by simp
  qed
  then have ne: "h_times h \<noteq> []" by auto
  have len: "length (samples h) = length (h_times h)"
    using wf by (simp add: samples_def history_wf_def)
  have "last (take ?i (samples h)) = samples h ! (?i - 1)"
    using i len by (subst last_conv_nth) (auto simp: min_def)
  moreover have "snd (samples h ! (?i - 1)) = h_limits h ! (?i - 1)"
    using i wf by (simp add: samples_def history_wf_def)
  ultimately show ?thesis using ne i f srt by (simp add: history_at_def Let_def)
qed

lemma history_evict_none:
  assumes "sorted (h_times h)" "\<forall>s\<in>set (h_times h). now - h_retention_s h \<le> s"
  shows "history_evict_old now h = h"
proof -
  have "bisect_left (h_times h) (now - h_retention_s h) = 0"
  proof (rule ccontr)
    assume "\<not> ?thesis"
    with bisect_left_spec [OF assms(1), of "now - h_retention_s h"] have
      "h_times h ! 0 < now - h_retention_s h" "0 < length (h_times h)" by auto
    then have "h_times h ! 0 \<in> set (h_times h)" by (intro nth_mem)
    with assms(2) \<open>h_times h ! 0 < now - h_retention_s h\<close> show False by (auto simp: not_le [symmetric])
  qed
  then show ?thesis by (simp add: history_evict_old_def Let_def)
qed

lemma sorted_snoc: "sorted (xs @ [x]) \<longleftrightarrow> sorted xs \<and> (\<forall>y\<in>set xs. y \<le> x)"
  by (auto simp: sorted_append)

lemma history_run_snoc: "history_run (calls @ [(now, l)]) h = history_record l now (history_run calls h)"
  by (simp add: history_run_def)

text \<open>
  While nothing is older than the retention, the compressed history answers like the full log:
  skipping a repeated limit loses nothing.
\<close>

lemma history_run_spec:
  assumes "sorted (map fst calls)" "calls \<noteq> []" "\<forall>p\<in>set calls. fst (last calls) - ret \<le> fst p"
  shows "history_wf (history_run calls (history_new ret)) \<and>
         set (h_times (history_run calls (history_new ret))) \<subseteq> fst ` set calls \<and>
         h_times (history_run calls (history_new ret)) \<noteq> [] \<and>
         h_times (history_run calls (history_new ret)) ! 0 = fst (calls ! 0) \<and>
         h_retention_s (history_run calls (history_new ret)) = ret \<and>
         (\<forall>t\<ge>fst (calls ! 0). snd (last (filter (\<lambda>p. fst p \<le> t) (samples (history_run calls (history_new ret)))))
            = limit_in_force calls t)"
  using assms
proof (induction calls rule: rev_induct)
  case Nil
  then show ?case by simp
next
  case (snoc c calls)
  obtain now l where c: "c = (now, l)" by fastforce
  let ?h = "history_run calls (history_new ret)"
  show ?case
  proof (cases "calls = []")
    case True
    have "history_evict_old now \<lparr>h_retention_s = ret, h_times = [now], h_limits = [l]\<rparr>
       = \<lparr>h_retention_s = ret, h_times = [now], h_limits = [l]\<rparr>"
      using snoc.prems(3) c True by (intro history_evict_none) auto
    with True c show ?thesis
      by (simp add: history_run_def history_record_def history_new_def history_wf_def samples_def
          limit_in_force_def)
  next
    case False
    have srt: "sorted (map fst calls)" and le: "\<forall>p\<in>set calls. fst p \<le> now"
      using snoc.prems(1) c by (auto simp: sorted_append)
    have "\<forall>p\<in>set calls. fst (last calls) - ret \<le> fst p"
      using snoc.prems(3) c le False by (force dest: last_in_set)
    note IH = snoc.IH [OF srt False this]
    then have wf: "history_wf ?h" and times: "set (h_times ?h) \<subseteq> fst ` set calls"
      and ne: "h_times ?h \<noteq> []" and hd0: "h_times ?h ! 0 = fst (calls ! 0)"
      and ret: "h_retention_s ?h = ret"
      and at: "\<And>t. fst (calls ! 0) \<le> t \<Longrightarrow>
        snd (last (filter (\<lambda>p. fst p \<le> t) (samples ?h))) = limit_in_force calls t" by auto
    have hd_le: "fst (calls ! 0) \<le> now" using False le by (cases calls) auto
    have tle: "\<forall>s\<in>set (h_times ?h). s \<le> now" using times le by auto
    have lim: "h_limits ?h \<noteq> []" using ne wf by (auto simp: history_wf_def)
    have ext: "limit_in_force (calls @ [c]) t = (if now \<le> t then l else limit_in_force calls t)" for t
      using c by (simp add: limit_in_force_def)
    show ?thesis
    proof (cases "last (h_limits ?h) = l")
      case True
      then have h': "history_run (calls @ [c]) (history_new ret) = ?h"
        using lim c by (simp add: history_run_snoc history_record_def)
      have "snd (last (filter (\<lambda>p. fst p \<le> t) (samples ?h))) = l" if "now \<le> t" for t
      proof -
        have "filter (\<lambda>p. fst p \<le> t) (samples ?h) = samples ?h"
          using tle that by (auto simp: filter_id_conv samples_def dest!: set_zip_leftD intro: order_trans)
        moreover have "snd (last (samples ?h)) = last (map snd (samples ?h))"
          using ne lim by (subst last_map) (auto simp: samples_def)
        ultimately show ?thesis using True map_snd_samples [OF wf] by simp
      qed
      with wf times ne hd0 ret at hd_le False h' ext show ?thesis
        by (auto simp: nth_append)
    next
      case diff: False
      let ?h2 = "?h\<lparr>h_times := h_times ?h @ [now], h_limits := h_limits ?h @ [l]\<rparr>"
      have srt2: "sorted (h_times ?h2)" using wf tle by (simp add: sorted_snoc history_wf_def)
      have "history_evict_old now ?h2 = ?h2"
      proof (rule history_evict_none [OF srt2])
        show "\<forall>s\<in>set (h_times ?h2). now - h_retention_s ?h2 \<le> s"
          using snoc.prems(3) c times ret by force
      qed
      then have h': "history_run (calls @ [c]) (history_new ret) = ?h2"
        using diff lim c by (simp add: history_run_snoc history_record_def)
      have sm: "samples ?h2 = samples ?h @ [(now, l)]"
        using wf by (simp add: samples_def history_wf_def)
      show ?thesis
        unfolding h' sm
        using wf times ne hd0 ret at hd_le False ext srt2 c
        by (auto simp: nth_append history_wf_def)
    qed
  qed
qed

section \<open>Properties\<close>

text \<open>
  As long as the recorded samples are within the retention period, the limit back-filled for a
  timestamp is the limit that was in force then: skipping repeated limits and searching by
  bisection give the same answer as scanning the full log of record calls.
\<close>

theorem history_at_in_force:
  assumes "sorted (map fst calls)" and "calls \<noteq> []"
    and "\<forall>p\<in>set calls. fst (last calls) - ret \<le> fst p" and "fst (calls ! 0) \<le> t"
  shows "history_at t (history_run calls (history_new ret)) = limit_in_force calls t"
proof -
  note spec = history_run_spec [OF assms(1-3)]
  let ?h = "history_run calls (history_new ret)"
  have "h_times ?h ! 0 \<in> set (h_times ?h)" using spec by (intro nth_mem) auto
  with spec assms(4) have "\<exists>s\<in>set (h_times ?h). s \<le> t" by (intro bexI [of _ "h_times ?h ! 0"]) auto
  with history_at_last [of ?h t] spec assms(4) show ?thesis by simp
qed

theorem history_at_in_force_witness:
  "history_at 25 (history_run [(10, 64), (20, 64), (30, 32)] (history_new 3600)) = 64"
proof -
  have "history_at 25 (history_run [(10, 64), (20, 64), (30, 32)] (history_new 3600))
          = limit_in_force [(10, 64), (20, 64), (30, 32)] 25"
    by (rule history_at_in_force) auto
  then show ?thesis by (simp add: limit_in_force_def)
qed

text \<open>
  Pruning drops the sample that is still in force: once a limit that has been held for longer
  than the retention changes, every timestamp is answered with the new limit, also the timestamps
  before the change.
\<close>

theorem history_prune_forgets_in_force:
  assumes "t0 + ret < now" and "0 \<le> ret" and "l1 \<noteq> l0"
  shows "history_at t (history_run [(t0, l0), (now, l1)] (history_new ret)) = l1"
proof -
  let ?h1 = "\<lparr>h_retention_s = ret, h_times = [t0], h_limits = [l0]\<rparr>"
  have "history_evict_old t0 ?h1 = ?h1"
    using assms(2) by (intro history_evict_none) auto
  then have h1: "history_record l0 t0 (history_new ret) = ?h1"
    by (simp add: history_record_def history_new_def)
  have "bisect_left [t0, now] (now - ret) = 1"
    using assms by (simp add: bisect_left_def bisect_left_loop.simps)
  with assms(3) have "history_record l1 now ?h1 = \<lparr>h_retention_s = ret, h_times = [now], h_limits = [l1]\<rparr>"
    by (simp add: history_record_def history_evict_old_def Let_def)
  with h1 show ?thesis
    by (simp add: history_run_def history_at_def bisect_right_def bisect_right_loop.simps Let_def)
qed

theorem history_prune_forgets_in_force_witness:
  "history_at 7190 (history_run [(0, 64), (7200, 32)] (history_new 3600)) = 32
   \<and> limit_in_force [(0, 64), (7200, 32)] 7190 = 64"
  using history_prune_forgets_in_force [of 0 3600 7200 32 64 7190] by (simp add: limit_in_force_def)

text \<open>
  The bounded ring keeps the newest items: draining after any pushes on an empty ring returns
  the last \<open>max_items\<close> of them in order and leaves the ring empty.
\<close>

theorem bd_drain_newest:
  "bd_drain (fold bd_push xs (bd_new n)) = (drop (length xs - n) xs, bd_new n)"
proof -
  have "bd_maxlen (fold bd_push xs d) = bd_maxlen d" for d :: "'a bounded_deque"
    by (induction xs arbitrary: d) auto
  then show ?thesis
    using bd_fold_push [of "bd_new n" xs] by (simp add: bd_drain_def bd_new_def)
qed

text \<open>
  Thinning never loses a count: whatever the snapshot interval drops, the collector's lifetime
  totals are the sums over all engine steps that were reported.
\<close>

theorem collector_totals_exact:
  "co_totals (fold (\<lambda>(s, i, now). push_snapshot s i now) steps c) =
     (co_totals c)
       \<lparr>et_num_preempted_reqs := et_num_preempted_reqs (co_totals c)
          + (\<Sum>(s, i, now)\<leftarrow>steps. case i of None \<Rightarrow> 0 | Some x \<Rightarrow> is_num_preempted_reqs x),
        et_num_drafts := et_num_drafts (co_totals c)
          + (\<Sum>(s, i, now)\<leftarrow>steps. case Option.bind s ss_spec_decoding_stats of None \<Rightarrow> 0 | Some x \<Rightarrow> sp_num_drafts x),
        et_num_draft_tokens := et_num_draft_tokens (co_totals c)
          + (\<Sum>(s, i, now)\<leftarrow>steps. case Option.bind s ss_spec_decoding_stats of None \<Rightarrow> 0 | Some x \<Rightarrow> sp_num_draft_tokens x),
        et_num_accepted_tokens := et_num_accepted_tokens (co_totals c)
          + (\<Sum>(s, i, now)\<leftarrow>steps. case Option.bind s ss_spec_decoding_stats of None \<Rightarrow> 0 | Some x \<Rightarrow> sp_num_accepted_tokens x)\<rparr>"
proof (induction steps arbitrary: c)
  case Nil
  then show ?case by simp
next
  case (Cons st steps)
  obtain s i now where st: "st = (s, i, now)" by (metis prod_cases3)
  have "co_totals (push_snapshot s i now c) =
     add_spec (Option.bind s ss_spec_decoding_stats) (add_preempted i (co_totals c))"
    by (auto simp: push_snapshot_def Let_def add_spec_def split: option.splits)
  then show ?case
    using st Cons.IH [of "push_snapshot s i now c"]
    by (simp add: add_spec_def add_preempted_def split: option.splits)
qed

end
