(* ===== verification/Scheduler.thy ===== *)
theory Scheduler
  imports Metrics "HOL-Library.Product_Lexorder"
begin

text \<open>
  The request scheduler of \<open>inference/server/scheduler.py\<close>: routing policies, group affinity, the
  admission loop of \<open>_process_request\<close> with its slot accounting, worker management and the
  bookkeeping of retired streams.

  The scheduler runs on one asyncio event loop, so what a coroutine does between two awaits is one
  atomic step. Worker states are objects that a coroutine may still hold after the worker left the
  list, so they live in a store (\<open>sc_objs\<close>) and the worker list holds their addresses.
\<close>

section \<open>Workers and requests\<close>

record worker =
  w_handle :: nat
  w_concurrency_limit :: int
  w_active_requests :: int
  w_available :: bool
  w_latest_cache_utilization :: rat
  w_running_reqs :: int
  w_waiting_reqs :: int
  w_streaming_requests :: int
  w_quarantined :: bool

definition worker_new :: "nat \<Rightarrow> int \<Rightarrow> worker" where
  "worker_new handle limit =
     \<lparr>w_handle = handle, w_concurrency_limit = limit, w_active_requests = 0, w_available = True,
      w_latest_cache_utilization = 0, w_running_reqs = 0, w_waiting_reqs = 0,
      w_streaming_requests = 0, w_quarantined = False\<rparr>"

definition schedulable :: "worker \<Rightarrow> bool" where
  "schedulable w \<longleftrightarrow> w_available w \<and> \<not> w_quarantined w"

definition quarantine :: "worker \<Rightarrow> worker" where
  "quarantine w = w\<lparr>w_quarantined := True, w_available := False\<rparr>"

record request =
  rq_id :: nat
  rq_prefix_hash :: "int option"
  rq_routing_key :: "string option"
  rq_strict :: bool
  rq_created_at :: time

datatype prompt =
    ChatPromptJson string
  | TextPrompt string
  | TensorPrompt "int list"
  | TokenPrompt "int list"

text \<open>Python's \<open>hash\<close> is a parameter: a function of the value that is hashed.\<close>

datatype hashable = HStr string | HInt32Bytes "int list" | HTuple "int list"

fun compute_prefix_hash :: "(hashable \<Rightarrow> int) \<Rightarrow> prompt \<Rightarrow> int" where
  "compute_prefix_hash hash (ChatPromptJson j) = hash (HStr j)"
| "compute_prefix_hash hash (TextPrompt s) = hash (HStr s)"
| "compute_prefix_hash hash (TensorPrompt ts) = hash (HInt32Bytes (map (\<lambda>t. t mod 2 ^ 32) ts))"
| "compute_prefix_hash hash (TokenPrompt ts) = hash (HTuple ts)"

section \<open>Routing policies\<close>

type_synonym routing_fn = "request \<Rightarrow> worker list \<Rightarrow> nat res"

definition candidates :: "worker list \<Rightarrow> nat list" where
  "candidates ws =
     filter (\<lambda>i. schedulable (ws ! i) \<and> 0 < w_concurrency_limit (ws ! i)) [0..<length ws]"

definition load_ratio :: "worker \<Rightarrow> rat" where
  "load_ratio w = of_int (w_active_requests w) / of_int (max (w_concurrency_limit w) 1)"

definition least_loaded_routing :: routing_fn where
  "least_loaded_routing req ws =
     (let cs = candidates ws; cs' = (if cs = [] then [0..<length ws] else cs)
      in min_by (\<lambda>i. load_ratio (ws ! i)) cs')"

definition below_threshold :: "worker \<Rightarrow> bool" where
  "below_threshold w \<longleftrightarrow> of_int (w_active_requests w) < of_int (w_concurrency_limit w) * (85 / 100 :: rat)"

definition ring_at :: "nat list \<Rightarrow> int \<Rightarrow> nat" where
  "ring_at cs h = cs ! nat (h mod int (length cs))"

definition prefix_affinity_routing :: routing_fn where
  "prefix_affinity_routing req ws =
     (let cs = candidates ws
      in if cs = [] then least_loaded_routing req ws
         else case rq_prefix_hash req of
                None \<Rightarrow> least_loaded_routing req ws
              | Some h \<Rightarrow>
                  (let preferred = ring_at cs h
                   in if below_threshold (ws ! preferred) then Inr preferred
                      else case find (\<lambda>alt. below_threshold (ws ! alt))
                                  (map (\<lambda>offset. ring_at cs (h + int offset)) [1..<length cs]) of
                             Some alt \<Rightarrow> Inr alt
                           | None \<Rightarrow> least_loaded_routing req ws))"

definition strict_affinity_routing :: routing_fn where
  "strict_affinity_routing req ws =
     (let cs = candidates ws
      in if cs = [] then least_loaded_routing req ws
         else case rq_prefix_hash req of
                None \<Rightarrow> least_loaded_routing req ws
              | Some h \<Rightarrow> Inr (ring_at cs h))"

definition preview_routing_key :: "string option \<Rightarrow> nat \<Rightarrow> string option" where
  "preview_routing_key key max_len =
     (case key of None \<Rightarrow> None
      | Some k \<Rightarrow> if length k \<le> max_len then Some k else Some (take max_len k @ ''...''))"

section \<open>Dynamic concurrency limits\<close>

text \<open>\<open>backoff\<close> is the one draw of \<open>random.random()\<close> per call, \<open>probe i\<close> the draw for worker \<open>i\<close>.\<close>

definition new_limit :: "rat \<Rightarrow> rat \<Rightarrow> worker \<Rightarrow> int" where
  "new_limit backoff probe w =
     (let backoff_step = (if backoff < 3 / 10 then 1 else 0);
          current = max (w_concurrency_limit w) 8;
          util = w_latest_cache_utilization w;
          new =
            (if util = 0 \<and> w_running_reqs w = 0 \<and> w_waiting_reqs w = 0
             then (if w_active_requests w > 64
                   then max 8 \<lfloor>of_int (w_active_requests w) * (95 / 100 :: rat)\<rfloor>
                   else min (max 8 \<lfloor>of_int (w_active_requests w) * (3 / 2 :: rat)\<rfloor>) 2048)
             else if util > 95 / 100 then current - backoff_step
             else if w_waiting_reqs w > 2 then current - backoff_step
             else if util < 9 / 10
             then (if w_active_requests w \<ge> current - 2
                   then current + 2 + \<lfloor>max 0 (9 / 10 - util) * 10\<rfloor>
                   else current)
             else (if w_active_requests w \<ge> current \<and> w_waiting_reqs w = 0 \<and> probe < 1 / 10
                   then current + 1 else current))
      in max 8 (min new 2048))"

definition utilization_based_concurrency :: "rat \<Rightarrow> (nat \<Rightarrow> rat) \<Rightarrow> worker list \<Rightarrow> int list" where
  "utilization_based_concurrency backoff probe ws =
     map (\<lambda>(i, w). new_limit backoff (probe i) w) (enumerate_from 0 ws)"

section \<open>The scheduler object\<close>

datatype reply = DictReply int int int | OtherReply | GenerateFailed exn | GenerateCancelled

datatype outcome = ResultSet | ExceptionSet exn

datatype phase =
    Waiting "nat option"
  | Running nat nat time
  | Finished outcome

record task =
  tk_req :: request
  tk_phase :: phase

record sched =
  sc_objs :: "worker list"
  sc_workers :: "nat list"
  sc_next_id :: nat
  sc_paused :: bool
  sc_stopped :: bool
  sc_inflight :: "(nat, nat list) dict"
  sc_group_affinity_enabled :: bool
  sc_group_affinity_ttl_s :: time
  sc_group_affinity_max_keys :: nat
  sc_assignments :: "(string, nat \<times> time) dict"
  sc_last_cleanup :: time
  sc_next_group_idx :: nat
  sc_records :: "request_record bounded_deque"
  sc_history :: "history list"
  sc_retired :: "(string, time) dict"
  sc_retired_unconfirmed :: "string list"
  sc_tasks :: "(nat, task) dict"

definition sched_init ::
  "nat list \<Rightarrow> int \<Rightarrow> nat \<Rightarrow> bool \<Rightarrow> time \<Rightarrow> nat \<Rightarrow> time \<Rightarrow> sched res" where
  "sched_init handles initial_concurrency max_records group_affinity ttl max_keys now =
     (if handles = [] then Inl ValueError
      else Inr
        \<lparr>sc_objs = map (\<lambda>h. worker_new h (max 1 initial_concurrency)) handles,
         sc_workers = [0..<length handles],
         sc_next_id = 0, sc_paused = False, sc_stopped = False,
         sc_inflight = map (\<lambda>i. (i, [])) [0..<length handles],
         sc_group_affinity_enabled = group_affinity,
         sc_group_affinity_ttl_s = max 1 ttl,
         sc_group_affinity_max_keys = max 1 max_keys,
         sc_assignments = [], sc_last_cleanup = now, sc_next_group_idx = 0,
         sc_records = bd_new max_records,
         sc_history = map (\<lambda>h. history_record (max 1 initial_concurrency) now (history_new 3600)) handles,
         sc_retired = [], sc_retired_unconfirmed = [], sc_tasks = []\<rparr>)"

definition worker_states :: "sched \<Rightarrow> worker list" where
  "worker_states s = map (\<lambda>a. sc_objs s ! a) (sc_workers s)"

definition upd_obj :: "nat \<Rightarrow> (worker \<Rightarrow> worker) \<Rightarrow> sched \<Rightarrow> sched" where
  "upd_obj a f s = s\<lparr>sc_objs := (sc_objs s)[a := f (sc_objs s ! a)]\<rparr>"

section \<open>Group affinity\<close>

definition can_receive :: "nat \<Rightarrow> sched \<Rightarrow> bool" where
  "can_receive idx s \<longleftrightarrow>
     idx < length (sc_workers s) \<and> schedulable (worker_states s ! idx) \<and>
     0 < w_concurrency_limit (worker_states s ! idx)"

definition assignment_count :: "nat \<Rightarrow> sched \<Rightarrow> nat" where
  "assignment_count i s =
     length (filter (\<lambda>(k, (idx, used)). idx < length (sc_workers s) \<and> idx = i) (sc_assignments s))"

definition least_loaded_worker_idx :: "(sched, nat) op" where
  "least_loaded_worker_idx s =
     (let ws = worker_states s; n = length ws;
          cs = candidates ws; cs' = (if cs = [] then [0..<n] else cs);
          start = sc_next_group_idx s mod max n 1
      in case min_by (\<lambda>i. (load_ratio (ws ! i), w_active_requests (ws ! i), assignment_count i s,
                          (int i - int start) mod int (max n 1))) cs' of
           Inl e \<Rightarrow> (Inl e, s)
         | Inr idx \<Rightarrow> (Inr idx, s\<lparr>sc_next_group_idx := (idx + 1) mod max n 1\<rparr>))"

definition cleanup_assignments :: "time \<Rightarrow> sched \<Rightarrow> sched" where
  "cleanup_assignments now s =
     (if now - sc_last_cleanup s < 30 \<and> length (sc_assignments s) \<le> sc_group_affinity_max_keys s then s
      else
        (let cutoff = now - sc_group_affinity_ttl_s s;
             kept = filter (\<lambda>(k, (idx, used)). \<not> (used < cutoff \<or> \<not> can_receive idx s)) (sc_assignments s);
             overflow = length kept - sc_group_affinity_max_keys s;
             oldest = sort_key (\<lambda>(k, (idx, used)). used) kept;
             dropped = set (map fst (take overflow oldest))
         in s\<lparr>sc_last_cleanup := now,
              sc_assignments := filter (\<lambda>(k, v). k \<notin> dropped) kept\<rparr>))"

definition group_affinity_routing :: "request \<Rightarrow> time \<Rightarrow> (sched, nat) op" where
  "group_affinity_routing req now s =
     (case rq_routing_key req of
        None \<Rightarrow> (least_loaded_routing req (worker_states s), s)
      | Some key \<Rightarrow>
          (let s1 = cleanup_assignments now s;
               fresh = (case least_loaded_worker_idx s1 of
                          (Inl e, s2) \<Rightarrow> (Inl e, s2)
                        | (Inr idx, s2) \<Rightarrow>
                            (Inr idx, s2\<lparr>sc_assignments := AList.update key (idx, now) (sc_assignments s2)\<rparr>))
           in case map_of (sc_assignments s1) key of
                Some (idx, used) \<Rightarrow>
                  (if can_receive idx s1
                   then (Inr idx, s1\<lparr>sc_assignments := AList.update key (idx, now) (sc_assignments s1)\<rparr>)
                   else fresh)
              | None \<Rightarrow> fresh))"

section \<open>Submitting and processing a request\<close>

definition submit ::
  "(hashable \<Rightarrow> int) \<Rightarrow> bool \<Rightarrow> prompt \<Rightarrow> string option \<Rightarrow> bool \<Rightarrow> time \<Rightarrow> (sched, nat) op" where
  "submit hash enable_prefix_hash prompt key strict now s =
     (if sc_stopped s then (Inl RuntimeError, s)
      else (let h = (case key of
                       Some k \<Rightarrow> Some (hash (HStr k))
                     | None \<Rightarrow> if enable_prefix_hash then Some (compute_prefix_hash hash prompt) else None);
                req = \<lparr>rq_id = sc_next_id s, rq_prefix_hash = h, rq_routing_key = key,
                       rq_strict = strict, rq_created_at = now\<rparr>
            in (Inr (sc_next_id s),
                s\<lparr>sc_next_id := sc_next_id s + 1,
                  sc_tasks := AList.update (rq_id req) \<lparr>tk_req = req, tk_phase = Waiting None\<rparr> (sc_tasks s)\<rparr>)))"

text \<open>The lists \<open>submit_batch\<close> zips with the prompts, or the error for a list of another length.\<close>

definition submit_batch_args ::
  "'p list \<Rightarrow> (string option + string option list) \<Rightarrow> ('d + 'd option list) \<Rightarrow> 'd \<Rightarrow>
   ('p \<times> 'd \<times> string option) list res" where
  "submit_batch_args prompts routing_key params empty_params =
     (case (case routing_key of
              Inl k \<Rightarrow> Inr (replicate (length prompts) k)
            | Inr ks \<Rightarrow> if length ks \<noteq> length prompts then Inl ValueError else Inr ks) of
        Inl e \<Rightarrow> Inl e
      | Inr ks \<Rightarrow>
          (case (case params of
                   Inl p \<Rightarrow> Inr (replicate (length prompts) p)
                 | Inr ps \<Rightarrow> if length ps \<noteq> length prompts then Inl ValueError
                             else Inr (map (\<lambda>p. case p of None \<Rightarrow> empty_params | Some d \<Rightarrow> d) ps)) of
             Inl e \<Rightarrow> Inl e
           | Inr ps \<Rightarrow> Inr (zip prompts (zip ps ks))))"

text \<open>The routing policy of a request, and one call of it.\<close>

definition route :: "routing_fn \<Rightarrow> request \<Rightarrow> time \<Rightarrow> (sched, nat) op" where
  "route dflt req now s =
     (if sc_group_affinity_enabled s \<and> rq_routing_key req \<noteq> None
      then group_affinity_routing req now s
      else if rq_strict req \<and> rq_prefix_hash req \<noteq> None
      then (strict_affinity_routing req (worker_states s), s)
      else (dflt req (worker_states s), s))"

text \<open>
  The \<open>finally\<close> clause of \<open>_process_request\<close>. The lookup of the tracked worker's task set raises
  \<open>KeyError\<close> when the set is gone; the statements after it are then skipped.
\<close>

definition finalize ::
  "nat \<Rightarrow> nat option \<Rightarrow> nat option \<Rightarrow> request_record option \<Rightarrow> (sched, unit) op" where
  "finalize rid obj tracked rec s =
     (let after = (\<lambda>s1. let s2 = (case obj of None \<Rightarrow> s1
                                   | Some a \<Rightarrow> upd_obj a (\<lambda>w. w\<lparr>w_active_requests :=
                                        max 0 (w_active_requests w - 1)\<rparr>) s1)
                        in (Inr (), case rec of None \<Rightarrow> s2
                                    | Some r \<Rightarrow> s2\<lparr>sc_records := bd_push r (sc_records s2)\<rparr>))
      in case tracked of
           None \<Rightarrow> after s
         | Some i \<Rightarrow>
             (case map_of (sc_inflight s) i of
                None \<Rightarrow> (Inl KeyError, s)
              | Some ts \<Rightarrow> after (s\<lparr>sc_inflight := AList.update i (removeAll rid ts) (sc_inflight s)\<rparr>)))"

definition set_phase :: "nat \<Rightarrow> phase \<Rightarrow> sched \<Rightarrow> sched" where
  "set_phase rid ph s =
     (case map_of (sc_tasks s) rid of None \<Rightarrow> s
      | Some t \<Rightarrow> s\<lparr>sc_tasks := AList.update rid (t\<lparr>tk_phase := ph\<rparr>) (sc_tasks s)\<rparr>)"

text \<open>One pass of the admission loop, from its condition to the sleep or the break.\<close>

definition dispatch :: "routing_fn \<Rightarrow> nat \<Rightarrow> time \<Rightarrow> sched \<Rightarrow> sched" where
  "dispatch dflt rid now s =
     (case map_of (sc_tasks s) rid of
        None \<Rightarrow> s
      | Some t \<Rightarrow>
          (case tk_phase t of
             Waiting obj \<Rightarrow>
               (if sc_stopped s
                then snd (finalize rid obj None None (set_phase rid (Finished (ExceptionSet RuntimeError)) s))
                else if sc_paused s then s
                else (case route dflt (tk_req t) now s of
                        (Inl e, s1) \<Rightarrow>
                          snd (finalize rid obj None None (set_phase rid (Finished (ExceptionSet e)) s1))
                      | (Inr idx, s1) \<Rightarrow>
                          (if idx < length (sc_workers s1)
                           then (let a = sc_workers s1 ! idx; w = sc_objs s1 ! a
                                 in if schedulable w \<and> w_active_requests w < w_concurrency_limit w
                                    then (let s2 = upd_obj a (\<lambda>w. w\<lparr>w_active_requests := w_active_requests w + 1\<rparr>) s1
                                          in case map_of (sc_inflight s2) idx of
                                               None \<Rightarrow> snd (finalize rid (Some a) (Some idx) None
                                                        (set_phase rid (Finished (ExceptionSet KeyError)) s2))
                                             | Some ts \<Rightarrow>
                                                 set_phase rid (Running a idx now)
                                                   (s2\<lparr>sc_inflight := AList.update idx (rid # removeAll rid ts) (sc_inflight s2)\<rparr>))
                                    else set_phase rid (Waiting (Some a)) s1)
                           else snd (finalize rid obj None None (set_phase rid (Finished (ExceptionSet IndexError)) s1)))))
           | _ \<Rightarrow> s))"

fun reply_outcome :: "reply \<Rightarrow> outcome" where
  "reply_outcome (DictReply p g c) = ResultSet"
| "reply_outcome OtherReply = ResultSet"
| "reply_outcome (GenerateFailed e) = ExceptionSet e"
| "reply_outcome GenerateCancelled = ExceptionSet RuntimeError"

definition reply_record :: "task \<Rightarrow> nat \<Rightarrow> time \<Rightarrow> time \<Rightarrow> reply \<Rightarrow> request_record option" where
  "reply_record t idx submitted now r =
     (case r of
        DictReply p g c \<Rightarrow>
          (if 0 < submitted
           then Some \<lparr>rc_request_id = rq_id (tk_req t), rc_replica_id = idx,
                      rc_arrival_time = rq_created_at (tk_req t), rc_submitted_time = submitted,
                      rc_completion_time = now, rc_prompt_len = p, rc_generation_len = g,
                      rc_prefix_cache_len = c, rc_streaming = False, rc_first_delta_time = None\<rparr>
           else None)
      | _ \<Rightarrow> None)"

text \<open>The worker's reply arrives, or the task is cancelled while it waits for it.\<close>

definition complete :: "nat \<Rightarrow> reply \<Rightarrow> time \<Rightarrow> sched \<Rightarrow> sched" where
  "complete rid r now s =
     (case map_of (sc_tasks s) rid of
        None \<Rightarrow> s
      | Some t \<Rightarrow>
          (case tk_phase t of
             Running a idx submitted \<Rightarrow>
               snd (finalize rid (Some a) (Some idx) (reply_record t idx submitted now r)
                 (set_phase rid (Finished (reply_outcome r)) s))
           | _ \<Rightarrow> s))"

section \<open>Worker management\<close>

definition check_idx :: "int \<Rightarrow> sched \<Rightarrow> unit res" where
  "check_idx idx s = (if 0 \<le> idx \<and> idx < int (length (sc_workers s)) then Inr () else Inl IndexError)"

definition with_worker :: "int \<Rightarrow> (worker \<Rightarrow> worker) \<Rightarrow> (sched, unit) op" where
  "with_worker idx f s =
     (case check_idx idx s of Inl e \<Rightarrow> (Inl e, s)
      | Inr _ \<Rightarrow> (Inr (), upd_obj (sc_workers s ! nat idx) f s))"

definition mark_worker_unavailable :: "int \<Rightarrow> (sched, unit) op" where
  "mark_worker_unavailable idx = with_worker idx (\<lambda>w. w\<lparr>w_available := False\<rparr>)"

definition mark_worker_available :: "int \<Rightarrow> (sched, unit) op" where
  "mark_worker_available idx = with_worker idx (\<lambda>w. w\<lparr>w_available := \<not> w_quarantined w\<rparr>)"

definition update_worker_handle :: "int \<Rightarrow> nat \<Rightarrow> (sched, unit) op" where
  "update_worker_handle idx h = with_worker idx (\<lambda>w. w\<lparr>w_handle := h, w_quarantined := False\<rparr>)"

definition is_worker_available :: "int \<Rightarrow> sched \<Rightarrow> bool res" where
  "is_worker_available idx s =
     (case check_idx idx s of Inl e \<Rightarrow> Inl e | Inr _ \<Rightarrow> Inr (schedulable (worker_states s ! nat idx)))"

definition total_concurrency_limit :: "sched \<Rightarrow> int" where
  "total_concurrency_limit s =
     (\<Sum>w\<leftarrow>filter schedulable (worker_states s). w_concurrency_limit w)"

text \<open>The tasks that \<open>cancel_worker_inflight\<close> cancels; their \<open>CancelledError\<close> is a later step.\<close>

definition cancel_worker_inflight :: "int \<Rightarrow> sched \<Rightarrow> nat list res" where
  "cancel_worker_inflight idx s =
     (case check_idx idx s of Inl e \<Rightarrow> Inl e | Inr _ \<Rightarrow> Inr (dict_get (sc_inflight s) (nat idx) []))"

definition add_worker :: "nat \<Rightarrow> int \<Rightarrow> time \<Rightarrow> sched \<Rightarrow> sched" where
  "add_worker handle limit now s =
     (let l = max 1 limit
      in s\<lparr>sc_objs := sc_objs s @ [worker_new handle l],
           sc_workers := sc_workers s @ [length (sc_objs s)],
           sc_inflight := AList.update (length (sc_workers s)) [] (sc_inflight s),
           sc_history := sc_history s @ [history_record l now (history_new 3600)]\<rparr>)"

definition remove_last_worker :: "(sched, nat list) op" where
  "remove_last_worker s =
     (if sc_workers s = [] then (Inl RuntimeError, s)
      else (let idx = length (sc_workers s) - 1;
                ws = butlast (sc_workers s)
            in (Inr (dict_get (sc_inflight s) idx []),
                s\<lparr>sc_inflight := AList.delete idx (sc_inflight s),
                  sc_workers := ws,
                  sc_history := butlast (sc_history s),
                  sc_assignments := filter (\<lambda>(k, (i, used)). \<not> length ws \<le> i) (sc_assignments s)\<rparr>)))"

definition pause :: "sched \<Rightarrow> sched" where
  "pause s = s\<lparr>sc_paused := True\<rparr>"

definition resume :: "sched \<Rightarrow> sched" where
  "resume s = s\<lparr>sc_paused := False\<rparr>"

text \<open>The first thing \<open>shutdown\<close> does; aborting the streams and cancelling the pollers follow it.\<close>

definition shutdown :: "sched \<Rightarrow> sched" where
  "shutdown s = s\<lparr>sc_stopped := True\<rparr>"

definition drained :: "sched \<Rightarrow> bool" where
  "drained s \<longleftrightarrow> \<not> list_ex (\<lambda>w. 0 < w_active_requests w) (worker_states s)"

text \<open>One tick of the adjust loop: the new limits are clamped to at least 1 and logged.\<close>

fun adjust_loop :: "nat \<Rightarrow> nat list \<Rightarrow> int list \<Rightarrow> time \<Rightarrow> sched \<Rightarrow> sched" where
  "adjust_loop i (a # as) (l # ls) now s =
     adjust_loop (i + 1) as ls now
       (let s1 = upd_obj a (\<lambda>w. w\<lparr>w_concurrency_limit := max 1 l\<rparr>) s
        in if i < length (sc_history s1)
           then s1\<lparr>sc_history := (sc_history s1)[i := history_record (max 1 l) now (sc_history s1 ! i)]\<rparr>
           else s1)"
| "adjust_loop i _ _ now s = s"

definition concurrency_adjust :: "(worker list \<Rightarrow> int list) \<Rightarrow> time \<Rightarrow> sched \<Rightarrow> sched" where
  "concurrency_adjust concurrency_fn now s =
     (if sc_stopped s then s
      else adjust_loop 0 (sc_workers s) (concurrency_fn (worker_states s)) now s)"

text \<open>One tick of the poll loop; \<open>None\<close> is a worker whose statistics call raised.\<close>

fun poll_loop :: "nat list \<Rightarrow> (rat \<times> int \<times> int) option list \<Rightarrow> sched \<Rightarrow> sched" where
  "poll_loop (a # as) (r # rs) s =
     poll_loop as rs
       (upd_obj a (\<lambda>w. case r of
           None \<Rightarrow> w\<lparr>w_latest_cache_utilization := 0, w_running_reqs := 0, w_waiting_reqs := 0\<rparr>
         | Some (u, run, wait) \<Rightarrow>
             w\<lparr>w_latest_cache_utilization := u, w_running_reqs := run, w_waiting_reqs := wait\<rparr>) s)"
| "poll_loop _ _ s = s"

section \<open>Retired streams\<close>

fun prune_loop :: "time \<Rightarrow> (string, time) dict \<Rightarrow> string list \<Rightarrow> (string, time) dict \<times> string list" where
  "prune_loop cutoff [] unconfirmed = ([], unconfirmed)"
| "prune_loop cutoff ((rid, t) # rest) unconfirmed =
     (if cutoff < t \<and> length ((rid, t) # rest) \<le> 100000 then ((rid, t) # rest, unconfirmed)
      else prune_loop cutoff rest (removeAll rid unconfirmed))"

definition prune_retired_streams :: "time \<Rightarrow> sched \<Rightarrow> sched" where
  "prune_retired_streams now s =
     (let (r, u) = prune_loop (now - 3600) (sc_retired s) (sc_retired_unconfirmed s)
      in s\<lparr>sc_retired := r, sc_retired_unconfirmed := u\<rparr>)"

definition retire_stream :: "string \<Rightarrow> bool \<Rightarrow> time \<Rightarrow> time \<Rightarrow> sched \<Rightarrow> sched" where
  "retire_stream rid cleanup_unconfirmed now now2 s =
     prune_retired_streams now2
       (s\<lparr>sc_retired := AList.delete rid (sc_retired s) @ [(rid, now)],
          sc_retired_unconfirmed :=
            (if cleanup_unconfirmed then List.insert rid (sc_retired_unconfirmed s)
             else sc_retired_unconfirmed s)\<rparr>)"

text \<open>The answer of \<open>abort\<close> for an id that has no live stream.\<close>

definition abort_status :: "string \<Rightarrow> time \<Rightarrow> sched \<Rightarrow> string \<times> sched" where
  "abort_status rid now s =
     (let s1 = prune_retired_streams now s
      in (if rid \<in> set (sc_retired_unconfirmed s1) then ''cleanup_unconfirmed''
          else if rid \<in> set (keys (sc_retired s1)) then ''already_terminal'' else ''not_found'', s1))"

section \<open>Steps and runs\<close>

datatype event =
    Submit prompt "string option" bool time
  | Dispatch nat time
  | Complete nat reply time
  | Pause
  | Resume
  | MarkUnavailable int
  | MarkAvailable int
  | UpdateHandle int nat
  | AddWorker nat int time
  | RemoveLast
  | Adjust "int list" time
  | Poll "(rat \<times> int \<times> int) option list"
  | Retire string bool time time
  | Shutdown

record env =
  env_hash :: "hashable \<Rightarrow> int"
  env_enable_prefix_hash :: bool
  env_routing_fn :: routing_fn

fun exec :: "env \<Rightarrow> event \<Rightarrow> sched \<Rightarrow> sched" where
  "exec E (Submit p key strict now) s = snd (submit (env_hash E) (env_enable_prefix_hash E) p key strict now s)"
| "exec E (Dispatch rid now) s = dispatch (env_routing_fn E) rid now s"
| "exec E (Complete rid r now) s = complete rid r now s"
| "exec E Pause s = pause s"
| "exec E Resume s = resume s"
| "exec E (MarkUnavailable i) s = snd (mark_worker_unavailable i s)"
| "exec E (MarkAvailable i) s = snd (mark_worker_available i s)"
| "exec E (UpdateHandle i h) s = snd (update_worker_handle i h s)"
| "exec E (AddWorker h l now) s = add_worker h l now s"
| "exec E RemoveLast s = snd (remove_last_worker s)"
| "exec E (Adjust ls now) s = concurrency_adjust (\<lambda>_. ls) now s"
| "exec E (Poll rs) s = poll_loop (sc_workers s) rs s"
| "exec E (Retire rid u t1 t2) s = retire_stream rid u t1 t2 s"
| "exec E Shutdown s = shutdown s"

inductive sched_reachable :: "env \<Rightarrow> sched \<Rightarrow> sched \<Rightarrow> bool" for E s0 where
  start: "sched_reachable E s0 s0"
| step: "sched_reachable E s0 s \<Longrightarrow> e \<noteq> Shutdown \<Longrightarrow> sched_reachable E s0 (exec E e s)"

section \<open>Lemmas on routing\<close>

lemma candidates_iff:
  "i \<in> set (candidates ws) \<longleftrightarrow> i < length ws \<and> schedulable (ws ! i) \<and> 0 < w_concurrency_limit (ws ! i)"
  by (auto simp: candidates_def)

lemma ring_at_in: "cs \<noteq> [] \<Longrightarrow> ring_at cs h \<in> set cs"
  by (auto simp: ring_at_def intro!: nth_mem simp: nat_less_iff)

lemma least_loaded_in:
  "least_loaded_routing req ws = Inr i \<Longrightarrow>
   (if candidates ws = [] then i < length ws else i \<in> set (candidates ws))"
  by (auto simp: least_loaded_routing_def Let_def dest: min_by_Inr split: if_splits)

lemma least_loaded_total: "ws \<noteq> [] \<Longrightarrow> \<exists>i<length ws. least_loaded_routing req ws = Inr i"
proof (cases "least_loaded_routing req ws")
  case (Inl e)
  moreover assume "ws \<noteq> []"
  ultimately show ?thesis by (auto simp: least_loaded_routing_def Let_def min_by_Inl split: if_splits)
next
  case (Inr i)
  with least_loaded_in [OF this] show ?thesis by (auto simp: candidates_iff split: if_splits)
qed

lemma prefix_affinity_in:
  assumes "prefix_affinity_routing req ws = Inr i" and "candidates ws \<noteq> []"
  shows "i \<in> set (candidates ws)"
proof (cases "rq_prefix_hash req")
  case None
  with assms least_loaded_in [of req ws i] show ?thesis by (simp add: prefix_affinity_routing_def)
next
  case (Some h)
  show ?thesis
    using assms Some least_loaded_in [of req ws i]
    by (auto simp: prefix_affinity_routing_def Let_def find_Some_iff ring_at_in [OF assms(2)]
        split: if_splits option.splits)
qed

lemma prefix_affinity_total:
  assumes "ws \<noteq> []"
  shows "\<exists>i. prefix_affinity_routing req ws = Inr i"
  using least_loaded_total [OF assms, of req]
  by (auto simp: prefix_affinity_routing_def Let_def split: option.splits)

lemma strict_affinity_in:
  "strict_affinity_routing req ws = Inr i \<Longrightarrow> candidates ws \<noteq> [] \<Longrightarrow> i \<in> set (candidates ws)"
  using least_loaded_in [of req ws i] ring_at_in [of "candidates ws"]
  by (auto simp: strict_affinity_routing_def Let_def split: option.splits)

lemma strict_affinity_total: "ws \<noteq> [] \<Longrightarrow> \<exists>i. strict_affinity_routing req ws = Inr i"
  using least_loaded_total [of ws req]
  by (auto simp: strict_affinity_routing_def Let_def split: option.splits)

section \<open>The contract of a routing policy\<close>

text \<open>
  The scheduler takes its routing policy as a function. What it relies on: with a worker to choose
  from the policy returns the index of one, and of a usable one when there is any.
\<close>

locale routing_policy =
  fixes policy :: routing_fn
  assumes policy_total: "ws \<noteq> [] \<Longrightarrow> \<exists>i. policy req ws = Inr i"
    and policy_range: "policy req ws = Inr i \<Longrightarrow> i < length ws"
    and policy_usable: "policy req ws = Inr i \<Longrightarrow> candidates ws \<noteq> [] \<Longrightarrow> i \<in> set (candidates ws)"
begin

lemma policy_error: "policy req ws = Inl e \<Longrightarrow> ws = []"
  using policy_total [of ws req] by (cases "ws = []") auto

end

lemma fallback_range:
  "candidates ws = [] \<Longrightarrow> strict_affinity_routing req ws = Inr i \<Longrightarrow> i < length ws"
  "candidates ws = [] \<Longrightarrow> prefix_affinity_routing req ws = Inr i \<Longrightarrow> i < length ws"
  using least_loaded_in [of req ws i]
  by (auto simp: strict_affinity_routing_def prefix_affinity_routing_def)

interpretation least_loaded: routing_policy least_loaded_routing
proof (unfold_locales, goal_cases)
  case (1 ws req)
  then show ?case using least_loaded_total by blast
next
  case (2 req ws i)
  from least_loaded_in [OF this] show ?case by (auto simp: candidates_iff split: if_splits)
next
  case (3 req ws i)
  from least_loaded_in [OF 3(1)] 3(2) show ?case by simp
qed

interpretation prefix_affinity: routing_policy prefix_affinity_routing
proof (unfold_locales, goal_cases)
  case (1 ws req)
  then show ?case by (rule prefix_affinity_total)
next
  case (2 req ws i)
  show ?case
  proof (cases "candidates ws = []")
    case True
    then show ?thesis using 2 by (rule fallback_range(2))
  next
    case False
    with prefix_affinity_in [OF 2] show ?thesis by (simp add: candidates_iff)
  qed
next
  case (3 req ws i)
  then show ?case by (rule prefix_affinity_in)
qed

interpretation strict_affinity: routing_policy strict_affinity_routing
proof (unfold_locales, goal_cases)
  case (1 ws req)
  then show ?case by (rule strict_affinity_total)
next
  case (2 req ws i)
  show ?case
  proof (cases "candidates ws = []")
    case True
    then show ?thesis using 2 by (rule fallback_range(1))
  next
    case False
    with strict_affinity_in [OF 2] show ?thesis by (simp add: candidates_iff)
  qed
next
  case (3 req ws i)
  then show ?case by (rule strict_affinity_in)
qed

section \<open>Lemmas on group affinity\<close>

lemma length_worker_states [simp]: "length (worker_states s) = length (sc_workers s)"
  by (simp add: worker_states_def)

lemma can_receive_candidates: "can_receive i s \<longleftrightarrow> i \<in> set (candidates (worker_states s))"
  by (auto simp: can_receive_def candidates_iff)

definition same_pool :: "sched \<Rightarrow> sched \<Rightarrow> bool" where
  "same_pool s s' \<longleftrightarrow>
     sc_objs s' = sc_objs s \<and> sc_workers s' = sc_workers s \<and> sc_inflight s' = sc_inflight s \<and>
     sc_tasks s' = sc_tasks s \<and> sc_next_id s' = sc_next_id s \<and> sc_stopped s' = sc_stopped s \<and>
     sc_paused s' = sc_paused s"

lemma same_pool_states: "same_pool s s' \<Longrightarrow> worker_states s' = worker_states s"
  by (simp add: same_pool_def worker_states_def)

lemma cleanup_same_pool: "same_pool s (cleanup_assignments now s)"
  by (simp add: same_pool_def cleanup_assignments_def Let_def)

lemma least_loaded_idx_spec:
  "least_loaded_worker_idx s = (r, s') \<Longrightarrow>
   same_pool s s' \<and> sc_assignments s' = sc_assignments s \<and>
   (case r of Inl e \<Rightarrow> sc_workers s = []
    | Inr i \<Rightarrow> i < length (sc_workers s) \<and>
        (candidates (worker_states s) \<noteq> [] \<longrightarrow> i \<in> set (candidates (worker_states s))))"
  by (auto simp: least_loaded_worker_idx_def Let_def same_pool_def min_by_Inl candidates_iff
      split: sum.splits if_splits dest!: min_by_Inr)

lemma group_affinity_spec:
  assumes "group_affinity_routing req now s = (r, s')"
  shows "same_pool s s' \<and>
    (case r of Inl e \<Rightarrow> sc_workers s = []
     | Inr i \<Rightarrow> i < length (sc_workers s) \<and>
         (candidates (worker_states s) \<noteq> [] \<longrightarrow> i \<in> set (candidates (worker_states s))))"
proof (cases "rq_routing_key req")
  case None
  with assms have r: "r = least_loaded_routing req (worker_states s)" and s: "s' = s"
    by (auto simp: group_affinity_routing_def)
  show ?thesis
    using r s least_loaded.policy_error [of req "worker_states s"]
      least_loaded.policy_range [of req "worker_states s"]
      least_loaded.policy_usable [of req "worker_states s"]
    by (auto simp: same_pool_def worker_states_def split: sum.splits)
next
  case (Some key)
  let ?s1 = "cleanup_assignments now s"
  have sp: "same_pool s ?s1" by (rule cleanup_same_pool)
  note ws = same_pool_states [OF sp]
  obtain r2 s2 where l: "least_loaded_worker_idx ?s1 = (r2, s2)" by fastforce
  from least_loaded_idx_spec [OF l] sp ws have l2: "same_pool s s2"
    "case r2 of Inl e \<Rightarrow> sc_workers s = []
     | Inr i \<Rightarrow> i < length (sc_workers s) \<and>
         (candidates (worker_states s) \<noteq> [] \<longrightarrow> i \<in> set (candidates (worker_states s)))"
    by (auto simp: same_pool_def split: sum.splits)
  have "(case map_of (sc_assignments ?s1) key of Some (idx, used) \<Rightarrow> can_receive idx ?s1 | None \<Rightarrow> False) \<or>
    (case r2 of Inl e \<Rightarrow> r = Inl e \<and> s' = s2
     | Inr idx \<Rightarrow> r = Inr idx \<and> s' = s2\<lparr>sc_assignments := AList.update key (idx, now) (sc_assignments s2)\<rparr>)"
    using assms Some l
    by (auto simp: group_affinity_routing_def Let_def split: option.splits if_splits sum.splits)
  then show ?thesis
  proof
    assume "case map_of (sc_assignments ?s1) key of Some (idx, used) \<Rightarrow> can_receive idx ?s1 | None \<Rightarrow> False"
    then obtain idx used where "map_of (sc_assignments ?s1) key = Some (idx, used)" "can_receive idx ?s1"
      by (auto split: option.splits)
    with assms Some sp ws show ?thesis
      by (auto simp: group_affinity_routing_def Let_def same_pool_def can_receive_candidates candidates_iff)
  next
    assume "case r2 of Inl e \<Rightarrow> r = Inl e \<and> s' = s2
      | Inr idx \<Rightarrow> r = Inr idx \<and> s' = s2\<lparr>sc_assignments := AList.update key (idx, now) (sc_assignments s2)\<rparr>"
    with l2 show ?thesis by (auto simp: same_pool_def split: sum.splits)
  qed
qed

lemma route_spec:
  assumes P: "routing_policy dflt" and r: "route dflt req now s = (r, s')"
  shows "same_pool s s' \<and>
    (case r of Inl e \<Rightarrow> sc_workers s = []
     | Inr i \<Rightarrow> i < length (sc_workers s) \<and>
         (candidates (worker_states s) \<noteq> [] \<longrightarrow> i \<in> set (candidates (worker_states s))))"
proof -
  have pol: "case p req (worker_states s) of Inl e \<Rightarrow> sc_workers s = []
     | Inr i \<Rightarrow> i < length (sc_workers s) \<and>
         (candidates (worker_states s) \<noteq> [] \<longrightarrow> i \<in> set (candidates (worker_states s)))"
    if "routing_policy p" for p
    using routing_policy.policy_error [OF that, of req "worker_states s"]
      routing_policy.policy_range [OF that, of req "worker_states s"]
      routing_policy.policy_usable [OF that, of req "worker_states s"]
    by (auto simp: worker_states_def split: sum.splits)
  show ?thesis
    using r pol [OF P] pol [OF strict_affinity.routing_policy_axioms] group_affinity_spec [of req now s r s']
    by (auto simp: route_def same_pool_def split: if_splits)
qed

section \<open>Slot accounting\<close>

definition running_on :: "nat \<Rightarrow> task \<Rightarrow> bool" where
  "running_on a t = (case tk_phase t of Running b i u \<Rightarrow> b = a | _ \<Rightarrow> False)"

definition runs_at :: "sched \<Rightarrow> nat \<Rightarrow> nat \<Rightarrow> bool" where
  "runs_at s i rid = (case map_of (sc_tasks s) rid of
     Some t \<Rightarrow> i < length (sc_workers s) \<and> running_on (sc_workers s ! i) t | None \<Rightarrow> False)"

text \<open>The number of requests that are running on the worker object at an address.\<close>

definition running_count :: "nat \<Rightarrow> sched \<Rightarrow> nat" where
  "running_count a s = dict_count (running_on a) (sc_tasks s)"

text \<open>The worker list, the request ids and the phases refer to what exists.\<close>

definition sched_wf :: "sched \<Rightarrow> bool" where
  "sched_wf s \<longleftrightarrow>
     distinct (sc_workers s) \<and> (\<forall>a\<in>set (sc_workers s). a < length (sc_objs s)) \<and>
     dict_wf (sc_tasks s) \<and>
     set (keys (sc_inflight s)) = {0..<length (sc_workers s)} \<and>
     (\<forall>rid t. map_of (sc_tasks s) rid = Some t \<longrightarrow> rid < sc_next_id s) \<and>
     (\<forall>rid t a i u. map_of (sc_tasks s) rid = Some t \<longrightarrow> tk_phase t = Running a i u \<longrightarrow>
        a < length (sc_objs s) \<and>
        (a \<in> set (sc_workers s) \<longrightarrow> i < length (sc_workers s) \<and> sc_workers s ! i = a))"

definition slots_ok :: "sched \<Rightarrow> bool" where
  "slots_ok s \<longleftrightarrow>
     (\<forall>a\<in>set (sc_workers s). w_active_requests (sc_objs s ! a) = int (running_count a s)) \<and>
     (\<forall>i<length (sc_workers s). set (dict_get (sc_inflight s) i []) = {rid. runs_at s i rid})"

definition sched_inv :: "sched \<Rightarrow> bool" where
  "sched_inv s \<longleftrightarrow> sched_wf s \<and> slots_ok s \<and> \<not> sc_stopped s"

lemmas sched_inv_defs = sched_inv_def sched_wf_def slots_ok_def

lemma running_on_simps [simp]:
  "running_on a (t\<lparr>tk_phase := Waiting x\<rparr>) = False"
  "running_on a (t\<lparr>tk_phase := Finished z\<rparr>) = False"
  "running_on a (t\<lparr>tk_phase := Running b i u\<rparr>) = (b = a)"
  by (simp_all add: running_on_def)

lemma running_on_Running: "running_on a t \<longleftrightarrow> (\<exists>i u. tk_phase t = Running a i u)"
  by (auto simp: running_on_def split: phase.splits)

text \<open>The invariant only reads these fields, and of the workers only the counters.\<close>

definition same_slots :: "sched \<Rightarrow> sched \<Rightarrow> bool" where
  "same_slots s s' \<longleftrightarrow>
     map w_active_requests (sc_objs s') = map w_active_requests (sc_objs s) \<and>
     sc_workers s' = sc_workers s \<and> sc_inflight s' = sc_inflight s \<and>
     sc_tasks s' = sc_tasks s \<and> sc_next_id s' = sc_next_id s \<and> sc_stopped s' = sc_stopped s"

lemma same_slots_refl [simp]: "same_slots s s"
  by (simp add: same_slots_def)

lemma same_slots_trans: "same_slots s s1 \<Longrightarrow> same_slots s1 s2 \<Longrightarrow> same_slots s s2"
  by (simp add: same_slots_def)

lemma same_pool_slots: "same_pool s s' \<Longrightarrow> same_slots s s'"
  by (simp add: same_pool_def same_slots_def)

lemma same_slots_inv:
  assumes "same_slots s s'" and inv: "sched_inv s"
  shows "sched_inv s'"
proof -
  note eqs = assms(1) [unfolded same_slots_def]
  have len: "length (sc_objs s') = length (sc_objs s)"
    using eqs map_eq_imp_length_eq by blast
  have act: "w_active_requests (sc_objs s' ! a) = w_active_requests (sc_objs s ! a)"
    if "a < length (sc_objs s)" for a
    using eqs nth_map [of a "sc_objs s" w_active_requests] nth_map [of a "sc_objs s'" w_active_requests]
      that len by simp
  have [simp]: "running_count a s' = running_count a s" "runs_at s' i rid = runs_at s i rid" for a i rid
    using assms(1) by (simp_all add: same_slots_def running_count_def runs_at_def cong: option.case_cong)
  have "sched_wf s'" using inv eqs len by (simp add: sched_inv_def sched_wf_def)
  moreover have "slots_ok s'"
    using inv act eqs len by (simp add: sched_inv_defs)
  ultimately show ?thesis using inv eqs by (simp add: sched_inv_def)
qed

lemma upd_obj_slots:
  assumes "\<And>w. w_active_requests (f w) = w_active_requests w"
  shows "same_slots s (upd_obj a f s)"
proof -
  have "map w_active_requests ((sc_objs s)[a := f (sc_objs s ! a)]) = map w_active_requests (sc_objs s)"
    by (cases "a < length (sc_objs s)") (auto intro!: nth_equalityI simp: nth_list_update assms)
  then show ?thesis by (simp add: same_slots_def upd_obj_def)
qed

lemma set_phase_eq:
  "map_of (sc_tasks s) rid = Some t \<Longrightarrow>
   set_phase rid ph s = s\<lparr>sc_tasks := AList.update rid (t\<lparr>tk_phase := ph\<rparr>) (sc_tasks s)\<rparr>"
  by (simp add: set_phase_def)

text \<open>
  How the invariant moves when request \<open>rid\<close> changes its phase and the counter and the task set of
  one worker change with it.
\<close>

lemma retask_inv:
  assumes wf: "sched_wf s" "\<not> sc_stopped s'" "sc_next_id s' = sc_next_id s" "rid < sc_next_id s"
    and ws: "sc_workers s' = sc_workers s" "length (sc_objs s') = length (sc_objs s)"
    and kf: "set (keys (sc_inflight s')) = set (keys (sc_inflight s))"
    and tk: "sc_tasks s' = AList.update rid t' (sc_tasks s)"
    and ph: "\<And>a i u. tk_phase t' = Running a i u \<Longrightarrow> i < length (sc_workers s) \<and> sc_workers s ! i = a"
    and act: "\<And>a. a \<in> set (sc_workers s) \<Longrightarrow>
      w_active_requests (sc_objs s' ! a) + (case map_of (sc_tasks s) rid of None \<Rightarrow> 0
         | Some t \<Rightarrow> if running_on a t then 1 else 0) = int (running_count a s) + (if running_on a t' then 1 else 0)"
    and fl: "\<And>i. i < length (sc_workers s) \<Longrightarrow> set (dict_get (sc_inflight s') i []) =
      {r. if r = rid then running_on (sc_workers s ! i) t' else runs_at s i r}"
  shows "sched_inv s'"
proof -
  have "w_active_requests (sc_objs s' ! a) = int (running_count a s')" if "a \<in> set (sc_workers s)" for a
    using act [OF that] dict_count_update [of "running_on a" rid t' "sc_tasks s"]
    by (auto simp: running_count_def tk split: option.splits if_splits)
  moreover have "runs_at s' i r = (if r = rid then running_on (sc_workers s ! i) t' else runs_at s i r)"
    if "i < length (sc_workers s)" for i r
    using that by (auto simp: runs_at_def ws tk dict_simps split: option.splits)
  ultimately have "slots_ok s'" using fl by (auto simp: slots_ok_def ws)
  moreover have "sched_wf s'"
    using wf ph unfolding sched_wf_def ws kf tk by (auto simp: dict_simps split: if_splits)
  ultimately show ?thesis using wf by (simp add: sched_inv_def)
qed

lemma inflight_tracked:
  assumes "sched_wf s"
  shows "(\<exists>ts. map_of (sc_inflight s) i = Some ts) \<longleftrightarrow> i < length (sc_workers s)"
  using assms by (auto simp: sched_wf_def map_of_Some_keys [symmetric])

lemma dict_get_update: "dict_get (AList.update k v d) i x = (if i = k then v else dict_get d i x)"
  by (simp add: dict_get_def dict_simps)

lemma wf_phase:
  assumes "sched_wf s" and "map_of (sc_tasks s) rid = Some t" and "tk_phase t = Running a i u"
  shows "a < length (sc_objs s)"
    and "a \<in> set (sc_workers s) \<Longrightarrow> i < length (sc_workers s) \<and> sc_workers s ! i = a"
  using assms unfolding sched_wf_def by blast+

lemma release_inv:
  assumes inv: "sched_inv s" and t: "map_of (sc_tasks s) rid = Some t" and ph: "tk_phase t = Running a i u"
  shows "sched_inv (snd (finalize rid (Some a) (Some i) rec (set_phase rid (Finished z) s)))"
    (is "sched_inv ?s'")
proof -
  have wf: "sched_wf s" "\<not> sc_stopped s" and ok: "slots_ok s" using inv by (simp_all add: sched_inv_def)
  have at: "a < length (sc_objs s)" "a \<in> set (sc_workers s) \<Longrightarrow> i < length (sc_workers s) \<and> sc_workers s ! i = a"
    and rid: "rid < sc_next_id s"
    using wf(1) t ph unfolding sched_wf_def by blast+
  have run: "running_on b t \<longleftrightarrow> b = a" for b by (auto simp: running_on_def ph)
  have pos: "0 < running_count a s"
    unfolding running_count_def by (rule dict_count_pos [OF t]) (simp add: run)
  have elsewhere: "rid \<notin> set (dict_get (sc_inflight s) j [])"
    if "j < length (sc_workers s)" "sc_workers s ! j \<noteq> a" for j
    using ok that t by (simp add: slots_ok_def runs_at_def run)
  have here: "j = i" if "j < length (sc_workers s)" "sc_workers s ! j = a" for j
    using at(2) that wf(1) by (metis nth_eq_iff_index_eq nth_mem sched_wf_def)
  have act: "w_active_requests (sc_objs s ! b) = int (running_count b s)" if "b \<in> set (sc_workers s)" for b
    using ok that by (simp add: slots_ok_def)
  show ?thesis
  proof (cases "map_of (sc_inflight s) i")
    case None
    with inflight_tracked [OF wf(1), of i] at(2) have gone: "a \<notin> set (sc_workers s)" by auto
    have "?s' = s\<lparr>sc_tasks := AList.update rid (t\<lparr>tk_phase := Finished z\<rparr>) (sc_tasks s)\<rparr>"
      using None by (simp add: finalize_def set_phase_eq [OF t])
    then show ?thesis
      using wf rid ok gone elsewhere t
      by (intro retask_inv [of s _ rid "t\<lparr>tk_phase := Finished z\<rparr>"])
        (auto simp: run slots_ok_def runs_at_def split: if_splits)
  next
    case (Some ts)
    have i: "i < length (sc_workers s)" using inflight_tracked [OF wf(1), of i] Some by simp
    define s1 where "s1 = s\<lparr>sc_tasks := AList.update rid (t\<lparr>tk_phase := Finished z\<rparr>) (sc_tasks s),
        sc_inflight := AList.update i (removeAll rid ts) (sc_inflight s),
        sc_objs := (sc_objs s)[a := (sc_objs s ! a)\<lparr>w_active_requests := max 0 (w_active_requests (sc_objs s ! a) - 1)\<rparr>]\<rparr>"
    have "?s' = (case rec of None \<Rightarrow> s1 | Some r \<Rightarrow> s1\<lparr>sc_records := bd_push r (sc_records s1)\<rparr>)"
      using Some by (simp add: finalize_def set_phase_eq [OF t] upd_obj_def s1_def Let_def split: option.splits)
    then have "same_slots s1 ?s'" by (simp add: same_slots_def split: option.splits)
    moreover have "sched_inv s1"
    proof (rule retask_inv [of s _ rid "t\<lparr>tk_phase := Finished z\<rparr>"])
      fix j assume j: "j < length (sc_workers s)"
      have "rid \<notin> set (dict_get (sc_inflight s1) j [])"
        using elsewhere [OF j] here [OF j] by (cases "j = i") (auto simp: s1_def dict_get_update)
      then show "set (dict_get (sc_inflight s1) j []) =
        {r. if r = rid then running_on (sc_workers s ! j) (t\<lparr>tk_phase := Finished z\<rparr>) else runs_at s j r}"
        using ok j Some by (auto simp: slots_ok_def s1_def dict_get_update split: if_splits)
    next
      fix b assume b: "b \<in> set (sc_workers s)"
      then show "w_active_requests (sc_objs s1 ! b) + (case map_of (sc_tasks s) rid of None \<Rightarrow> 0
          | Some t \<Rightarrow> if running_on b t then 1 else 0)
        = int (running_count b s) + (if running_on b (t\<lparr>tk_phase := Finished z\<rparr>) then 1 else 0)"
        using act [OF b] pos at(1) by (auto simp: s1_def t run nth_list_update)
    qed (use wf rid i inflight_tracked [OF wf(1), of i] in
        \<open>auto simp: s1_def dict_simps sched_wf_def\<close>)
    ultimately show ?thesis by (rule same_slots_inv)
  qed
qed

text \<open>A request that is not running changes to another phase that holds no slot.\<close>

lemma idle_rephase_inv:
  assumes inv: "sched_inv s" and t: "map_of (sc_tasks s) rid = Some t"
    and idle: "\<And>a. \<not> running_on a t" "\<And>a i u. ph \<noteq> Running a i u"
  shows "sched_inv (set_phase rid ph s)"
proof -
  have wf: "sched_wf s" and ok: "slots_ok s" using inv by (simp_all add: sched_inv_def)
  have "rid \<notin> {r. runs_at s i r}" for i using t idle by (simp add: runs_at_def)
  then show ?thesis
    unfolding set_phase_eq [OF t]
    using inv ok idle t wf
    by (intro retask_inv [of s _ rid "t\<lparr>tk_phase := ph\<rparr>"])
      (auto simp: sched_inv_def slots_ok_def sched_wf_def running_on_Running)
qed

lemma admit_inv:
  assumes inv: "sched_inv s" and t: "map_of (sc_tasks s) rid = Some t" and idle: "\<And>a. \<not> running_on a t"
    and i: "i < length (sc_workers s)" and a: "a = sc_workers s ! i" and fl: "map_of (sc_inflight s) i = Some ts"
  shows "sched_inv (set_phase rid (Running a i now)
    ((upd_obj a (\<lambda>w. w\<lparr>w_active_requests := w_active_requests w + 1\<rparr>) s)
       \<lparr>sc_inflight := AList.update i (rid # removeAll rid ts) (sc_inflight s)\<rparr>))" (is "sched_inv ?s'")
proof -
  have wf: "sched_wf s" "\<not> sc_stopped s" and ok: "slots_ok s" using inv by (simp_all add: sched_inv_def)
  let ?t = "t\<lparr>tk_phase := Running a i now\<rparr>"
  have aw: "a \<in> set (sc_workers s)" and al: "a < length (sc_objs s)"
    using i a wf(1) by (auto simp: sched_wf_def)
  have eq: "?s' = s\<lparr>sc_tasks := AList.update rid ?t (sc_tasks s),
      sc_inflight := AList.update i (rid # removeAll rid ts) (sc_inflight s),
      sc_objs := (sc_objs s)[a := (sc_objs s ! a)\<lparr>w_active_requests := w_active_requests (sc_objs s ! a) + 1\<rparr>]\<rparr>"
    using t by (simp add: set_phase_def upd_obj_def)
  have idx: "a = sc_workers s ! j \<longleftrightarrow> j = i" if "j < length (sc_workers s)" for j
    using wf(1) i a that by (auto simp: sched_wf_def nth_eq_iff_index_eq)
  show ?thesis
    unfolding eq
  proof (rule retask_inv [of s _ rid ?t], goal_cases)
    case (10 b)
    then show ?case
      using ok t idle al by (auto simp: slots_ok_def nth_list_update)
  next
    case (11 j)
    have "rid \<notin> set (dict_get (sc_inflight s) j [])" using ok 11 t idle by (simp add: slots_ok_def runs_at_def)
    moreover have "set (dict_get (sc_inflight s) j []) = {r. runs_at s j r}" using ok 11 by (simp add: slots_ok_def)
    moreover have "runs_at s j rid = False" using t idle by (simp add: runs_at_def)
    ultimately show ?case
      using fl idx [OF 11] by (cases "j = i") (auto simp: dict_get_update)
  qed (use wf t i a in \<open>auto simp: dict_simps sched_wf_def\<close>)
qed

lemma dispatch_inv:
  assumes inv: "sched_inv s" and P: "routing_policy dflt"
  shows "sched_inv (dispatch dflt rid now s)"
proof (cases "\<exists>t obj. map_of (sc_tasks s) rid = Some t \<and> tk_phase t = Waiting obj \<and> \<not> sc_paused s")
  case False
  then show ?thesis
    using inv by (auto simp: dispatch_def sched_inv_def split: option.splits phase.splits)
next
  case True
  then obtain t obj where t: "map_of (sc_tasks s) rid = Some t" and ph: "tk_phase t = Waiting obj"
    and go: "\<not> sc_paused s" "\<not> sc_stopped s" using inv by (auto simp: sched_inv_def)
  obtain r s1 where r: "route dflt (tk_req t) now s = (r, s1)" by fastforce
  from route_spec [OF P r] have sp: "same_pool s s1"
    and res: "case r of Inl e \<Rightarrow> sc_workers s = [] | Inr i \<Rightarrow> i < length (sc_workers s)"
    by (auto split: sum.splits)
  have inv1: "sched_inv s1" by (rule same_slots_inv [OF same_pool_slots [OF sp] inv])
  have t1: "map_of (sc_tasks s1) rid = Some t" and w1: "sc_workers s1 = sc_workers s"
    using sp t by (simp_all add: same_pool_def)
  have idle: "\<not> running_on a t" for a by (simp add: running_on_def ph)
  show ?thesis
  proof (cases r)
    case (Inl e)
    let ?s2 = "set_phase rid (Finished (ExceptionSet e)) s1"
    have i2: "sched_inv ?s2" by (rule idle_rephase_inv [OF inv1 t1 idle]) simp
    have "sc_workers ?s2 = []" using Inl res w1 by (simp add: set_phase_eq [OF t1])
    with i2 have "sched_inv (snd (finalize rid obj None None ?s2))"
      by (cases obj) (auto simp: finalize_def sched_inv_defs upd_obj_def)
    with Inl t ph go r show ?thesis by (simp add: dispatch_def)
  next
    case (Inr i)
    with res have i: "i < length (sc_workers s1)" by (simp add: w1)
    obtain ts where fl: "map_of (sc_inflight s1) i = Some ts"
      using inv1 inflight_tracked [of s1 i] i by (auto simp: sched_inv_def)
    have "sched_inv (set_phase rid (Waiting (Some (sc_workers s1 ! i))) s1)"
      by (rule idle_rephase_inv [OF inv1 t1 idle]) simp
    with admit_inv [OF inv1 t1 idle i refl fl, of now] Inr t ph go r i fl show ?thesis
      by (simp add: dispatch_def Let_def upd_obj_def)
  qed
qed

lemma complete_inv: "sched_inv s \<Longrightarrow> sched_inv (complete rid r now s)"
  using release_inv [of s rid] by (auto simp: complete_def split: option.splits phase.splits)

lemma submit_inv:
  assumes inv: "sched_inv s"
  shows "sched_inv (snd (submit hash e p key strict now s))"
proof -
  have wf: "sched_wf s" and ok: "slots_ok s" and go: "\<not> sc_stopped s" using inv by (simp_all add: sched_inv_def)
  have new: "map_of (sc_tasks s) (sc_next_id s) = None"
    using wf by (cases "map_of (sc_tasks s) (sc_next_id s)") (auto simp: sched_wf_def)
  obtain t where t: "tk_phase t = Waiting None"
    and eq: "snd (submit hash e p key strict now s) =
      s\<lparr>sc_next_id := sc_next_id s + 1, sc_tasks := AList.update (sc_next_id s) t (sc_tasks s)\<rparr>"
  proof (rule that)
    show "tk_phase \<lparr>tk_req = \<lparr>rq_id = sc_next_id s,
        rq_prefix_hash = (case key of Some k \<Rightarrow> Some (hash (HStr k))
          | None \<Rightarrow> if e then Some (compute_prefix_hash hash p) else None),
        rq_routing_key = key, rq_strict = strict, rq_created_at = now\<rparr>, tk_phase = Waiting None\<rparr> = Waiting None"
      by simp
  qed (simp add: submit_def Let_def go)
  let ?s0 = "s\<lparr>sc_next_id := Suc (sc_next_id s)\<rparr>"
  have frame: "runs_at ?s0 i r = runs_at s i r" "running_count a ?s0 = running_count a s" for i r a
    by (simp_all add: runs_at_def running_count_def cong: option.case_cong)
  have wf0: "sched_wf ?s0" using wf by (auto simp: sched_wf_def less_Suc_eq)
  have idle: "\<not> running_on a t" for a by (simp add: running_on_def t)
  have "\<not> runs_at s i (sc_next_id s)" for i by (simp add: runs_at_def new)
  then show ?thesis
    unfolding eq using wf0 ok go idle t new
    by (intro retask_inv [of ?s0 _ "sc_next_id s" t]) (auto simp: frame slots_ok_def)
qed

lemma add_worker_inv:
  assumes inv: "sched_inv s"
  shows "sched_inv (add_worker h l now s)" (is "sched_inv ?s'")
proof -
  have wf: "sched_wf s" and ok: "slots_ok s" and go: "\<not> sc_stopped s" using inv by (simp_all add: sched_inv_def)
  let ?n = "length (sc_objs s)"
  have new: "?n \<notin> set (sc_workers s)" using wf by (auto simp: sched_wf_def)
  have idle: "\<not> running_on ?n t" if "map_of (sc_tasks s) r = Some t" for r t
    using wf that by (fastforce simp: sched_wf_def running_on_Running)
  have zero: "running_count ?n s = 0"
    unfolding running_count_def using wf idle by (intro dict_count_zero) (auto simp: sched_wf_def)
  have frame: "running_count a ?s' = running_count a s" for a
    by (simp add: running_count_def add_worker_def Let_def)
  have runs: "runs_at ?s' i r = (i \<noteq> length (sc_workers s) \<and> runs_at s i r)" for i r
    using idle by (auto simp: runs_at_def add_worker_def Let_def nth_append split: option.splits)
  have ph: "a < Suc ?n \<and> (a \<in> insert ?n (set (sc_workers s)) \<longrightarrow>
      i < Suc (length (sc_workers s)) \<and> (sc_workers s @ [?n]) ! i = a)"
    if "map_of (sc_tasks s) r = Some t" "tk_phase t = Running a i u" for r t a i u
    using wf_phase [OF wf that] by (auto simp: nth_append)
  have "sched_wf ?s'"
    using wf new ph
    by (simp add: sched_wf_def add_worker_def Let_def dict_simps atLeast0_lessThan_Suc less_SucI)
  moreover have "slots_ok ?s'"
    unfolding slots_ok_def frame runs
    using ok wf new zero
    by (auto simp: slots_ok_def sched_wf_def add_worker_def Let_def nth_append worker_new_def dict_get_update)
  ultimately show ?thesis using go by (simp add: sched_inv_def add_worker_def Let_def)
qed

lemma remove_last_inv:
  assumes inv: "sched_inv s"
  shows "sched_inv (snd (remove_last_worker s))" (is "sched_inv ?s'")
proof (cases "sc_workers s = []")
  case True
  with inv show ?thesis by (simp add: remove_last_worker_def)
next
  case False
  have wf: "sched_wf s" and ok: "slots_ok s" and go: "\<not> sc_stopped s" using inv by (simp_all add: sched_inv_def)
  let ?n = "length (sc_workers s) - 1"
  have ws: "sc_workers ?s' = butlast (sc_workers s)" and fl: "sc_inflight ?s' = AList.delete ?n (sc_inflight s)"
    and ob: "sc_objs ?s' = sc_objs s" and tk: "sc_tasks ?s' = sc_tasks s" and ni: "sc_next_id ?s' = sc_next_id s"
    and st: "sc_stopped ?s' = sc_stopped s"
    using False by (simp_all add: remove_last_worker_def Let_def)
  have last: "last (sc_workers s) \<notin> set (butlast (sc_workers s))"
    using wf False by (metis append_butlast_last_id distinct_append not_distinct_conv_prefix sched_wf_def)
  have low: "i < ?n \<and> butlast (sc_workers s) ! i = a"
    if "a \<in> set (butlast (sc_workers s))" "i < length (sc_workers s)" "sc_workers s ! i = a" for i a
    using that last False by (cases "i = ?n") (auto simp: last_conv_nth nth_butlast)
  have frame: "running_count a ?s' = running_count a s" for a by (simp add: running_count_def tk)
  have runs: "runs_at ?s' i r = runs_at s i r" if "i < ?n" for i r
    using that by (auto simp: runs_at_def ws tk nth_butlast split: option.splits)
  have ph: "a < length (sc_objs s) \<and> (a \<in> set (butlast (sc_workers s)) \<longrightarrow>
      i < ?n \<and> butlast (sc_workers s) ! i = a)"
    if "map_of (sc_tasks s) r = Some t" "tk_phase t = Running a i u" for r t a i u
    using wf_phase [OF wf that] low by (auto dest: in_set_butlastD)
  have fk: "set (keys (AList.delete ?n (sc_inflight s))) = {0..<?n}"
    using wf False by (auto simp: sched_wf_def delete_keys)
  have "sched_wf ?s'"
    unfolding sched_wf_def ws fl ob tk ni fk
    using wf ph by (auto simp: sched_wf_def distinct_butlast dest: in_set_butlastD)
  moreover have "slots_ok ?s'"
    unfolding slots_ok_def frame ws fl ob
    using ok runs by (auto simp: slots_ok_def dict_get_def dict_simps dest: in_set_butlastD)
  ultimately show ?thesis using go st by (simp add: sched_inv_def)
qed

lemma with_worker_slots:
  assumes "\<And>w. w_active_requests (f w) = w_active_requests w"
  shows "same_slots s (snd (with_worker idx f s))"
  using upd_obj_slots [of f, OF assms] by (simp add: with_worker_def split: sum.splits)

lemma adjust_loop_slots: "same_slots s (adjust_loop i as ls now s)"
proof (induction i as ls now s rule: adjust_loop.induct)
  case (1 i a as l ls now s)
  let ?s1 = "upd_obj a (\<lambda>w. w\<lparr>w_concurrency_limit := max 1 l\<rparr>) s"
  have "same_slots s ?s1" by (rule upd_obj_slots) simp
  then have "same_slots s (if i < length (sc_history ?s1)
      then ?s1\<lparr>sc_history := (sc_history ?s1)[i := history_record (max 1 l) now (sc_history ?s1 ! i)]\<rparr> else ?s1)"
    by (simp add: same_slots_def)
  from same_slots_trans [OF this] 1 show ?case by (simp add: Let_def)
qed simp_all

lemma poll_loop_slots: "same_slots s (poll_loop as rs s)"
proof (induction as rs s rule: poll_loop.induct)
  case (1 a as r rs s)
  from same_slots_trans [OF upd_obj_slots 1] show ?case by (simp split: option.splits)
qed simp_all

lemma retire_slots: "same_slots s (retire_stream rid u t1 t2 s)"
  by (simp add: retire_stream_def prune_retired_streams_def same_slots_def split: prod.splits)

lemma exec_inv:
  assumes inv: "sched_inv s" and E: "routing_policy (env_routing_fn E)" and "e \<noteq> Shutdown"
  shows "sched_inv (exec E e s)"
proof (cases e)
  case Pause
  have "same_slots s (pause s)" by (simp add: same_slots_def pause_def)
  with Pause inv show ?thesis by (simp add: same_slots_inv)
next
  case Resume
  have "same_slots s (resume s)" by (simp add: same_slots_def resume_def)
  with Resume inv show ?thesis by (simp add: same_slots_inv)
next
  case (Adjust ls now)
  with inv show ?thesis by (simp add: concurrency_adjust_def same_slots_inv [OF adjust_loop_slots])
qed (use assms in \<open>simp_all add: submit_inv dispatch_inv complete_inv add_worker_inv remove_last_inv
       mark_worker_unavailable_def mark_worker_available_def update_worker_handle_def
       same_slots_inv [OF with_worker_slots] same_slots_inv [OF poll_loop_slots]
       same_slots_inv [OF retire_slots]\<close>)

lemma init_inv:
  assumes "sched_init hs c m g ttl mk now = Inr s"
  shows "sched_inv s"
proof -
  have s: "sc_workers s = [0..<length hs]" "sc_objs s = map (\<lambda>h. worker_new h (max 1 c)) hs"
    "sc_inflight s = map (\<lambda>i. (i, [])) [0..<length hs]" "sc_tasks s = []" "\<not> sc_stopped s"
    using assms by (auto simp: sched_init_def split: if_splits)
  have "dict_get (sc_inflight s) i [] = []" for i
    by (auto simp: s dict_get_def map_of_map [symmetric] split: option.splits dest: map_of_SomeD)
  then show ?thesis
    by (auto simp: sched_inv_defs s running_count_def runs_at_def dict_count_def worker_new_def image_image)
qed

lemma reachable_inv:
  assumes "sched_reachable E s0 s" and "sched_inv s0" and "routing_policy (env_routing_fn E)"
  shows "sched_inv s"
  using assms by (induction rule: sched_reachable.induct) (auto intro: exec_inv)

section \<open>Properties of slot accounting\<close>


text \<open>
  \<open>drain\<close> stops waiting exactly when nothing runs: in every state the scheduler reaches before
  shutdown, its exit condition holds if and only if no request is running on a worker of the pool.
\<close>

theorem drained_iff_idle:
  assumes "sched_init hs c m g ttl mk now = Inr s0" and "routing_policy (env_routing_fn E)"
    and "sched_reachable E s0 s"
  shows "drained s \<longleftrightarrow> (\<forall>i rid. \<not> runs_at s i rid)"
proof -
  have inv: "sched_wf s" "slots_ok s"
    using reachable_inv [OF assms(3) init_inv [OF assms(1)] assms(2)] by (simp_all add: sched_inv_def)
  have busy: "0 < running_count (sc_workers s ! i) s \<longleftrightarrow> (\<exists>rid. runs_at s i rid)"
    if i: "i < length (sc_workers s)" for i
  proof
    assume "0 < running_count (sc_workers s ! i) s"
    moreover have "dict_wf (sc_tasks s)" using inv by (simp add: sched_wf_def)
    ultimately obtain k t where "map_of (sc_tasks s) k = Some t" "running_on (sc_workers s ! i) t"
      using dict_count_zero [of "sc_tasks s" "running_on (sc_workers s ! i)"]
      unfolding running_count_def by fastforce
    then have "runs_at s i k" using i by (simp add: runs_at_def)
    then show "\<exists>rid. runs_at s i rid" ..
  next
    assume "\<exists>rid. runs_at s i rid"
    then show "0 < running_count (sc_workers s ! i) s"
      by (auto simp: runs_at_def running_count_def dict_count_pos split: option.splits)
  qed
  have "drained s \<longleftrightarrow> (\<forall>a\<in>set (sc_workers s). \<not> 0 < running_count a s)"
    using inv(2) by (auto simp: drained_def list_ex_iff worker_states_def slots_ok_def)
  also have "\<dots> \<longleftrightarrow> (\<forall>i<length (sc_workers s). \<not> 0 < running_count (sc_workers s ! i) s)"
    by (rule all_set_conv_all_nth)
  also have "\<dots> \<longleftrightarrow> (\<forall>i rid. \<not> runs_at s i rid)"
    using busy by (auto simp: runs_at_def split: option.splits)
  finally show ?thesis .
qed


lemma finalize_tasks [frame_simps]: "sc_tasks (snd (finalize rid obj tr rec s)) = sc_tasks s"
  by (auto simp: finalize_def upd_obj_def Let_def split: option.splits)


text \<open>
  C38. A request that waits when the scheduler is stopped gives back a slot it never took: its
  \<open>finally\<close> clause decrements the counter of the worker that the last unsuccessful attempt looked
  at, so the counter drops below the number of requests that still run there.
\<close>

theorem stopped_waiter_releases_foreign_slot:
  assumes "sc_stopped s" and "map_of (sc_tasks s) rid = Some t" and "tk_phase t = Waiting (Some a)"
    and "a < length (sc_objs s)"
    and "w_active_requests (sc_objs s ! a) = int (running_count a s)" and "0 < running_count a s"
  shows "w_active_requests (sc_objs (dispatch dflt rid now s) ! a)
    = int (running_count a (dispatch dflt rid now s)) - 1"
proof -
  have eq: "dispatch dflt rid now s =
      upd_obj a (\<lambda>w. w\<lparr>w_active_requests := max 0 (w_active_requests w - 1)\<rparr>)
        (s\<lparr>sc_tasks := AList.update rid (t\<lparr>tk_phase := Finished (ExceptionSet RuntimeError)\<rparr>) (sc_tasks s)\<rparr>)"
    using assms(1-3) by (simp add: dispatch_def finalize_def Let_def set_phase_eq)
  have "running_count a (dispatch dflt rid now s) = running_count a s"
    using dict_count_update [of "running_on a" rid "t\<lparr>tk_phase := Finished (ExceptionSet RuntimeError)\<rparr>" "sc_tasks s"]
      assms(2,3) by (simp add: eq running_count_def upd_obj_def running_on_def)
  then show ?thesis using assms(4-6) by (simp add: eq upd_obj_def)
qed

text \<open>
  C39. Removing the last worker cancels the requests that run on it, but drops their task set first:
  when such a request then unwinds, its \<open>finally\<close> clause raises \<open>KeyError\<close> at the lookup of that
  set, and neither the worker's slot is given back nor a metrics record pushed.
\<close>

theorem removed_worker_cleanup_fails:
  assumes inv: "sched_inv s" and t: "map_of (sc_tasks s) rid = Some t" and r: "tk_phase t = Running a i u"
    and a: "sc_workers s \<noteq> []" "a = last (sc_workers s)"
  shows "finalize rid (Some a) (Some i) rec (snd (remove_last_worker s)) = (Inl KeyError, snd (remove_last_worker s))"
proof -
  have wf: "sched_wf s" using inv by (simp add: sched_inv_def)
  have n: "length (sc_workers s) - 1 < length (sc_workers s)" "sc_workers s ! (length (sc_workers s) - 1) = a"
    using a by (simp_all add: last_conv_nth)
  have "i < length (sc_workers s) \<and> sc_workers s ! i = a"
    using wf_phase(2) [OF wf t r] a by simp
  then have "i = length (sc_workers s) - 1"
    using n wf by (metis nth_eq_iff_index_eq sched_wf_def)
  then show ?thesis using a by (simp add: remove_last_worker_def finalize_def Let_def dict_simps)
qed

section \<open>Properties of routing and limits\<close>

text \<open>
  Least-loaded routing is optimal among the usable workers: when some worker is schedulable with a
  positive limit, the chosen one is such a worker and no other one has a smaller ratio of active
  requests to its limit; it is the first of the best.
\<close>

theorem least_loaded_optimal:
  assumes "least_loaded_routing req ws = Inr i" and "candidates ws \<noteq> []"
  shows "i < length ws \<and> schedulable (ws ! i) \<and> 0 < w_concurrency_limit (ws ! i) \<and>
    (\<forall>j<length ws. schedulable (ws ! j) \<longrightarrow> 0 < w_concurrency_limit (ws ! j) \<longrightarrow>
       load_ratio (ws ! i) \<le> load_ratio (ws ! j))"
  using min_by_Inr [of "\<lambda>i. load_ratio (ws ! i)" "candidates ws" i] assms
  by (auto simp: least_loaded_routing_def Let_def candidates_iff)

lemma ring_covers:
  assumes "c \<in> set cs"
  shows "\<exists>offset<length cs. ring_at cs (h + int offset) = c"
proof -
  let ?n = "int (length cs)"
  from assms obtain k where k: "k < length cs" "cs ! k = c" by (auto simp: in_set_conv_nth)
  define o' where "o' = nat ((int k - h) mod ?n)"
  have n: "0 < ?n" using k by (cases cs) auto
  have "o' < length cs" using n by (simp add: o'_def nat_less_iff)
  moreover have "(h + int o') mod ?n = int k"
  proof -
    have "(h + (int k - h) mod ?n) mod ?n = (h + (int k - h)) mod ?n" by (rule mod_add_right_eq)
    with n k show ?thesis by (simp add: o'_def)
  qed
  ultimately show ?thesis using k by (auto simp: ring_at_def intro!: exI [of _ o'])
qed

text \<open>
  Prefix affinity is soft: a request with a prefix hash goes to the worker its hash selects while
  that worker is below 85 percent of its limit, and whenever any usable worker is below that
  threshold, so is the worker that is chosen.
\<close>

theorem prefix_affinity_spills:
  assumes cs: "candidates ws \<noteq> []" and h: "rq_prefix_hash req = Some h"
    and r: "prefix_affinity_routing req ws = Inr i"
  shows "(below_threshold (ws ! ring_at (candidates ws) h) \<longrightarrow> i = ring_at (candidates ws) h) \<and>
    ((\<exists>j\<in>set (candidates ws). below_threshold (ws ! j)) \<longrightarrow> below_threshold (ws ! i))"
proof (intro conjI impI)
  assume "below_threshold (ws ! ring_at (candidates ws) h)"
  with assms show "i = ring_at (candidates ws) h" by (simp add: prefix_affinity_routing_def Let_def)
next
  assume "\<exists>j\<in>set (candidates ws). below_threshold (ws ! j)"
  then obtain j where j: "j \<in> set (candidates ws)" "below_threshold (ws ! j)" by blast
  let ?cs = "candidates ws"
  let ?alts = "map (\<lambda>offset. ring_at ?cs (h + int offset)) [1..<length ?cs]"
  show "below_threshold (ws ! i)"
  proof (cases "below_threshold (ws ! ring_at ?cs h)")
    case True
    with assms show ?thesis by (simp add: prefix_affinity_routing_def Let_def)
  next
    case False
    from ring_covers [OF j(1), of h] obtain o' where o': "o' < length ?cs" "ring_at ?cs (h + int o') = j" by blast
    with False j(2) have "o' \<noteq> 0" by (intro notI) simp
    with o' have "j \<in> set ?alts" by force
    with j(2) obtain alt where "find (\<lambda>alt. below_threshold (ws ! alt)) ?alts = Some alt"
      by (cases "find (\<lambda>alt. below_threshold (ws ! alt)) ?alts") (auto simp only: find_None_iff)
    moreover from this have "below_threshold (ws ! alt)" by (auto simp only: find_Some_iff)
    ultimately show ?thesis using assms False by (simp add: prefix_affinity_routing_def Let_def)
  qed
qed

text \<open>
  Group affinity is sticky: while a key's assignment is younger than the time to live, its worker
  can take requests and the table is within its bound, a request with that key goes to that worker
  whatever the load is, and the assignment is refreshed.
\<close>

theorem group_affinity_sticky:
  assumes "rq_routing_key req = Some key" and "map_of (sc_assignments s) key = Some (idx, used)"
    and "can_receive idx s" and "now - sc_group_affinity_ttl_s s \<le> used"
    and "dict_wf (sc_assignments s)" and "length (sc_assignments s) \<le> sc_group_affinity_max_keys s"
  shows "\<exists>s'. group_affinity_routing req now s = (Inr idx, s') \<and>
    map_of (sc_assignments s') key = Some (idx, now)"
proof -
  let ?s1 = "cleanup_assignments now s"
  let ?keep = "\<lambda>(k :: string, i, u). \<not> (u < now - sc_group_affinity_ttl_s s \<or> \<not> can_receive i s)"
  have "map_of (filter ?keep (sc_assignments s)) key = Some (idx, used)"
    using assms(2-5) by (auto simp: dict_wf_def distinct_map_filter intro!: map_of_is_SomeI dest: map_of_SomeD)
  moreover have "length (filter ?keep (sc_assignments s)) - sc_group_affinity_max_keys s = 0"
    using le_trans [OF length_filter_le assms(6), of ?keep] by (simp only: diff_is_0_eq)
  ultimately have "map_of (sc_assignments ?s1) key = Some (idx, used)"
    using assms(2) by (simp add: cleanup_assignments_def Let_def)
  moreover have "can_receive idx ?s1"
    using assms(3) by (simp add: can_receive_candidates same_pool_states [OF cleanup_same_pool])
  ultimately show ?thesis
    using assms(1) by (simp add: group_affinity_routing_def Let_def dict_simps)
qed

lemma length_filter_keys:
  assumes "dict_wf d"
  shows "length (filter (\<lambda>(k, v). k \<notin> K) d) = length d - card (K \<inter> set (keys d))"
proof -
  have inj: "inj_on fst (set d)" and d: "distinct d" using assms by (auto simp: dict_wf_def distinct_map)
  have "length (filter (\<lambda>p. fst p \<in> K) d) = card (fst ` {p \<in> set d. fst p \<in> K})"
    using inj d by (simp add: distinct_length_filter card_image inj_on_def Collect_conj_eq Int_commute)
  moreover have "fst ` {p \<in> set d. fst p \<in> K} = K \<inter> set (keys d)" by auto
  moreover have "filter (\<lambda>(k, v). k \<notin> K) d = filter (\<lambda>p. fst p \<notin> K) d" by (auto intro: filter_cong)
  ultimately show ?thesis
    using sum_length_filter_compl [of "\<lambda>p. fst p \<in> K" d] by simp
qed

text \<open>
  The affinity table is bounded: cleaning up leaves at most \<open>max_keys\<close> assignments, whether the
  pass runs or is skipped, so a routing call leaves at most one more.
\<close>

theorem affinity_table_bounded:
  assumes wf: "dict_wf (sc_assignments s)" and "group_affinity_routing req now s = (r, s')"
    and "rq_routing_key req \<noteq> None"
  shows "length (sc_assignments (cleanup_assignments now s)) \<le> sc_group_affinity_max_keys s \<and>
    length (sc_assignments s') \<le> sc_group_affinity_max_keys s + 1"
proof
  show b: "length (sc_assignments (cleanup_assignments now s)) \<le> sc_group_affinity_max_keys s"
  proof (cases "now - sc_last_cleanup s < 30 \<and> length (sc_assignments s) \<le> sc_group_affinity_max_keys s")
    case True
    then show ?thesis by (simp add: cleanup_assignments_def)
  next
    case False
    define kept where "kept =
      filter (\<lambda>(k, (idx, used)). \<not> (used < now - sc_group_affinity_ttl_s s \<or> \<not> can_receive idx s)) (sc_assignments s)"
    define old where "old = take (length kept - sc_group_affinity_max_keys s) (sort_key (\<lambda>(k, (idx, used)). used) kept)"
    have kw: "dict_wf kept" using wf by (simp add: dict_wf_def kept_def distinct_map_filter)
    have "distinct (map fst (sort_key (\<lambda>(k, (idx, used)). used) kept))"
      using kw by (auto simp: dict_wf_def distinct_map)
    then have "distinct (map fst old)" by (simp add: old_def take_map [symmetric])
    then have "card (set (map fst old)) = length kept - sc_group_affinity_max_keys s"
      by (simp only: distinct_card) (simp add: old_def)
    moreover have "set (map fst old) \<inter> set (keys kept) = set (map fst old)"
      using set_take_subset [of _ "sort_key (\<lambda>(k, (idx, used)). used) kept"] by (fastforce simp: old_def)
    moreover have "sc_assignments (cleanup_assignments now s) = filter (\<lambda>(k, v). k \<notin> set (map fst old)) kept"
      unfolding cleanup_assignments_def if_not_P [OF False] by (simp add: Let_def kept_def old_def)
    ultimately show ?thesis using length_filter_keys [OF kw, of "set (map fst old)"] by simp
  qed
  have upd: "length (AList.update k v d) \<le> length d + 1" for k v and d :: "(string, nat \<times> time) dict"
    by (induction d) auto
  obtain key where "rq_routing_key req = Some key" using assms(3) by auto
  obtain q s2 where l: "least_loaded_worker_idx (cleanup_assignments now s) = (q, s2)" by fastforce
  show "length (sc_assignments s') \<le> sc_group_affinity_max_keys s + 1"
    using assms(2,3) b upd least_loaded_idx_spec [OF l] l le_trans [OF upd]
    by (auto simp: group_affinity_routing_def Let_def split: option.splits if_splits sum.splits)
qed

text \<open>
  The utilization-based policy keeps every limit between 8 and 2048, gives one limit per worker,
  and backs off gently: from a limit in that range, a worker with traffic loses at most one slot per
  tick, and gains none while its cache is over 95 percent full or requests queue in its engine.
\<close>

theorem utilization_limits_bounded:
  assumes "i < length ws"
  shows "length (utilization_based_concurrency backoff probe ws) = length ws \<and>
    8 \<le> utilization_based_concurrency backoff probe ws ! i \<and>
    utilization_based_concurrency backoff probe ws ! i \<le> 2048 \<and>
    (8 \<le> w_concurrency_limit (ws ! i) \<and> w_concurrency_limit (ws ! i) \<le> 2048 \<and> 0 < w_running_reqs (ws ! i) \<longrightarrow>
       w_concurrency_limit (ws ! i) - 1 \<le> utilization_based_concurrency backoff probe ws ! i \<and>
       (95 / 100 < w_latest_cache_utilization (ws ! i) \<or> 2 < w_waiting_reqs (ws ! i) \<longrightarrow>
          utilization_based_concurrency backoff probe ws ! i \<le> w_concurrency_limit (ws ! i)))"
proof -
  have eq: "utilization_based_concurrency backoff probe ws ! i = new_limit backoff (probe i) (ws ! i)"
    using assms by (simp add: utilization_based_concurrency_def enumerate_from_def)
  have len: "length (utilization_based_concurrency backoff probe ws) = length ws"
    by (simp add: utilization_based_concurrency_def)
  have clamp: "8 \<le> max 8 (min x 2048) \<and> max 8 (min x 2048) \<le> 2048" for x :: int by simp
  have range: "8 \<le> new_limit b p w \<and> new_limit b p w \<le> 2048" for b p w
    unfolding new_limit_def Let_def by (rule clamp)
  have down: "w_concurrency_limit w - 1 \<le> new_limit b p w"
    if "8 \<le> w_concurrency_limit w" "w_concurrency_limit w \<le> 2048" "0 < w_running_reqs w" for b p w
  proof -
    have low: "l - 1 \<le> max 8 (min x 2048)" if "l \<le> 2048" "l - 1 \<le> x" for l x :: int using that by auto
    have "0 \<le> \<lfloor>max 0 (9 / 10 - w_latest_cache_utilization w) * 10\<rfloor>" by simp
    with that(1,3) show ?thesis
      unfolding new_limit_def Let_def by (intro low [OF that(2)]) (simp add: max_absorb1)
  qed
  have up: "new_limit b p w \<le> w_concurrency_limit w"
    if "8 \<le> w_concurrency_limit w" "0 < w_running_reqs w"
      "95 / 100 < w_latest_cache_utilization w \<or> 2 < w_waiting_reqs w" for b p w
    using that by (auto simp: new_limit_def Let_def max_def min_def)
  show ?thesis unfolding eq using len range down up by blast
qed

lemma prune_loop_spec:
  assumes "d = pre @ (rid, t) # post" and "cutoff < t" and "length post < 100000"
    and "\<forall>(k, u)\<in>set pre. k \<noteq> rid" and "prune_loop cutoff d un = (d', un')"
  shows "(rid, t) \<in> set d' \<and> (rid \<in> set un' \<longleftrightarrow> rid \<in> set un) \<and> length d' \<le> 100000"
  using assms
proof (induction pre arbitrary: d un)
  case Nil
  then show ?case by (auto split: if_splits)
next
  case (Cons p pre)
  obtain k u where p: "p = (k, u)" by fastforce
  show ?case
  proof (cases "cutoff < u \<and> length d \<le> 100000")
    case True
    with Cons.prems p show ?thesis by auto
  next
    case False
    let ?rest = "pre @ (rid, t) # post"
    have "prune_loop cutoff ?rest (removeAll k un) = (d', un')"
      using Cons.prems(1,5) p False by auto
    from Cons.IH [OF refl Cons.prems(2,3) _ this] Cons.prems(4) p show ?thesis by auto
  qed
qed

text \<open>
  A retired stream id is remembered: for an hour after it was retired, unless 100000 ids were
  retired after it, \<open>abort\<close> of that id never answers \<open>not_found\<close>; it answers
  \<open>cleanup_unconfirmed\<close> exactly when its cleanup was not confirmed, and the table it consults holds
  at most 100000 ids.
\<close>

theorem retired_stream_remembered:
  assumes "sc_retired s = pre @ (rid, t) # post" and "rid \<notin> set (keys pre)"
    and "length post < 100000" and "now - 3600 < t"
  shows "fst (abort_status rid now s) =
      (if rid \<in> set (sc_retired_unconfirmed s) then ''cleanup_unconfirmed'' else ''already_terminal'') \<and>
    length (sc_retired (snd (abort_status rid now s))) \<le> 100000"
proof -
  obtain d' un' where p: "prune_loop (now - 3600) (sc_retired s) (sc_retired_unconfirmed s) = (d', un')"
    by fastforce
  have "\<forall>(k, u)\<in>set pre. k \<noteq> rid" using assms(2) by force
  from prune_loop_spec [OF assms(1,4,3) this p]
  show ?thesis by (force simp: abort_status_def prune_retired_streams_def p Let_def)
qed

section \<open>A concrete run\<close>

text \<open>
  Two workers of limit 1 and two requests with one routing key: the first runs on worker 0, the
  second waits for the same worker although the other one is free.
\<close>

definition ex_env :: env where
  "ex_env = \<lparr>env_hash = (\<lambda>h. 5), env_enable_prefix_hash = True, env_routing_fn = least_loaded_routing\<rparr>"

definition ex_start :: sched where
  "ex_start = (case sched_init [10, 20] 1 100 True 60 5 0 of Inr s \<Rightarrow> s | Inl _ \<Rightarrow> undefined)"

definition ex_two :: sched where
  "ex_two = exec ex_env (Submit (TextPrompt ''b'') (Some ''k'') False 2)
     (exec ex_env (Submit (TextPrompt ''a'') (Some ''k'') False 1) ex_start)"

definition ex_run :: sched where
  "ex_run = exec ex_env (Dispatch 1 4) (exec ex_env (Dispatch 0 3) ex_two)"

lemma ex_init: "sched_init [10, 20] 1 100 True 60 5 0 = Inr ex_start"
  by (simp add: ex_start_def sched_init_def)

lemma ex_policy: "routing_policy (env_routing_fn ex_env)"
  by (simp add: ex_env_def least_loaded.routing_policy_axioms)

lemma ex_two_reachable: "sched_reachable ex_env ex_start ex_two"
  unfolding ex_two_def by (intro sched_reachable.intros) simp_all

lemma ex_run_reachable: "sched_reachable ex_env ex_start ex_run"
  unfolding ex_run_def by (intro sched_reachable.step ex_two_reachable) simp_all

lemma ex_run_inv: "sched_inv ex_run"
  by (rule reachable_inv [OF ex_run_reachable init_inv [OF ex_init] ex_policy])



lemma ex_tasks:
  "map_option tk_phase (map_of (sc_tasks ex_run) 0) = Some (Running 0 0 3)"
  "map_option tk_phase (map_of (sc_tasks ex_run) 1) = Some (Waiting (Some 0))"
  "map_option tk_phase (map_of (sc_tasks ex_two) 0) = Some (Waiting None)"
  "map w_active_requests (sc_objs ex_run) = [1, 0]"
  "map w_concurrency_limit (sc_objs ex_run) = [1, 1]"
  by code_simp+


theorem drained_iff_idle_witness: "drained ex_run \<longleftrightarrow> (\<forall>i rid. \<not> runs_at ex_run i rid)"
  by (rule drained_iff_idle [OF ex_init ex_policy ex_run_reachable])

definition ex_first :: task where
  "ex_first = the (map_of (sc_tasks ex_two) 0)"

definition ex_running :: task where
  "ex_running = the (map_of (sc_tasks ex_run) 0)"

definition ex_waiter :: task where
  "ex_waiter = the (map_of (sc_tasks ex_run) 1)"

lemma ex_tasks_eq:
  "map_of (sc_tasks ex_two) 0 = Some ex_first" "tk_phase ex_first = Waiting None"
  "map_of (sc_tasks (dispatch (env_routing_fn ex_env) 0 3 ex_two)) 0 = Some ex_running"
  "map_of (sc_tasks ex_run) 0 = Some ex_running" "tk_phase ex_running = Running 0 0 3"
  "map_of (sc_tasks ex_run) 1 = Some ex_waiter" "tk_phase ex_waiter = Waiting (Some 0)"
  by code_simp+


theorem stopped_waiter_releases_foreign_slot_witness:
  "w_active_requests (sc_objs (dispatch least_loaded_routing 1 9 (shutdown ex_run)) ! 0)
   = int (running_count 0 (dispatch least_loaded_routing 1 9 (shutdown ex_run))) - 1"
proof (rule stopped_waiter_releases_foreign_slot)
  show "sc_stopped (shutdown ex_run)" by (simp add: shutdown_def)
  show "map_of (sc_tasks (shutdown ex_run)) 1 = Some ex_waiter" by code_simp
  show "tk_phase ex_waiter = Waiting (Some 0)" by (rule ex_tasks_eq)
  show "0 < length (sc_objs (shutdown ex_run))" by code_simp
  show "w_active_requests (sc_objs (shutdown ex_run) ! 0) = int (running_count 0 (shutdown ex_run))" by code_simp
  show "0 < running_count 0 (shutdown ex_run)" by code_simp
qed

theorem removed_worker_cleanup_fails_witness:
  "fst (finalize 0 (Some 0) (Some 0) None (snd (remove_last_worker (snd (remove_last_worker ex_run))))) = Inl KeyError"
proof -
  have inv: "sched_inv (snd (remove_last_worker ex_run))" by (rule remove_last_inv [OF ex_run_inv])
  have ws: "sc_workers (snd (remove_last_worker ex_run)) = [0]" by code_simp
  have "map_of (sc_tasks (snd (remove_last_worker ex_run))) 0 = Some ex_running" by code_simp
  from removed_worker_cleanup_fails [OF inv this ex_tasks_eq(5), of None] ws show ?thesis by simp
qed

definition ex_ws :: "worker list" where
  "ex_ws = [(worker_new 1 4)\<lparr>w_active_requests := 4\<rparr>, (worker_new 2 8)\<lparr>w_active_requests := 4, w_running_reqs := 4\<rparr>,
            (worker_new 3 8)\<lparr>w_available := False\<rparr>]"

definition ex_req :: request where
  "ex_req = \<lparr>rq_id = 0, rq_prefix_hash = Some 6, rq_routing_key = Some ''k'', rq_strict = False, rq_created_at = 0\<rparr>"

lemma ex_routes:
  "candidates ex_ws = [0, 1]" "least_loaded_routing ex_req ex_ws = Inr 1"
  "prefix_affinity_routing ex_req ex_ws = Inr 1"
  by code_simp+

theorem least_loaded_optimal_witness:
  "schedulable (ex_ws ! 1) \<and> load_ratio (ex_ws ! 1) \<le> load_ratio (ex_ws ! 0)"
proof -
  have "0 < length ex_ws" "schedulable (ex_ws ! 0)" "0 < w_concurrency_limit (ex_ws ! 0)"
    by (simp_all add: ex_ws_def schedulable_def worker_new_def)
  with least_loaded_optimal [OF ex_routes(2)] show ?thesis by (simp add: ex_routes)
qed

theorem prefix_affinity_spills_witness: "below_threshold (ex_ws ! 1) \<and> \<not> below_threshold (ex_ws ! 0)"
proof -
  have "rq_prefix_hash ex_req = Some 6" by (simp add: ex_req_def)
  from prefix_affinity_spills [OF _ this ex_routes(3)] show ?thesis
    by (simp add: ex_routes) (simp add: ex_ws_def below_threshold_def worker_new_def)
qed

theorem group_affinity_sticky_witness:
  "\<exists>s'. group_affinity_routing ex_req 10 ex_run = (Inr 0, s') \<and>
    map_of (sc_assignments s') ''k'' = Some (0, 10)"
proof (rule group_affinity_sticky)
  show "rq_routing_key ex_req = Some ''k''" by (simp add: ex_req_def)
  show "map_of (sc_assignments ex_run) ''k'' = Some (0, 4)" by code_simp
  show "can_receive 0 ex_run" by code_simp
  show "10 - sc_group_affinity_ttl_s ex_run \<le> 4" by code_simp
  show "dict_wf (sc_assignments ex_run)" by code_simp
  show "length (sc_assignments ex_run) \<le> sc_group_affinity_max_keys ex_run" by code_simp
qed

theorem affinity_table_bounded_witness:
  "length (sc_assignments (snd (group_affinity_routing ex_req 10 ex_run))) \<le> 6"
proof -
  have "dict_wf (sc_assignments ex_run)" by code_simp
  moreover have "sc_group_affinity_max_keys ex_run = 5" by code_simp
  ultimately show ?thesis
    using affinity_table_bounded [of ex_run ex_req 10] by (simp add: ex_req_def prod_eq_iff)
qed

theorem utilization_limits_bounded_witness: "7 \<le> utilization_based_concurrency 0 (\<lambda>_. 0) ex_ws ! 1"
  using utilization_limits_bounded [of 1 ex_ws 0 "\<lambda>_. 0"] by (simp add: ex_ws_def)

theorem retired_stream_remembered_witness:
  "fst (abort_status ''x'' 10 (retire_stream ''x'' True 5 5 ex_start)) = ''cleanup_unconfirmed''"
proof -
  let ?s = "retire_stream ''x'' True 5 5 ex_start"
  have "sc_retired ?s = [] @ (''x'', 5) # []" "sc_retired_unconfirmed ?s = [''x'']"
    by (simp_all add: retire_stream_def prune_retired_streams_def ex_start_def sched_init_def)
  with retired_stream_remembered [of ?s "[]" "''x''" 5 "[]" 10] show ?thesis by simp
qed

end
