(* ===== verification/Batch_Values.thy ===== *)
theory Batch_Values
  imports Prelude
begin

text \<open>
  The values a training request carries, and the one traversal that rewrites them
  (\<open>common/packing/walk.py\<close>). A tensor is its shape and its elements in row-major order; the tensor
  operations here are the documented behaviour of the torch calls that the packing code makes
  (\<open>index_select\<close> on the first axis, \<open>reshape\<close>, slicing and right-padding the second axis). Elements
  are exact rationals.
\<close>

section \<open>Tensors\<close>

record tensor =
  t_shape :: "nat list"
  t_data :: "rat list"

definition tensor_wf :: "tensor \<Rightarrow> bool" where
  "tensor_wf t \<longleftrightarrow> length (t_data t) = prod_list (t_shape t)"

abbreviation t_ndim :: "tensor \<Rightarrow> nat" where
  "t_ndim t \<equiv> length (t_shape t)"

text \<open>Consecutive blocks of \<open>n\<close> elements: \<open>block n xs i\<close> is the \<open>i\<close>-th.\<close>

definition block :: "nat \<Rightarrow> 'a list \<Rightarrow> nat \<Rightarrow> 'a list" where
  "block n xs i = take n (drop (i * n) xs)"

text \<open>The elements under one index of the first axis.\<close>

definition t_row :: "tensor \<Rightarrow> nat \<Rightarrow> rat list" where
  "t_row t i = block (prod_list (tl (t_shape t))) (t_data t) i"

definition t_rows :: "tensor \<Rightarrow> rat list list" where
  "t_rows t = map (t_row t) [0..<hd (t_shape t)]"

definition index_select :: "tensor \<Rightarrow> nat list \<Rightarrow> tensor" where
  "index_select t idx = \<lparr>t_shape = length idx # tl (t_shape t), t_data = concat (map (t_row t) idx)\<rparr>"

definition t_reshape :: "nat list \<Rightarrow> tensor \<Rightarrow> tensor" where
  "t_reshape sh t = t\<lparr>t_shape := sh\<rparr>"

definition unsqueeze0 :: "tensor \<Rightarrow> tensor" where
  "unsqueeze0 t = t\<lparr>t_shape := 1 # t_shape t\<rparr>"

definition squeeze0 :: "tensor \<Rightarrow> tensor" where
  "squeeze0 t = (if 2 \<le> t_ndim t \<and> hd (t_shape t) = 1 then t\<lparr>t_shape := tl (t_shape t)\<rparr> else t)"

text \<open>\<open>value[:, a:b]\<close> and the right padding of the second axis.\<close>

definition slice1 :: "nat \<Rightarrow> nat \<Rightarrow> tensor \<Rightarrow> tensor" where
  "slice1 a b t =
     (let w = prod_list (drop 2 (t_shape t))
      in \<lparr>t_shape = hd (t_shape t) # (b - a) # drop 2 (t_shape t),
          t_data = concat (map (\<lambda>r. take ((b - a) * w) (drop (a * w) r)) (t_rows t))\<rparr>)"

definition pad1 :: "nat \<Rightarrow> rat \<Rightarrow> tensor \<Rightarrow> tensor" where
  "pad1 n v t =
     (let w = prod_list (drop 2 (t_shape t))
      in \<lparr>t_shape = hd (t_shape t) # (t_shape t ! 1 + n) # drop 2 (t_shape t),
          t_data = concat (map (\<lambda>r. r @ replicate (n * w) v) (t_rows t))\<rparr>)"

text \<open>The conversion of an element to an integer truncates towards zero.\<close>

definition to_long :: "rat \<Rightarrow> int" where
  "to_long x = (if 0 \<le> x then \<lfloor>x\<rfloor> else \<lceil>x\<rceil>)"

section \<open>Batches\<close>

text \<open>A value that is neither a tensor nor a dict is opaque: only its identity is carried.\<close>

datatype leaf = TensorLeaf tensor | OtherLeaf nat

datatype batch_value = Leaf leaf | Sub "(string \<times> batch_value) list"

type_synonym batch = "(string \<times> batch_value) list"

text \<open>
  \<open>map_batch_values\<close>: the transform sees every value that is not a dict, under its own key. It may
  raise, and \<open>None\<close> is the \<open>DROP\<close> marker.
\<close>

fun map_batch_values :: "(string \<Rightarrow> leaf \<Rightarrow> leaf option res) \<Rightarrow> batch \<Rightarrow> batch res" where
  "map_batch_values f [] = Inr []"
| "map_batch_values f ((k, Sub b) # rest) =
     (case map_batch_values f b of Inl e \<Rightarrow> Inl e
      | Inr b' \<Rightarrow>
          (case map_batch_values f rest of Inl e \<Rightarrow> Inl e
           | Inr rest' \<Rightarrow> Inr ((k, Sub b') # rest')))"
| "map_batch_values f ((k, Leaf l) # rest) =
     (case f k l of Inl e \<Rightarrow> Inl e
      | Inr r \<Rightarrow>
          (case map_batch_values f rest of Inl e \<Rightarrow> Inl e
           | Inr rest' \<Rightarrow>
               (case r of None \<Rightarrow> Inr rest' | Some l' \<Rightarrow> Inr ((k, Leaf l') # rest'))))"

text \<open>A leaf by its key: at the top level or inside the \<open>context\<close> dict.\<close>

definition batch_tensor :: "batch \<Rightarrow> string \<Rightarrow> nat \<Rightarrow> tensor option" where
  "batch_tensor b key min_dims =
     (let cands = map_of b key #
            (case map_of b ''context'' of Some (Sub ctx) \<Rightarrow> [map_of ctx key] | _ \<Rightarrow> []);
          ok = (\<lambda>v. case v of Some (Leaf (TensorLeaf t)) \<Rightarrow> min_dims \<le> t_ndim t | _ \<Rightarrow> False)
      in case find ok cands of
           Some (Some (Leaf (TensorLeaf t))) \<Rightarrow> Some t
         | _ \<Rightarrow> None)"

definition batch_position_ids :: "batch \<Rightarrow> tensor option" where
  "batch_position_ids b =
     (case batch_tensor b ''position_ids'' 2 of
        Some t \<Rightarrow> if t_ndim t = 2 then Some t else None
      | None \<Rightarrow> None)"

definition batch_input_ids :: "batch \<Rightarrow> tensor option" where
  "batch_input_ids b = batch_tensor b ''input_ids'' 2"

definition batch_num_rows :: "batch \<Rightarrow> nat option" where
  "batch_num_rows b = map_option (\<lambda>t. t_shape t ! 0) (batch_input_ids b)"

definition batch_seqlen :: "batch \<Rightarrow> nat option" where
  "batch_seqlen b = map_option (\<lambda>t. t_shape t ! 1) (batch_input_ids b)"

section \<open>Lemmas on blocks\<close>

lemma length_block: "(i + 1) * n \<le> length xs \<Longrightarrow> length (block n xs i) = n"
  by (simp add: block_def algebra_simps)

lemma concat_blocks: "concat (map (block n xs) [0..<k]) = take (k * n) xs"
proof (induction k)
  case (Suc k)
  have "take (k * n) xs @ take n (drop (k * n) xs) = take (k * n + n) xs" by (rule take_add [symmetric])
  with Suc show ?case by (simp add: block_def add.commute)
qed simp

lemma nth_block: "j < n \<Longrightarrow> (i + 1) * n \<le> length xs \<Longrightarrow> block n xs i ! j = xs ! (i * n + j)"
  by (simp add: block_def algebra_simps)

lemma concat_map_length: "(\<And>x. x \<in> set xs \<Longrightarrow> length (f x) = n) \<Longrightarrow> length (concat (map f xs)) = length xs * n"
  by (induction xs) auto

lemma block_concat:
  "(\<And>x. x \<in> set xs \<Longrightarrow> length (f x) = n) \<Longrightarrow> i < length xs \<Longrightarrow> block n (concat (map f xs)) i = f (xs ! i)"
proof (induction xs arbitrary: i)
  case Nil
  then show ?case by simp
next
  case (Cons x xs)
  then show ?case by (cases i) (simp_all add: block_def)
qed

lemma index_in_range: "i < b \<Longrightarrow> (i + 1) * n \<le> b * (n::nat)"
  by (metis Suc_eq_plus1 Suc_leI mult_le_mono1)

lemma t_row_length: "tensor_wf t \<Longrightarrow> t_shape t = d # sh \<Longrightarrow> i < d \<Longrightarrow> length (t_row t i) = prod_list sh"
  using index_in_range [of i d "prod_list sh"] by (simp add: t_row_def tensor_wf_def length_block)

lemma index_select_wf:
  "tensor_wf t \<Longrightarrow> t_shape t = d # sh \<Longrightarrow> \<forall>i\<in>set idx. i < d \<Longrightarrow> tensor_wf (index_select t idx)"
  by (auto simp: index_select_def tensor_wf_def [of "\<lparr>t_shape = _, t_data = _\<rparr>"] t_row_length
      intro!: concat_map_length)

lemma t_row_index_select:
  assumes "tensor_wf t" and "t_shape t = d # sh" and "\<forall>i\<in>set idx. i < d" and "j < length idx"
  shows "t_row (index_select t idx) j = t_row t (idx ! j)"
proof -
  have "block (prod_list sh) (concat (map (t_row t) idx)) j = t_row t (idx ! j)"
    using assms(3,4) by (intro block_concat) (auto intro: t_row_length [OF assms(1,2)])
  then show ?thesis unfolding t_row_def [of "index_select t idx"] by (simp add: index_select_def assms(2))
qed

lemma t_rows_data: "tensor_wf t \<Longrightarrow> t_shape t = d # sh \<Longrightarrow> concat (t_rows t) = t_data t"
  unfolding t_rows_def t_row_def by (simp add: concat_blocks tensor_wf_def flip: map_map)

section \<open>Lemmas on the traversal\<close>

lemma map_batch_leaf:
  assumes "map_batch_values f b = Inr b'" and "map_of b k = Some (Leaf l)"
  shows "case f k l of Inr (Some l') \<Rightarrow> map_of b' k = Some (Leaf l') | Inr None \<Rightarrow> True | Inl e \<Rightarrow> False"
  using assms
proof (induction b arbitrary: b')
  case (Cons p rest)
  obtain k' v where p: "p = (k', v)" by fastforce
  show ?case
  proof (cases "\<exists>r. map_batch_values f rest = Inr r")
    case True
    then obtain r where "map_batch_values f rest = Inr r" by blast
    with Cons show ?thesis
      by (cases v) (auto simp: p split: sum.splits option.splits if_splits)
  next
    case False
    with Cons.prems(1) show ?thesis
      by (cases v) (auto simp: p split: sum.splits)
  qed
qed simp

lemma map_batch_sub:
  assumes "map_batch_values f b = Inr b'" and "map_of b k = Some (Sub c)"
  shows "\<exists>c'. map_batch_values f c = Inr c' \<and> map_of b' k = Some (Sub c')"
  using assms
proof (induction b arbitrary: b')
  case (Cons p rest)
  obtain k' v where p: "p = (k', v)" by fastforce
  show ?case
  proof (cases "\<exists>r. map_batch_values f rest = Inr r")
    case True
    then obtain r where "map_batch_values f rest = Inr r" by blast
    with Cons show ?thesis
      by (cases v) (auto simp: p split: sum.splits option.splits if_splits)
  next
    case False
    with Cons.prems(1) show ?thesis
      by (cases v) (auto simp: p split: sum.splits)
  qed
qed simp

end
