(* ===== verification/Packing_Groups.thy ===== *)
theory Packing_Groups
  imports Batch_Values "HOL-Library.List_Lexorder" "HOL-Library.Multiset"
begin

text \<open>
  Which rows share a model call (\<open>common/packing/groups.py\<close>): how many real tokens a row has, the
  first-fit-decreasing plan under a token budget, splitting a plan to a number of calls, and applying
  a plan to a batch with the order that undoes it.
\<close>

section \<open>Real tokens of a row\<close>

text \<open>The mask of one row of positions: the cumulative product of "advances by one".\<close>

fun run_mask :: "rat \<Rightarrow> bool \<Rightarrow> rat list \<Rightarrow> rat list" where
  "run_mask expected ok [] = []"
| "run_mask expected ok (x # xs) =
     (let ok' = (ok \<and> x = expected) in (if ok' then 1 else 0) # run_mask (expected + 1) ok' xs)"

definition advances_by_one :: "rat list \<Rightarrow> rat list" where
  "advances_by_one r = (case r of [] \<Rightarrow> [] | p # _ \<Rightarrow> run_mask p True r)"

definition token_validity_mask :: "batch \<Rightarrow> tensor res" where
  "token_validity_mask b =
     (case batch_tensor b ''attention_mask'' 2 of
        Some t \<Rightarrow> if t_ndim t = 2 then Inr t
                  else (case batch_position_ids b of
                          Some p \<Rightarrow> Inr \<lparr>t_shape = t_shape p, t_data = concat (map advances_by_one (t_rows p))\<rparr>
                        | None \<Rightarrow> Inl ValueError)
      | None \<Rightarrow> (case batch_position_ids b of
                   Some p \<Rightarrow> Inr \<lparr>t_shape = t_shape p, t_data = concat (map advances_by_one (t_rows p))\<rparr>
                 | None \<Rightarrow> Inl ValueError))"

definition shard_valid_lengths :: "batch \<Rightarrow> int list res" where
  "shard_valid_lengths b =
     (case token_validity_mask b of Inl e \<Rightarrow> Inl e
      | Inr m \<Rightarrow> Inr (if t_shape m ! 0 = 0 then [] else map (\<lambda>r. to_long (sum_list r)) (t_rows m)))"

section \<open>Plans\<close>

definition select_rows :: "batch \<Rightarrow> nat list \<Rightarrow> nat \<Rightarrow> batch res" where
  "select_rows b index n_rows =
     map_batch_values (\<lambda>k l. case l of
         TensorLeaf t \<Rightarrow>
           (if 1 \<le> t_ndim t \<and> t_shape t ! 0 = n_rows then Inr (Some (TensorLeaf (index_select t index)))
            else Inr (Some l))
       | _ \<Rightarrow> Inr (Some l)) b"

definition singleton_microbatch_groups :: "int \<Rightarrow> nat list list res" where
  "singleton_microbatch_groups n_rows =
     (if n_rows < 0 then Inl ValueError else Inr (map (\<lambda>r. [r]) [0..<nat n_rows]))"

text \<open>The inner loop over the open groups, each with its load: first fit, or a new group.\<close>

fun first_fit :: "int \<Rightarrow> int \<Rightarrow> nat \<Rightarrow> (nat list \<times> int) list \<Rightarrow> (nat list \<times> int) list" where
  "first_fit budget len row [] = [([row], len)]"
| "first_fit budget len row ((g, load) # gs) =
     (if load + len \<le> budget then (g @ [row], load + len) # gs
      else (g, load) # first_fit budget len row gs)"

definition place_rows :: "int list \<Rightarrow> int \<Rightarrow> nat list \<Rightarrow> (nat list \<times> int) list" where
  "place_rows lengths budget rows = fold (\<lambda>row. first_fit budget (lengths ! row) row) rows []"

definition token_budget_groups :: "int list \<Rightarrow> int \<Rightarrow> nat list list res" where
  "token_budget_groups lengths max_tokens =
     (if max_tokens \<le> 0 then Inl ValueError
      else Inr (sort (map (\<lambda>(g, load). sort g)
             (place_rows lengths max_tokens (sorted_desc (\<lambda>i. lengths ! i) [0..<length lengths])))))"

definition group_load :: "int list \<Rightarrow> nat list \<Rightarrow> int" where
  "group_load lengths g = (\<Sum>row\<leftarrow>g. lengths ! row)"

function split_loop :: "int list \<Rightarrow> nat \<Rightarrow> nat list list \<Rightarrow> nat list list" where
  "split_loop lengths target gs =
     (if length gs < target
      then (case filter (\<lambda>i. 1 < length (gs ! i)) [0..<length gs] of
              [] \<Rightarrow> gs
            | i # is \<Rightarrow>
                (let src = first_max (\<lambda>i. group_load lengths (gs ! i)) i is;
                     longest = first_max (\<lambda>row. lengths ! row) (hd (gs ! src)) (tl (gs ! src))
                 in split_loop lengths target (gs[src := remove1 longest (gs ! src)] @ [[longest]])))
      else gs)"
  by pat_completeness auto
termination by (relation "measure (\<lambda>(lengths, target, gs). target - length gs)") auto

declare split_loop.simps [simp del]

definition split_groups_to_count :: "nat list list \<Rightarrow> int list \<Rightarrow> nat \<Rightarrow> nat list list res" where
  "split_groups_to_count groups lengths target =
     (if target < length groups then Inl ValueError
      else Inr (sort (map sort (split_loop lengths target groups))))"

definition token_budget_microbatch_groups :: "batch \<Rightarrow> int \<Rightarrow> nat \<Rightarrow> nat list list res" where
  "token_budget_microbatch_groups b max_tokens min_groups =
     (case shard_valid_lengths b of Inl e \<Rightarrow> Inl e
      | Inr lens \<Rightarrow>
          (if length lens = 0 then Inr []
           else (case token_budget_groups lens max_tokens of Inl e \<Rightarrow> Inl e
                 | Inr gs \<Rightarrow>
                     (case (if length gs < min_groups then split_groups_to_count gs lens min_groups else Inr gs) of
                        Inl e \<Rightarrow> Inl e
                      | Inr gs' \<Rightarrow>
                          (if sort (concat gs') \<noteq> [0..<length lens] then Inl ValueError else Inr gs')))))"

definition restore_order_of :: "nat \<Rightarrow> nat list \<Rightarrow> nat list" where
  "restore_order_of n_rows forward =
     fold (\<lambda>(position, row) ro. ro[row := position]) (enumerate_from 0 forward) (replicate n_rows 0)"

fun select_groups :: "batch \<Rightarrow> nat list list \<Rightarrow> nat \<Rightarrow> batch list res" where
  "select_groups b [] n_rows = Inr []"
| "select_groups b (g # gs) n_rows =
     (case select_rows b g n_rows of Inl e \<Rightarrow> Inl e
      | Inr mb \<Rightarrow> (case select_groups b gs n_rows of Inl e \<Rightarrow> Inl e | Inr mbs \<Rightarrow> Inr (mb # mbs)))"

definition split_microbatches :: "batch \<Rightarrow> nat list list \<Rightarrow> nat \<Rightarrow> (batch list \<times> nat list option) res" where
  "split_microbatches b groups n_rows =
     (let forward = concat groups
      in if sort forward \<noteq> [0..<n_rows] then Inl ValueError
         else (case select_groups b groups n_rows of Inl e \<Rightarrow> Inl e
               | Inr mbs \<Rightarrow>
                   Inr (mbs, if forward \<noteq> [0..<n_rows] then Some (restore_order_of n_rows forward) else None)))"

section \<open>Lemmas on first fit\<close>

lemma first_fit_mset:
  "mset (concat (map fst (first_fit b l r gs))) = add_mset r (mset (concat (map fst gs)))"
  by (induction b l r gs rule: first_fit.induct) auto

lemma first_fit_groups:
  assumes "\<forall>(g, load)\<in>set gs. g \<noteq> [] \<and> load = group_load lens g \<and> (load \<le> b \<or> length g = 1)"
  shows "\<forall>(g, load)\<in>set (first_fit b (lens ! r) r gs).
    g \<noteq> [] \<and> load = group_load lens g \<and> (load \<le> b \<or> length g = 1)"
  using assms by (induction b "lens ! r" r gs rule: first_fit.induct) (auto simp: group_load_def)

lemma first_fit_loads:
  assumes "0 \<le> l" and "y \<in> set (first_fit b l r gs)"
  shows "snd y = l \<or> (\<exists>x\<in>set gs. snd x \<le> snd y)"
  using assms by (induction b l r gs rule: first_fit.induct) (auto split: if_splits intro: bexI)

lemma first_fit_tight:
  assumes "0 \<le> l" and "sorted_wrt (\<lambda>x y. b < snd x + snd y) gs"
  shows "sorted_wrt (\<lambda>x y. b < snd x + snd y) (first_fit b l r gs)"
  using assms
proof (induction b l r gs rule: first_fit.induct)
  case (2 b l r g load gs)
  show ?case
  proof (cases "load + l \<le> b")
    case True
    with 2 show ?thesis by force
  next
    case False
    have "b < load + snd y" if "y \<in> set (first_fit b l r gs)" for y
      using first_fit_loads [OF 2(2) that] False 2(3) by force
    with False 2 show ?thesis by simp
  qed
qed simp

lemma sorted_wrt_mset:
  assumes "\<And>x y. P x y \<Longrightarrow> P y x" and "mset xs = mset ys" and "sorted_wrt P xs"
  shows "sorted_wrt P ys"
  using assms(2,3)
proof (induction ys arbitrary: xs)
  case (Cons y ys)
  then have "y \<in> set xs" by (metis list.set_intros(1) set_mset_mset)
  then obtain a c where xs: "xs = a @ y # c" by (meson split_list)
  with Cons.prems have m: "mset (a @ c) = mset ys" by simp
  have "sorted_wrt P (a @ c)" using Cons.prems(2) by (simp add: xs sorted_wrt_append)
  with Cons.IH m have "sorted_wrt P ys" by blast
  moreover have "P y z" if "z \<in> set ys" for z
  proof -
    have "z \<in> set (a @ c)" using m that by (metis set_mset_mset)
    then show ?thesis using Cons.prems(2) assms(1) by (auto simp: xs sorted_wrt_append)
  qed
  ultimately show ?case by simp
qed simp

lemma place_rows_spec:
  assumes "\<forall>r\<in>set rows. 0 \<le> lens ! r"
  shows "mset (concat (map fst (place_rows lens b rows))) = mset rows \<and>
    (\<forall>(g, load)\<in>set (place_rows lens b rows). g \<noteq> [] \<and> load = group_load lens g \<and> (load \<le> b \<or> length g = 1)) \<and>
    sorted_wrt (\<lambda>x y. b < snd x + snd y) (place_rows lens b rows)"
proof -
  have "mset (concat (map fst (fold (\<lambda>row. first_fit b (lens ! row) row) rows gs))) =
        mset (concat (map fst gs)) + mset rows \<and>
    (\<forall>(g, load)\<in>set (fold (\<lambda>row. first_fit b (lens ! row) row) rows gs).
        g \<noteq> [] \<and> load = group_load lens g \<and> (load \<le> b \<or> length g = 1)) \<and>
    sorted_wrt (\<lambda>x y. b < snd x + snd y) (fold (\<lambda>row. first_fit b (lens ! row) row) rows gs)"
    if "\<forall>(g, load)\<in>set gs. g \<noteq> [] \<and> load = group_load lens g \<and> (load \<le> b \<or> length g = 1)"
      "sorted_wrt (\<lambda>x y. b < snd x + snd y) gs" for gs
    using assms that
  proof (induction rows arbitrary: gs)
    case (Cons r rows)
    let ?gs = "first_fit b (lens ! r) r gs"
    have "0 \<le> lens ! r" using Cons.prems(1) by simp
    note IH = Cons.IH [OF _ first_fit_groups [OF Cons.prems(2)] first_fit_tight [OF this Cons.prems(3)]]
    show ?case using IH Cons.prems(1) by (simp add: first_fit_mset)
  qed simp
  from this [of "[]"] show ?thesis by (simp add: place_rows_def)
qed

lemma mset_concat_perm:
  "mset (concat (sort (map f gs))) = mset (concat (map f gs))"
  by (simp add: mset_concat image_mset.compositionality flip: sum_mset_sum_list)

lemma sort_eq_Nil [simp]: "sort xs = [] \<longleftrightarrow> xs = []"
  using length_sort [of "\<lambda>x. x" xs] by (metis length_0_conv)

lemma group_load_mset: "mset g = mset h \<Longrightarrow> group_load lens g = group_load lens h"
  unfolding group_load_def by (simp flip: sum_mset_sum_list)

lemma group_load_sort [simp]: "group_load lens (sort g) = group_load lens g"
  by (rule group_load_mset) simp

section \<open>Lemmas on splitting\<close>

lemma mset_concat_update:
  assumes "i < length gs"
  shows "mset (concat (gs[i := h])) + mset (gs ! i) = mset (concat gs) + mset h"
proof -
  have "mset (concat gs) = mset (concat (take i gs @ gs ! i # drop (Suc i) gs))"
    using assms by (simp add: id_take_nth_drop [symmetric])
  then show ?thesis using assms by (simp add: upd_conv_take_nth_drop)
qed

lemma split_step:
  assumes i: "i < length gs" and x: "x \<in> set (gs ! i)" and l: "1 < length (gs ! i)"
  shows "mset (concat (gs[i := remove1 x (gs ! i)] @ [[x]])) = mset (concat gs)"
    and "h \<in> set (gs[i := remove1 x (gs ! i)] @ [[x]]) \<Longrightarrow> [] \<notin> set gs \<Longrightarrow>
      h \<noteq> [] \<and> (\<exists>g\<in>set gs. mset h \<subseteq># mset g)"
proof -
  obtain G where "mset (gs ! i) = add_mset x G" using x multi_member_split [of x "mset (gs ! i)"] by auto
  then show "mset (concat (gs[i := remove1 x (gs ! i)] @ [[x]])) = mset (concat gs)"
    using mset_concat_update [OF i, of "remove1 x (gs ! i)"] by simp
  assume h: "h \<in> set (gs[i := remove1 x (gs ! i)] @ [[x]])" and ne: "[] \<notin> set gs"
  have r: "remove1 x (gs ! i) \<noteq> []" using l x by (auto simp: length_remove1 simp flip: length_0_conv)
  have g: "gs ! i \<in> set gs" using i by simp
  from h consider "h = [x]" | "h = remove1 x (gs ! i)" | "h \<in> set gs"
    using set_update_subset_insert [of gs i "remove1 x (gs ! i)"] by auto
  then show "h \<noteq> [] \<and> (\<exists>g\<in>set gs. mset h \<subseteq># mset g)"
  proof cases
    case 1
    with x g show ?thesis by (intro conjI bexI [of _ "gs ! i"]) auto
  next
    case 2
    with r g show ?thesis by (intro conjI bexI [of _ "gs ! i"]) auto
  next
    case 3
    with ne show ?thesis by (intro conjI bexI [of _ h]) auto
  qed
qed

lemma first_max_hd_in: "xs \<noteq> [] \<Longrightarrow> first_max f (hd xs) (tl xs) \<in> set xs"
  using first_max_in [of f "hd xs" "tl xs"] by (cases xs) auto

text \<open>One turn of the loop: some group of several rows gives one of its rows to a new group.\<close>

lemma split_loop_cases:
  obtains (stop) "split_loop lens target gs = gs" "length gs < target \<longrightarrow> (\<forall>g\<in>set gs. length g \<le> 1)"
  | (go) i x where "length gs < target" "i < length gs" "x \<in> set (gs ! i)" "1 < length (gs ! i)"
      "split_loop lens target gs = split_loop lens target (gs[i := remove1 x (gs ! i)] @ [[x]])"
proof (cases "length gs < target \<and> filter (\<lambda>i. 1 < length (gs ! i)) [0..<length gs] \<noteq> []")
  case False
  then show thesis
    by (intro stop) (auto simp: split_loop.simps [of lens target gs] filter_empty_conv all_set_conv_all_nth not_less)
next
  case True
  then obtain j js where js: "filter (\<lambda>i. 1 < length (gs ! i)) [0..<length gs] = j # js"
    by (cases "filter (\<lambda>i. 1 < length (gs ! i)) [0..<length gs]") auto
  define i where "i = first_max (\<lambda>i. group_load lens (gs ! i)) j js"
  have "i \<in> set (filter (\<lambda>i. 1 < length (gs ! i)) [0..<length gs])"
    unfolding js i_def using first_max_in [of "\<lambda>i. group_load lens (gs ! i)" j js] by simp
  then have i: "i < length gs" "1 < length (gs ! i)" by auto
  define x where "x = first_max (\<lambda>row. lens ! row) (hd (gs ! i)) (tl (gs ! i))"
  have "x \<in> set (gs ! i)" unfolding x_def using i by (intro first_max_hd_in) auto
  moreover have "split_loop lens target gs = split_loop lens target (gs[i := remove1 x (gs ! i)] @ [[x]])"
    using True js by (subst split_loop.simps) (simp add: i_def x_def Let_def)
  ultimately show thesis using True i go by blast
qed

lemma split_loop_spec:
  assumes "[] \<notin> set gs" and "length gs \<le> target" and "R = split_loop lens target gs"
  shows "mset (concat R) = mset (concat gs) \<and> length R \<le> target \<and>
    (length R < target \<longrightarrow> (\<forall>h\<in>set R. length h = 1)) \<and>
    (\<forall>h\<in>set R. h \<noteq> [] \<and> (\<exists>g\<in>set gs. mset h \<subseteq># mset g))"
  using assms
proof (induction "target - length gs" arbitrary: gs)
  case 0
  then have "R = gs" by (simp add: split_loop.simps)
  with 0 show ?case by auto
next
  case (Suc n)
  show ?case
  proof (cases rule: split_loop_cases [of lens target gs])
    case stop
    with Suc.prems show ?thesis by (auto simp: le_Suc_eq)
  next
    case (go i x)
    let ?gs = "gs[i := remove1 x (gs ! i)] @ [[x]]"
    note st = split_step [OF go(2-4)]
    have "[] \<notin> set ?gs" using st(2) [of "[]"] Suc.prems(1) by blast
    moreover have "n = target - length ?gs" "length ?gs \<le> target" using Suc.hyps(2) go(1) by auto
    ultimately have IH: "mset (concat R) = mset (concat ?gs) \<and> length R \<le> target \<and>
      (length R < target \<longrightarrow> (\<forall>h\<in>set R. length h = 1)) \<and>
      (\<forall>h\<in>set R. h \<noteq> [] \<and> (\<exists>g\<in>set ?gs. mset h \<subseteq># mset g))"
      using Suc.hyps(1) [of ?gs] Suc.prems(3) go(5) by simp
    have "\<exists>g\<in>set gs. mset h \<subseteq># mset g" if "h \<in> set R" for h
      using IH that st(2) Suc.prems(1) by (meson subset_mset.order_trans)
    with IH st(1) show ?thesis by auto
  qed
qed

section \<open>Properties of plans\<close>

lemma token_budget_groups_spec:
  assumes "token_budget_groups lens b = Inr G" and "\<forall>l\<in>set lens. 0 \<le> l"
  shows "mset (concat G) = mset [0..<length lens] \<and> sorted G \<and>
    (\<forall>g\<in>set G. g \<noteq> [] \<and> sorted g \<and> (group_load lens g \<le> b \<or> length g = 1)) \<and>
    sorted_wrt (\<lambda>g h. b < group_load lens g + group_load lens h) G"
proof -
  define rows where "rows = sorted_desc (\<lambda>i. lens ! i) [0..<length lens]"
  define P where "P = place_rows lens b rows"
  have pos: "\<forall>r\<in>set rows. 0 \<le> lens ! r" using assms(2) by (simp add: rows_def)
  note spec = place_rows_spec [OF pos, of b, folded P_def]
  have G: "G = sort (map (\<lambda>(g, load). sort g) P)"
    using assms(1) by (auto simp: token_budget_groups_def P_def rows_def split: if_splits)
  note groups = conjunct1 [OF conjunct2 [OF spec]] and tight = conjunct2 [OF conjunct2 [OF spec]]
  have loads: "snd x = group_load lens (fst x)" if "x \<in> set P" for x using bspec [OF groups that] by auto
  have "mset (concat (map (\<lambda>(g, load). sort g) P)) = mset (concat (map fst P))"
    by (induction P) auto
  then have "mset (concat G) = mset [0..<length lens]"
    using spec unfolding G mset_concat_perm by (simp add: rows_def)
  moreover have "\<forall>g\<in>set G. g \<noteq> [] \<and> sorted g \<and> (group_load lens g \<le> b \<or> length g = 1)"
  proof
    fix g assume "g \<in> set G"
    then obtain h l where h: "(h, l) \<in> set P" "g = sort h" by (auto simp: G)
    from bspec [OF groups h(1)] show "g \<noteq> [] \<and> sorted g \<and> (group_load lens g \<le> b \<or> length g = 1)" by (auto simp: h(2))
  qed
  moreover have "sorted_wrt (\<lambda>g h. b < group_load lens g + group_load lens h) G"
  proof (rule sorted_wrt_mset)
    show "mset (map (\<lambda>(g, load). sort g) P) = mset G" by (simp add: G)
    have "sorted_wrt (\<lambda>x y. b < group_load lens (fst x) + group_load lens (fst y)) P"
      by (rule sorted_wrt_mono_rel [OF _ tight]) (simp add: loads)
    then show "sorted_wrt (\<lambda>g h. b < group_load lens g + group_load lens h) (map (\<lambda>(g, load). sort g) P)"
      by (simp add: sorted_wrt_map case_prod_beta)
  qed (simp add: add.commute)
  ultimately show ?thesis by (simp add: G)
qed

text \<open>
  First-fit-decreasing planning: for non-negative row lengths and a positive budget the plan is a
  list, in ascending order, of non-empty ascending groups that together hold every row exactly once;
  each group is within the budget unless it is a single row; and no two groups could be merged, any
  two of them together exceed the budget.
\<close>

theorem token_budget_plan:
  assumes "\<forall>l\<in>set lens. 0 \<le> l" and "0 < b"
  shows "\<exists>G. token_budget_groups lens b = Inr G \<and> mset (concat G) = mset [0..<length lens] \<and> sorted G \<and>
    (\<forall>g\<in>set G. g \<noteq> [] \<and> sorted g \<and> (group_load lens g \<le> b \<or> length g = 1)) \<and>
    (\<forall>i j. i < j \<longrightarrow> j < length G \<longrightarrow> b < group_load lens (G ! i) + group_load lens (G ! j))"
proof -
  obtain G where G: "token_budget_groups lens b = Inr G" using assms(2) by (simp add: token_budget_groups_def)
  from token_budget_groups_spec [OF G assms(1)] G show ?thesis by (auto simp: sorted_wrt_iff_nth_less)
qed

theorem token_budget_plan_witness:
  "\<exists>G. token_budget_groups [3, 9, 2, 4] 6 = Inr G \<and> mset (concat G) = {#0, 1, 2, 3#}"
proof -
  have "mset [0..<length [3, 9, 2, 4 :: int]] = {#0, 1, 2, 3#}" by (simp add: upt_rec numeral_nat)
  with token_budget_plan [of "[3, 9, 2, 4]" 6] show ?thesis by auto
qed

lemma group_load_subset:
  assumes "mset h \<subseteq># mset g" and "\<forall>r\<in>set g. 0 \<le> lens ! r"
  shows "group_load lens h \<le> group_load lens g"
proof -
  obtain D where D: "mset g = mset h + D" using assms(1) by (auto simp: mset_subset_eq_exists_conv)
  have load: "group_load lens xs = (\<Sum>r\<in>#mset xs. lens ! r)" for xs
    unfolding group_load_def by (simp flip: sum_mset_sum_list)
  have "set_mset D \<subseteq> set g" by (metis D set_mset_mset set_mset_union sup_ge2)
  then have "0 \<le> (\<Sum>r\<in>#D. lens ! r)" using assms(2) by (induction D) auto
  then show ?thesis by (simp add: load D)
qed

lemma sort_concat_upt: "mset (concat G) = mset [0..<n] \<Longrightarrow> sort (concat G) = [0..<n]"
  by (metis sorted_list_of_multiset_mset sorted_sort_id sorted_upt)

text \<open>
  The schedule of a shard: with a positive budget and non-negative token counts the planner always
  returns, its final partition check never fails, every row is in exactly one call, each call of
  several rows is within the budget also after splitting, and the required number of calls is
  reached unless every call is down to one row.
\<close>

theorem shard_schedule:
  assumes lens: "shard_valid_lengths b = Inr lens" and pos: "\<forall>l\<in>set lens. 0 \<le> l" and budget: "0 < m"
  shows "\<exists>G. token_budget_microbatch_groups b m k = Inr G \<and> mset (concat G) = mset [0..<length lens] \<and>
    (\<forall>g\<in>set G. g \<noteq> [] \<and> (group_load lens g \<le> m \<or> length g = 1)) \<and>
    (k \<le> length G \<or> (\<forall>g\<in>set G. length g = 1))"
proof (cases "lens = []")
  case True
  with lens show ?thesis by (simp add: token_budget_microbatch_groups_def)
next
  case False
  obtain G where G: "token_budget_groups lens m = Inr G" using budget by (simp add: token_budget_groups_def)
  note spec = token_budget_groups_spec [OF G pos]
  have plan: "token_budget_microbatch_groups b m k =
      (case (if length G < k then split_groups_to_count G lens k else Inr G) of Inl e \<Rightarrow> Inl e
       | Inr G' \<Rightarrow> if sort (concat G') \<noteq> [0..<length lens] then Inl ValueError else Inr G')"
    using lens False G by (simp add: token_budget_microbatch_groups_def)
  show ?thesis
  proof (cases "length G < k")
    case False
    with spec plan sort_concat_upt [of G "length lens"] show ?thesis by auto
  next
    case True
    define R where "R = split_loop lens k G"
    have "[] \<notin> set G" using spec by auto
    from split_loop_spec [OF this _ R_def] True have R: "mset (concat R) = mset (concat G)"
      "length R \<le> k" "length R < k \<longrightarrow> (\<forall>h\<in>set R. length h = 1)"
      "\<forall>h\<in>set R. h \<noteq> [] \<and> (\<exists>g\<in>set G. mset h \<subseteq># mset g)" by auto
    let ?G = "sort (map sort R)"
    have "mset (concat (map sort R)) = mset (concat R)" by (induction R) auto
    then have part: "mset (concat ?G) = mset [0..<length lens]"
      using R(1) spec unfolding mset_concat_perm by simp
    have rows: "\<forall>r\<in>set g. 0 \<le> lens ! r" if "g \<in> set G" for g
    proof -
      have "set g \<subseteq> set (concat G)" using that by auto
      also have "\<dots> = set [0..<length lens]" using spec by (intro mset_eq_setD) simp
      finally show ?thesis using pos by auto
    qed
    have "group_load lens h \<le> m \<or> length h = 1" if h: "h \<in> set R" for h
    proof -
      from R(4) h obtain g where g: "g \<in> set G" "mset h \<subseteq># mset g" "h \<noteq> []" by blast
      have "length h \<le> length g" using g(2) size_mset_mono by fastforce
      moreover have "0 < length h" using g(3) by simp
      moreover have "group_load lens g \<le> m \<or> length g = 1" using spec g(1) by blast
      ultimately show ?thesis using group_load_subset [OF g(2) rows [OF g(1)]] by linarith
    qed
    moreover have "token_budget_microbatch_groups b m k = Inr ?G"
      using plan True sort_concat_upt [OF part] by (simp add: split_groups_to_count_def R_def)
    ultimately show ?thesis using part R(2,3,4) by (intro exI [of _ ?G]) auto
  qed
qed

definition ex_rows :: batch where
  "ex_rows =
     [(''input_ids'', Leaf (TensorLeaf \<lparr>t_shape = [3, 2], t_data = [7, 8, 9, 0, 5, 6]\<rparr>)),
      (''context'', Sub [(''attention_mask'', Leaf (TensorLeaf \<lparr>t_shape = [3, 2], t_data = [1, 1, 1, 0, 1, 1]\<rparr>))])]"

lemma ex_rows_lengths: "shard_valid_lengths ex_rows = Inr [2, 1, 2]"
  by code_simp

theorem shard_schedule_witness:
  "\<exists>G. token_budget_microbatch_groups ex_rows 3 3 = Inr G \<and> mset (concat G) = {#0, 1, 2#}"
proof -
  have "mset [0..<length [2, 1, 2 :: int]] = {#0, 1, 2#}" by (simp add: upt_rec numeral_nat)
  with shard_schedule [OF ex_rows_lengths, of 3 3] show ?thesis by auto
qed

section \<open>Applying a plan and undoing it\<close>

lemma enumerate_from_snoc: "enumerate_from n (xs @ [x]) = enumerate_from n xs @ [(n + length xs, x)]"
  by (simp add: enumerate_from_def)

lemma length_restore [simp]: "length (restore_order_of n fwd) = n"
proof -
  have "length (fold (\<lambda>(position, row) ro. ro[row := position]) ps ro) = length ro"
    for ps :: "(nat \<times> nat) list" and ro :: "nat list"
    by (induction ps arbitrary: ro) auto
  then show ?thesis by (simp add: restore_order_of_def)
qed

lemma restore_order_inverse:
  assumes "distinct fwd" and "set fwd \<subseteq> {0..<n}" and "p < length fwd"
  shows "restore_order_of n fwd ! (fwd ! p) = p"
  using assms
proof (induction fwd rule: rev_induct)
  case (snoc x xs)
  have eq: "restore_order_of n (xs @ [x]) = (restore_order_of n xs)[x := length xs]"
    by (simp add: restore_order_of_def enumerate_from_snoc)
  show ?case
  proof (cases "p = length xs")
    case True
    with snoc.prems show ?thesis by (simp add: eq)
  next
    case False
    with snoc.prems have p: "p < length xs" by simp
    then have "xs ! p \<noteq> x" using snoc.prems(1) nth_mem by fastforce
    with p snoc show ?thesis by (simp add: eq nth_append)
  qed
qed simp

definition leaf_rows :: "string \<Rightarrow> batch \<Rightarrow> rat list list" where
  "leaf_rows k b = (case map_of b k of Some (Leaf (TensorLeaf t)) \<Rightarrow> t_rows t | _ \<Rightarrow> [])"

lemma index_select_rows:
  assumes "tensor_wf t" and "t_shape t = n # sh" and "\<forall>r\<in>set g. r < n"
  shows "t_rows (index_select t g) = map (t_row t) g"
proof (rule nth_equalityI)
  fix i assume "i < length (t_rows (index_select t g))"
  then have "i < length g" by (simp add: t_rows_def index_select_def)
  then show "t_rows (index_select t g) ! i = map (t_row t) g ! i"
    using t_row_index_select [OF assms] by (simp add: t_rows_def index_select_def [of t g])
qed (simp add: t_rows_def index_select_def)

lemma select_groups_rows:
  assumes "select_groups b gs n = Inr mbs" and "map_of b k = Some (Leaf (TensorLeaf t))"
    and "tensor_wf t" and "t_shape t = n # sh" and "\<forall>r\<in>set (concat gs). r < n"
  shows "concat (map (leaf_rows k) mbs) = map (t_row t) (concat gs)"
  using assms(1,5)
proof (induction gs arbitrary: mbs)
  case (Cons g gs)
  from Cons.prems(1) obtain mb ms where mb: "select_rows b g n = Inr mb"
    and ms: "select_groups b gs n = Inr ms" "mbs = mb # ms" by (auto split: sum.splits)
  have "map_of mb k = Some (Leaf (TensorLeaf (index_select t g)))"
    using map_batch_leaf [OF mb [unfolded select_rows_def] assms(2)] assms(4) by simp
  then have "leaf_rows k mb = map (t_row t) g"
    using index_select_rows [OF assms(3,4), of g] Cons.prems(2) by (simp add: leaf_rows_def)
  with Cons.IH [OF ms(1)] Cons.prems(2) ms(2) show ?case by simp
qed simp

text \<open>
  Splitting a batch by a plan loses no row and the returned order undoes it: for every row-aligned
  tensor of the batch, the rows of the microbatches laid end to end are as many as the batch has,
  and row \<open>r\<close> of the batch is found at position \<open>restore_order[r]\<close>, or at \<open>r\<close> itself when no order
  is returned.
\<close>

theorem split_microbatches_restore:
  assumes s: "split_microbatches b G n = Inr (mbs, ro)" and k: "map_of b k = Some (Leaf (TensorLeaf t))"
    and t: "tensor_wf t" "t_shape t = n # sh"
  shows "length (concat (map (leaf_rows k) mbs)) = n \<and>
    (\<forall>r<n. concat (map (leaf_rows k) mbs) ! (case ro of None \<Rightarrow> r | Some order \<Rightarrow> order ! r) = t_row t r)"
proof -
  from s have fwd: "sort (concat G) = [0..<n]" and mbs: "select_groups b G n = Inr mbs"
    and ro: "ro = (if concat G \<noteq> [0..<n] then Some (restore_order_of n (concat G)) else None)"
    by (auto simp: split_microbatches_def Let_def split: if_splits sum.splits)
  have perm: "mset (concat G) = mset [0..<n]" using fwd by (metis mset_sort)
  then have set: "set (concat G) = {0..<n}" and len: "length (concat G) = n"
    using mset_eq_setD [OF perm] mset_eq_length [OF perm] by simp_all
  have dist: "distinct (concat G)" using mset_eq_imp_distinct_iff [OF perm] by simp
  have rows: "concat (map (leaf_rows k) mbs) = map (t_row t) (concat G)"
    by (rule select_groups_rows [OF mbs k t]) (use set in auto)
  have "concat (map (leaf_rows k) mbs) ! (case ro of None \<Rightarrow> r | Some order \<Rightarrow> order ! r) = t_row t r" if r: "r < n" for r
  proof (cases ro)
    case None
    with ro have "concat G = [0..<n]" by (simp split: if_splits)
    with None r rows show ?thesis by simp
  next
    case (Some order)
    with ro have order: "order = restore_order_of n (concat G)" by (simp split: if_splits)
    have "r \<in> set (concat G)" using set r by simp
    then obtain p where p: "p < n" "concat G ! p = r" using len by (metis in_set_conv_nth)
    with restore_order_inverse [OF dist, of n p] set len order have "order ! r = p" by simp
    with Some p len rows show ?thesis by simp
  qed
  with rows len show ?thesis by (simp del: map_concat)
qed

theorem split_microbatches_restore_witness:
  "\<exists>mbs. split_microbatches ex_rows [[2], [0, 1]] 3 = Inr (mbs, Some [1, 2, 0]) \<and>
     concat (map (leaf_rows ''input_ids'') mbs) ! ([1, 2, 0] ! 1) = [9, 0]"
proof -
  let ?t = "\<lparr>t_shape = [3, 2], t_data = [7, 8, 9, 0, 5, 6]\<rparr>"
  have "case split_microbatches ex_rows [[2], [0, 1]] 3 of Inr (m, ro) \<Rightarrow> ro = Some [1, 2, 0] | Inl _ \<Rightarrow> False"
    by code_simp
  then obtain mbs where m: "split_microbatches ex_rows [[2], [0, 1]] 3 = Inr (mbs, Some [1, 2, 0])"
    by (auto split: sum.splits)
  have "map_of ex_rows ''input_ids'' = Some (Leaf (TensorLeaf ?t))" by (simp add: ex_rows_def)
  from split_microbatches_restore [OF m this, of "[2]"] have
    "\<forall>r<3. concat (map (leaf_rows ''input_ids'') mbs) ! ([1, 2, 0] ! r) = t_row ?t r"
    by (simp add: tensor_wf_def)
  then have "concat (map (leaf_rows ''input_ids'') mbs) ! ([1, 2, 0] ! 1) = t_row ?t 1"
    by (elim allE [of _ 1]) simp
  with m show ?thesis by (simp add: t_row_def block_def)
qed

end
