(* ===== verification/Packing.thy ===== *)
theory Packing
  imports Packing_Groups
begin

text \<open>
  Packing a row group into one varlen model call, putting results back into rows
  (\<open>common/packing/pack.py\<close>), and splitting the packed call across sequence shards
  (\<open>common/packing/windows.py\<close>). Row boundaries are 32-bit in the code; they count the tokens of one
  call and are modelled as unbounded integers.
\<close>

section \<open>Packing\<close>

record pack_metadata =
  pm_batch_size :: nat
  pm_sequence_length :: nat
  pm_valid_lengths :: "int list"
  pm_cu_seqlens :: "int list"
  pm_padded_tokens :: int

definition sequence_pad_value :: "string \<Rightarrow> rat" where
  "sequence_pad_value key = (if key = ''labels'' then - 100 else if key = ''temperature'' then 1 else 0)"

definition ROW_BROADCAST_KEYS :: "string list" where
  "ROW_BROADCAST_KEYS = [''sampler_kl_weights'']"

fun cumsum_from :: "int \<Rightarrow> int list \<Rightarrow> int list" where
  "cumsum_from a [] = []"
| "cumsum_from a (x # xs) = (a + x) # cumsum_from (a + x) xs"

definition repeat_interleave :: "'a list \<Rightarrow> int list \<Rightarrow> 'a list" where
  "repeat_interleave xs ns = concat (map2 (\<lambda>x n. replicate (nat n) x) xs ns)"

definition packed_token_index :: "int list \<Rightarrow> int list \<Rightarrow> nat \<Rightarrow> nat list" where
  "packed_token_index lengths cu sequence_length =
     (let packed_tokens = nat (sum_list lengths);
          row_ids = repeat_interleave [0..<length lengths] lengths;
          row_starts = repeat_interleave (butlast cu) lengths;
          within_row = map2 (\<lambda>i s. int i - s) [0..<packed_tokens] row_starts
      in map2 (\<lambda>r w. nat (int (r * sequence_length) + w)) row_ids within_row)"

definition left_aligned :: "nat \<Rightarrow> int \<Rightarrow> rat list \<Rightarrow> bool" where
  "left_aligned sequence_length len r \<longleftrightarrow>
     map (\<lambda>x. x \<noteq> 0) r = map (\<lambda>j. int j < len) [0..<sequence_length]"

definition packed_value ::
  "nat \<Rightarrow> nat \<Rightarrow> int list \<Rightarrow> nat list \<Rightarrow> string \<Rightarrow> leaf \<Rightarrow> leaf option res" where
  "packed_value batch_size sequence_length lengths token_index key l =
     (if key = ''attention_mask'' then Inr None
      else case l of
        TensorLeaf t \<Rightarrow>
          (if key \<in> set ROW_BROADCAST_KEYS \<and> t_shape t = [batch_size]
           then (let d = repeat_interleave (t_data t) lengths
                 in Inr (Some (TensorLeaf (unsqueeze0 \<lparr>t_shape = [length d], t_data = d\<rparr>))))
           else if 2 \<le> t_ndim t \<and> take 2 (t_shape t) = [batch_size, sequence_length]
           then (let rows = t_reshape (batch_size * sequence_length # drop 2 (t_shape t)) t
                 in Inr (Some (TensorLeaf (unsqueeze0 (index_select rows token_index)))))
           else Inr (Some l))
      | _ \<Rightarrow> Inr (Some l))"

definition pack_microbatch :: "batch \<Rightarrow> (batch \<times> pack_metadata) res" where
  "pack_microbatch data =
     (case batch_tensor data ''attention_mask'' 2 of
        None \<Rightarrow> Inl ValueError
      | Some m \<Rightarrow>
          (if t_ndim m \<noteq> 2 then Inl ValueError
           else case batch_position_ids data of
             None \<Rightarrow> Inl ValueError
           | Some p \<Rightarrow>
               (if take 2 (t_shape p) \<noteq> t_shape m then Inl ValueError
                else (let batch_size = t_shape m ! 0; sequence_length = t_shape m ! 1;
                          lengths = map (\<lambda>r. sum_list (map to_long r)) (t_rows m)
                      in if \<not> list_all2 (left_aligned sequence_length) lengths (t_rows m) then Inl ValueError
                         else (let cu = 0 # cumsum_from 0 lengths;
                                   token_index = packed_token_index lengths cu sequence_length
                               in case map_batch_values
                                         (packed_value batch_size sequence_length lengths token_index) data of
                                    Inl e \<Rightarrow> Inl e
                                  | Inr packed \<Rightarrow>
                                      Inr (packed,
                                        \<lparr>pm_batch_size = batch_size, pm_sequence_length = sequence_length,
                                         pm_valid_lengths = lengths, pm_cu_seqlens = cu,
                                         pm_padded_tokens = last cu\<rparr>))))))"

definition padded_value :: "int \<Rightarrow> int \<Rightarrow> string \<Rightarrow> leaf \<Rightarrow> leaf option res" where
  "padded_value current pad_tokens key l =
     (case l of
        TensorLeaf t \<Rightarrow>
          (if 2 \<le> t_ndim t \<and> int (t_shape t ! 1) = current
           then Inr (Some (TensorLeaf (pad1 (nat pad_tokens) (sequence_pad_value key) t)))
           else Inr (Some l))
      | _ \<Rightarrow> Inr (Some l))"

definition pad_packed_microbatch ::
  "batch \<Rightarrow> pack_metadata \<Rightarrow> int \<Rightarrow> (batch \<times> pack_metadata) res" where
  "pad_packed_microbatch packed md multiple =
     (if multiple \<le> 0 then Inl ValueError
      else (let current = pm_padded_tokens md;
                padded = ((current + multiple - 1) div multiple) * multiple
            in if padded = current then Inr (packed, md)
               else (case map_batch_values (padded_value current (padded - current)) packed of
                       Inl e \<Rightarrow> Inl e
                     | Inr packed' \<Rightarrow> Inr (packed', md\<lparr>pm_padded_tokens := padded\<rparr>))))"

text \<open>\<open>torch.diff\<close>, and \<open>index_copy_\<close> on the rows of a flattened output.\<close>

definition diffs :: "int list \<Rightarrow> int list" where
  "diffs xs = map2 (\<lambda>a b. b - a) xs (tl xs)"

definition index_copy :: "'a list \<Rightarrow> nat list \<Rightarrow> 'a list \<Rightarrow> 'a list" where
  "index_copy out idx src = fold (\<lambda>(i, v) o'. o'[i := v]) (zip idx src) out"

definition unpack_output :: "tensor \<Rightarrow> pack_metadata \<Rightarrow> rat \<Rightarrow> tensor res" where
  "unpack_output packed_tensor md pad_value =
     (let B = pm_batch_size md; S = pm_sequence_length md; lengths = pm_valid_lengths md;
          p = squeeze0 packed_tensor; trailing = tl (t_shape p); w = prod_list trailing;
          blank = replicate (B * S) (replicate w pad_value);
          result = (\<lambda>rows. \<lparr>t_shape = B # S # trailing, t_data = concat rows\<rparr>)
      in if length lengths \<noteq> B then Inl ValueError
         else if B = 0 then Inr (result blank)
         else if (\<exists>l\<in>set lengths. l < 0 \<or> int S < l) then Inl ValueError
         else if diffs (pm_cu_seqlens md) \<noteq> lengths then Inl ValueError
         else (let token_index = packed_token_index lengths (pm_cu_seqlens md) S
               in if t_shape p = [] then Inl IndexError
                  else if hd (t_shape p) < length token_index then Inl RuntimeError
                  else Inr (result (index_copy blank token_index (map (t_row p) [0..<length token_index])))))"

section \<open>Token windows\<close>

definition token_window :: "int \<Rightarrow> int \<Rightarrow> int \<Rightarrow> (int \<times> int) res" where
  "token_window padded_tokens shard_count shard_index =
     (if shard_count \<le> 0 then Inl ValueError
      else if \<not> (0 \<le> shard_index \<and> shard_index < shard_count) then Inl ValueError
      else if padded_tokens mod shard_count \<noteq> 0 then Inl ValueError
      else (let window_tokens = padded_tokens div shard_count; start = shard_index * window_tokens
            in Inr (start, start + window_tokens)))"

definition sliced_value :: "int \<Rightarrow> int \<Rightarrow> int \<Rightarrow> int \<Rightarrow> string \<Rightarrow> leaf \<Rightarrow> leaf option res" where
  "sliced_value padded unpadded start end' key l =
     (case l of
        TensorLeaf t \<Rightarrow>
          (if 2 \<le> t_ndim t
           then (let token_count = int (t_shape t ! 1)
                 in if token_count = padded then Inr (Some (TensorLeaf (slice1 (nat start) (nat end') t)))
                    else if token_count = unpadded \<and> unpadded \<noteq> padded then Inl ValueError
                    else Inr (Some l))
           else Inr (Some l))
      | _ \<Rightarrow> Inr (Some l))"

definition token_shard :: "batch \<Rightarrow> pack_metadata \<Rightarrow> int \<Rightarrow> int \<Rightarrow> batch res" where
  "token_shard packed md shard_count shard_index =
     (case token_window (pm_padded_tokens md) shard_count shard_index of Inl e \<Rightarrow> Inl e
      | Inr (start, end') \<Rightarrow>
          map_batch_values (sliced_value (pm_padded_tokens md) (last (pm_cu_seqlens md)) start end') packed)"

definition window_cu_seqlens :: "pack_metadata \<Rightarrow> int \<Rightarrow> int \<Rightarrow> int list res" where
  "window_cu_seqlens md shard_count shard_index =
     (case token_window (pm_padded_tokens md) shard_count shard_index of Inl e \<Rightarrow> Inl e
      | Inr (start, end') \<Rightarrow>
          (let boundaries = map (\<lambda>c. min (max c start) end' - start) (pm_cu_seqlens md)
           in Inr (boundaries[length boundaries - 1 := end' - start])))"

definition cu_seqlens_from_position_ids :: "tensor \<Rightarrow> int list res" where
  "cu_seqlens_from_position_ids position_ids =
     (if t_ndim position_ids < 1 then Inl ValueError
      else (let flat = map to_long (if t_ndim position_ids = 3 then t_row position_ids 0 else t_data position_ids)
            in if flat = [] then Inr [0]
               else Inr (cumsum_from 0
                     ([hd flat] @
                      map (\<lambda>(a, b). a + 1) (filter (\<lambda>(a, b). b = 0) (zip (butlast flat) (tl flat))) @
                      [last flat + 1]))))"

definition row_piece :: "tensor \<Rightarrow> int \<Rightarrow> int \<Rightarrow> int \<Rightarrow> int \<Rightarrow> tensor" where
  "row_piece v start end' row_start row_end =
     (let a = max row_start start; b = min row_end end'
      in if b \<le> a then index_select v []
         else index_select v [nat (a - start)..<nat (b - start)])"

definition window_row_pieces :: "tensor \<Rightarrow> pack_metadata \<Rightarrow> int \<Rightarrow> int \<Rightarrow> tensor list res" where
  "window_row_pieces window_values md shard_count shard_index =
     (if t_ndim window_values < 1 then Inl ValueError
      else (let v = squeeze0 window_values
            in case token_window (pm_padded_tokens md) shard_count shard_index of Inl e \<Rightarrow> Inl e
               | Inr (start, end') \<Rightarrow>
                   (if int (hd (t_shape v)) \<noteq> end' - start then Inl ValueError
                    else Inr (map (\<lambda>row. row_piece v start end' (pm_cu_seqlens md ! row) (pm_cu_seqlens md ! (row + 1)))
                           [0..<pm_batch_size md]))))"

section \<open>Lemmas on boundaries and the token index\<close>

lemma length_cumsum [simp]: "length (cumsum_from a xs) = length xs"
  by (induction a xs rule: cumsum_from.induct) auto

lemma cumsum_nth: "i < length xs \<Longrightarrow> cumsum_from a xs ! i = a + sum_list (take (Suc i) xs)"
  by (induction a xs arbitrary: i rule: cumsum_from.induct) (auto simp: nth_Cons' take_Cons' split: nat.splits)

lemma cu_nth: "i \<le> length xs \<Longrightarrow> (0 # cumsum_from 0 xs) ! i = sum_list (take i xs)"
  by (cases i) (simp_all add: cumsum_nth)

lemma last_cu: "last (0 # cumsum_from 0 xs) = sum_list xs"
  using cu_nth [of "length xs" xs] last_conv_nth [of "0 # cumsum_from 0 xs"] by simp

lemma diffs_cu: "diffs (a # cumsum_from a xs) = xs"
  by (induction a xs rule: cumsum_from.induct) (auto simp: diffs_def)

text \<open>The index in closed form: row by row, the leading positions of each.\<close>

definition row_positions :: "nat \<Rightarrow> int list \<Rightarrow> nat list" where
  "row_positions S lens = concat (map (\<lambda>r. map (\<lambda>j. r * S + j) [0..<nat (lens ! r)]) [0..<length lens])"

lemma row_positions_snoc:
  "row_positions S (lens @ [l]) = row_positions S lens @ map (\<lambda>j. length lens * S + j) [0..<nat l]"
proof -
  have "map (\<lambda>r. map (\<lambda>j. r * S + j) [0..<nat ((lens @ [l]) ! r)]) [0..<length lens] =
      map (\<lambda>r. map (\<lambda>j. r * S + j) [0..<nat (lens ! r)]) [0..<length lens]"
    by (rule map_cong) (auto simp: nth_append)
  then show ?thesis unfolding row_positions_def by (simp only: length_append_singleton upt_Suc_append le0
      map_append concat_append) (simp add: nth_append)
qed

lemma repeat_interleave_snoc:
  "length xs = length ns \<Longrightarrow>
   repeat_interleave (xs @ [x]) (ns @ [n]) = repeat_interleave xs ns @ replicate (nat n) x"
  by (simp add: repeat_interleave_def)

lemma length_repeat_interleave:
  "length xs = length ns \<Longrightarrow> \<forall>n\<in>set ns. 0 \<le> n \<Longrightarrow> length (repeat_interleave xs ns) = nat (sum_list ns)"
  by (induction xs ns rule: list_induct2) (auto simp: repeat_interleave_def nat_add_distrib sum_list_nonneg)

lemma cumsum_snoc: "cumsum_from a (xs @ [x]) = cumsum_from a xs @ [a + sum_list xs + x]"
  by (induction a xs rule: cumsum_from.induct) auto

lemma cu_butlast_snoc:
  "butlast (0 # cumsum_from 0 (xs @ [x])) = butlast (0 # cumsum_from 0 xs) @ [sum_list xs]"
  using last_cu [of xs] append_butlast_last_id [of "0 # cumsum_from 0 xs"] by (simp add: cumsum_snoc)

lemma packed_token_index_eq:
  assumes "\<forall>l\<in>set lens. 0 \<le> l"
  shows "packed_token_index lens (0 # cumsum_from 0 lens) S = row_positions S lens"
  using assms
proof (induction lens rule: rev_induct)
  case Nil
  then show ?case by (simp add: packed_token_index_def row_positions_def repeat_interleave_def)
next
  case (snoc l lens)
  let ?n = "nat (sum_list lens)" and ?cu = "0 # cumsum_from 0 lens"
  have pos: "\<forall>x\<in>set lens. 0 \<le> x" "0 \<le> l" "0 \<le> sum_list lens"
    using snoc.prems by (auto intro: sum_list_nonneg)
  define c where "c = butlast ?cu"
  have len: "length c = length lens" by (simp add: c_def del: butlast.simps)
  note ri = length_repeat_interleave [OF len pos(1)] length_repeat_interleave [of "[0..<length lens]", OF _ pos(1)]
  have upt: "[0..<nat (sum_list lens + l)] = [0..<?n] @ map (\<lambda>j. ?n + j) [0..<nat l]"
  proof -
    have "[0..<?n + nat l] = [0..<?n] @ [?n..<?n + nat l]" by (rule upt_add_eq_append) simp
    also have "[?n..<?n + nat l] = map (\<lambda>j. ?n + j) [0..<nat l]" by (simp add: map_add_upt add.commute)
    finally show ?thesis using pos by (simp add: nat_add_distrib)
  qed
  have tail: "map2 (\<lambda>r w. nat (int (r * S) + w)) (replicate (nat l) (length lens))
      (map2 (\<lambda>i s. int i - s) (map (\<lambda>j. ?n + j) [0..<nat l]) (replicate (nat l) (sum_list lens))) =
      map (\<lambda>j. length lens * S + j) [0..<nat l]"
    using pos by (intro nth_equalityI) (auto simp: nat_add_distrib nat_mult_distrib)
  have "packed_token_index (lens @ [l]) (0 # cumsum_from 0 (lens @ [l])) S =
      packed_token_index lens ?cu S @ map (\<lambda>j. length lens * S + j) [0..<nat l]"
    unfolding packed_token_index_def Let_def cu_butlast_snoc c_def [symmetric]
    using len tail ri by (simp add: repeat_interleave_snoc upt)
  with snoc.IH [OF pos(1)] show ?case by (simp add: row_positions_snoc)
qed

lemma row_positions_distinct:
  assumes "\<forall>l\<in>set lens. 0 \<le> l \<and> l \<le> int S"
  shows "distinct (row_positions S lens)" and "set (row_positions S lens) \<subseteq> {0..<length lens * S}"
    and "r < length lens \<Longrightarrow> j < S \<Longrightarrow> r * S + j \<in> set (row_positions S lens) \<longleftrightarrow> int j < lens ! r"
proof -
  have "distinct (row_positions S lens) \<and> set (row_positions S lens) \<subseteq> {0..<length lens * S}"
    using assms
  proof (induction lens rule: rev_induct)
    case (snoc l lens)
    have "nat l \<le> S" using snoc.prems by auto
    then show ?case using snoc by (fastforce simp: row_positions_snoc distinct_map inj_on_def)
  qed (simp add: row_positions_def)
  then show "distinct (row_positions S lens)" "set (row_positions S lens) \<subseteq> {0..<length lens * S}" by auto
  assume r: "r < length lens" "j < S"
  have unique: "j' = j \<and> r' = r" if "r * S + j = r' * S + j'" "j' < S" for r' j'
    using arg_cong [OF that(1), of "\<lambda>x. x div S"] arg_cong [OF that(1), of "\<lambda>x. x mod S"] r(2) that(2) by simp
  have in_row: "j' < S" if "r' < length lens" "j' < nat (lens ! r')" for r' j'
    using bspec [OF assms nth_mem [OF that(1)]] that(2) by linarith
  have mem: "x \<in> set (row_positions S lens) \<longleftrightarrow> (\<exists>r'<length lens. r' * S \<le> x \<and> x < nat (lens ! r') + r' * S)" for x
    by (auto simp: row_positions_def)
  show "r * S + j \<in> set (row_positions S lens) \<longleftrightarrow> int j < lens ! r"
  proof
    assume "r * S + j \<in> set (row_positions S lens)"
    then obtain r' where r': "r' < length lens" "r' * S \<le> r * S + j" "r * S + j < nat (lens ! r') + r' * S"
      unfolding mem by blast
    define j' where "j' = r * S + j - r' * S"
    have j': "r * S + j = r' * S + j'" "j' < nat (lens ! r')" using r'(2,3) by (simp_all add: j'_def)
    from unique [OF j'(1) in_row [OF r'(1) j'(2)]] j'(2) show "int j < lens ! r" by simp
  next
    assume "int j < lens ! r"
    with r show "r * S + j \<in> set (row_positions S lens)" unfolding mem by (intro exI [of _ r]) simp
  qed
qed

lemma length_row_positions: "\<forall>l\<in>set lens. 0 \<le> l \<Longrightarrow> length (row_positions S lens) = nat (sum_list lens)"
  by (induction lens rule: rev_induct)
    (auto simp: row_positions_snoc nat_add_distrib sum_list_nonneg, simp add: row_positions_def)

section \<open>Packing and unpacking\<close>

lemma index_copy_nth:
  assumes "distinct idx" and "length idx \<le> length src" and "set idx \<subseteq> {0..<length out}"
  shows "length (index_copy out idx src) = length out \<and>
    (\<forall>p<length idx. index_copy out idx src ! (idx ! p) = src ! p) \<and>
    (\<forall>i<length out. i \<notin> set idx \<longrightarrow> index_copy out idx src ! i = out ! i)"
  using assms
proof (induction idx arbitrary: out src)
  case Nil
  then show ?case by (simp add: index_copy_def)
next
  case (Cons i idx)
  then obtain v vs where src: "src = v # vs" by (cases src) auto
  have eq: "index_copy out (i # idx) src = index_copy (out[i := v]) idx vs"
    by (simp add: index_copy_def src)
  have IH: "length (index_copy (out[i := v]) idx vs) = length out \<and>
    (\<forall>p<length idx. index_copy (out[i := v]) idx vs ! (idx ! p) = vs ! p) \<and>
    (\<forall>k<length out. k \<notin> set idx \<longrightarrow> index_copy (out[i := v]) idx vs ! k = out[i := v] ! k)"
    using Cons.IH [of vs "out[i := v]"] Cons.prems src by simp
  have i: "i < length out" "i \<notin> set idx" using Cons.prems by auto
  show ?case
    unfolding eq using IH i src by (auto simp: nth_Cons' less_Suc_eq_0_disj)
qed

text \<open>What the code calls the token at \<open>[r, j]\<close> of a \<open>[B, S, ...]\<close> tensor.\<close>

definition token_at :: "tensor \<Rightarrow> nat \<Rightarrow> nat \<Rightarrow> rat list" where
  "token_at t r j = block (prod_list (drop 2 (t_shape t))) (t_data t) (r * (t_shape t ! 1) + j)"

text \<open>
  Unpacking reads the first tokens of the call, whatever follows them: a tensor of shape
  \<open>[1, T', ...]\<close> whose leading rows are the tokens of the rows goes back to \<open>[B, S, ...]\<close>.
\<close>

lemma unpack_output_spec:
  assumes B: "0 < B" and md: "pm_batch_size md = B" "pm_sequence_length md = S" "pm_valid_lengths md = lens"
      "pm_cu_seqlens md = 0 # cumsum_from 0 lens"
    and lens: "length lens = B" "\<forall>l\<in>set lens. 0 \<le> l \<and> l \<le> int S"
    and q: "t_shape q = 1 # T' # sh" "nat (sum_list lens) \<le> T'"
    and rows: "\<And>p. p < nat (sum_list lens) \<Longrightarrow> block (prod_list sh) (t_data q) p = f (row_positions S lens ! p)"
    and f: "\<And>i. i < B * S \<Longrightarrow> length (f i) = prod_list sh"
  shows "\<exists>u. unpack_output q md v = Inr u \<and> t_shape u = B # S # sh \<and>
    (\<forall>r<B. \<forall>j<S. token_at u r j = (if int j < lens ! r then f (r * S + j) else replicate (prod_list sh) v))"
proof -
  let ?w = "prod_list sh" and ?idx = "row_positions S lens"
  have pos: "\<forall>l\<in>set lens. 0 \<le> l" using lens(2) by blast
  note rp = row_positions_distinct [OF lens(2)]
  have len: "length ?idx = nat (sum_list lens)" by (rule length_row_positions [OF pos])
  let ?blank = "replicate (B * S) (replicate ?w v)" and ?src = "map (t_row (squeeze0 q)) [0..<length ?idx]"
  define out where "out = index_copy ?blank ?idx ?src"
  have sub: "set ?idx \<subseteq> {0..<length ?blank}" using rp(2) lens(1) by simp
  note ic = index_copy_nth [OF rp(1) _ sub, of ?src, folded out_def]
  have sq: "squeeze0 q = q\<lparr>t_shape := T' # sh\<rparr>" by (simp add: squeeze0_def q)
  have row: "t_row (squeeze0 q) p = f (?idx ! p)" if "p < length ?idx" for p
    using rows [of p] that len by (simp add: t_row_def sq)
  have at: "out ! (r * S + j) = (if int j < lens ! r then f (r * S + j) else replicate ?w v)"
    if r: "r < B" "j < S" for r j
  proof -
    have bound: "r * S + j < B * S" using r index_in_range [of r B S] by simp
    show ?thesis
    proof (cases "int j < lens ! r")
      case True
      then have "r * S + j \<in> set ?idx" using rp(3) [of r j] r lens(1) by simp
      then obtain p where "p < length ?idx" "?idx ! p = r * S + j" by (metis in_set_conv_nth)
      with ic row True show ?thesis by auto
    next
      case False
      then have "r * S + j \<notin> set ?idx" using rp(3) [of r j] r lens(1) by simp
      with ic bound False show ?thesis by auto
    qed
  qed
  have width: "length x = ?w" if x: "x \<in> set out" for x
  proof -
    obtain i where i: "i < B * S" "out ! i = x" using x ic in_set_conv_nth [of x out] by auto
    then have "0 < S" by (cases S) auto
    then have "i = (i div S) * S + i mod S" "i div S < B" "i mod S < S"
      using i(1) by (simp_all add: less_mult_imp_div_less)
    with at [of "i div S" "i mod S"] i f show ?thesis by (auto split: if_splits)
  qed
  have u: "unpack_output q md v = Inr \<lparr>t_shape = B # S # sh, t_data = concat out\<rparr>"
    using B lens q(2) len
    by (auto simp: unpack_output_def Let_def md sq diffs_cu packed_token_index_eq [OF pos] out_def not_less
        dest: bspec)
  have "block ?w (concat out) (r * S + j) = out ! (r * S + j)" if "r < B" "j < S" for r j
    using block_concat [of out id ?w "r * S + j"] width ic index_in_range [of r B S] that by simp
  with u at show ?thesis by (simp add: token_at_def)
qed

lemma pack_microbatch_cases:
  assumes "pack_microbatch b = Inr (p, md)"
  obtains m where "batch_tensor b ''attention_mask'' 2 = Some m" "t_shape m = [pm_batch_size md, pm_sequence_length md]"
    "pm_valid_lengths md = map (\<lambda>r. sum_list (map to_long r)) (t_rows m)"
    "list_all2 (left_aligned (pm_sequence_length md)) (pm_valid_lengths md) (t_rows m)"
    "pm_cu_seqlens md = 0 # cumsum_from 0 (pm_valid_lengths md)"
    "pm_padded_tokens md = last (pm_cu_seqlens md)"
    "map_batch_values (packed_value (pm_batch_size md) (pm_sequence_length md) (pm_valid_lengths md)
       (packed_token_index (pm_valid_lengths md) (pm_cu_seqlens md) (pm_sequence_length md))) b = Inr p"
proof -
  obtain m where m: "batch_tensor b ''attention_mask'' 2 = Some m"
    using assms by (cases "batch_tensor b ''attention_mask'' 2") (auto simp: pack_microbatch_def)
  have nd: "t_ndim m = 2" using assms m by (auto simp: pack_microbatch_def split: if_splits)
  then obtain B S where sh: "t_shape m = [B, S]" by (cases "t_shape m"; cases "tl (t_shape m)") auto
  obtain pos where pos: "batch_position_ids b = Some pos"
    using assms m nd by (cases "batch_position_ids b") (auto simp: pack_microbatch_def)
  show thesis
    by (rule that [OF m]; use assms m pos nd sh in
        \<open>auto simp: pack_microbatch_def Let_def split: if_splits sum.splits\<close>)
qed

definition binary_mask :: "batch \<Rightarrow> bool" where
  "binary_mask b \<longleftrightarrow> (case batch_tensor b ''attention_mask'' 2 of
     Some m \<Rightarrow> \<forall>x\<in>set (t_data m). x = 0 \<or> x = 1 | None \<Rightarrow> False)"

lemma set_t_row: "set (t_row t i) \<subseteq> set (t_data t)"
  by (auto simp: t_row_def block_def dest!: in_set_takeD in_set_dropD)

lemma pack_lengths:
  assumes "pack_microbatch b = Inr (p, md)" and "binary_mask b"
  shows "length (pm_valid_lengths md) = pm_batch_size md \<and>
    (\<forall>l\<in>set (pm_valid_lengths md). 0 \<le> l \<and> l \<le> int (pm_sequence_length md))"
proof -
  obtain m where m: "batch_tensor b ''attention_mask'' 2 = Some m" "t_shape m = [pm_batch_size md, pm_sequence_length md]"
    "pm_valid_lengths md = map (\<lambda>r. sum_list (map to_long r)) (t_rows m)"
    "list_all2 (left_aligned (pm_sequence_length md)) (pm_valid_lengths md) (t_rows m)"
    using assms(1) by (rule pack_microbatch_cases)
  have sum: "0 \<le> sum_list (map to_long r) \<and> sum_list (map to_long r) \<le> int (length r)"
    if "\<forall>x\<in>set r. x = 0 \<or> x = 1" for r
    using that by (induction r) (auto simp: to_long_def)
  have "0 \<le> l \<and> l \<le> int (pm_sequence_length md)" if l: "l \<in> set (pm_valid_lengths md)" for l
  proof -
    from l m(4) obtain r where r: "r \<in> set (t_rows m)" "left_aligned (pm_sequence_length md) l r"
      by (metis list_all2_conv_all_nth in_set_conv_nth)
    then have "length r = pm_sequence_length md"
      unfolding left_aligned_def by (metis diff_zero length_map length_upt)
    moreover from l m(3) obtain r' where r': "r' \<in> set (t_rows m)" "l = sum_list (map to_long r')" by auto
    moreover have "length r' = pm_sequence_length md"
    proof -
      from r'(1) obtain i where "i < length (t_rows m)" "t_rows m ! i = r'" by (metis in_set_conv_nth)
      with m(4) have "left_aligned (pm_sequence_length md) (pm_valid_lengths md ! i) r'"
        by (metis list_all2_nthD2)
      then show ?thesis unfolding left_aligned_def by (metis diff_zero length_map length_upt)
    qed
    moreover have "\<forall>x\<in>set r'. x = 0 \<or> x = 1"
      using r'(1) assms(2) m(1) set_t_row [of m] by (auto simp: t_rows_def binary_mask_def)
    ultimately show ?thesis using sum [of r'] by simp
  qed
  then show ?thesis using m(2,3) by (simp add: t_rows_def)
qed

lemma packed_leaf:
  assumes "pack_microbatch b = Inr (p, md)" and "binary_mask b"
    and k: "map_of b k = Some (Leaf (TensorLeaf t))" "k \<noteq> ''attention_mask''" "k \<notin> set ROW_BROADCAST_KEYS"
    and t: "tensor_wf t" "t_shape t = pm_batch_size md # pm_sequence_length md # sh"
  shows "\<exists>q. map_of p k = Some (Leaf (TensorLeaf q)) \<and>
    t_shape q = 1 # nat (sum_list (pm_valid_lengths md)) # sh \<and> tensor_wf q \<and>
    (\<forall>i<nat (sum_list (pm_valid_lengths md)). block (prod_list sh) (t_data q) i =
       block (prod_list sh) (t_data t) (row_positions (pm_sequence_length md) (pm_valid_lengths md) ! i))"
proof -
  let ?B = "pm_batch_size md" and ?S = "pm_sequence_length md" and ?lens = "pm_valid_lengths md"
  obtain m where cu: "pm_cu_seqlens md = 0 # cumsum_from 0 ?lens"
    and mbv: "map_batch_values (packed_value ?B ?S ?lens (packed_token_index ?lens (pm_cu_seqlens md) ?S)) b = Inr p"
    using assms(1) by (rule pack_microbatch_cases)
  from pack_lengths [OF assms(1,2)] have len: "length ?lens = ?B" and pos: "\<forall>l\<in>set ?lens. 0 \<le> l"
    and rng: "\<forall>l\<in>set ?lens. 0 \<le> l \<and> l \<le> int ?S" by auto
  let ?idx = "row_positions ?S ?lens" and ?rows = "t_reshape (?B * ?S # sh) t"
  define q where "q = unsqueeze0 (index_select ?rows ?idx)"
  have idx: "\<forall>i\<in>set ?idx. i < ?B * ?S" using row_positions_distinct(2) [OF rng] len by auto
  have leaf: "map_of p k = Some (Leaf (TensorLeaf q))"
    using map_batch_leaf [OF mbv k(1)] k(2,3) t(2)
    by (simp add: packed_value_def Let_def cu packed_token_index_eq [OF pos] q_def)
  have wf: "tensor_wf ?rows" using t by (simp add: tensor_wf_def t_reshape_def mult.assoc)
  have sh: "t_shape ?rows = ?B * ?S # sh" by (simp add: t_reshape_def)
  have iw: "tensor_wf (index_select ?rows ?idx)" by (rule index_select_wf [OF wf sh idx])
  have "block (prod_list sh) (t_data q) i = block (prod_list sh) (t_data t) (?idx ! i)" if "i < length ?idx" for i
    using t_row_index_select [OF wf sh idx that]
    by (simp add: t_row_def q_def unsqueeze0_def index_select_def t_reshape_def)
  then show ?thesis
    using leaf iw length_row_positions [OF pos, of ?S]
    by (simp add: q_def unsqueeze0_def index_select_def tensor_wf_def t_reshape_def)
qed

lemma pad_packed_leaf:
  assumes "pad_packed_microbatch p md m = Inr (p', md')"
    and k: "map_of p k = Some (Leaf (TensorLeaf q))"
    and q: "t_shape q = 1 # T # sh" "int T = pm_padded_tokens md" "tensor_wf q"
  shows "\<exists>q' T'. map_of p' k = Some (Leaf (TensorLeaf q')) \<and> t_shape q' = 1 # T' # sh \<and> T \<le> T' \<and>
    int T' = pm_padded_tokens md' \<and> m dvd pm_padded_tokens md' \<and> 0 < m \<and>
    take (T * prod_list sh) (t_data q') = t_data q \<and> tensor_wf q' \<and>
    md' = md\<lparr>pm_padded_tokens := pm_padded_tokens md'\<rparr>"
proof -
  let ?c = "pm_padded_tokens md" and ?w = "prod_list sh"
  define P where "P = ((?c + m - 1) div m) * m"
  have m: "0 < m" using assms(1) by (auto simp: pad_packed_microbatch_def split: if_splits)
  have ge: "?c \<le> P"
  proof -
    have "(?c + m - 1) mod m \<le> m - 1" using m pos_mod_bound [of m "?c + m - 1"] by simp
    with div_mult_mod_eq [of "?c + m - 1" m] show ?thesis unfolding P_def by linarith
  qed
  show ?thesis
  proof (cases "P = ?c")
    case True
    with assms(1) m have "p' = p" "md' = md"
      by (auto simp: pad_packed_microbatch_def Let_def P_def split: if_splits)
    moreover have "m dvd ?c" using True by (metis P_def dvd_triv_right)
    ultimately show ?thesis using k q m by (auto simp: tensor_wf_def)
  next
    case False
    from assms(1) m False obtain r where r: "map_batch_values (padded_value ?c (P - ?c)) p = Inr r"
      and eq: "p' = r" "md' = md\<lparr>pm_padded_tokens := P\<rparr>"
      by (auto simp: pad_packed_microbatch_def Let_def P_def split: if_splits sum.splits)
    define q' where "q' = pad1 (nat (P - ?c)) (sequence_pad_value k) q"
    have "map_of p' k = Some (Leaf (TensorLeaf q'))"
      using map_batch_leaf [OF r k] q by (simp add: padded_value_def q'_def eq)
    moreover have rows: "t_rows q = [t_data q]"
      using q by (simp add: t_rows_def t_row_def block_def tensor_wf_def)
    moreover have "t_shape q' = 1 # (T + nat (P - ?c)) # sh" using q by (simp add: q'_def pad1_def)
    moreover have "t_data q' = t_data q @ replicate (nat (P - ?c) * ?w) (sequence_pad_value k)"
      using q rows by (simp add: q'_def pad1_def Let_def)
    moreover have "length (t_data q) = T * ?w" using q by (simp add: tensor_wf_def)
    ultimately show ?thesis
      using ge m q eq
      by (intro exI [of _ q'] exI [of _ "T + nat (P - ?c)"]) (auto simp: tensor_wf_def P_def algebra_simps)
  qed
qed

text \<open>
  C32. Packing loses nothing: pack a batch with a 0/1 mask, pad the call to a multiple, and unpack the
  padded tensor of any \<open>[B, S, ...]\<close> entry. The calls succeed, the width divides by the multiple,
  the shape is restored, every real token is back at its row and column, and every other position
  holds the pad value.
\<close>

theorem pack_pad_unpack:
  assumes pack: "pack_microbatch b = Inr (p, md)" and mask: "binary_mask b"
    and pad: "pad_packed_microbatch p md m = Inr (p', md')"
    and k: "map_of b k = Some (Leaf (TensorLeaf t))" "k \<noteq> ''attention_mask''" "k \<notin> set ROW_BROADCAST_KEYS"
    and t: "tensor_wf t" "t_shape t = pm_batch_size md # pm_sequence_length md # sh" "0 < pm_batch_size md"
  shows "m dvd pm_padded_tokens md' \<and>
    (\<exists>q u. map_of p' k = Some (Leaf (TensorLeaf q)) \<and> unpack_output q md' v = Inr u \<and> t_shape u = t_shape t \<and>
      (\<forall>r<pm_batch_size md. \<forall>j<pm_sequence_length md.
         token_at u r j = (if int j < pm_valid_lengths md ! r then token_at t r j else replicate (prod_list sh) v)))"
proof -
  let ?lens = "pm_valid_lengths md" and ?B = "pm_batch_size md" and ?S = "pm_sequence_length md" and ?w = "prod_list sh"
  let ?T = "nat (sum_list ?lens)"
  note len = pack_lengths [OF pack mask]
  obtain q where q: "map_of p k = Some (Leaf (TensorLeaf q))" "t_shape q = 1 # ?T # sh" "tensor_wf q"
    "\<forall>i<?T. block ?w (t_data q) i = block ?w (t_data t) (row_positions ?S ?lens ! i)"
    using packed_leaf [OF pack mask k t(1,2)] by blast
  obtain a where cu: "pm_cu_seqlens md = 0 # cumsum_from 0 ?lens" "pm_padded_tokens md = last (pm_cu_seqlens md)"
    using pack by (rule pack_microbatch_cases)
  have "0 \<le> sum_list ?lens" using len by (auto intro!: sum_list_nonneg)
  then have "int ?T = pm_padded_tokens md" using cu by (simp only: last_cu int_nat_eq if_True)
  from pad_packed_leaf [OF pad q(1,2) this q(3)] obtain q' T' where q': "map_of p' k = Some (Leaf (TensorLeaf q'))"
    "t_shape q' = 1 # T' # sh" "?T \<le> T'" "m dvd pm_padded_tokens md'"
    "take (?T * ?w) (t_data q') = t_data q" "md' = md\<lparr>pm_padded_tokens := pm_padded_tokens md'\<rparr>" by blast
  define P where "P = pm_padded_tokens md'"
  have e: "md' = md\<lparr>pm_padded_tokens := P\<rparr>" unfolding P_def by (rule q'(6))
  have md': "pm_batch_size md' = ?B" "pm_sequence_length md' = ?S" "pm_valid_lengths md' = ?lens"
    "pm_cu_seqlens md' = 0 # cumsum_from 0 ?lens"
    by (simp_all add: e cu)
  have blocks: "block ?w (t_data q') i = block ?w (t_data t) (row_positions ?S ?lens ! i)" if "i < ?T" for i
  proof -
    have "block ?w (take (?T * ?w) (t_data q')) i = block ?w (t_data q') i"
      using index_in_range [OF that, of ?w] by (simp add: block_def drop_take min_def algebra_simps)
    with q(4) q'(5) that show ?thesis by simp
  qed
  have "length (block ?w (t_data t) i) = ?w" if "i < ?B * ?S" for i
    using index_in_range [OF that, of ?w] t(1,2) by (intro length_block) (simp add: tensor_wf_def mult.assoc)
  then have "\<exists>u. unpack_output q' md' v = Inr u \<and> t_shape u = ?B # ?S # sh \<and>
    (\<forall>r<?B. \<forall>j<?S. token_at u r j = (if int j < ?lens ! r then block ?w (t_data t) (r * ?S + j) else replicate ?w v))"
    using unpack_output_spec [OF t(3) md' _ _ q'(2,3) blocks] len by blast
  with q' t(2) show ?thesis by (auto simp: token_at_def)
qed

section \<open>Shards and row pieces\<close>

text \<open>The part of the token range \<open>[a, b)\<close> that each of \<open>n\<close> equal windows of width \<open>W\<close> holds.\<close>

lemma windows_partition:
  "concat (map (\<lambda>i. [max a (i * W)..<min b (Suc i * W)]) [0..<n]) = [a..<min b (n * W)]"
proof (induction n)
  case (Suc n)
  have "[a..<min b (n * W)] @ [max a (n * W)..<min b (Suc n * W)] = [a..<min b (Suc n * W)]"
  proof (cases "b \<le> n * W \<or> n * W \<le> a")
    case True
    then show ?thesis by (auto simp: min_def max_def)
  next
    case False
    then have "[a..<min b (Suc n * W)] = [a..<n * W] @ [n * W..<min b (Suc n * W)]"
      using upt_add_eq_append [of a "n * W" "min b (Suc n * W) - n * W"] by simp
    with False show ?thesis by (simp add: min_def max_def)
  qed
  with Suc show ?case by simp
qed simp

lemma concat_map_concat:
  "concat (map (\<lambda>i. concat (map f (g i))) xs) = concat (map f (concat (map g xs)))"
  by (induction xs) auto

lemma window_bounds:
  assumes "0 < n" and "P = int (n * W)" and "i < n"
  shows "token_window P (int n) (int i) = Inr (int (i * W), int (Suc i * W))"
  using assms by (simp add: token_window_def Let_def algebra_simps)

lemma slice1_block:
  assumes "t_shape q = 1 # N # sh" and "tensor_wf q" and "b \<le> N" and "j < b - a"
  shows "block (prod_list sh) (t_data (slice1 a b q)) j = block (prod_list sh) (t_data q) (a + j)"
proof -
  let ?w = "prod_list sh"
  have "t_data (slice1 a b q) = take ((b - a) * ?w) (drop (a * ?w) (t_data q))"
    using assms by (simp add: slice1_def t_rows_def t_row_def block_def tensor_wf_def Let_def)
  moreover have "Suc j * ?w \<le> (b - a) * ?w" using assms(4) by (intro mult_le_mono1) simp
  ultimately show ?thesis by (simp add: block_def drop_take min_def algebra_simps)
qed

text \<open>One shard's piece of one row, as the tokens of the packed call it holds.\<close>

lemma row_piece_data:
  assumes "v = squeeze0 (slice1 s e q)" and "t_shape q = 1 # N # sh" and "tensor_wf q" and "s \<le> e" "e \<le> N"
  shows "t_data (row_piece v (int s) (int e) (int a) (int b)) =
    concat (map (block (prod_list sh) (t_data q)) [max a s..<min b e])"
proof -
  let ?w = "prod_list sh"
  have v: "t_shape v = (e - s) # sh" "t_data v = t_data (slice1 s e q)"
    using assms(1,2) by (simp_all add: squeeze0_def slice1_def Let_def)
  have "map (t_row v) [max a s - s..<min b e - s] = map (block ?w (t_data q)) [max a s..<min b e]"
  proof (rule nth_equalityI)
    fix i assume "i < length (map (t_row v) [max a s - s..<min b e - s])"
    then have i: "i < min b e - max a s" by simp
    then have "max a s - s + i < e - s" by auto
    moreover have "max a s + i < min b e" using i by linarith
    moreover have "max a s - s + i < min b e - s" using i max.cobounded2 [of s a] by linarith
    moreover have "s + (max a s - s + i) = max a s + i" using max.cobounded2 [of s a] by simp
    ultimately show "map (t_row v) [max a s - s..<min b e - s] ! i = map (block ?w (t_data q)) [max a s..<min b e] ! i"
      using slice1_block [OF assms(2,3,5), of "max a s - s + i" s] i by (simp add: t_row_def v)
  qed simp
  moreover have "nat (max (int a) (int s) - int s) = max a s - s" "nat (min (int b) (int e) - int s) = min b e - s"
    by (simp_all add: nat_diff_distrib' max_def min_def)
  ultimately show ?thesis by (auto simp: row_piece_def Let_def index_select_def)
qed

lemma shard_leaf:
  assumes "token_shard p md (int n) (int i) = Inr p'" and "map_of p k = Some (Leaf (TensorLeaf q))"
    and "t_shape q = 1 # N # sh" and "pm_padded_tokens md = int N" and "N = n * W" and "i < n"
  shows "map_of p' k = Some (Leaf (TensorLeaf (slice1 (i * W) (Suc i * W) q)))"
proof -
  have "token_window (pm_padded_tokens md) (int n) (int i) = Inr (int (i * W), int (Suc i * W))"
    using assms(4-6) by (intro window_bounds) auto
  with assms(1) have "map_batch_values (sliced_value (pm_padded_tokens md) (last (pm_cu_seqlens md))
      (int (i * W)) (int (Suc i * W))) p = Inr p'" by (simp add: token_shard_def del: mult_Suc)
  from map_batch_leaf [OF this assms(2)] assms(3,4) show ?thesis
    by (simp add: sliced_value_def Let_def del: mult_Suc of_nat_mult)
qed

text \<open>
  C33. Sharding and reassembly: split a packed tensor into the token windows of \<open>n\<close> shards and let each
  shard cut its window at the row boundaries. Laid end to end the windows are the packed tensor, and
  for every row the pieces of the shards, concatenated in shard order, are exactly that row's tokens,
  however the windows fall across the row.
\<close>

theorem shards_rebuild_rows:
  assumes shards: "\<And>i. i < n \<Longrightarrow> token_shard p md (int n) (int i) = Inr (s i)"
    and k: "map_of p k = Some (Leaf (TensorLeaf q))" and q: "t_shape q = 1 # N # sh" "tensor_wf q"
    and md: "pm_padded_tokens md = int N" "N = n * W" "pm_cu_seqlens md = 0 # cumsum_from 0 lens"
      "pm_batch_size md = length lens"
    and lens: "\<forall>l\<in>set lens. 0 \<le> l" "sum_list lens \<le> int N" and r: "r < length lens"
  shows "\<exists>x pieces. (\<forall>i<n. map_of (s i) k = Some (Leaf (TensorLeaf (x i))) \<and>
      window_row_pieces (x i) md (int n) (int i) = Inr (pieces i)) \<and>
    concat (map (\<lambda>i. t_data (x i)) [0..<n]) = t_data q \<and>
    concat (map (\<lambda>i. t_data (pieces i ! r)) [0..<n]) =
      concat (map (block (prod_list sh) (t_data q)) [nat (sum_list (take r lens))..<nat (sum_list (take (Suc r) lens))])"
proof -
  let ?w = "prod_list sh" and ?cu = "pm_cu_seqlens md"
  define x where "x = (\<lambda>i. slice1 (i * W) (Suc i * W) q)"
  define pieces where "pieces = (\<lambda>i. map (\<lambda>row. row_piece (squeeze0 (x i)) (int (i * W)) (int (Suc i * W)) (?cu ! row) (?cu ! (row + 1)))
    [0..<length lens])"
  have leaf: "map_of (s i) k = Some (Leaf (TensorLeaf (x i)))" if "i < n" for i
    unfolding x_def using shard_leaf [OF shards [OF that] k q(1) md(1,2) that] .
  have sx: "t_shape (x i) = 1 # W # sh" for i by (simp add: x_def slice1_def Let_def q)
  have pc: "window_row_pieces (x i) md (int n) (int i) = Inr (pieces i)" if "i < n" for i
  proof -
    have "token_window (pm_padded_tokens md) (int n) (int i) = Inr (int (i * W), int (Suc i * W))"
      using md(1,2) that by (intro window_bounds) auto
    moreover have "hd (t_shape (squeeze0 (x i))) = W" by (simp add: squeeze0_def sx)
    ultimately show ?thesis
      by (simp add: window_row_pieces_def Let_def sx pieces_def md(4) del: mult_Suc)
        (simp add: algebra_simps)
  qed
  have fits: "Suc i * W \<le> N" if "i < n" for i using md(2) that by (simp add: mult_le_mono1 del: mult_Suc)
  have "concat (map (\<lambda>i. t_data (x i)) [0..<n]) = concat (map (block (W * ?w) (t_data q)) [0..<n])"
    using q by (simp add: x_def slice1_def Let_def t_rows_def t_row_def block_def [abs_def] tensor_wf_def mult.assoc)
  also have "\<dots> = t_data q" using q md(2) by (simp add: concat_blocks tensor_wf_def mult.assoc)
  finally have whole: "concat (map (\<lambda>i. t_data (x i)) [0..<n]) = t_data q" .
  define a b where "a = nat (sum_list (take r lens))" and "b = nat (sum_list (take (Suc r) lens))"
  have nn: "0 \<le> sum_list (take j lens)" for j using lens(1) by (intro sum_list_nonneg) (auto dest: in_set_takeD)
  have cu: "?cu ! r = int a" "?cu ! Suc r = int b"
    using cu_nth [of r lens] cu_nth [of "Suc r" lens] r nn [of r] nn [of "Suc r"] by (simp_all add: md(3) a_def b_def)
  have "b \<le> N"
  proof -
    have "0 \<le> sum_list (drop (Suc r) lens)" using lens(1) by (intro sum_list_nonneg) (auto dest: in_set_dropD)
    then show ?thesis
      using lens(2) sum_list_append [of "take (Suc r) lens" "drop (Suc r) lens"] by (simp add: b_def)
  qed
  have "t_data (pieces i ! r) = concat (map (block ?w (t_data q)) [max a (i * W)..<min b (Suc i * W)])" if "i < n" for i
    using row_piece_data [OF refl q(1,2) _ fits [OF that], of "i * W" a b] r cu
    by (simp add: pieces_def x_def del: mult_Suc)
  then have "concat (map (\<lambda>i. t_data (pieces i ! r)) [0..<n]) =
      concat (map (\<lambda>i. concat (map (block ?w (t_data q)) [max a (i * W)..<min b (Suc i * W)])) [0..<n])"
    by (intro arg_cong [where f = concat] map_cong) auto
  also have "\<dots> = concat (map (block ?w (t_data q)) (concat (map (\<lambda>i. [max a (i * W)..<min b (Suc i * W)]) [0..<n])))"
    by (rule concat_map_concat)
  also have "\<dots> = concat (map (block ?w (t_data q)) [a..<b])"
    using \<open>b \<le> N\<close> md(2) by (simp only: windows_partition min_absorb1)
  finally show ?thesis using leaf pc whole unfolding a_def b_def by blast
qed

lemma sum_clamped:
  fixes x W :: int
  assumes "0 \<le> x" and "0 \<le> W"
  shows "(\<Sum>i<n. min (max x (int i * W)) (int (Suc i) * W) - int i * W) = min x (int n * W)"
proof (induction n)
  case (Suc n)
  have "int n * W \<le> int (Suc n) * W" using assms by (intro mult_right_mono) auto
  moreover have "int (Suc n) * W = int n * W + W" by (simp add: algebra_simps)
  moreover have "0 \<le> int n * W" using assms by simp
  ultimately show ?case using Suc assms by (simp only: sum.lessThan_Suc)
qed (use assms in simp)

text \<open>
  The boundaries a shard reports for its window cover the window with one segment per packed row:
  there are \<open>batch_size + 1\<close> of them, from 0 to the window width, in order, and the widths of a row's
  segments over all shards add up to the length of the row, the tail padding counted with the last row.
\<close>

theorem window_boundaries:
  assumes n: "0 < n" and md: "pm_padded_tokens md = int (n * W)" "pm_cu_seqlens md = 0 # cumsum_from 0 lens"
    and lens: "\<forall>l\<in>set lens. 0 \<le> l" "sum_list lens \<le> int (n * W)" "lens \<noteq> []"
  shows "\<exists>w. (\<forall>i<n. window_cu_seqlens md (int n) (int i) = Inr (w i) \<and> length (w i) = length lens + 1 \<and>
      sorted (w i) \<and> w i ! 0 = 0 \<and> last (w i) = int W) \<and>
    (\<forall>r<length lens. (\<Sum>i<n. w i ! Suc r - w i ! r) =
       (if Suc r = length lens then int (n * W) - sum_list (take r lens) else lens ! r))"
proof -
  let ?B = "length lens"
  define cu where "cu = 0 # cumsum_from 0 lens"
  have len: "length cu = ?B + 1" by (simp add: cu_def)
  define clamp where "clamp = (\<lambda>i c. min (max c (int i * int W)) (int (Suc i) * int W) - int i * int W)"
  define w where "w = (\<lambda>i. (map (clamp i) cu)[?B := int W])"
  have win: "window_cu_seqlens md (int n) (int i) = Inr (w i)" if "i < n" for i
  proof -
    have "token_window (pm_padded_tokens md) (int n) (int i) = Inr (int i * int W, int (Suc i) * int W)"
      using window_bounds [OF n md(1) that] by (simp only: of_nat_mult)
    moreover have "int (Suc i) * int W - int i * int W = int W" by (simp add: algebra_simps)
    ultimately show ?thesis
      by (simp only: window_cu_seqlens_def md(2) cu_def Let_def w_def clamp_def sum.case prod.case length_map
          length_Cons length_cumsum diff_Suc_1)
  qed
  have nn: "0 \<le> sum_list (take j lens)" for j using lens(1) by (intro sum_list_nonneg) (auto dest: in_set_takeD)
  have cu: "cu ! j = sum_list (take j lens)" if "j \<le> ?B" for j unfolding cu_def using cu_nth that .
  have step: "sum_list (take (Suc j) lens) = sum_list (take j lens) + lens ! j" if "j < ?B" for j
    using that by (simp add: take_Suc_conv_app_nth)
  have w_at: "w i ! j = (if j = ?B then int W else clamp i (sum_list (take j lens)))" if "j \<le> ?B" for i j
    using that cu [OF that] len by (auto simp: w_def nth_list_update)
  have clamp_le: "clamp i c \<le> int W" for i c by (simp add: clamp_def algebra_simps)
  have clamp_mono: "c \<le> d \<Longrightarrow> clamp i c \<le> clamp i d" for i c d by (auto simp: clamp_def)
  have "sorted (w i)" for i
    unfolding sorted_iff_nth_Suc
  proof (intro allI impI)
    fix j assume "Suc j < length (w i)"
    then have j: "j < ?B" by (simp add: w_def len)
    have "0 \<le> lens ! j" using lens(1) j by simp
    then show "w i ! j \<le> w i ! Suc j" using j clamp_le clamp_mono by (simp add: w_at step)
  qed
  moreover have "w i ! 0 = 0" for i using lens(3) by (simp add: w_at clamp_def min_absorb1 mult_right_mono)
  moreover have "last (w i) = int W" "length (w i) = ?B + 1" for i
    using len by (auto simp: last_conv_nth w_def simp flip: length_0_conv)
  moreover have "(\<Sum>i<n. w i ! Suc r - w i ! r) =
      (if Suc r = ?B then int (n * W) - sum_list (take r lens) else lens ! r)" if r: "r < ?B" for r
  proof -
    have sum: "(\<Sum>i<n. clamp i (sum_list (take j lens))) = sum_list (take j lens)" if "j \<le> ?B" for j
    proof -
      have "0 \<le> sum_list (drop j lens)" using lens(1) by (intro sum_list_nonneg) (auto dest: in_set_dropD)
      then have "sum_list (take j lens) \<le> int (n * W)"
        using lens(2) sum_list_append [of "take j lens" "drop j lens"] by simp
      with sum_clamped [OF nn [of j], of "int W" n] show ?thesis by (simp add: clamp_def)
    qed
    from r show ?thesis using sum [of r] sum [of "Suc r"] by (simp add: w_at sum_subtractf step)
  qed
  ultimately show ?thesis using win by (intro exI [of _ w]) auto
qed

section \<open>Boundaries from positions\<close>

text \<open>The lengths of all rows but the last, as the code collects them.\<close>

fun row_ends :: "int list \<Rightarrow> int list" where
  "row_ends (x # y # r) = (if y = 0 then [x + 1] else []) @ row_ends (y # r)"
| "row_ends _ = []"

lemma row_ends_eq:
  "map (\<lambda>(a, b). a + 1) (filter (\<lambda>(a, b). b = 0) (zip (butlast flat) (tl flat))) = row_ends flat"
  by (induction flat rule: row_ends.induct) auto

lemma row_ends_append:
  assumes "xs \<noteq> []" and "ys \<noteq> []"
  shows "row_ends (xs @ ys) = row_ends xs @ (if hd ys = 0 then [last xs + 1] else []) @ row_ends ys"
  using assms
proof (induction xs)
  case (Cons x xs)
  then show ?case by (cases xs; cases ys) auto
qed simp

lemma row_ends_nonzero: "\<forall>y\<in>set (tl xs). y \<noteq> 0 \<Longrightarrow> row_ends xs = []"
  by (induction xs rule: row_ends.induct) auto

lemma row_ends_run: "row_ends (map int [0..<n]) = []"
  by (rule row_ends_nonzero) (auto simp: map_tl [symmetric] tl_upt)

lemma row_ends_packed:
  assumes "lens \<noteq> []" and "\<forall>l\<in>set lens. 0 < l"
  shows "row_ends (concat (map (\<lambda>l. map int [0..<nat l]) lens)) @ [last (concat (map (\<lambda>l. map int [0..<nat l]) lens)) + 1] = lens \<and>
    hd (concat (map (\<lambda>l. map int [0..<nat l]) lens)) = 0 \<and> concat (map (\<lambda>l. map int [0..<nat l]) lens) \<noteq> []"
  using assms
proof (induction lens rule: list_nonempty_induct)
  case (single l)
  then show ?case by (simp add: row_ends_run hd_map last_map)
next
  case (cons l lens)
  let ?run = "map int [0..<nat l]" and ?rest = "concat (map (\<lambda>l. map int [0..<nat l]) lens)"
  have "?run \<noteq> []" "hd ?run = 0" "last ?run + 1 = l" using cons.prems by (auto simp: hd_map last_map)
  with cons row_ends_append [of ?run ?rest] show ?case by (simp add: row_ends_run)
qed

lemma to_long_of_nat [simp]: "to_long (of_nat n) = int n"
  by (simp add: to_long_def)

text \<open>
  The positions of a packed call describe its layout: for rows of at least one token whose
  positions count up from 0, the boundaries read back from the flattened positions are the packed row
  boundaries. A padding token, which carries position 0, counts as a row of one token.
\<close>

theorem positions_give_boundaries:
  assumes "lens \<noteq> []" and "\<forall>l\<in>set lens. 0 < l"
    and "t_data t = concat (map (\<lambda>l. map of_nat [0..<nat l]) lens)" and "t_ndim t = 1 \<or> t_ndim t = 2"
  shows "cu_seqlens_from_position_ids t = Inr (0 # cumsum_from 0 lens)"
proof -
  define flat where "flat = concat (map (\<lambda>l. map int [0..<nat l]) lens)"
  note re = row_ends_packed [OF assms(1,2), folded flat_def]
  have data: "map to_long (t_data t) = flat"
    by (simp add: assms(3) map_concat o_def flat_def)
  have ne: "t_data t \<noteq> []" using data re by (intro notI) simp
  have "cu_seqlens_from_position_ids t = Inr (cumsum_from 0 ([hd flat] @ row_ends flat @ [last flat + 1]))"
    using assms(4) re ne by (auto simp add: cu_seqlens_from_position_ids_def data row_ends_eq Let_def)
  then show ?thesis using re by simp
qed

section \<open>Concrete calls\<close>

definition ex_data :: batch where
  "ex_data =
     [(''position_ids'', Leaf (TensorLeaf \<lparr>t_shape = [2, 3], t_data = [0, 1, 2, 0, 0, 0]\<rparr>)),
      (''attention_mask'', Leaf (TensorLeaf \<lparr>t_shape = [2, 3], t_data = [1, 1, 1, 1, 0, 0]\<rparr>)),
      (''input_ids'', Leaf (TensorLeaf \<lparr>t_shape = [2, 3], t_data = [5, 6, 7, 8, 0, 0]\<rparr>))]"

definition ex_md :: pack_metadata where
  "ex_md = \<lparr>pm_batch_size = 2, pm_sequence_length = 3, pm_valid_lengths = [3, 1], pm_cu_seqlens = [0, 3, 4],
     pm_padded_tokens = 4\<rparr>"

definition ex_packed :: batch where
  "ex_packed =
     [(''position_ids'', Leaf (TensorLeaf \<lparr>t_shape = [1, 4], t_data = [0, 1, 2, 0]\<rparr>)),
      (''input_ids'', Leaf (TensorLeaf \<lparr>t_shape = [1, 4], t_data = [5, 6, 7, 8]\<rparr>))]"

lemma ex_pack: "pack_microbatch ex_data = Inr (ex_packed, ex_md)" "binary_mask ex_data"
  by code_simp+

lemma ex_pad:
  "pad_packed_microbatch ex_packed ex_md 3 = Inr
     ([(''position_ids'', Leaf (TensorLeaf \<lparr>t_shape = [1, 6], t_data = [0, 1, 2, 0, 0, 0]\<rparr>)),
       (''input_ids'', Leaf (TensorLeaf \<lparr>t_shape = [1, 6], t_data = [5, 6, 7, 8, 0, 0]\<rparr>))],
      ex_md\<lparr>pm_padded_tokens := 6\<rparr>)"
  by code_simp

theorem pack_pad_unpack_witness:
  "\<exists>u. unpack_output \<lparr>t_shape = [1, 6], t_data = [5, 6, 7, 8, 0, 0]\<rparr> (ex_md\<lparr>pm_padded_tokens := 6\<rparr>) (- 1) = Inr u \<and>
     token_at u 0 2 = [7] \<and> token_at u 1 2 = [- 1]"
proof -
  let ?t = "\<lparr>t_shape = [2, 3], t_data = [5, 6, 7, 8, 0, 0]\<rparr>"
  have "map_of ex_data ''input_ids'' = Some (Leaf (TensorLeaf ?t))" by (simp add: ex_data_def)
  from pack_pad_unpack [OF ex_pack ex_pad this, of "[]" "- 1"]
  obtain u where u: "unpack_output \<lparr>t_shape = [1, 6], t_data = [5, 6, 7, 8, 0, 0]\<rparr> (ex_md\<lparr>pm_padded_tokens := 6\<rparr>) (- 1) = Inr u"
    "\<forall>r<2. \<forall>j<3. token_at u r j = (if int j < [3, 1] ! r then token_at ?t r j else [- 1])"
    by (auto simp: ex_md_def ROW_BROADCAST_KEYS_def tensor_wf_def)
  have "token_at u 0 2 = token_at ?t 0 2" "token_at u 1 2 = [- 1]"
    using u(2) [rule_format, of 0 2] u(2) [rule_format, of 1 2] by simp_all
  with u(1) show ?thesis by (simp add: token_at_def block_def)
qed

theorem positions_give_boundaries_witness:
  "cu_seqlens_from_position_ids \<lparr>t_shape = [1, 4], t_data = [0, 1, 2, 0]\<rparr> = Inr [0, 3, 4]"
  using positions_give_boundaries [of "[3, 1]" "\<lparr>t_shape = [1, 4], t_data = [0, 1, 2, 0]\<rparr>"]
  by (simp add: upt_rec numeral_nat)

theorem window_boundaries_witness:
  "\<exists>w. window_cu_seqlens ex_md 2 0 = Inr (w (0 :: nat)) \<and> last (w 0) = 2 \<and> (\<Sum>i<2. w i ! 1 - w i ! 0) = 3"
proof -
  have "pm_padded_tokens ex_md = int (2 * 2)" "pm_cu_seqlens ex_md = 0 # cumsum_from 0 [3, 1]"
    by (simp_all add: ex_md_def)
  from window_boundaries [OF _ this] have "\<exists>w. (\<forall>i<2. window_cu_seqlens ex_md (int 2) (int i) = Inr (w i) \<and>
      length (w i) = length [3, 1 :: int] + 1 \<and> sorted (w i) \<and> w i ! 0 = 0 \<and> last (w i) = int 2) \<and>
      (\<forall>r<length [3, 1 :: int]. (\<Sum>i<2. w i ! Suc r - w i ! r) =
      (if Suc r = length [3, 1 :: int] then int (2 * 2) - sum_list (take r [3, 1]) else [3, 1] ! r))" by simp
  then obtain w where w: "\<forall>i<2. window_cu_seqlens ex_md (int 2) (int i) = Inr (w i) \<and>
      length (w i) = length [3, 1 :: int] + 1 \<and> sorted (w i) \<and> w i ! 0 = 0 \<and> last (w i) = int 2"
    "\<forall>r<length [3, 1 :: int]. (\<Sum>i<2. w i ! Suc r - w i ! r) =
      (if Suc r = length [3, 1 :: int] then int (2 * 2) - sum_list (take r [3, 1]) else [3, 1] ! r)" by blast
  then show ?thesis using w(1) [rule_format, of 0] w(2) [rule_format, of 0] by (intro exI [of _ w]) simp
qed

theorem shards_rebuild_rows_witness:
  "\<exists>s x pieces. (\<forall>i<2. token_shard ex_packed ex_md 2 (int i) = Inr (s i) \<and>
      map_of (s i) ''input_ids'' = Some (Leaf (TensorLeaf (x i))) \<and>
      window_row_pieces (x i) ex_md 2 (int i) = Inr (pieces i)) \<and>
     concat (map (\<lambda>i. t_data (pieces i ! 0)) [0..<2]) = [5, 6, 7]"
proof -
  let ?q = "\<lparr>t_shape = [1, 4], t_data = [5, 6, 7, 8]\<rparr>"
  define s where "s = (\<lambda>i. case token_shard ex_packed ex_md (int 2) (int i) of Inr b \<Rightarrow> b | Inl _ \<Rightarrow> [])"
  have "\<not> (case token_shard ex_packed ex_md (int 2) (int 0) of Inl _ \<Rightarrow> True | Inr _ \<Rightarrow> False)"
    "\<not> (case token_shard ex_packed ex_md (int 2) (int 1) of Inl _ \<Rightarrow> True | Inr _ \<Rightarrow> False)"
    by code_simp+
  then have sh: "token_shard ex_packed ex_md (int 2) (int i) = Inr (s i)" if "i < 2" for i
    using that by (auto simp: s_def less_2_cases_iff split: sum.splits)
  have "map_of ex_packed ''input_ids'' = Some (Leaf (TensorLeaf ?q))" by (simp add: ex_packed_def)
  then have "\<exists>x pieces. (\<forall>i<2. map_of (s i) ''input_ids'' = Some (Leaf (TensorLeaf (x i))) \<and>
      window_row_pieces (x i) ex_md (int 2) (int i) = Inr (pieces i)) \<and>
    concat (map (\<lambda>i. t_data (x i)) [0..<2]) = t_data ?q \<and>
    concat (map (\<lambda>i. t_data (pieces i ! 0)) [0..<2]) = concat (map (block (prod_list []) (t_data ?q))
      [nat (sum_list (take 0 [3, 1]))..<nat (sum_list (take (Suc 0) [3, 1]))])"
    by (intro shards_rebuild_rows [OF sh, where N = 4 and W = 2]) (simp_all add: ex_md_def tensor_wf_def)
  then obtain x pieces where *: "\<forall>i<2. map_of (s i) ''input_ids'' = Some (Leaf (TensorLeaf (x i))) \<and>
      window_row_pieces (x i) ex_md (int 2) (int i) = Inr (pieces i)"
    "concat (map (\<lambda>i. t_data (pieces i ! 0)) [0..<2]) = concat (map (block (prod_list []) (t_data ?q))
      [nat (sum_list (take 0 [3, 1]))..<nat (sum_list (take (Suc 0) [3, 1]))])" by blast
  have "concat (map (block (prod_list []) (t_data ?q))
      [nat (sum_list (take 0 [3, 1]))..<nat (sum_list (take (Suc 0) [3, 1]))]) = [5, 6, 7]" by code_simp
  with * sh show ?thesis by (intro exI [of _ s] exI [of _ x] exI [of _ pieces]) auto
qed

end
