(* ===== verification/Heapq.thy ===== *)
theory Heapq
  imports Prelude "HOL-Library.Multiset"
begin

text \<open>
  Python's \<open>heapq\<close> on a list, for any comparison \<open>lt\<close>: the loops of \<open>heappush\<close> and \<open>heappop\<close> as
  the library has them, and the contract of a priority queue that their clients rely on.
\<close>

section \<open>The heap operations\<close>

text \<open>\<open>_siftdown\<close>: move \<open>x\<close> from the hole at \<open>pos\<close> towards \<open>start\<close> while it is below its parent.\<close>

function siftdown :: "('a \<Rightarrow> 'a \<Rightarrow> bool) \<Rightarrow> nat \<Rightarrow> nat \<Rightarrow> 'a \<Rightarrow> 'a list \<Rightarrow> 'a list" where
  "siftdown lt start pos x heap =
     (if start < pos
      then (let parentpos = (pos - 1) div 2; parent = heap ! parentpos
            in if lt x parent then siftdown lt start parentpos x (heap[pos := parent])
               else heap[pos := x])
      else heap[pos := x])"
  by pat_completeness auto
termination by (relation "measure (\<lambda>(lt, start, pos, x, heap). pos)") auto

declare siftdown.simps [simp del]

text \<open>\<open>_siftup\<close>: bubble the smaller child up until the hole is a leaf.\<close>

function siftup_loop :: "('a \<Rightarrow> 'a \<Rightarrow> bool) \<Rightarrow> nat \<Rightarrow> 'a list \<Rightarrow> nat \<times> 'a list" where
  "siftup_loop lt pos heap =
     (let childpos = 2 * pos + 1
      in if childpos < length heap
         then (let rightpos = childpos + 1;
                   c = (if rightpos < length heap \<and> \<not> lt (heap ! childpos) (heap ! rightpos)
                        then rightpos else childpos)
               in siftup_loop lt c (heap[pos := heap ! c]))
         else (pos, heap))"
  by pat_completeness auto
termination by (relation "measure (\<lambda>(lt, pos, heap). length heap - pos)") (auto simp: Let_def)

declare siftup_loop.simps [simp del]

definition siftup :: "('a \<Rightarrow> 'a \<Rightarrow> bool) \<Rightarrow> nat \<Rightarrow> 'a list \<Rightarrow> 'a list" where
  "siftup lt pos heap =
     (let x = heap ! pos; (leaf, heap') = siftup_loop lt pos heap in siftdown lt pos leaf x heap')"

definition heappush :: "('a \<Rightarrow> 'a \<Rightarrow> bool) \<Rightarrow> 'a \<Rightarrow> 'a list \<Rightarrow> 'a list" where
  "heappush lt x heap = siftdown lt 0 (length heap) x (heap @ [x])"

definition heappop :: "('a \<Rightarrow> 'a \<Rightarrow> bool) \<Rightarrow> 'a list \<Rightarrow> 'a \<times> 'a list" where
  "heappop lt heap =
     (let lastelt = last heap; rest = butlast heap
      in if rest \<noteq> [] then (hd rest, siftup lt 0 (rest[0 := lastelt])) else (lastelt, []))"

section \<open>The contract\<close>

locale priority_queue =
  fixes push :: "'a \<Rightarrow> 'q \<Rightarrow> 'q" and pop :: "'q \<Rightarrow> 'a \<times> 'q" and elems :: "'q \<Rightarrow> 'a multiset"
  assumes elems_push: "elems (push x q) = add_mset x (elems q)"
    and elems_pop: "elems q \<noteq> {#} \<Longrightarrow> elems q = add_mset (fst (pop q)) (elems (snd (pop q)))"
begin

text \<open>Two pops and a push replace two elements by one.\<close>

lemma pop_two_push:
  assumes "2 \<le> size (elems q)" and "pop q = (a, q1)" and "pop q1 = (b, q2)"
  shows "elems q = {#a, b#} + elems q2" and "elems (push c q2) = add_mset c (elems q2)"
proof -
  have q: "elems q = add_mset a (elems q1)" using elems_pop [of q] assms by fastforce
  with assms(1) have "elems q1 \<noteq> {#}" by auto
  with elems_pop [of q1] assms(3) q show "elems q = {#a, b#} + elems q2" by simp
  show "elems (push c q2) = add_mset c (elems q2)" by (rule elems_push)
qed

lemma size_push [simp]: "size (elems (push x q)) = Suc (size (elems q))"
  by (simp add: elems_push)

end

lemma length_siftdown [simp]: "length (siftdown lt start pos x heap) = length heap"
  by (induction lt start pos x heap rule: siftdown.induct) (subst siftdown.simps, simp add: Let_def)

lemma mset_fill_swap:
  assumes "i < length xs" and "j < length xs" and "i \<noteq> j"
  shows "mset (xs[i := xs ! j, j := x]) = mset (xs[i := x])"
proof -
  let ?ys = "xs[i := x]"
  have "mset (?ys[i := ?ys ! j, j := ?ys ! i]) = mset ?ys" by (rule mset_swap) (use assms in auto)
  with assms show ?thesis by simp
qed

lemma mset_siftdown: "pos < length heap \<Longrightarrow> mset (siftdown lt start pos x heap) = mset (heap[pos := x])"
proof (induction lt start pos x heap rule: siftdown.induct)
  case (1 lt start pos x heap)
  let ?p = "(pos - 1) div 2"
  show ?case
  proof (cases "start < pos \<and> lt x (heap ! ?p)")
    case True
    then have "?p < pos" by auto
    with 1 True mset_fill_swap [of pos heap ?p x] show ?thesis
      by (subst siftdown.simps) (simp add: Let_def)
  next
    case False
    then show ?thesis by (subst siftdown.simps) (auto simp: Let_def)
  qed
qed

lemma siftup_loop_spec:
  "pos < length heap \<Longrightarrow> siftup_loop lt pos heap = (leaf, heap') \<Longrightarrow>
   leaf < length heap' \<and> length heap' = length heap \<and> mset (heap'[leaf := x]) = mset (heap[pos := x])"
proof (induction lt pos heap rule: siftup_loop.induct)
  case (1 lt pos heap)
  define c where "c = (if 2 * pos + 1 + 1 < length heap \<and> \<not> lt (heap ! (2 * pos + 1)) (heap ! (2 * pos + 1 + 1))
    then 2 * pos + 1 + 1 else 2 * pos + 1)"
  show ?case
  proof (cases "2 * pos + 1 < length heap")
    case False
    with 1 show ?thesis by (simp add: siftup_loop.simps [of lt pos heap])
  next
    case True
    then have c: "c < length heap" "pos \<noteq> c" by (auto simp: c_def)
    have "siftup_loop lt c (heap[pos := heap ! c]) = (leaf, heap')"
      using "1.prems"(2) True by (auto simp: siftup_loop.simps [of lt pos heap] c_def Let_def split: if_splits)
    then have "leaf < length heap' \<and> length heap' = length heap \<and>
        mset (heap'[leaf := x]) = mset (heap[pos := heap ! c, c := x])"
      using "1.IH" [OF refl True refl c_def] c by simp
    with mset_fill_swap [of pos heap c x] c "1.prems"(1) show ?thesis by simp
  qed
qed

lemma mset_siftup: "pos < length heap \<Longrightarrow> mset (siftup lt pos heap) = mset heap"
proof -
  assume p: "pos < length heap"
  obtain leaf heap' where l: "siftup_loop lt pos heap = (leaf, heap')" by fastforce
  from siftup_loop_spec [OF p l, of "heap ! pos"] mset_siftdown [of leaf heap' lt pos "heap ! pos"] p
  show ?thesis by (simp add: siftup_def l)
qed

interpretation heapq: priority_queue "heappush lt" "heappop lt" mset for lt
proof
  fix x :: 'a and h
  show "mset (heappush lt x h) = add_mset x (mset h)"
    by (simp add: heappush_def mset_siftdown)
next
  fix h :: "'a list"
  assume "mset h \<noteq> {#}"
  then have h: "h \<noteq> []" by simp
  show "mset h = add_mset (fst (heappop lt h)) (mset (snd (heappop lt h)))"
  proof (cases "butlast h")
    case Nil
    then have "h = [last h]" using h append_butlast_last_id by fastforce
    then have "mset h = {#last h#}" by (metis mset_single_iff_right)
    with Nil show ?thesis by (simp add: heappop_def)
  next
    case (Cons y ys)
    then have "h = y # ys @ [last h]" using h append_butlast_last_id by fastforce
    then have "mset h = add_mset y (add_mset (last h) (mset ys))"
      by (metis add_mset_commute mset.simps(2) mset_append union_mset_add_mset_right mset_single_iff_right add.right_neutral)
    with Cons show ?thesis by (simp add: heappop_def mset_siftup)
  qed
qed

lemma length_heappush [simp]: "length (heappush lt x h) = Suc (length h)"
  by (simp add: heappush_def)

lemma length_heappop: "h \<noteq> [] \<Longrightarrow> length (snd (heappop lt h)) = length h - 1"
  using heapq.elems_pop [of h lt] by (metis diff_Suc_1 mset_zero_iff size_add_mset size_mset)

end
