(* ===== verification/Seqlen_Balancing.thy ===== *)
theory Seqlen_Balancing
  imports Heapq "HOL-Library.List_Lexorder" "HOL-Library.Product_Lexorder"
begin

text \<open>
  Balancing sequence lengths over partitions (\<open>rl/zorro_train/seqlen_balancing.py\<close>): the
  Karmarkar-Karp differencing method on a heap of states, the greedy partition, the grouping of
  samples with a common prompt and the bin packing of these groups into micro-batches. A failed
  \<open>assert\<close> is \<open>AssertionError\<close>.
\<close>

section \<open>Sets and states of the differencing method\<close>

record kset =
  ks_sum :: int
  ks_items :: "(nat \<times> int) list"

definition kset_new :: kset where
  "kset_new = \<lparr>ks_sum = 0, ks_items = []\<rparr>"

definition kset_add :: "nat \<Rightarrow> int \<Rightarrow> kset \<Rightarrow> kset" where
  "kset_add idx val s = \<lparr>ks_sum = ks_sum s + val, ks_items = ks_items s @ [(idx, val)]\<rparr>"

definition kset_merge :: "kset \<Rightarrow> kset \<Rightarrow> kset" where
  "kset_merge s other = fold (\<lambda>(idx, val). kset_add idx val) (ks_items other) s"

text \<open>The order of \<open>Set.__lt__\<close>: by sum, then by number of items, then by the items.\<close>

definition kset_key :: "kset \<Rightarrow> int \<times> nat \<times> (nat \<times> int) list" where
  "kset_key s = (ks_sum s, length (ks_items s), ks_items s)"

text \<open>A state is its list of sets, kept in decreasing order.\<close>

type_synonym kstate = "kset list"

definition state_new :: "(nat \<times> int) list \<Rightarrow> nat \<Rightarrow> kstate res" where
  "state_new items k =
     (if \<not> (length items = 1 \<or> length items = k) then Inl AssertionError
      else if k < length items then Inl IndexError
      else Inr (sorted_desc kset_key
             (map (\<lambda>i. if i < length items then kset_add (fst (items ! i)) (snd (items ! i)) kset_new
                       else kset_new) [0..<k])))"

definition get_partitions :: "kstate \<Rightarrow> nat list list" where
  "get_partitions st = map (\<lambda>s. map fst (ks_items s)) st"

definition state_merge :: "kstate \<Rightarrow> kstate \<Rightarrow> kstate" where
  "state_merge a b = sorted_desc kset_key (map2 kset_merge a (rev b))"

definition spread :: "kstate \<Rightarrow> int" where
  "spread st = ks_sum (hd st) - ks_sum (last st)"

definition state_lt :: "kstate \<Rightarrow> kstate \<Rightarrow> bool" where
  "state_lt a b \<longleftrightarrow>
     (if spread a \<noteq> spread b then spread b < spread a else kset_key (hd b) < kset_key (hd a))"

section \<open>The differencing method\<close>

fun push_states :: "nat \<Rightarrow> (nat \<times> int) list list \<Rightarrow> kstate list \<Rightarrow> kstate list res" where
  "push_states k [] heap = Inr heap"
| "push_states k (items # rest) heap =
     (case state_new items k of Inl e \<Rightarrow> Inl e
      | Inr st \<Rightarrow> push_states k rest (heappush state_lt st heap))"

text \<open>The chunks \<open>sorted_seqlen_list[offset : offset + k]\<close> with index and length swapped.\<close>

definition chunks :: "nat \<Rightarrow> 'a list \<Rightarrow> 'a list list" where
  "chunks k xs = map (\<lambda>j. take k (drop (j * k) xs)) [0..<length xs div k]"

function merge_loop :: "kstate list \<Rightarrow> kstate list" where
  "merge_loop heap =
     (if 1 < length heap
      then (let (state0, h1) = heappop state_lt heap; (state1, h2) = heappop state_lt h1
            in merge_loop (heappush state_lt (state_merge state0 state1) h2))
      else heap)"
  by pat_completeness auto
termination
proof (relation "measure length")
  fix heap :: "kstate list" and x y :: "kstate \<times> kstate list" and s0 h1 s1 h2
  assume l: "1 < length heap" and "x = heappop state_lt heap" "(s0, h1) = x" "y = heappop state_lt h1" "(s1, h2) = y"
  then have p: "heappop state_lt heap = (s0, h1)" "heappop state_lt h1 = (s1, h2)" by simp_all
  have "length h1 = length heap - 1" using length_heappop [of heap state_lt] l p(1) by fastforce
  moreover from this l have "h1 \<noteq> []" by auto
  then have "length h2 = length h1 - 1" using length_heappop [of h1 state_lt] p(2) by simp
  ultimately show "(heappush state_lt (state_merge s0 s1) h2, heap) \<in> measure length" using l by simp
qed auto

declare merge_loop.simps [simp del]

definition karmarkar_karp :: "int list \<Rightarrow> nat \<Rightarrow> bool \<Rightarrow> nat list list res" where
  "karmarkar_karp seqlens k equal_size =
     (let items = map (\<lambda>(seqlen, i). (i, seqlen)) (sort (map (\<lambda>(i, l). (l, i)) (enumerate_from 0 seqlens)))
      in if equal_size \<and> k = 0 then Inl ZeroDivisionError
         else if equal_size \<and> length seqlens mod k \<noteq> 0 then Inl AssertionError
         else case push_states k (if equal_size then chunks k items else map (\<lambda>it. [it]) items) [] of
                Inl e \<Rightarrow> Inl e
              | Inr heap \<Rightarrow>
                  (case merge_loop heap of
                     [] \<Rightarrow> Inl IndexError
                   | final # _ \<Rightarrow>
                       (let parts = get_partitions final
                        in if equal_size \<and> \<not> list_all (\<lambda>p. length p * k = length seqlens) parts
                           then Inl AssertionError else Inr parts)))"

definition check_and_sort_partitions :: "nat \<Rightarrow> nat \<Rightarrow> nat list list \<Rightarrow> nat list list res" where
  "check_and_sort_partitions n k parts =
     (if length parts \<noteq> k then Inl AssertionError
      else if \<not> list_all (\<lambda>p. 0 < length p) parts then Inl AssertionError
      else if set (concat parts) \<noteq> set [0..<n] then Inl AssertionError
      else Inr (map sort parts))"

definition get_seqlen_balanced_partitions :: "int list \<Rightarrow> nat \<Rightarrow> bool \<Rightarrow> nat list list res" where
  "get_seqlen_balanced_partitions seqlens k equal_size =
     (if length seqlens < k then Inl AssertionError
      else case karmarkar_karp seqlens k equal_size of Inl e \<Rightarrow> Inl e
           | Inr parts \<Rightarrow> check_and_sort_partitions (length seqlens) k parts)"

section \<open>The greedy partition\<close>

definition greedy_step :: "nat \<times> int \<Rightarrow> (nat list \<times> int) list \<Rightarrow> (nat list \<times> int) list" where
  "greedy_step it ps =
     (let j = first_min (\<lambda>j. snd (ps ! j)) 0 [1..<length ps]
      in ps[j := (fst (ps ! j) @ [fst it], snd (ps ! j) + snd it)])"

definition greedy_partition :: "int list \<Rightarrow> nat \<Rightarrow> bool \<Rightarrow> nat list list res" where
  "greedy_partition seqlens k equal_size =
     (let bias = (if equal_size then sum_list seqlens + 1 else 0)
      in if k = 0 \<and> seqlens \<noteq> [] then Inl TypeError
         else (let parts = map fst (fold greedy_step (map (\<lambda>(i, l). (i, l + bias)) (enumerate_from 0 seqlens))
                        (replicate k ([], 0)))
               in if equal_size \<and> \<not> list_all (\<lambda>p. length p * k = length seqlens) parts
                  then Inl AssertionError else Inr parts))"

section \<open>Arithmetic and index helpers\<close>

definition ceildiv :: "int \<Rightarrow> int \<Rightarrow> int" where
  "ceildiv a b = - (a div (- b))"

definition roundup_divisible :: "int \<Rightarrow> int \<Rightarrow> int" where
  "roundup_divisible a b = ((a + b - 1) div b) * b"

definition get_reverse_idx :: "nat list \<Rightarrow> nat list" where
  "get_reverse_idx idx_map = fold (\<lambda>(i, idx) r. r[idx := i]) (enumerate_from 0 idx_map) idx_map"

section \<open>Prompt groups and micro-batch bins\<close>

text \<open>Samples with equal prompts, in the order in which a prompt first occurs.\<close>

definition group_prompts :: "'p list \<Rightarrow> ('p, nat list) dict" where
  "group_prompts prompts =
     fold (\<lambda>(i, p) d. AList.update p (dict_get d p [] @ [i]) d) (enumerate_from 0 prompts) []"

function split_group :: "nat \<Rightarrow> 'a list \<Rightarrow> 'a list list" where
  "split_group m g = (if m = 0 \<or> g = [] then [] else take m g # split_group m (drop m g))"
  by pat_completeness auto
termination by (relation "measure (\<lambda>(m, g). length g)") auto

declare split_group.simps [simp del]

definition create_prompt_groups ::
  "'p list \<Rightarrow> int \<Rightarrow> int \<Rightarrow> int \<Rightarrow> int option \<Rightarrow> nat list list res" where
  "create_prompt_groups prompts prompt_len response_length max_token_len threshold =
     (let groups = dict_values (group_prompts prompts)
      in case threshold of
           None \<Rightarrow> Inr groups
         | Some t \<Rightarrow>
             (if groups \<noteq> [] \<and> 0 < t
              then (if max_token_len < prompt_len + response_length * t then Inl ValueError
                    else if int (Max (length ` set groups)) > t
                    then Inr (concat (map (\<lambda>g. if t < int (length g) then split_group (nat t) g else [g]) groups))
                    else Inr groups)
              else Inr groups))"

text \<open>
  The cost of a group from the token counts of its prompt and of the responses of its samples
  (\<open>prompt_tokens i\<close> and \<open>response_tokens i\<close> count the mask of sample \<open>i\<close>).
\<close>

definition group_cost :: "(nat \<Rightarrow> int) \<Rightarrow> (nat \<Rightarrow> int) \<Rightarrow> rat \<Rightarrow> nat list \<Rightarrow> rat" where
  "group_cost prompt_tokens response_tokens q g =
     (let p = prompt_tokens (hd g);
          quadratic = p ^ 2 + (\<Sum>i\<leftarrow>g. (p + response_tokens i) * response_tokens i);
          linear = p + (\<Sum>i\<leftarrow>g. response_tokens i)
      in q * of_int quadratic + (1 - q) * of_int linear)"

definition compute_group_costs ::
  "(nat \<Rightarrow> int) \<Rightarrow> (nat \<Rightarrow> int) \<Rightarrow> nat list list \<Rightarrow> rat \<Rightarrow> ((rat \<times> nat list) list \<times> int) res" where
  "compute_group_costs prompt_tokens response_tokens groups q =
     (if \<not> (0 \<le> q \<and> q \<le> 1) then Inl ValueError
      else Inr (map (\<lambda>g. (group_cost prompt_tokens response_tokens q g, g)) groups,
                \<Sum>g\<leftarrow>groups. prompt_tokens (hd g) + (\<Sum>i\<leftarrow>g. response_tokens i)))"

text \<open>
  The number of micro-batches; \<open>others\<close> are the counts of the other ranks when the group
  synchronizes on the maximum.
\<close>

definition num_micro_batches :: "nat \<Rightarrow> int \<Rightarrow> int \<Rightarrow> int option \<Rightarrow> int list option \<Rightarrow> int option \<Rightarrow> int" where
  "num_micro_batches n_groups total_tokens max_token_len min_num others divided_by =
     (let n0 = min (int n_groups) (ceildiv total_tokens max_token_len);
          n1 = (case min_num of None \<Rightarrow> n0 | Some m \<Rightarrow> max m n0);
          n2 = (case others of None \<Rightarrow> n1 | Some os \<Rightarrow> fold max os n1)
      in case divided_by of None \<Rightarrow> n2 | Some d \<Rightarrow> roundup_divisible n2 d)"

definition bin_step :: "rat \<times> nat list \<Rightarrow> (rat \<times> nat list list) list \<Rightarrow> (rat \<times> nat list list) list" where
  "bin_step cg bins =
     (let j = first_min (\<lambda>j. fst (bins ! j)) 0 [1..<length bins]
      in bins[j := (fst (bins ! j) + fst cg, snd (bins ! j) @ [snd cg])])"

text \<open>The index lists of the non-empty micro-batches, in the order of their bins.\<close>

definition micro_bsz_idx :: "(rat \<times> nat list) list \<Rightarrow> nat \<Rightarrow> nat list list res" where
  "micro_bsz_idx group_costs n =
     (if n = 0 then Inl ValueError
      else (let bins = fold bin_step (sorted_desc fst group_costs) (replicate n (0, []));
                ordered = sorted_desc id bins
            in Inr (map (\<lambda>(c, gs). sort (concat gs)) (filter (\<lambda>(c, gs). gs \<noteq> []) ordered))))"

section \<open>Lemmas on sets and states\<close>

definition kset_ok :: "kset \<Rightarrow> bool" where
  "kset_ok s \<longleftrightarrow> ks_sum s = sum_list (map snd (ks_items s)) \<and> (\<forall>p\<in>set (ks_items s). 0 \<le> snd p)"

lemma kset_merge_simps:
  "ks_items (kset_merge s t) = ks_items s @ ks_items t"
  "ks_sum (kset_merge s t) = ks_sum s + sum_list (map snd (ks_items t))"
proof -
  have "ks_items (fold (\<lambda>(idx, val). kset_add idx val) xs s) = ks_items s @ xs \<and>
      ks_sum (fold (\<lambda>(idx, val). kset_add idx val) xs s) = ks_sum s + sum_list (map snd xs)" for xs
    by (induction xs arbitrary: s) (auto simp: kset_add_def)
  then show "ks_items (kset_merge s t) = ks_items s @ ks_items t"
    "ks_sum (kset_merge s t) = ks_sum s + sum_list (map snd (ks_items t))"
    by (simp_all add: kset_merge_def)
qed

lemma kset_merge_ok: "kset_ok s \<Longrightarrow> kset_ok t \<Longrightarrow> kset_ok (kset_merge s t) \<and> ks_sum (kset_merge s t) = ks_sum s + ks_sum t"
  by (auto simp: kset_ok_def kset_merge_simps)

lemma kset_empty_min: "kset_ok s \<Longrightarrow> ks_items t = [] \<Longrightarrow> kset_ok t \<Longrightarrow> kset_key s \<le> kset_key t \<Longrightarrow> ks_items s = []"
proof -
  assume s: "kset_ok s" and t: "ks_items t = []" "kset_ok t" and le: "kset_key s \<le> kset_key t"
  have "0 \<le> ks_sum s" using s by (auto simp: kset_ok_def intro!: sum_list_nonneg)
  moreover have "ks_sum t = 0" using t by (simp add: kset_ok_def)
  ultimately show "ks_items s = []" using le t(1) by (auto simp: kset_key_def less_eq_prod_def less_prod_def)
qed

text \<open>
  The invariant of a state: its sets are consistent and in decreasing order, two sums differ by at
  most \<open>M\<close>, and as many sets are filled as there are items to fill them with.
\<close>

definition filled :: "kset \<Rightarrow> bool" where
  "filled s \<longleftrightarrow> ks_items s \<noteq> []"

definition state_items :: "kstate \<Rightarrow> (nat \<times> int) multiset" where
  "state_items st = mset (concat (map ks_items st))"

definition state_ok :: "nat \<Rightarrow> int \<Rightarrow> kstate \<Rightarrow> bool" where
  "state_ok k M st \<longleftrightarrow>
     length st = k \<and> (\<forall>s\<in>set st. kset_ok s) \<and> sorted (rev (map kset_key st)) \<and>
     (\<forall>a\<in>set st. \<forall>b\<in>set st. ks_sum a - ks_sum b \<le> M) \<and>
     length (filter filled st) = min k (size (state_items st))"

lemma sorted_desc_nth:
  assumes "sorted (rev (map f xs))" and "i \<le> j" and "j < length xs"
  shows "f (xs ! j) \<le> f (xs ! i)"
proof -
  have "rev (map f xs) ! (length xs - Suc j) \<le> rev (map f xs) ! (length xs - Suc i)"
    using assms by (intro sorted_nth_mono) auto
  with assms show ?thesis by (simp add: rev_nth)
qed

lemma filled_prefix:
  assumes "\<forall>s\<in>set st. kset_ok s" and "sorted (rev (map kset_key st))" and "i < length st"
  shows "filled (st ! i) \<longleftrightarrow> i < length (filter filled st)"
proof -
  have later: "filled (st ! i)" if "filled (st ! j)" "i \<le> j" "j < length st" for i j
    using kset_empty_min [of "st ! j" "st ! i"] sorted_desc_nth [OF assms(2) that(2,3)] assms(1) that
    by (auto simp: filled_def)
  have "{i. i < length st \<and> filled (st ! i)} = {..<length (filter filled st)}"
  proof -
    let ?F = "{i. i < length st \<and> filled (st ! i)}"
    have "\<exists>m. ?F = {..<m}"
    proof (cases "?F = {}")
      case False
      have fin: "finite ?F" by simp
      define t where "t = Max ?F"
      have t: "t < length st" "filled (st ! t)" using Max_in [OF fin False] by (simp_all add: t_def)
      have "i \<in> ?F \<longleftrightarrow> i < Suc t" for i
        using Max_ge [OF fin, of i] later [OF t(2) _ t(1), of i] t(1) unfolding t_def [symmetric]
        by (auto simp: less_Suc_eq_le)
      then show ?thesis by blast
    qed (auto intro: exI [of _ 0])
    then obtain m where m: "?F = {..<m}" by blast
    then have "length (filter filled st) = m" by (simp add: length_filter_conv_card)
    with m show ?thesis by simp
  qed
  with assms(3) show ?thesis by blast
qed

lemma card_two_ends: "m \<le> k \<Longrightarrow> n \<le> k \<Longrightarrow> card {i. i < k \<and> (i < m \<or> k - Suc i < n)} = min k (m + n)"
proof -
  assume mn: "m \<le> k" "n \<le> k"
  have eq: "{i. i < k \<and> (i < m \<or> k - Suc i < n)} = {..<m} \<union> {k - n..<k}" using mn by auto
  show ?thesis
  proof (cases "m + n \<le> k")
    case True
    then have "{..<m} \<inter> {k - n..<k} = {}" by auto
    with True mn show ?thesis by (simp add: eq card_Un_disjoint)
  next
    case False
    then have "{..<m} \<union> {k - n..<k} = {..<k}" using mn by auto
    with False show ?thesis by (simp add: eq)
  qed
qed

lemma state_items_perm: "mset a = mset b \<Longrightarrow> state_items a = state_items b"
proof -
  assume "mset a = mset b"
  then have "(\<Sum>xs\<in>#mset a. mset (ks_items xs)) = (\<Sum>xs\<in>#mset b. mset (ks_items xs))" by simp
  then show ?thesis unfolding state_items_def mset_concat map_map o_def by (simp flip: sum_mset_sum_list)
qed

lemma state_items_merge:
  "length a = length b \<Longrightarrow> state_items (state_merge a b) = state_items a + state_items b"
proof -
  assume l: "length a = length b"
  have "mset (concat (map ks_items (map2 kset_merge a c))) = state_items a + state_items c"
    if "length a = length c" for c
    using that by (induction a c rule: list_induct2) (simp_all add: state_items_def kset_merge_simps)
  from this [of "rev b"] l have "state_items (map2 kset_merge a (rev b)) = state_items a + state_items b"
    using state_items_perm [of "rev b" b] by (simp add: state_items_def)
  moreover have "state_items (state_merge a b) = state_items (map2 kset_merge a (rev b))"
    by (rule state_items_perm) (simp add: state_merge_def)
  ultimately show ?thesis by simp
qed

lemma length_filter_perm: "mset a = mset b \<Longrightarrow> length (filter P a) = length (filter P b)"
  by (metis mset_filter size_mset)

lemma set_map2_nth: "length a = length b \<Longrightarrow> x \<in> set (map2 f a b) \<longleftrightarrow> (\<exists>i<length a. x = f (a ! i) (b ! i))"
  by (auto simp: set_zip image_def)

text \<open>The differences of a merge stay within those of the two states.\<close>

lemma merge_bound:
  assumes a: "state_ok k M a" and b: "state_ok k M b" and ij: "i < k" "j < k"
  shows "(ks_sum (a ! i) + ks_sum (rev b ! i)) - (ks_sum (a ! j) + ks_sum (rev b ! j)) \<le> M"
proof -
  have la: "length a = k" and lb: "length b = k" using a b by (simp_all add: state_ok_def)
  have rev: "rev b ! n = b ! (k - Suc n)" if "n < k" for n using that lb by (simp add: rev_nth)
  have mono: "ks_sum (a ! n) \<le> ks_sum (a ! m) \<and> ks_sum (b ! n) \<le> ks_sum (b ! m)" if "m \<le> n" "n < k" for m n
    using sorted_desc_nth [of kset_key a m n] sorted_desc_nth [of kset_key b m n] a b that la lb
    by (auto simp: state_ok_def kset_key_def less_eq_prod_def)
  have ba: "ks_sum (a ! i) - ks_sum (a ! j) \<le> M" using a ij la by (auto simp: state_ok_def)
  have bb: "ks_sum (b ! (k - Suc i)) - ks_sum (b ! (k - Suc j)) \<le> M"
    using b ij lb by (auto simp: state_ok_def)
  show ?thesis
  proof (cases "i \<le> j")
    case True
    then have "ks_sum (b ! (k - Suc i)) \<le> ks_sum (b ! (k - Suc j))" using mono [of "k - Suc j" "k - Suc i"] ij by simp
    with ba rev ij show ?thesis by simp
  next
    case False
    then have "ks_sum (a ! i) \<le> ks_sum (a ! j)" using mono [of j i] ij by simp
    with bb rev ij show ?thesis by simp
  qed
qed

lemma state_merge_ok:
  assumes a: "state_ok k M a" and b: "state_ok k M b"
  shows "state_ok k M (state_merge a b)"
proof -
  have la: "length a = k" and lb: "length b = k" and oka: "\<forall>s\<in>set a. kset_ok s" and okb: "\<forall>s\<in>set b. kset_ok s"
    and sa: "sorted (rev (map kset_key a))" and sb: "sorted (rev (map kset_key b))"
    using a b by (simp_all add: state_ok_def)
  let ?c = "map2 kset_merge a (rev b)"
  have lr: "length a = length (rev b)" by (simp add: la lb)
  have okr: "kset_ok (a ! i)" "kset_ok (rev b ! i)" if "i < k" for i
    using oka okb that la lb nth_mem [of i a] nth_mem [of i "rev b"] by auto
  have c: "\<forall>s\<in>set ?c. kset_ok s"
    unfolding Ball_def set_map2_nth [OF lr] using okr la by (auto simp: kset_merge_ok)
  have bound: "\<forall>x\<in>set ?c. \<forall>y\<in>set ?c. ks_sum x - ks_sum y \<le> M"
    unfolding Ball_def set_map2_nth [OF lr] using merge_bound [OF a b] okr la by (auto simp: kset_merge_ok)
  have "filled (?c ! i) \<longleftrightarrow> filled (a ! i) \<or> filled (rev b ! i)" if "i < k" for i
    using that la lb by (simp add: filled_def kset_merge_simps)
  moreover have "filled (a ! i) \<longleftrightarrow> i < length (filter filled a)" if "i < k" for i
    using filled_prefix [OF oka sa] that la by simp
  moreover have "filled (rev b ! i) \<longleftrightarrow> k - Suc i < length (filter filled b)" if "i < k" for i
    using filled_prefix [OF okb sb, of "k - Suc i"] that lb by (simp add: rev_nth)
  ultimately have "{i. i < k \<and> filled (?c ! i)} =
      {i. i < k \<and> (i < length (filter filled a) \<or> k - Suc i < length (filter filled b))}" by blast
  moreover have "length (filter filled a) \<le> k" "length (filter filled b) \<le> k"
    using length_filter_le [of filled a] length_filter_le [of filled b] la lb by simp_all
  ultimately have "length (filter filled ?c) = min k (length (filter filled a) + length (filter filled b))"
    using la lb by (simp add: length_filter_conv_card card_two_ends)
  also have "\<dots> = min k (size (state_items (state_merge a b)))"
    using a b la lb by (simp add: state_ok_def state_items_merge)
  finally have count: "length (filter filled ?c) = min k (size (state_items (state_merge a b)))" .
  have perm: "mset (state_merge a b) = mset ?c" by (simp add: state_merge_def)
  then have "length (filter filled (state_merge a b)) = length (filter filled ?c)"
    by (rule length_filter_perm)
  moreover have "set (state_merge a b) = set ?c" "length (state_merge a b) = k"
    using la lb by (simp_all add: state_merge_def)
  moreover have "sorted (rev (map kset_key (state_merge a b)))" by (simp add: state_merge_def sorted_desc_sorted)
  ultimately show ?thesis using c bound count by (simp add: state_ok_def)
qed

text \<open>What every merge keeps, the loop keeps, and it ends with one state.\<close>

lemma merge_loop_keeps:
  assumes "heap \<noteq> []" and "\<forall>st\<in>set heap. P st" and "\<And>a b. P a \<Longrightarrow> P b \<Longrightarrow> P (state_merge a b)"
    and "\<And>a b. P a \<Longrightarrow> P b \<Longrightarrow> state_items (state_merge a b) = state_items a + state_items b"
  shows "\<exists>st. merge_loop heap = [st] \<and> P st \<and> state_items st = (\<Sum>s\<in>#mset heap. state_items s)"
  using assms(1,2)
proof (induction heap rule: merge_loop.induct)
  case (1 heap)
  show ?case
  proof (cases "1 < length heap")
    case False
    with "1.prems" obtain st where "heap = [st]" by (cases heap; cases "tl heap") auto
    with "1.prems" show ?thesis by (simp add: merge_loop.simps)
  next
    case True
    obtain s0 h1 where p0: "heappop state_lt heap = (s0, h1)" by fastforce
    obtain s1 h2 where p1: "heappop state_lt h1 = (s1, h2)" by fastforce
    let ?h = "heappush state_lt (state_merge s0 s1) h2"
    have two: "mset heap = {#s0, s1#} + mset h2" "mset ?h = add_mset (state_merge s0 s1) (mset h2)"
      using heapq.pop_two_push [OF _ p0 p1] True by simp_all
    have "set heap = {s0, s1} \<union> set h2" using arg_cong [OF two(1), of set_mset] by auto
    then have P: "P s0" "P s1" "\<forall>st\<in>set h2. P st" using "1.prems"(2) by auto
    have "set ?h = insert (state_merge s0 s1) (set h2)" using arg_cong [OF two(2), of set_mset] by simp
    then have "\<forall>st\<in>set ?h. P st" using P assms(3) by simp
    moreover have "?h \<noteq> []" by (metis length_heappush list.size(3) nat.distinct(1))
    ultimately have "\<exists>st. merge_loop ?h = [st] \<and> P st \<and> state_items st = (\<Sum>s\<in>#mset ?h. state_items s)"
      using "1.IH" [OF True p0 [symmetric] refl p1 [symmetric] refl] by simp
    moreover have "merge_loop heap = merge_loop ?h" using True p0 p1 by (subst merge_loop.simps) simp
    ultimately show ?thesis using two assms(4) [OF P(1,2)] by (simp add: add.assoc)
  qed
qed

lemma state_new_ok:
  assumes "items \<noteq> []" and "length items = 1 \<or> length items = k" and "0 < k"
    and "\<forall>(i, v)\<in>set items. 0 \<le> v \<and> v \<le> M"
  shows "\<exists>st. state_new items k = Inr st \<and> state_ok k M st \<and> state_items st = mset items \<and>
    (length items = k \<longrightarrow> (\<forall>s\<in>set st. length (ks_items s) = 1))"
proof -
  let ?f = "\<lambda>i. if i < length items then kset_add (fst (items ! i)) (snd (items ! i)) kset_new else kset_new"
  let ?c = "map ?f [0..<k]"
  define st where "st = sorted_desc kset_key ?c"
  have le: "length items \<le> k" using assms(2,3) by auto
  have val: "0 \<le> snd (items ! i) \<and> snd (items ! i) \<le> M" if "i < length items" for i
    using bspec [OF assms(4) nth_mem [OF that]] by auto
  have M: "0 \<le> M" using val [of 0] assms(1) by force
  have st: "state_new items k = Inr st" using assms(2) le by (auto simp: state_new_def st_def)
  have set: "set st = ?f ` {0..<k}" and perm: "mset st = mset ?c" by (simp_all add: st_def)
  have "map (\<lambda>i. ks_items (?f i)) [0..<k] = map (\<lambda>i. [items ! i]) [0..<length items] @ replicate (k - length items) []"
    using le by (intro nth_equalityI) (auto simp: nth_append kset_add_def kset_new_def)
  then have concat: "concat (map ks_items ?c) = items"
    by (simp add: o_def map_nth)
  have items: "state_items st = mset items"
    using state_items_perm [OF perm] concat by (simp add: state_items_def)
  have fill: "filled (?c ! i) \<longleftrightarrow> i < length items" if "i < k" for i
    using that by (simp add: filled_def kset_add_def kset_new_def)
  have "{i. i < k \<and> filled (?c ! i)} = {i. i < k \<and> i < length items}"
    using fill by (intro Collect_cong) (simp only: cong: conj_cong)
  also have "\<dots> = {..<length items}" using le by auto
  finally have "length (filter filled ?c) = length items"
    unfolding length_filter_conv_card length_map length_upt diff_zero by (simp only: card_lessThan)
  moreover have "length (filter filled st) = length (filter filled ?c)"
    by (rule length_filter_perm [OF perm])
  ultimately have count: "length (filter filled st) = min k (size (state_items st))" using le items by simp
  have ok: "\<forall>s\<in>set st. kset_ok s" unfolding set
    using val by (auto simp: kset_ok_def kset_add_def kset_new_def)
  have range: "\<forall>a\<in>set st. 0 \<le> ks_sum a \<and> ks_sum a \<le> M" unfolding set
    using val M by (auto simp: kset_add_def kset_new_def)
  have bound: "\<forall>a\<in>set st. \<forall>b\<in>set st. ks_sum a - ks_sum b \<le> M"
  proof (intro ballI)
    fix a b assume "a \<in> set st" "b \<in> set st"
    then show "ks_sum a - ks_sum b \<le> M" using bspec [OF range, of a] bspec [OF range, of b] by simp
  qed
  have "sorted (rev (map kset_key st))" by (simp add: st_def sorted_desc_sorted)
  with ok bound count have "state_ok k M st" by (simp add: state_ok_def) (simp add: st_def)
  moreover have "length items = k \<longrightarrow> (\<forall>s\<in>set st. length (ks_items s) = 1)"
    unfolding set by (auto simp: kset_add_def kset_new_def)
  ultimately show ?thesis using st items by blast
qed

text \<open>The states of all chunks are on the heap when the loop starts.\<close>

lemma push_states_spec:
  assumes "0 < k" and "\<forall>c\<in>set cs. c \<noteq> [] \<and> (length c = 1 \<or> length c = k) \<and> (\<forall>(i, v)\<in>set c. 0 \<le> v \<and> v \<le> M)"
    and "\<forall>st\<in>set heap. state_ok k M st \<and> (E \<longrightarrow> (\<exists>m. \<forall>s\<in>set st. length (ks_items s) = m))"
    and "E \<longrightarrow> (\<forall>c\<in>set cs. length c = k)"
  shows "\<exists>h. push_states k cs heap = Inr h \<and> length h = length heap + length cs \<and>
    (\<forall>st\<in>set h. state_ok k M st \<and> (E \<longrightarrow> (\<exists>m. \<forall>s\<in>set st. length (ks_items s) = m))) \<and>
    (\<Sum>s\<in>#mset h. state_items s) = (\<Sum>s\<in>#mset heap. state_items s) + mset (concat cs)"
  using assms(2-4)
proof (induction cs arbitrary: heap)
  case (Cons c cs)
  have "c \<noteq> []" "length c = 1 \<or> length c = k" "\<forall>(i, v)\<in>set c. 0 \<le> v \<and> v \<le> M" using Cons.prems(1) by auto
  from state_new_ok [OF this(1,2) assms(1) this(3)] obtain st where st: "state_new c k = Inr st" "state_ok k M st"
    "state_items st = mset c" "length c = k \<longrightarrow> (\<forall>s\<in>set st. length (ks_items s) = 1)" by blast
  let ?h = "heappush state_lt st heap"
  have m: "mset ?h = add_mset st (mset heap)" by (rule heapq.elems_push)
  have "set ?h = insert st (set heap)" using arg_cong [OF m, of set_mset] by simp
  then have "\<forall>st\<in>set ?h. state_ok k M st \<and> (E \<longrightarrow> (\<exists>m. \<forall>s\<in>set st. length (ks_items s) = m))"
    using Cons.prems(2,3) st by auto
  from Cons.IH [OF _ this] Cons.prems(1,3) obtain h where "push_states k cs ?h = Inr h"
    "length h = length ?h + length cs"
    "\<forall>st\<in>set h. state_ok k M st \<and> (E \<longrightarrow> (\<exists>m. \<forall>s\<in>set st. length (ks_items s) = m))"
    "(\<Sum>s\<in>#mset h. state_items s) = (\<Sum>s\<in>#mset ?h. state_items s) + mset (concat cs)" by auto
  with st m show ?case by (simp add: add.commute add.left_commute)
qed simp

section \<open>Properties of the differencing method\<close>

definition sorted_items :: "int list \<Rightarrow> (nat \<times> int) list" where
  "sorted_items seqlens =
     map (\<lambda>(seqlen, i). (i, seqlen)) (sort (map (\<lambda>(i, l). (l, i)) (enumerate_from 0 seqlens)))"

lemma mset_sorted_items: "mset (sorted_items seqlens) = mset (enumerate_from 0 seqlens)"
  by (simp add: sorted_items_def image_mset.compositionality o_def case_prod_beta')

lemma enumerate_values: "(i, v) \<in> set (enumerate_from 0 xs) \<longleftrightarrow> i < length xs \<and> v = xs ! i"
  by (auto simp: enumerate_from_def in_set_zip intro!: exI [of _ i])

lemma sorted_items_values: "(i, v) \<in> set (sorted_items xs) \<longleftrightarrow> i < length xs \<and> v = xs ! i"
  using mset_eq_setD [OF mset_sorted_items, of xs] by (simp add: enumerate_values)

lemma length_sorted_items [simp]: "length (sorted_items xs) = length xs"
  by (simp add: sorted_items_def)

lemma chunks_spec:
  assumes "0 < k" and "k dvd length xs"
  shows "concat (chunks k xs) = xs" and "\<forall>c\<in>set (chunks k xs). length c = k"
proof -
  have take: "concat (map (\<lambda>j. take k (drop (j * k) xs)) [0..<n]) = take (n * k) xs" for n
  proof (induction n)
    case (Suc n)
    have "take (n * k) xs @ take k (drop (n * k) xs) = take (n * k + k) xs" by (rule take_add [symmetric])
    with Suc show ?case by (simp add: add.commute)
  qed simp
  show "concat (chunks k xs) = xs" using assms by (simp add: chunks_def take)
  have "k \<le> length xs - j * k" if "j < length xs div k" for j
  proof -
    have "Suc j * k \<le> length xs div k * k" using that by (intro mult_le_mono1) simp
    with assms show ?thesis by simp
  qed
  then show "\<forall>c\<in>set (chunks k xs). length c = k" by (auto simp: chunks_def min_absorb2)
qed

definition part_load :: "int list \<Rightarrow> nat list \<Rightarrow> int" where
  "part_load seqlens p = (\<Sum>i\<leftarrow>p. seqlens ! i)"

lemma merge_keeps_sizes:
  assumes "\<forall>s\<in>set a. length (ks_items s) = m" and "\<forall>s\<in>set b. length (ks_items s) = n" and "length a = length b"
  shows "\<forall>s\<in>set (state_merge a b). length (ks_items s) = m + n"
proof -
  have "length a = length (rev b)" using assms(3) by simp
  from set_map2_nth [OF this, of _ kset_merge] assms nth_mem [of _ "rev b"] show ?thesis
    by (auto simp: state_merge_def kset_merge_simps simp del: set_map)
qed

lemma karmarkar_karp_spec:
  assumes k: "0 < k" "k \<le> length xs" and pos: "\<forall>l\<in>set xs. 0 \<le> l" and E: "E \<longrightarrow> k dvd length xs"
  shows "\<exists>P. karmarkar_karp xs k E = Inr P \<and> length P = k \<and> mset (concat P) = mset [0..<length xs] \<and>
    [] \<notin> set P \<and> (E \<longrightarrow> (\<forall>p\<in>set P. length p * k = length xs)) \<and>
    (\<forall>p\<in>set P. \<forall>q\<in>set P. part_load xs p - part_load xs q \<le> Max (set xs))"
proof -
  let ?M = "Max (set xs)" and ?items = "sorted_items xs"
  define cs where "cs = (if E then chunks k ?items else map (\<lambda>it. [it]) ?items)"
  have dvd: "E \<Longrightarrow> k dvd length ?items" using E by simp
  have concat: "concat cs = ?items" using chunks_spec(1) [OF k(1) dvd] by (simp add: cs_def)
  have lens: "c \<noteq> [] \<and> (length c = 1 \<or> length c = k)" if "c \<in> set cs" for c
    using that chunks_spec(2) [OF k(1) dvd] k(1) by (auto simp: cs_def split: if_splits)
  have range: "0 \<le> v \<and> v \<le> ?M" if "(i, v) \<in> set ?items" for i v
    using that pos by (auto simp: sorted_items_values)
  have vals: "\<forall>(i, v)\<in>set c. 0 \<le> v \<and> v \<le> ?M" if "c \<in> set cs" for c
    using that by (auto intro!: range simp flip: concat)
  have "E \<longrightarrow> (\<forall>c\<in>set cs. length c = k)" using chunks_spec(2) [OF k(1) dvd] by (simp add: cs_def)
  from push_states_spec [OF k(1), of cs ?M "[]" E] this lens vals obtain h where h: "push_states k cs [] = Inr h"
    "length h = length cs" "\<forall>st\<in>set h. state_ok k ?M st \<and> (E \<longrightarrow> (\<exists>m. \<forall>s\<in>set st. length (ks_items s) = m))"
    "(\<Sum>s\<in>#mset h. state_items s) = mset ?items" using concat by auto
  have "cs \<noteq> []" using concat k by (metis concat.simps(1) length_sorted_items list.size(3) not_less)
  with h(2) have "h \<noteq> []" by auto
  define P where "P = (\<lambda>st. state_ok k ?M st \<and> (E \<longrightarrow> (\<exists>m. \<forall>s\<in>set st. length (ks_items s) = m)))"
  have len: "length a = k" if "P a" for a using that by (simp add: P_def state_ok_def)
  have keep: "P (state_merge a b)" if "P a" "P b" for a b
    using that merge_keeps_sizes [of a _ b] len [OF that(1)] len [OF that(2)] state_merge_ok
    unfolding P_def by metis
  have "\<exists>st. merge_loop h = [st] \<and> P st \<and> state_items st = (\<Sum>s\<in>#mset h. state_items s)"
  proof (rule merge_loop_keeps [where P = P, OF \<open>h \<noteq> []\<close> _ keep])
    show "\<forall>st\<in>set h. P st" unfolding P_def by (rule h(3))
    show "state_items (state_merge a b) = state_items a + state_items b" if "P a" "P b" for a b
      using len [OF that(1)] len [OF that(2)] by (simp add: state_items_merge)
  qed
  then obtain st where st: "merge_loop h = [st]" "state_ok k ?M st"
    "E \<longrightarrow> (\<exists>m. \<forall>s\<in>set st. length (ks_items s) = m)" "state_items st = mset ?items"
    using h(4) by (auto simp: P_def)
  let ?P = "get_partitions st"
  have lst: "length st = k" using st(2) by (simp add: state_ok_def)
  have "mset (concat ?P) = image_mset fst (state_items st)"
    by (simp add: get_partitions_def state_items_def map_concat o_def flip: mset_map)
  then have part: "mset (concat ?P) = mset [0..<length xs]"
    by (simp add: st(4) mset_sorted_items flip: mset_map)
  have "length (filter filled st) = length st" using st(2,4) k lst by (simp add: state_ok_def)
  then have "\<forall>s\<in>set st. filled s" by (metis filter_id_conv length_filter_less less_irrefl)
  then have ne: "[] \<notin> set ?P" by (auto simp: get_partitions_def filled_def)
  have load: "part_load xs (map fst (ks_items s)) = ks_sum s" if s: "s \<in> set st" for s
  proof -
    have "p \<in># state_items st" if "p \<in> set (ks_items s)" for p using s that by (auto simp: state_items_def)
    then have "xs ! fst p = snd p" if "p \<in> set (ks_items s)" for p
      using that sorted_items_values [of "fst p" "snd p" xs] by (simp add: st(4))
    then have "map (\<lambda>p. xs ! fst p) (ks_items s) = map snd (ks_items s)" by simp
    moreover have "kset_ok s" using st(2) s by (simp add: state_ok_def)
    ultimately show ?thesis unfolding part_load_def kset_ok_def map_map o_def by argo
  qed
  have bal: "\<forall>p\<in>set ?P. \<forall>q\<in>set ?P. part_load xs p - part_load xs q \<le> ?M"
    using st(2) load by (auto simp: get_partitions_def state_ok_def)
  have size: "E \<longrightarrow> (\<forall>p\<in>set ?P. length p * k = length xs)"
  proof
    assume E
    with st(3) obtain m where m: "\<forall>s\<in>set st. length (ks_items s) = m" by blast
    then have "length (concat (map ks_items st)) = m * k"
      using lst by (simp add: length_concat o_def sum_list_triv cong: map_cong)
    moreover have "size (state_items st) = length xs" by (simp add: st(4))
    ultimately show "\<forall>p\<in>set ?P. length p * k = length xs"
      using m by (auto simp: get_partitions_def state_items_def)
  qed
  have "karmarkar_karp xs k E = Inr ?P"
    using h(1) st(1) size k E
    by (auto simp: karmarkar_karp_def Let_def cs_def sorted_items_def list_all_iff dvd_eq_mod_eq_0)
  then show ?thesis using part ne bal size lst by (simp add: get_partitions_def)
qed

text \<open>
  C22. Balanced partitioning: for non-negative lengths, at least one and at most as many partitions as
  items, and for equal sizes a number of partitions that divides the number of items, every
  assertion of the code holds and the result consists of \<open>k\<close> non-empty ascending partitions that
  together hold every index exactly once; with equal sizes each has the same number of items; and
  the token counts of any two partitions differ by at most the longest single sequence.
\<close>

theorem balanced_partitions:
  assumes "0 < k" and "k \<le> length xs" and "\<forall>l\<in>set xs. 0 \<le> l" and "E \<longrightarrow> k dvd length xs"
  shows "\<exists>P. get_seqlen_balanced_partitions xs k E = Inr P \<and> length P = k \<and>
    mset (concat P) = mset [0..<length xs] \<and> (\<forall>p\<in>set P. p \<noteq> [] \<and> sorted p) \<and>
    (E \<longrightarrow> (\<forall>p\<in>set P. length p = length xs div k)) \<and>
    (\<forall>p\<in>set P. \<forall>q\<in>set P. part_load xs p - part_load xs q \<le> Max (set xs))"
proof -
  from karmarkar_karp_spec [OF assms] obtain Q where Q: "karmarkar_karp xs k E = Inr Q" "length Q = k"
    "mset (concat Q) = mset [0..<length xs]" "[] \<notin> set Q" "E \<longrightarrow> (\<forall>p\<in>set Q. length p * k = length xs)"
    "\<forall>p\<in>set Q. \<forall>q\<in>set Q. part_load xs p - part_load xs q \<le> Max (set xs)" by blast
  have "list_all (\<lambda>p. 0 < length p) Q" using Q(4) by (auto simp: list_all_iff)
  moreover have "set (concat Q) = set [0..<length xs]" using mset_eq_setD [OF Q(3)] .
  ultimately have "get_seqlen_balanced_partitions xs k E = Inr (map sort Q)"
    using assms(2) Q(1,2) by (simp add: get_seqlen_balanced_partitions_def check_and_sort_partitions_def)
  moreover have "mset (concat (map sort Q)) = mset (concat Q)" by (induction Q) auto
  moreover have "sort p \<noteq> []" if "p \<in> set Q" for p
    using that Q(4) length_sort [of "\<lambda>x. x" p] by (metis length_0_conv)
  moreover have "length p = length xs div k" if "p \<in> set Q" E for p
    using Q(5) that assms(1) by (metis nonzero_mult_div_cancel_right not_gr0)
  moreover have "part_load xs (sort p) = part_load xs p" for p
    unfolding part_load_def by (simp flip: sum_mset_sum_list)
  ultimately show ?thesis using Q(2,3,6) by (intro exI [of _ "map sort Q"]) auto
qed

theorem balanced_partitions_witness:
  "\<exists>P. get_seqlen_balanced_partitions [8, 1, 5, 4, 3, 3] 2 True = Inr P \<and> length P = 2 \<and> (\<forall>p\<in>set P. length p = 3)"
  using balanced_partitions [of 2 "[8, 1, 5, 4, 3, 3]" True] by auto

section \<open>Properties of prompt groups and bins\<close>

lemma first_min_index:
  assumes "xs \<noteq> []" and "j = first_min (\<lambda>j. f (xs ! j)) 0 [1..<length xs]"
  shows "j < length xs" and "x \<in> set xs \<Longrightarrow> f (xs ! j) \<le> f x"
proof -
  have all: "insert 0 (set [1..<length xs]) = {0..<length xs}" using assms(1) by (auto simp: Suc_le_eq)
  show "j < length xs" using first_min_in [of "\<lambda>j. f (xs ! j)" 0 "[1..<length xs]"] unfolding all assms(2) by simp
  assume "x \<in> set xs"
  then obtain i where "i < length xs" "xs ! i = x" by (metis in_set_conv_nth)
  then show "f (xs ! j) \<le> f x"
    using first_min_le [of i 0 "[1..<length xs]" "\<lambda>j. f (xs ! j)"] unfolding all assms(2) by simp
qed

lemma bin_step_spec:
  assumes "bins \<noteq> []" and "0 \<le> fst cg" and "fst cg \<le> C"
    and "\<forall>a\<in>set bins. \<forall>b\<in>set bins. fst a - fst b \<le> C"
  shows "length (bin_step cg bins) = length bins \<and>
    mset (concat (map snd (bin_step cg bins))) = add_mset (snd cg) (mset (concat (map snd bins))) \<and>
    (\<forall>a\<in>set (bin_step cg bins). \<forall>b\<in>set (bin_step cg bins). fst a - fst b \<le> C)"
proof -
  define j where "j = first_min (\<lambda>j. fst (bins ! j)) 0 [1..<length bins]"
  note j = first_min_index [OF assms(1) j_def]
  let ?new = "(fst (bins ! j) + fst cg, snd (bins ! j) @ [snd cg])"
  have eq: "bin_step cg bins = bins[j := ?new]" by (simp add: bin_step_def j_def Let_def)
  have split: "bins = take j bins @ bins ! j # drop (Suc j) bins" using j(1) by (rule id_take_nth_drop)
  have "mset (concat (map snd (bins[j := ?new]))) = add_mset (snd cg) (mset (concat (map snd bins)))"
    unfolding upd_conv_take_nth_drop [OF j(1)] by (subst (4) split) simp
  moreover have "\<forall>a\<in>set (bins[j := ?new]). \<forall>b\<in>set (bins[j := ?new]). fst a - fst b \<le> C"
  proof (intro ballI)
    fix a b assume "a \<in> set (bins[j := ?new])" "b \<in> set (bins[j := ?new])"
    then have ab: "a = ?new \<or> a \<in> set bins" "b = ?new \<or> b \<in> set bins"
      using set_update_subset_insert [of bins j ?new] by auto
    have "bins ! j \<in> set bins" using j(1) by simp
    then show "fst a - fst b \<le> C" using ab assms(2-4) j(2) by fastforce
  qed
  ultimately show ?thesis by (simp add: eq)
qed

lemma bins_spec:
  assumes "bins \<noteq> []" and "\<forall>cg\<in>set cgs. 0 \<le> fst cg \<and> fst cg \<le> C"
    and "\<forall>a\<in>set bins. \<forall>b\<in>set bins. fst a - fst b \<le> C"
  shows "length (fold bin_step cgs bins) = length bins \<and>
    mset (concat (map snd (fold bin_step cgs bins))) = mset (map snd cgs) + mset (concat (map snd bins)) \<and>
    (\<forall>a\<in>set (fold bin_step cgs bins). \<forall>b\<in>set (fold bin_step cgs bins). fst a - fst b \<le> C)"
  using assms
proof (induction cgs arbitrary: bins)
  case (Cons cg cgs)
  have cg: "0 \<le> fst cg" "fst cg \<le> C" using Cons.prems(2) by auto
  note st = bin_step_spec [OF Cons.prems(1) cg Cons.prems(3)]
  have "bin_step cg bins \<noteq> []" using st Cons.prems(1) by (metis length_0_conv)
  with Cons.IH [of "bin_step cg bins"] st Cons.prems(2) show ?case by simp
qed simp

lemma group_prompts_spec:
  "dict_wf (group_prompts ps) \<and> set (keys (group_prompts ps)) = set ps \<and>
   (\<forall>p\<in>set ps. map_of (group_prompts ps) p = Some (filter (\<lambda>i. ps ! i = p) [0..<length ps]))"
proof (induction ps rule: rev_induct)
  case (snoc x ps)
  let ?d = "group_prompts ps"
  have eq: "group_prompts (ps @ [x]) = AList.update x (dict_get ?d x [] @ [length ps]) ?d"
    by (simp add: group_prompts_def enumerate_from_def)
  have old: "filter (\<lambda>i. (ps @ [x]) ! i = p) [0..<length ps] = filter (\<lambda>i. ps ! i = p) [0..<length ps]" for p
    by (rule filter_cong) (auto simp: nth_append)
  have "dict_get ?d x [] = filter (\<lambda>i. ps ! i = x) [0..<length ps]"
  proof (cases "x \<in> set ps")
    case True
    with snoc show ?thesis by simp
  next
    case False
    then have "map_of ?d x = None" using snoc by (simp add: map_of_None_keys)
    moreover have "filter (\<lambda>i. ps ! i = x) [0..<length ps] = []" using False by (auto simp: filter_empty_conv)
    ultimately show ?thesis by simp
  qed
  with snoc old show ?case by (auto simp: eq dict_simps)
qed (simp add: group_prompts_def enumerate_from_def)

lemma concat_split_group: "0 < m \<Longrightarrow> concat (split_group m g) = g \<and>
  (\<forall>h\<in>set (split_group m g). h \<noteq> [] \<and> length h \<le> m \<and> set h \<subseteq> set g)"
proof (induction m g rule: split_group.induct)
  case (1 m g)
  show ?case
  proof (cases "g = []")
    case True
    then show ?thesis by (simp add: split_group.simps)
  next
    case False
    with 1 have "concat (split_group m (drop m g)) = drop m g \<and>
      (\<forall>h\<in>set (split_group m (drop m g)). h \<noteq> [] \<and> length h \<le> m \<and> set h \<subseteq> set (drop m g))" by simp
    moreover have "split_group m g = take m g # split_group m (drop m g)"
      using False "1.prems" by (subst split_group.simps) simp
    ultimately show ?thesis using False "1.prems" by (auto dest: in_set_takeD in_set_dropD)
  qed
qed

lemma group_prompts_mset: "mset (concat (dict_values (group_prompts ps))) = mset [0..<length ps]"
proof (induction ps rule: rev_induct)
  case (snoc x ps)
  let ?d = "group_prompts ps"
  have "group_prompts (ps @ [x]) = AList.update x (dict_get ?d x [] @ [length ps]) ?d"
    by (simp add: group_prompts_def enumerate_from_def)
  with mset_values_update [of ?d x "dict_get ?d x [] @ [length ps]"] group_prompts_spec [of ps] snoc
  show ?case by simp
qed (simp add: group_prompts_def enumerate_from_def dict_values_def)

lemma group_prompts_values:
  assumes "g \<in> set (dict_values (group_prompts ps))"
  shows "\<exists>p\<in>set ps. g = filter (\<lambda>i. ps ! i = p) [0..<length ps]"
proof -
  from assms obtain p where "(p, g) \<in> set (group_prompts ps)" by (auto simp: dict_values_def)
  moreover from this have "p \<in> set (keys (group_prompts ps))" by force
  ultimately have "map_of (group_prompts ps) p = Some g" "p \<in> set ps"
    using group_prompts_spec [of ps] by (auto simp: dict_wf_def)
  then show ?thesis using group_prompts_spec [of ps] by (intro bexI [of _ p]) auto
qed

text \<open>
  Prompt groups: when grouping succeeds, every sample is in exactly one group, each group is
  non-empty and holds samples of one prompt only, a threshold bounds the size of every group, and
  without a threshold each group holds all samples of its prompt.
\<close>

theorem prompt_groups_partition:
  assumes "create_prompt_groups ps plen rlen budget threshold = Inr G"
  shows "mset (concat G) = mset [0..<length ps] \<and>
    (\<forall>g\<in>set G. g \<noteq> [] \<and> (\<exists>p\<in>set ps. \<forall>i\<in>set g. i < length ps \<and> ps ! i = p)) \<and>
    (\<forall>t. threshold = Some t \<longrightarrow> 0 < t \<longrightarrow> (\<forall>g\<in>set G. int (length g) \<le> t)) \<and>
    (threshold = None \<longrightarrow> (\<forall>g\<in>set G. \<exists>p\<in>set ps. set g = {i. i < length ps \<and> ps ! i = p}))"
proof -
  let ?V = "dict_values (group_prompts ps)"
  have V: "\<exists>p\<in>set ps. set g = {i. i < length ps \<and> ps ! i = p}" if "g \<in> set ?V" for g
    using group_prompts_values [OF that] by auto
  have ne: "g \<noteq> []" if "g \<in> set ?V" for g
  proof -
    from V [OF that] obtain p where p: "p \<in> set ps" "set g = {i. i < length ps \<and> ps ! i = p}" by blast
    from p(1) obtain i where "i < length ps" "ps ! i = p" unfolding in_set_conv_nth by blast
    then have "i \<in> set g" by (simp add: p(2))
    then show ?thesis by (intro notI) simp
  qed
  have same: "\<exists>p\<in>set ps. \<forall>i\<in>set h. i < length ps \<and> ps ! i = p" if "g \<in> set ?V" "set h \<subseteq> set g" for g h
    using V [OF that(1)] that(2) by blast
  define split where "split = (\<lambda>t. concat (map (\<lambda>g. if t < int (length g) then split_group (nat t) g else [g]) ?V))"
  have sp: "mset (concat (split t)) = mset (concat ?V) \<and>
      (\<forall>h\<in>set (split t). h \<noteq> [] \<and> int (length h) \<le> t \<and> (\<exists>g\<in>set ?V. set h \<subseteq> set g))" if t: "0 < t" for t
  proof -
    define s where "s = (\<lambda>g :: nat list. if t < int (length g) then split_group (nat t) g else [g])"
    have cs: "concat (split_group (nat t) g) = g" for g using concat_split_group [of "nat t" g] t by simp
    have flat: "concat (concat (map s gs)) = concat gs" for gs by (induction gs) (auto simp: cs s_def)
    have parts: "h \<noteq> [] \<and> int (length h) \<le> t \<and> set h \<subseteq> set g" if "h \<in> set (s g)" "g \<in> set ?V" for g h
      using that concat_split_group [of "nat t" g] t ne [OF that(2)] unfolding s_def by (fastforce split: if_splits)
    have "split t = concat (map s ?V)" by (simp add: split_def s_def)
    with flat [of ?V] parts show ?thesis by auto
  qed
  show ?thesis
  proof (cases "\<exists>t. threshold = Some t \<and> 0 < t \<and> ?V \<noteq> [] \<and> t < int (Max (length ` set ?V))")
    case True
    then obtain t where t: "threshold = Some t" "0 < t" and G: "G = split t"
      using assms by (auto simp: create_prompt_groups_def Let_def split_def split: if_splits)
    from sp [OF t(2)] same show ?thesis unfolding G using t group_prompts_mset [of ps] by auto
  next
    case False
    then have G: "G = ?V"
      using assms by (auto simp: create_prompt_groups_def Let_def split: if_splits option.splits)
    have "int (length g) \<le> t" if "threshold = Some t" "0 < t" "g \<in> set ?V" for t g
    proof -
      have "length g \<le> Max (length ` set ?V)" using that(3) by (intro Max_ge) auto
      moreover have "int (Max (length ` set ?V)) \<le> t" using False that by (cases ?V) (auto simp: not_less)
      ultimately show ?thesis by linarith
    qed
    then show ?thesis unfolding G using V ne same group_prompts_mset [of ps] by blast
  qed
qed

theorem prompt_groups_partition_witness:
  "create_prompt_groups [''a'', ''b'', ''a'', ''a''] 4 2 100 (Some 2) = Inr [[0, 2], [3], [1]] \<and>
   mset (concat [[0, 2], [3], [1 :: nat]]) = mset [0..<length [''a'', ''b'', ''a'', ''a'']]"
proof -
  have e: "create_prompt_groups [''a'', ''b'', ''a'', ''a''] 4 2 100 (Some 2) = Inr [[0, 2], [3], [1]]"
    by code_simp
  from prompt_groups_partition [OF e] e show ?thesis by blast
qed

lemma mset_concat_cong: "mset xs = mset ys \<Longrightarrow> mset (concat xs) = mset (concat ys)"
  by (simp add: mset_concat flip: sum_mset_sum_list)

lemma micro_lists_mset:
  "mset (concat (map (\<lambda>(c, gs). sort (concat gs)) (filter (\<lambda>(c, gs). gs \<noteq> []) bins))) =
   mset (concat (concat (map snd bins)))"
  by (induction bins) auto

text \<open>
  Micro-batch bins: with at least one bin and non-negative costs the index lists of the
  micro-batches are ascending, together hold the samples of all groups exactly once, and each group
  stays within one micro-batch; before the empty bins are dropped, the costs of any two bins differ
  by at most the largest cost of a single group.
\<close>

theorem micro_batches_partition:
  assumes "0 < n" and costs: "\<forall>cg\<in>set cgs. 0 \<le> fst cg \<and> fst cg \<le> C" and "0 \<le> C"
    and bins: "bins = fold bin_step (sorted_desc fst cgs) (replicate n (0, []))"
  shows "\<exists>L. micro_bsz_idx cgs n = Inr L \<and> mset (concat L) = mset (concat (map snd cgs)) \<and>
    (\<forall>l\<in>set L. sorted l) \<and> (\<forall>cg\<in>set cgs. snd cg \<noteq> [] \<longrightarrow> (\<exists>l\<in>set L. set (snd cg) \<subseteq> set l)) \<and>
    (\<forall>a\<in>set bins. \<forall>b\<in>set bins. fst a - fst b \<le> C)"
proof -
  let ?keep = "filter (\<lambda>(c, gs). gs \<noteq> []) (sorted_desc id bins)"
  define L where "L = map (\<lambda>(c, gs). sort (concat gs)) ?keep"
  have "\<forall>a\<in>set (replicate n (0, [])). \<forall>b\<in>set (replicate n (0, [] :: nat list list)). fst a - fst b \<le> C"
    using assms(3) by simp
  from bins_spec [OF _ _ this, of "sorted_desc fst cgs"] costs assms(1)
  have b: "mset (concat (map snd bins)) = mset (map snd (sorted_desc fst cgs))"
    "\<forall>a\<in>set bins. \<forall>b\<in>set bins. fst a - fst b \<le> C" unfolding bins [symmetric] by auto
  have eq: "micro_bsz_idx cgs n = Inr L" using assms(1) by (simp add: micro_bsz_idx_def Let_def L_def bins)
  have groups: "mset (concat (map snd bins)) = mset (map snd cgs)" using b(1) by simp
  have "mset (concat L) = mset (concat (concat (map snd (sorted_desc id bins))))"
    unfolding L_def by (rule micro_lists_mset)
  also have "\<dots> = mset (concat (concat (map snd bins)))"
    by (rule mset_concat_cong, rule mset_concat_cong) simp
  also have "\<dots> = mset (concat (map snd cgs))" by (rule mset_concat_cong [OF groups])
  finally have part: "mset (concat L) = mset (concat (map snd cgs))" .
  have "\<exists>l\<in>set L. set (snd cg) \<subseteq> set l" if "cg \<in> set cgs" for cg
  proof -
    have "snd cg \<in> set (concat (map snd bins))" using mset_eq_setD [OF groups] that by auto
    then obtain c gs where g: "(c, gs) \<in> set bins" "snd cg \<in> set gs" by auto
    then have "sort (concat gs) \<in> set L" by (force simp: L_def)
    with g(2) show ?thesis by (intro bexI [of _ "sort (concat gs)"]) auto
  qed
  then show ?thesis using eq part b(2) by (intro exI [of _ L]) (auto simp: L_def)
qed

definition ex_costs :: "(rat \<times> nat list) list" where
  "ex_costs = [(4, [0, 3]), (9, [1]), (3, [2, 4])]"

theorem micro_batches_partition_witness:
  "\<exists>L. micro_bsz_idx ex_costs 2 = Inr L \<and> mset (concat L) = mset (concat (map snd ex_costs))"
  using micro_batches_partition [of 2 ex_costs 9, OF _ _ _ refl] by (auto simp: ex_costs_def)

end
