(* ===== verification/Suffix_Cache.thy ===== *)
theory Suffix_Cache
  imports Prelude "HOL-Library.Word"
begin

text \<open>
  The cache of suffix decoding (\<open>inference/suffix_decoding/cache.py\<close>) and the decoding loop of its
  simulator (\<open>inference/suffix_decoding/simulator.py\<close>). The suffix trees are native code: their
  operations are fields of a record that every definition takes as an argument, and the claims that
  need more name the contract of the header file (\<open>extend\<close> appends to a sequence, \<open>remove\<close> deletes
  it). Sequence ids are the non-negative values of a 32-bit integer, so they are 31-bit words and
  the increment of \<open>_next_seq_id\<close> wraps.
\<close>

section \<open>Inputs, drafts and the native trees\<close>

record ndarray =
  nd_ndim :: nat
  nd_int32 :: bool
  nd_contiguous :: bool
  nd_data :: "int list"

datatype tokens = Seq "int list" | Ndarray ndarray

record draft =
  d_token_ids :: "int list"
  d_parents :: "int list"
  d_probs :: "rat list"
  d_score :: rat
  d_match_len :: int

record spec_args =
  sa_max_tokens :: int
  sa_factor :: rat
  sa_offset :: rat
  sa_min_prob :: rat
  sa_tree :: bool

type_synonym seq_id = "31 word"

record 't tree_ops =
  tree_new :: "int \<Rightarrow> 't"
  tree_extend :: "'t \<Rightarrow> seq_id \<Rightarrow> int list \<Rightarrow> 't"
  tree_extend_ndarray :: "'t \<Rightarrow> seq_id \<Rightarrow> int list \<Rightarrow> 't"
  tree_remove :: "'t \<Rightarrow> seq_id \<Rightarrow> 't"
  tree_speculate :: "'t \<Rightarrow> int list \<Rightarrow> spec_args \<Rightarrow> draft"
  tree_speculate_ndarray :: "'t \<Rightarrow> int list \<Rightarrow> spec_args \<Rightarrow> draft"

record ('k, 't) suffix_cache =
  sc_depth :: int
  sc_max :: int
  sc_global :: 't
  sc_local :: "('k, 't) dict"
  sc_req :: "('k, seq_id) dict"
  sc_seq :: "(seq_id, 'k) dict"
  sc_next :: seq_id

section \<open>Operations of the cache\<close>

definition sc_init :: "'t tree_ops \<Rightarrow> int \<Rightarrow> int \<Rightarrow> ('k, 't) suffix_cache res" where
  "sc_init T max_tree_depth max_cached_requests =
     (if max_cached_requests > 0x7FFFFFFF then Inl ValueError
      else Inr \<lparr>sc_depth = max_tree_depth, sc_max = max_cached_requests, sc_global = tree_new T max_tree_depth,
                sc_local = [], sc_req = [], sc_seq = [], sc_next = 0\<rparr>)"

definition active_requests :: "('k, 't) suffix_cache \<Rightarrow> 'k list" where
  "active_requests s = keys (sc_local s)"

definition cached_requests :: "('k, 't) suffix_cache \<Rightarrow> 'k list" where
  "cached_requests s = keys (sc_req s)"

definition validate_ndarray :: "ndarray \<Rightarrow> unit res" where
  "validate_ndarray arr =
     (if nd_ndim arr \<noteq> 1 then Inl ValueError
      else if \<not> nd_int32 arr then Inl ValueError
      else if \<not> nd_contiguous arr then Inl ValueError
      else Inr ())"

text \<open>The overload a call selects, with its check: the tokens and whether they came as an array.\<close>

fun select_overload :: "tokens \<Rightarrow> (bool \<times> int list) res" where
  "select_overload (Seq xs) = Inr (False, xs)"
| "select_overload (Ndarray arr) =
     (case validate_ndarray arr of Inl e \<Rightarrow> Inl e | Inr _ \<Rightarrow> Inr (True, nd_data arr))"

definition extend_func :: "'t tree_ops \<Rightarrow> bool \<Rightarrow> 't \<Rightarrow> seq_id \<Rightarrow> int list \<Rightarrow> 't" where
  "extend_func T nd = (if nd then tree_extend_ndarray T else tree_extend T)"

definition spec_func :: "'t tree_ops \<Rightarrow> bool \<Rightarrow> 't \<Rightarrow> int list \<Rightarrow> spec_args \<Rightarrow> draft" where
  "spec_func T nd = (if nd then tree_speculate_ndarray T else tree_speculate T)"

definition evict_cached_response :: "'t tree_ops \<Rightarrow> 'k \<Rightarrow> (('k, 't) suffix_cache, unit) op" where
  "evict_cached_response T r s =
     (case map_of (sc_req s) r of
        None \<Rightarrow> (Inl ValueError, s)
      | Some q \<Rightarrow>
          (let s1 = s\<lparr>sc_req := AList.delete r (sc_req s)\<rparr>
           in case map_of (sc_seq s1) q of
                None \<Rightarrow> (Inl KeyError, s1)
              | Some _ \<Rightarrow> (Inr (), s1\<lparr>sc_seq := AList.delete q (sc_seq s1), sc_global := tree_remove T (sc_global s1) q\<rparr>)))"

text \<open>
  The eviction loop: the first entry of another sequence goes until the limit holds. Where every
  entry has the new id the source loops forever, which is \<open>None\<close>.
\<close>

partial_function (option) evict_loop ::
  "'t tree_ops \<Rightarrow> seq_id \<Rightarrow> ('k, 't) suffix_cache \<Rightarrow> (unit res \<times> ('k, 't) suffix_cache) option" where
  "evict_loop T new s =
     (if int (length (sc_req s)) > sc_max s
      then (case find (\<lambda>(r, q). q \<noteq> new) (sc_req s) of
              None \<Rightarrow> evict_loop T new s
            | Some (r, q) \<Rightarrow>
                (case evict_cached_response T r s of
                   (Inl e, s') \<Rightarrow> Some (Inl e, s')
                 | (Inr _, s') \<Rightarrow> evict_loop T new s'))
      else Some (Inr (), s))"

definition maybe_evict_requests ::
  "'t tree_ops \<Rightarrow> seq_id \<Rightarrow> ('k, 't) suffix_cache \<Rightarrow> (unit res \<times> ('k, 't) suffix_cache) option" where
  "maybe_evict_requests T new s =
     (if sc_max s < 0 then Some (Inr (), s)
      else if sc_max s = 0 then Some (Inl AssertionError, s)
      else evict_loop T new s)"

text \<open>The search for a sequence id that no active request uses, and the next id to try.\<close>

partial_function (option) next_free :: "(seq_id \<Rightarrow> bool) \<Rightarrow> seq_id \<Rightarrow> (seq_id \<times> seq_id) option" where
  "next_free used n = (if used n then next_free used (n + 1) else Some (n, n + 1))"

definition id_in_use :: "('k, 't) suffix_cache \<Rightarrow> seq_id \<Rightarrow> bool" where
  "id_in_use s q = (case map_of (sc_seq s) q of None \<Rightarrow> False | Some r \<Rightarrow> r \<in> set (keys (sc_local s)))"

text \<open>Frees an id that an inactive cached request still holds.\<close>

definition free_collision :: "'t tree_ops \<Rightarrow> seq_id \<Rightarrow> (('k, 't) suffix_cache, unit) op" where
  "free_collision T q s =
     (case map_of (sc_seq s) q of
        None \<Rightarrow> (Inr (), s)
      | Some r \<Rightarrow>
          if r \<notin> set (keys (sc_req s)) then (Inl KeyError, s)
          else (Inr (), s\<lparr>sc_req := AList.delete r (sc_req s), sc_seq := AList.delete q (sc_seq s),
                          sc_global := tree_remove T (sc_global s) q\<rparr>))"

definition generate_seq_id ::
  "'t tree_ops \<Rightarrow> 'k \<Rightarrow> ('k, 't) suffix_cache \<Rightarrow> (unit res \<times> ('k, 't) suffix_cache) option" where
  "generate_seq_id T r s =
     (case next_free (id_in_use s) (sc_next s) of
        None \<Rightarrow> None
      | Some (q, n) \<Rightarrow>
          (case free_collision T q (s\<lparr>sc_next := n\<rparr>) of
             (Inl e, s1) \<Rightarrow> Some (Inl e, s1)
           | (Inr _, s1) \<Rightarrow>
               maybe_evict_requests T q
                 (s1\<lparr>sc_req := AList.update r q (sc_req s1), sc_seq := AList.update q r (sc_seq s1)\<rparr>)))"

definition start_request ::
  "'t tree_ops \<Rightarrow> 'k \<Rightarrow> tokens \<Rightarrow> ('k, 't) suffix_cache \<Rightarrow> (unit res \<times> ('k, 't) suffix_cache) option" where
  "start_request T r prompt s =
     (if r \<in> set (keys (sc_local s)) then Some (Inl ValueError, s)
      else case select_overload prompt of
        Inl e \<Rightarrow> Some (Inl e, s)
      | Inr (nd, xs) \<Rightarrow>
          (let s1 = s\<lparr>sc_local := AList.update r (extend_func T nd (tree_new T (sc_depth s)) 0 xs) (sc_local s)\<rparr>
           in if sc_max s = 0 then Some (Inr (), s1)
              else (case (if r \<in> set (keys (sc_req s1)) then evict_cached_response T r s1 else (Inr (), s1)) of
                      (Inl e, s2) \<Rightarrow> Some (Inl e, s2)
                    | (Inr _, s2) \<Rightarrow> generate_seq_id T r s2)))"

definition stop_request :: "'k \<Rightarrow> (('k, 't) suffix_cache, unit) op" where
  "stop_request r s =
     (if r \<notin> set (keys (sc_local s)) then (Inl ValueError, s)
      else (Inr (), s\<lparr>sc_local := AList.delete r (sc_local s)\<rparr>))"

definition add_active_response :: "'t tree_ops \<Rightarrow> 'k \<Rightarrow> tokens \<Rightarrow> (('k, 't) suffix_cache, unit) op" where
  "add_active_response T r toks s =
     (case map_of (sc_local s) r of
        None \<Rightarrow> (Inl ValueError, s)
      | Some t \<Rightarrow>
          (case select_overload toks of
             Inl e \<Rightarrow> (Inl e, s)
           | Inr (nd, xs) \<Rightarrow>
               (let s1 = s\<lparr>sc_local := AList.update r (extend_func T nd t 0 xs) (sc_local s)\<rparr>
                in case map_of (sc_req s1) r of
                     None \<Rightarrow> (Inr (), s1)
                   | Some q \<Rightarrow> (Inr (), s1\<lparr>sc_global := extend_func T nd (sc_global s1) q xs\<rparr>))))"

text \<open>The slice \<open>xs[start:]\<close> with Python's reading of a negative start.\<close>

definition slice_from :: "int \<Rightarrow> 'a list \<Rightarrow> 'a list" where
  "slice_from start xs = drop (nat (if start < 0 then max 0 (int (length xs) + start) else start)) xs"

text \<open>
  A missing \<open>max_spec_tokens\<close> reads the attribute \<open>max_depth\<close>, which the class does not have.
\<close>

definition speculate ::
  "'t tree_ops \<Rightarrow> 'k \<Rightarrow> tokens \<Rightarrow> int option \<Rightarrow> rat \<Rightarrow> rat \<Rightarrow> rat \<Rightarrow> bool \<Rightarrow> ('k, 't) suffix_cache \<Rightarrow> draft res" where
  "speculate T r ctx max_spec_tokens factor offset min_prob use_tree s =
     (case map_of (sc_local s) r of
        None \<Rightarrow> Inl ValueError
      | Some t \<Rightarrow>
          (case select_overload ctx of
             Inl e \<Rightarrow> Inl e
           | Inr (nd, xs) \<Rightarrow>
               (case max_spec_tokens of
                  None \<Rightarrow> Inl AttributeError
                | Some m \<Rightarrow>
                    (let context = (if int (length xs) > sc_depth s then slice_from (- sc_depth s) xs else xs);
                         args = \<lparr>sa_max_tokens = m, sa_factor = factor, sa_offset = offset, sa_min_prob = min_prob,
                                 sa_tree = use_tree\<rparr>;
                         draft1 = spec_func T nd t context args;
                         draft2 = spec_func T nd (sc_global s) context args
                     in Inr (if d_score draft1 \<ge> d_score draft2 then draft1 else draft2)))))"

section \<open>The decoding loop of the simulator\<close>

text \<open>
  \<open>suffix_decode\<close> replays a known response: each round speculates, accepts the path of the draft that
  agrees with the response and adds one more token. The time measurements of a round are left out.
\<close>

record decode_step =
  st_step :: nat
  st_match_len :: int
  st_score :: rat
  st_num_spec :: nat
  st_num_accept :: nat
  st_num_out :: nat

fun find_child :: "draft \<Rightarrow> int \<Rightarrow> nat list \<Rightarrow> nat option res" where
  "find_child d token [] = Inr None"
| "find_child d token (c # cs) =
     (if length (d_token_ids d) \<le> c then Inl IndexError
      else if d_token_ids d ! c = token then Inr (Some c)
      else find_child d token cs)"

definition draft_children :: "draft \<Rightarrow> int \<Rightarrow> nat list" where
  "draft_children d node = filter (\<lambda>i. d_parents d ! i = node) [0..<length (d_parents d)]"

fun accept_tokens :: "draft \<Rightarrow> int \<Rightarrow> int list \<Rightarrow> int list res" where
  "accept_tokens d node [] = Inr []"
| "accept_tokens d node (token # rest) =
     (case find_child d token (draft_children d node) of
        Inl e \<Rightarrow> Inl e
      | Inr None \<Rightarrow> Inr []
      | Inr (Some c) \<Rightarrow>
          (case accept_tokens d (int c) rest of Inl e \<Rightarrow> Inl e | Inr acc \<Rightarrow> Inr (token # acc)))"

text \<open>The tokens of a round: what was accepted, and the next token of the response unless it is complete.\<close>

definition new_tokens :: "int list \<Rightarrow> int list \<Rightarrow> int list \<Rightarrow> int list" where
  "new_tokens truth response acc =
     acc @ (if length (response @ acc) < length truth then [truth ! length (response @ acc)] else [])"

definition decode_context :: "ndarray \<Rightarrow> int list \<Rightarrow> tokens" where
  "decode_context prompt response =
     Ndarray (if response \<noteq> []
              then \<lparr>nd_ndim = 1, nd_int32 = True, nd_contiguous = True, nd_data = nd_data prompt @ response\<rparr>
              else prompt)"

function decode_loop ::
  "'t tree_ops \<Rightarrow> 'k \<Rightarrow> ndarray \<Rightarrow> int list \<Rightarrow> int \<Rightarrow> rat \<Rightarrow> rat \<Rightarrow> bool \<Rightarrow> int list \<Rightarrow> decode_step list \<Rightarrow>
   (('k, 't) suffix_cache, int list \<times> decode_step list) op" where
  "decode_loop T r prompt truth m factor min_prob use_tree response results s =
     (if length response < length truth
      then (case speculate T r (decode_context prompt response) (Some m) factor 0 min_prob use_tree s of
              Inl e \<Rightarrow> (Inl e, s)
            | Inr d \<Rightarrow>
                (case accept_tokens d (- 1) (drop (length response) truth) of
                   Inl e \<Rightarrow> (Inl e, s)
                 | Inr acc \<Rightarrow>
                     if length truth < length (response @ acc) then (Inl AssertionError, s)
                     else (case add_active_response T r (Seq (new_tokens truth response acc)) s of
                             (Inl e, s') \<Rightarrow> (Inl e, s')
                           | (Inr _, s') \<Rightarrow>
                               decode_loop T r prompt truth m factor min_prob use_tree
                                 (response @ new_tokens truth response acc)
                                 (results @ [\<lparr>st_step = length results, st_match_len = d_match_len d, st_score = d_score d,
                                    st_num_spec = length (d_token_ids d), st_num_accept = length acc,
                                    st_num_out = length (new_tokens truth response acc)\<rparr>]) s')))
      else (Inr (response, results), s))"
  by pat_completeness auto
termination
  by (relation "measure (\<lambda>(T, r, prompt, truth, m, factor, min_prob, use_tree, response, results, s). length truth - length response)")
    (auto simp: new_tokens_def split: if_splits)

declare decode_loop.simps [simp del]

definition suffix_decode ::
  "'t tree_ops \<Rightarrow> 'k \<Rightarrow> ndarray \<Rightarrow> int list \<Rightarrow> int option \<Rightarrow> rat \<Rightarrow> rat \<Rightarrow> bool \<Rightarrow> bool \<Rightarrow>
   ('k, 't) suffix_cache \<Rightarrow> (decode_step list res \<times> ('k, 't) suffix_cache) option" where
  "suffix_decode T r prompt truth max_spec_tokens factor min_prob use_tree use_cached_prompt s =
     (let m = (case max_spec_tokens of None \<Rightarrow> sc_depth s | Some n \<Rightarrow> if n = 0 then sc_depth s else n)
      in case start_request T r (if use_cached_prompt then Ndarray prompt else Seq []) s of
           None \<Rightarrow> None
         | Some (Inl e, s1) \<Rightarrow> Some (Inl e, s1)
         | Some (Inr _, s1) \<Rightarrow>
             Some (case decode_loop T r prompt truth m factor min_prob use_tree [] [] s1 of
                     (Inl e, s2) \<Rightarrow> (Inl e, s2)
                   | (Inr (response, results), s2) \<Rightarrow>
                       if response \<noteq> truth then (Inl AssertionError, s2)
                       else (case stop_request r s2 of (Inl e, s3) \<Rightarrow> (Inl e, s3) | (Inr _, s3) \<Rightarrow> (Inr results, s3))))"

section \<open>Sequences of calls\<close>

datatype 'k sc_cmd =
    Start 'k tokens
  | Stop 'k
  | Add_Response 'k tokens
  | Evict 'k

fun sc_exec ::
  "'t tree_ops \<Rightarrow> 'k sc_cmd \<Rightarrow> ('k, 't) suffix_cache \<Rightarrow> (unit res \<times> ('k, 't) suffix_cache) option" where
  "sc_exec T (Start r xs) s = start_request T r xs s"
| "sc_exec T (Stop r) s = Some (stop_request r s)"
| "sc_exec T (Add_Response r xs) s = Some (add_active_response T r xs s)"
| "sc_exec T (Evict r) s = Some (evict_cached_response T r s)"

inductive sc_reachable :: "'t tree_ops \<Rightarrow> ('k, 't) suffix_cache \<Rightarrow> bool" for T where
  init: "sc_init T d m = Inr s \<Longrightarrow> sc_reachable T s"
| step: "sc_reachable T s \<Longrightarrow> sc_exec T c s = Some (r, s') \<Longrightarrow> sc_reachable T s'"

section \<open>The invariant of the id tables\<close>

definition sc_tables :: "('k, 't) suffix_cache \<Rightarrow> bool" where
  "sc_tables s \<longleftrightarrow> dict_wf (sc_req s) \<and> dict_wf (sc_seq s) \<and> dict_wf (sc_local s) \<and>
     (\<forall>r q. map_of (sc_req s) r = Some q \<longleftrightarrow> map_of (sc_seq s) q = Some r)"

definition sc_within :: "('k, 't) suffix_cache \<Rightarrow> bool" where
  "sc_within s \<longleftrightarrow> sc_max s < 0 \<or> int (length (sc_req s)) \<le> sc_max s"

lemma sc_tables_iff: "sc_tables s \<Longrightarrow> map_of (sc_req s) r = Some q \<longleftrightarrow> map_of (sc_seq s) q = Some r"
  by (simp add: sc_tables_def)

lemma sc_tables_delete:
  assumes "sc_tables s" and "map_of (sc_req s) r = Some q"
    and "sc_req s' = AList.delete r (sc_req s)" and "sc_seq s' = AList.delete q (sc_seq s)" and "dict_wf (sc_local s')"
  shows "sc_tables s'"
proof -
  note iff = sc_tables_iff [OF assms(1)]
  have "map_of (sc_req s') r' = Some q' \<longleftrightarrow> map_of (sc_seq s') q' = Some r'" for r' q'
    unfolding assms(3,4) map_of_delete by (metis iff assms(2) option.distinct(1) option.inject)
  then show ?thesis using assms(1,3-5) unfolding sc_tables_def by auto
qed

lemma sc_tables_update:
  assumes "sc_tables s" and "r \<notin> set (keys (sc_req s))" and "q \<notin> set (keys (sc_seq s))"
    and "sc_req s' = AList.update r q (sc_req s)" and "sc_seq s' = AList.update q r (sc_seq s)" and "dict_wf (sc_local s')"
  shows "sc_tables s'"
proof -
  have "map_of (sc_req s) r = None" "map_of (sc_seq s) q = None" using assms(2,3) by (simp_all only: map_of_None_keys not_False_eq_True)
  moreover note iff = sc_tables_iff [OF assms(1)]
  ultimately have "map_of (sc_req s') r' = Some q' \<longleftrightarrow> map_of (sc_seq s') q' = Some r'" for r' q'
    unfolding assms(4,5) map_of_update by (metis option.distinct(1) option.inject)
  then show ?thesis using assms(1,4-6) unfolding sc_tables_def by auto
qed

lemma evict_cached_response_eq:
  assumes "sc_tables s"
  shows "evict_cached_response T r s =
    (case map_of (sc_req s) r of None \<Rightarrow> (Inl ValueError, s)
     | Some q \<Rightarrow> (Inr (), s\<lparr>sc_req := AList.delete r (sc_req s), sc_seq := AList.delete q (sc_seq s),
                            sc_global := tree_remove T (sc_global s) q\<rparr>))"
proof (cases "map_of (sc_req s) r")
  case (Some q)
  then have "map_of (sc_seq s) q = Some r" using sc_tables_iff [OF assms] by simp
  with Some show ?thesis by (simp add: evict_cached_response_def Let_def)
qed (simp add: evict_cached_response_def)

section \<open>The search for a sequence id\<close>

lemma next_free_skip: "\<forall>j<k. used (n + of_nat j) \<Longrightarrow> next_free used n = next_free used (n + of_nat k)"
proof (induction k arbitrary: n)
  case (Suc k)
  have "used n" using Suc.prems [rule_format, of 0] by simp
  then have "next_free used n = next_free used (n + 1)" by (subst next_free.simps) simp
  also have "\<dots> = next_free used (n + 1 + of_nat k)"
    using Suc.prems by (intro Suc.IH) (auto dest: spec [of _ "Suc _"] simp: algebra_simps)
  finally show ?case by (simp add: algebra_simps)
qed simp

lemma next_free_total:
  assumes "\<not> used m"
  shows "\<exists>k. (\<forall>j<k. used (n + of_nat j)) \<and> \<not> used (n + of_nat k) \<and>
    next_free used n = Some (n + of_nat k, n + of_nat k + 1)"
proof -
  define k where "k = (LEAST k. \<not> used (n + of_nat k))"
  have "n + of_nat (unat (m - n)) = m" by simp
  then have "\<not> used (n + of_nat (unat (m - n)))" using assms by simp
  then have k: "\<not> used (n + of_nat k)" unfolding k_def by (rule LeastI)
  have below: "\<forall>j<k. used (n + of_nat j)" unfolding k_def using not_less_Least by blast
  have "next_free used n = Some (n + of_nat k, n + of_nat k + 1)"
    unfolding next_free_skip [OF below] by (subst next_free.simps) (simp add: k)
  with below k show ?thesis by blast
qed

lemma next_free_unused: "next_free used n = Some p \<Longrightarrow> \<not> used (fst p)"
  by (rule next_free.raw_induct [of "\<lambda>used n p. \<not> used (fst p)"]) (auto split: if_splits)

section \<open>The abstract cache\<close>

text \<open>
  What the cache promises: the token sequence of every active request, and the responses of the
  cached requests in the order in which they entered.
\<close>

record 'k spec_cache =
  sp_active :: "('k, int list) dict"
  sp_cached :: "('k, int list) dict"

fun token_list :: "tokens \<Rightarrow> int list" where
  "token_list (Seq xs) = xs"
| "token_list (Ndarray arr) = nd_data arr"

definition trim :: "int \<Rightarrow> 'a list \<Rightarrow> 'a list" where
  "trim cap xs = (if cap < 0 then xs else drop (length xs - nat cap) xs)"

fun drop_victim :: "'k option \<Rightarrow> ('k, 'v) dict \<Rightarrow> ('k, 'v) dict" where
  "drop_victim None d = d"
| "drop_victim (Some v) d = AList.delete v d"

text \<open>
  A start enters an empty response behind the others and drops the oldest beyond the limit; the
  reuse of a sequence id may cost one inactive request its response.
\<close>

inductive spec_step :: "int \<Rightarrow> 'k sc_cmd \<Rightarrow> 'k spec_cache \<Rightarrow> 'k spec_cache \<Rightarrow> bool" for cap where
  start_uncached: "r \<notin> set (keys (sp_active a)) \<Longrightarrow> cap = 0 \<Longrightarrow>
     spec_step cap (Start r xs) a (a\<lparr>sp_active := sp_active a @ [(r, token_list xs)]\<rparr>)"
| start_cached: "r \<notin> set (keys (sp_active a)) \<Longrightarrow> cap \<noteq> 0 \<Longrightarrow>
     (\<And>x. v = Some x \<Longrightarrow> x \<noteq> r \<and> x \<notin> set (keys (sp_active a))) \<Longrightarrow>
     spec_step cap (Start r xs) a
       (a\<lparr>sp_active := sp_active a @ [(r, token_list xs)],
          sp_cached := trim cap (drop_victim v (AList.delete r (sp_cached a)) @ [(r, [])])\<rparr>)"
| stop: "r \<in> set (keys (sp_active a)) \<Longrightarrow>
     spec_step cap (Stop r) a (a\<lparr>sp_active := AList.delete r (sp_active a)\<rparr>)"
| add_response: "map_of (sp_active a) r = Some ys \<Longrightarrow>
     spec_step cap (Add_Response r xs) a
       (a\<lparr>sp_active := AList.update r (ys @ token_list xs) (sp_active a),
          sp_cached := (case map_of (sp_cached a) r of None \<Rightarrow> sp_cached a
                        | Some zs \<Rightarrow> AList.update r (zs @ token_list xs) (sp_cached a))\<rparr>)"
| evict: "r \<in> set (keys (sp_cached a)) \<Longrightarrow>
     spec_step cap (Evict r) a (a\<lparr>sp_cached := AList.delete r (sp_cached a)\<rparr>)"

text \<open>The contract of the native tree, read through the sequence it holds for an id.\<close>

definition tree_contract :: "'t tree_ops \<Rightarrow> ('t \<Rightarrow> seq_id \<Rightarrow> int list) \<Rightarrow> bool" where
  "tree_contract T content \<longleftrightarrow>
     (\<forall>d q. content (tree_new T d) q = []) \<and>
     (\<forall>t q xs. content (tree_extend T t q xs) = (content t)(q := content t q @ xs)) \<and>
     (\<forall>t q xs. content (tree_extend_ndarray T t q xs) = (content t)(q := content t q @ xs)) \<and>
     (\<forall>t q. content (tree_remove T t q) = (content t)(q := []))"

definition sc_abs :: "('t \<Rightarrow> seq_id \<Rightarrow> int list) \<Rightarrow> ('k, 't) suffix_cache \<Rightarrow> 'k spec_cache" where
  "sc_abs content s =
     \<lparr>sp_active = map (\<lambda>(r, t). (r, content t 0)) (sc_local s),
      sp_cached = map (\<lambda>(r, q). (r, content (sc_global s) q)) (sc_req s)\<rparr>"

text \<open>Ids that are not in use hold no tokens.\<close>

definition sc_clean :: "('t \<Rightarrow> seq_id \<Rightarrow> int list) \<Rightarrow> ('k, 't) suffix_cache \<Rightarrow> bool" where
  "sc_clean content s \<longleftrightarrow> (\<forall>q. q \<notin> set (keys (sc_seq s)) \<longrightarrow> content (sc_global s) q = [])"

lemma tree_contractD:
  assumes "tree_contract T content"
  shows "content (tree_new T d) q = []"
    and "content (extend_func T nd t q xs) = (content t)(q := content t q @ xs)"
    and "content (tree_remove T t q) = (content t)(q := [])"
  using assms by (auto simp: tree_contract_def extend_func_def)

lemma select_overload_data: "select_overload xs = Inr (nd, ys) \<Longrightarrow> ys = token_list xs"
  by (cases xs) (auto split: sum.splits)

lemma select_overload_error: "select_overload xs = Inl e \<Longrightarrow> e = ValueError"
  by (cases xs) (auto simp: validate_ndarray_def split: sum.splits if_splits)

text \<open>Freeing the id of a cached request deletes its response and nothing else.\<close>

lemma cached_after_delete:
  assumes "sc_tables s" and "map_of (sc_req s) r = Some q" and "tree_contract T content"
  shows "map (\<lambda>(r', q'). (r', content (tree_remove T (sc_global s) q) q')) (AList.delete r (sc_req s)) =
    AList.delete r (map (\<lambda>(r', q'). (r', content (sc_global s) q')) (sc_req s))"
proof -
  have "q' \<noteq> q" if "(r', q') \<in> set (AList.delete r (sc_req s))" for r' q'
  proof -
    have "(r', q') \<in> set (sc_req s)" "r' \<noteq> r" using that by (auto simp: set_delete)
    then have "map_of (sc_req s) r' = Some q'" using assms(1) by (simp add: dict_in_iff sc_tables_def)
    with \<open>r' \<noteq> r\<close> assms(1,2) show ?thesis by (metis sc_tables_iff option.inject)
  qed
  then show ?thesis unfolding delete_map_snd
    by (intro map_cong refl) (auto simp: tree_contractD(3) [OF assms(3)])
qed

lemma clean_delete:
  assumes "sc_clean content s" and "tree_contract T content" and "sc_seq s' = AList.delete q (sc_seq s)"
    and "sc_global s' = tree_remove T (sc_global s) q"
  shows "sc_clean content s'"
  using assms by (auto simp: sc_clean_def tree_contractD(3) [OF assms(2)] delete_keys)

section \<open>Eviction and allocation\<close>

abbreviation sc_cached_abs :: "('t \<Rightarrow> seq_id \<Rightarrow> int list) \<Rightarrow> ('k, 't) suffix_cache \<Rightarrow> ('k, int list) dict" where
  "sc_cached_abs content s \<equiv> map (\<lambda>(r, q). (r, content (sc_global s) q)) (sc_req s)"

definition same_requests :: "('k, 't) suffix_cache \<Rightarrow> ('k, 't) suffix_cache \<Rightarrow> bool" where
  "same_requests s s' \<longleftrightarrow> sc_local s' = sc_local s \<and> sc_max s' = sc_max s \<and> sc_depth s' = sc_depth s"

lemma trim_short [simp]: "int (length xs) \<le> cap \<Longrightarrow> trim cap xs = xs"
  by (simp add: trim_def)

lemma trim_long: "0 \<le> cap \<Longrightarrow> cap < int (length (x # xs)) \<Longrightarrow> trim cap (x # xs) = trim cap xs"
  by (simp add: trim_def Suc_diff_le nat_le_iff)

lemma trim_map: "trim cap (map f xs) = map f (trim cap xs)"
  by (simp add: trim_def drop_map)

lemma length_trim: "0 \<le> cap \<Longrightarrow> int (length (trim cap xs)) \<le> cap"
  by (simp add: trim_def)

lemma delete_head: "dict_wf ((k, v) # d) \<Longrightarrow> AList.delete k ((k, v) # d) = d"
  by (simp add: dict_wf_def)

lemma evict_loop_spec:
  assumes "sc_tables s" and "sc_req s = D @ [(r, q)]" and "0 < sc_max s"
    and "tree_contract T content \<Longrightarrow> sc_clean content s"
  shows "\<exists>s'. evict_loop T q s = Some (Inr (), s') \<and> sc_tables s' \<and> same_requests s s' \<and>
    sc_req s' = trim (sc_max s) (sc_req s) \<and>
    (tree_contract T content \<longrightarrow> sc_clean content s' \<and>
      sc_cached_abs content s' = trim (sc_max s) (sc_cached_abs content s))"
  using assms
proof (induction D arbitrary: s)
  case Nil
  then show ?case by (subst evict_loop.simps) (auto simp: same_requests_def)
next
  case (Cons p D)
  obtain a b where p: "p = (a, b)" by fastforce
  note tabs = Cons.prems(1) and req = Cons.prems(2) [unfolded p append_Cons]
  show ?case
  proof (cases "int (length (sc_req s)) > sc_max s")
    case False
    with Cons.prems show ?thesis by (subst evict_loop.simps) (auto simp: same_requests_def)
  next
    case True
    have wf: "dict_wf ((a, b) # D @ [(r, q)])" using tabs req by (simp add: sc_tables_def)
    have ab: "map_of (sc_req s) a = Some b" using req by simp
    have "map_of (sc_req s) r = Some q" using wf unfolding req by (intro map_of_is_SomeI) (auto simp: dict_wf_def)
    moreover have "a \<noteq> r" using wf by (auto simp: dict_wf_def)
    ultimately have "b \<noteq> q" using ab sc_tables_iff [OF tabs] by (metis option.inject)
    define s1 where "s1 = s\<lparr>sc_req := AList.delete a (sc_req s), sc_seq := AList.delete b (sc_seq s),
                            sc_global := tree_remove T (sc_global s) b\<rparr>"
    have ev: "evict_cached_response T a s = (Inr (), s1)"
      using evict_cached_response_eq [OF tabs, of T a] ab by (simp add: s1_def)
    have req1: "sc_req s1 = D @ [(r, q)]" using delete_head [OF wf] by (simp add: s1_def req)
    have tabs1: "sc_tables s1"
      by (rule sc_tables_delete [OF tabs ab]) (use tabs in \<open>auto simp: s1_def sc_tables_def\<close>)
    have clean1: "sc_clean content s1" if "tree_contract T content"
      by (rule clean_delete [OF Cons.prems(4) [OF that] that]) (simp_all add: s1_def)
    have "sc_max s1 = sc_max s" "same_requests s s1" by (simp_all add: s1_def same_requests_def)
    from Cons.IH [OF tabs1 req1 _ clean1] Cons.prems(3) this
    obtain s' where s': "evict_loop T q s1 = Some (Inr (), s')" "sc_tables s'" "same_requests s1 s'"
      "sc_req s' = trim (sc_max s) (sc_req s1)"
      "tree_contract T content \<longrightarrow> sc_clean content s' \<and>
        sc_cached_abs content s' = trim (sc_max s) (sc_cached_abs content s1)" by auto
    have trim_step: "trim (sc_max s) (sc_req s) = trim (sc_max s) (sc_req s1)"
      using True Cons.prems(3) trim_long [of "sc_max s" "(a, b)" "sc_req s1"] by (simp add: req req1)
    have "sc_cached_abs content s1 = AList.delete a (sc_cached_abs content s)" if "tree_contract T content"
      using cached_after_delete [OF tabs ab that] by (simp add: s1_def)
    moreover have "AList.delete a (sc_cached_abs content s) = tl (sc_cached_abs content s)"
      using delete_head [of a "content (sc_global s) b" "tl (sc_cached_abs content s)"] wf
      by (simp add: req dict_wf_def split_def o_def)
    moreover have "trim (sc_max s) (sc_cached_abs content s) = trim (sc_max s) (tl (sc_cached_abs content s))"
      using True Cons.prems(3) trim_long [of "sc_max s" "hd (sc_cached_abs content s)" "tl (sc_cached_abs content s)"]
      by (simp add: req)
    moreover have "evict_loop T q s = Some (Inr (), s')"
      using True \<open>b \<noteq> q\<close> ev s'(1) by (subst evict_loop.simps) (simp add: req)
    ultimately show ?thesis using s' trim_step \<open>same_requests s s1\<close> by (auto simp: same_requests_def)
  qed
qed

lemma free_id_exists:
  assumes "sc_tables s" and "r \<in> set (keys (sc_local s))" and "r \<notin> set (keys (sc_req s))"
    and "length (sc_local s) \<le> 2 ^ 31"
  shows "\<exists>m. \<not> id_in_use s m"
proof (rule ccontr)
  assume "\<not> ?thesis"
  then have "id_in_use s q" for q by blast
  then have used: "\<exists>x. map_of (sc_seq s) q = Some x \<and> x \<in> set (keys (sc_local s))" for q
    unfolding id_in_use_def by (cases "map_of (sc_seq s) q") (metis (mono_tags) option.case)+
  define f where "f q = the (map_of (sc_seq s) q)" for q
  have f: "map_of (sc_seq s) q = Some (f q)" "f q \<in> set (keys (sc_local s))" for q
    using used [of q] unfolding f_def by (metis option.sel)+
  have "inj f" by (rule injI) (metis f(1) sc_tables_iff [OF assms(1)] option.inject)
  moreover have "f q \<noteq> r" for q
  proof
    assume "f q = r"
    then have "map_of (sc_req s) r = Some q" using f(1) [of q] sc_tables_iff [OF assms(1)] by simp
    with assms(3) show False by (auto simp: map_of_Some_keys simp del: set_map)
  qed
  then have "range f \<subseteq> set (keys (sc_local s)) - {r}" using f(2) by auto
  ultimately have "card (UNIV :: seq_id set) \<le> card (set (keys (sc_local s)) - {r})"
    by (metis card_image card_mono finite_Diff finite_set)
  also have "\<dots> < card (set (keys (sc_local s)))" using assms(2) by (intro psubset_card_mono) auto
  also have "\<dots> \<le> length (sc_local s)" using card_length [of "keys (sc_local s)"] by simp
  finally show False using assms(4) by (simp add: card_word)
qed

lemma collision_spec:
  assumes "sc_tables s" and "\<not> id_in_use s q" and "tree_contract T content \<Longrightarrow> sc_clean content s"
  shows "\<exists>s1 v. free_collision T q s = (Inr (), s1) \<and> sc_tables s1 \<and> same_requests s s1 \<and>
    q \<notin> set (keys (sc_seq s1)) \<and> set (keys (sc_req s1)) \<subseteq> set (keys (sc_req s)) \<and>
    (\<forall>x. v = Some x \<longrightarrow> x \<notin> set (keys (sc_local s)) \<and> x \<in> set (keys (sc_req s))) \<and>
    (tree_contract T content \<longrightarrow> sc_clean content s1 \<and>
      sc_cached_abs content s1 = drop_victim v (sc_cached_abs content s))"
proof (cases "map_of (sc_seq s) q")
  case None
  then have "free_collision T q s = (Inr (), s)" "q \<notin> set (keys (sc_seq s))"
    using map_of_None_keys [of "sc_seq s" q] by (simp_all add: free_collision_def)
  with assms show ?thesis by (intro exI [of _ s] exI [of _ None]) (simp add: same_requests_def)
next
  case (Some x)
  define s1 where "s1 = s\<lparr>sc_req := AList.delete x (sc_req s), sc_seq := AList.delete q (sc_seq s),
                          sc_global := tree_remove T (sc_global s) q\<rparr>"
  have x: "map_of (sc_req s) x = Some q" using Some sc_tables_iff [OF assms(1)] by simp
  then have mem: "x \<in> set (keys (sc_req s))" unfolding map_of_Some_keys by blast
  have "free_collision T q s = (Inr (), s1)" using Some mem by (simp add: free_collision_def s1_def)
  moreover have "sc_tables s1"
    by (rule sc_tables_delete [OF assms(1) x]) (use assms(1) in \<open>auto simp: s1_def sc_tables_def\<close>)
  moreover have "x \<notin> set (keys (sc_local s))" using assms(2) Some by (simp add: id_in_use_def)
  moreover have "sc_clean content s1" if "tree_contract T content"
    by (rule clean_delete [OF assms(3) [OF that] that]) (simp_all add: s1_def)
  ultimately show ?thesis using mem cached_after_delete [OF assms(1) x, of T content]
    by (intro exI [of _ s1] exI [of _ "Some x"]) (auto simp: s1_def same_requests_def delete_keys)
qed

lemma generate_seq_id_spec:
  assumes "sc_tables s" and "r \<notin> set (keys (sc_req s))" and "sc_max s \<noteq> 0" and free: "\<not> id_in_use s m"
    and clean: "tree_contract T content \<Longrightarrow> sc_clean content s"
  shows "\<exists>s' v. generate_seq_id T r s = Some (Inr (), s') \<and> sc_tables s' \<and> sc_within s' \<and> same_requests s s' \<and>
    (\<forall>x. v = Some x \<longrightarrow> x \<notin> set (keys (sc_local s)) \<and> x \<in> set (keys (sc_req s))) \<and>
    (tree_contract T content \<longrightarrow> sc_clean content s' \<and>
      sc_cached_abs content s' = trim (sc_max s) (drop_victim v (sc_cached_abs content s) @ [(r, [])]))"
proof -
  from next_free_total [of "id_in_use s" m "sc_next s"] free obtain q n
    where q: "next_free (id_in_use s) (sc_next s) = Some (q, n)" "\<not> id_in_use s q" by blast
  let ?s0 = "s\<lparr>sc_next := n\<rparr>"
  have "sc_tables ?s0" "\<not> id_in_use ?s0 q" "tree_contract T content \<Longrightarrow> sc_clean content ?s0"
    using assms(1) q(2) clean by (simp_all add: sc_tables_def id_in_use_def sc_clean_def cong: option.case_cong)
  from collision_spec [of ?s0 q T content, OF this] obtain s1 v where s1: "free_collision T q ?s0 = (Inr (), s1)"
    "sc_tables s1" "same_requests s s1" "q \<notin> set (keys (sc_seq s1))" "set (keys (sc_req s1)) \<subseteq> set (keys (sc_req s))"
    and v: "\<forall>x. v = Some x \<longrightarrow> x \<notin> set (keys (sc_local s)) \<and> x \<in> set (keys (sc_req s))"
    and c1: "tree_contract T content \<Longrightarrow> sc_clean content s1"
      "tree_contract T content \<Longrightarrow> sc_cached_abs content s1 = drop_victim v (sc_cached_abs content s)"
    by (auto simp: same_requests_def)
  define s2 where "s2 = s1\<lparr>sc_req := AList.update r q (sc_req s1), sc_seq := AList.update q r (sc_seq s1)\<rparr>"
  have r1: "r \<notin> set (keys (sc_req s1))" using s1(5) assms(2) by blast
  have req2: "sc_req s2 = sc_req s1 @ [(r, q)]" using update_new [OF r1] by (simp add: s2_def)
  have tabs2: "sc_tables s2"
    by (rule sc_tables_update [OF s1(2) r1 s1(4)]) (use s1(2) in \<open>simp_all add: s2_def sc_tables_def\<close>)
  have clean2: "sc_clean content s2" if "tree_contract T content"
    using c1(1) [OF that] by (simp add: sc_clean_def s2_def update_keys)
  have same2: "same_requests s s2" using s1(3) by (simp add: same_requests_def s2_def)
  have abs2: "sc_cached_abs content s2 = drop_victim v (sc_cached_abs content s) @ [(r, [])]" if "tree_contract T content"
    using c1 [OF that] s1(4) by (simp add: req2 sc_clean_def) (simp add: s2_def)
  have gen: "generate_seq_id T r s = maybe_evict_requests T q s2"
    by (simp add: generate_seq_id_def q(1) s1(1) s2_def)
  show ?thesis
  proof (cases "sc_max s < 0")
    case True
    then have "generate_seq_id T r s = Some (Inr (), s2)" "sc_within s2"
      using same2 by (simp_all add: gen maybe_evict_requests_def same_requests_def sc_within_def)
    with True tabs2 clean2 same2 abs2 v show ?thesis
      by (intro exI [of _ s2] exI [of _ v]) (simp add: trim_def)
  next
    case False
    with assms(3) same2 have pos: "0 < sc_max s2" "sc_max s2 = sc_max s" by (simp_all add: same_requests_def)
    from evict_loop_spec [OF tabs2 req2 pos(1) clean2] obtain s' where s': "evict_loop T q s2 = Some (Inr (), s')"
      "sc_tables s'" "same_requests s2 s'" "sc_req s' = trim (sc_max s) (sc_req s2)"
      "tree_contract T content \<longrightarrow> sc_clean content s' \<and>
        sc_cached_abs content s' = trim (sc_max s) (sc_cached_abs content s2)" unfolding pos(2) by blast
    have "generate_seq_id T r s = Some (Inr (), s')"
      using pos s'(1) by (simp add: gen maybe_evict_requests_def)
    moreover have "same_requests s s'" using same2 s'(3) by (simp add: same_requests_def)
    moreover have "sc_within s'" using s'(3,4) pos length_trim [of "sc_max s" "sc_req s2"]
      by (simp add: sc_within_def same_requests_def)
    ultimately show ?thesis using s'(2,5) v abs2 by (intro exI [of _ s'] exI [of _ v]) simp
  qed
qed

section \<open>Every operation keeps the invariant and follows the abstract cache\<close>

definition sc_inv :: "('t tree_ops) \<Rightarrow> ('k, 't) suffix_cache \<Rightarrow> bool" where
  "sc_inv T s \<longleftrightarrow> sc_tables s \<and> sc_within s \<and> (\<forall>content. tree_contract T content \<longrightarrow> sc_clean content s)"

fun sc_enabled :: "'k sc_cmd \<Rightarrow> ('k, 't) suffix_cache \<Rightarrow> bool" where
  "sc_enabled (Start r xs) s \<longleftrightarrow> r \<notin> set (active_requests s) \<and> \<not> isl (select_overload xs)"
| "sc_enabled (Stop r) s \<longleftrightarrow> r \<in> set (active_requests s)"
| "sc_enabled (Add_Response r xs) s \<longleftrightarrow> r \<in> set (active_requests s) \<and> \<not> isl (select_overload xs)"
| "sc_enabled (Evict r) s \<longleftrightarrow> r \<in> set (cached_requests s)"

lemma evict_present:
  assumes "sc_inv T s" and "map_of (sc_req s) r = Some q"
  shows "\<exists>s'. evict_cached_response T r s = (Inr (), s') \<and> sc_inv T s' \<and> same_requests s s' \<and>
    r \<notin> set (keys (sc_req s')) \<and>
    (\<forall>content. tree_contract T content \<longrightarrow> sc_cached_abs content s' = AList.delete r (sc_cached_abs content s))"
proof -
  have tabs: "sc_tables s" using assms(1) by (simp add: sc_inv_def)
  define s' where "s' = s\<lparr>sc_req := AList.delete r (sc_req s), sc_seq := AList.delete q (sc_seq s),
                          sc_global := tree_remove T (sc_global s) q\<rparr>"
  have "evict_cached_response T r s = (Inr (), s')"
    using evict_cached_response_eq [OF tabs, of T r] assms(2) by (simp add: s'_def)
  moreover have "sc_tables s'"
    by (rule sc_tables_delete [OF tabs assms(2)]) (use tabs in \<open>auto simp: s'_def sc_tables_def\<close>)
  moreover have "sc_clean content s'" if "tree_contract T content" for content
    by (rule clean_delete [of content s T]) (use assms(1) that in \<open>auto simp: sc_inv_def s'_def\<close>)
  moreover have "sc_within s'" using assms(1) length_delete_le [of r "sc_req s"]
    by (auto simp: sc_inv_def sc_within_def s'_def)
  moreover have "sc_cached_abs content s' = AList.delete r (sc_cached_abs content s)" if "tree_contract T content" for content
    using cached_after_delete [OF tabs assms(2) that] by (simp add: s'_def)
  ultimately show ?thesis
    by (intro exI [of _ s']) (auto simp: sc_inv_def same_requests_def s'_def delete_keys)
qed

lemma start_spec:
  assumes "sc_inv T s" and "sc_enabled (Start r xs) s"
    and free: "start_request T r xs s \<noteq> None \<or> length (sc_local s) < 2 ^ 31"
  shows "\<exists>s'. start_request T r xs s = Some (Inr (), s') \<and> sc_tables s' \<and> sc_within s' \<and> sc_max s' = sc_max s \<and>
    (tree_contract T content \<longrightarrow>
      sc_clean content s' \<and> spec_step (sc_max s) (Start r xs) (sc_abs content s) (sc_abs content s'))"
proof -
  obtain nd where ov: "select_overload xs = Inr (nd, token_list xs)"
    using assms(2) select_overload_data by (cases "select_overload xs") fastforce+
  have r: "r \<notin> set (keys (sc_local s))" using assms(2) by (simp add: active_requests_def)
  define t where "t = extend_func T nd (tree_new T (sc_depth s)) 0 (token_list xs)"
  define s1 where "s1 = s\<lparr>sc_local := AList.update r t (sc_local s)\<rparr>"
  have loc1: "sc_local s1 = sc_local s @ [(r, t)]" using update_new [OF r] by (simp add: s1_def)
  have inv1: "sc_inv T s1" using assms(1) by (simp add: s1_def sc_inv_def sc_tables_def sc_within_def sc_clean_def)
  have t: "content t 0 = token_list xs" if "tree_contract T content"
    using tree_contractD(1,2) [OF that] by (simp add: t_def)
  have act: "r \<notin> set (keys (sp_active (sc_abs content s)))" using r by (force simp: sc_abs_def)
  show ?thesis
  proof (cases "sc_max s = 0")
    case True
    have "start_request T r xs s = Some (Inr (), s1)"
      using True r ov by (simp add: start_request_def Let_def s1_def t_def)
    moreover have "spec_step (sc_max s) (Start r xs) (sc_abs content s) (sc_abs content s1)" if "tree_contract T content"
      using start_uncached [OF act, of 0 xs] True t [OF that] loc1 by (simp add: sc_abs_def) (simp add: s1_def)
    ultimately show ?thesis using inv1 by (intro exI [of _ s1]) (auto simp: sc_inv_def s1_def)
  next
    case False
    obtain s2 where ev: "(if r \<in> set (keys (sc_req s1)) then evict_cached_response T r s1 else (Inr (), s1)) = (Inr (), s2)"
      and s2: "sc_inv T s2" "same_requests s1 s2" "r \<notin> set (keys (sc_req s2))"
        "\<forall>content. tree_contract T content \<longrightarrow> sc_cached_abs content s2 = AList.delete r (sc_cached_abs content s1)"
    proof (cases "map_of (sc_req s1) r")
      case None
      then have "r \<notin> set (keys (sc_req s1))" by (simp only: map_of_None_keys not_False_eq_True)
      moreover from this have "AList.delete r (sc_cached_abs content' s1) = sc_cached_abs content' s1" for content'
        by (intro delete_id) force
      ultimately show ?thesis using that [of s1] inv1 by (simp add: same_requests_def)
    next
      case (Some q)
      then have "r \<in> set (keys (sc_req s1))" unfolding map_of_Some_keys by blast
      with evict_present [OF inv1 Some] that show ?thesis by auto
    qed
    have start: "start_request T r xs s = generate_seq_id T r s2"
      using False r ev unfolding start_request_def Let_def ov sum.case prod.case t_def [symmetric] s1_def [symmetric]
      by (simp only: if_False prod.case sum.case)
    have same: "sc_local s2 = sc_local s @ [(r, t)]" "sc_max s2 = sc_max s"
      using s2(2) loc1 by (simp_all add: same_requests_def s1_def)
    have "\<exists>m. \<not> id_in_use s2 m"
      using free
    proof
      assume "start_request T r xs s \<noteq> None"
      then obtain p where "next_free (id_in_use s2) (sc_next s2) = Some p"
        unfolding start generate_seq_id_def by (cases "next_free (id_in_use s2) (sc_next s2)") auto
      from next_free_unused [OF this] show ?thesis by blast
    next
      assume "length (sc_local s) < 2 ^ 31"
      with free_id_exists [of s2 r] s2(1,3) same(1) show ?thesis by (simp add: sc_inv_def)
    qed
    then obtain m where m: "\<not> id_in_use s2 m" by blast
    have "sc_tables s2" "tree_contract T content \<Longrightarrow> sc_clean content s2" "sc_max s2 \<noteq> 0"
      using s2(1) same(2) False by (auto simp: sc_inv_def)
    from generate_seq_id_spec [OF this(1) s2(3) this(3) m this(2)] obtain s' v where
      s': "generate_seq_id T r s2 = Some (Inr (), s')" "sc_tables s'" "sc_within s'" "same_requests s2 s'"
      and v: "\<forall>x. v = Some x \<longrightarrow> x \<notin> set (keys (sc_local s2)) \<and> x \<in> set (keys (sc_req s2))"
      and abs: "tree_contract T content \<longrightarrow> sc_clean content s' \<and>
        sc_cached_abs content s' = trim (sc_max s2) (drop_victim v (sc_cached_abs content s2) @ [(r, [])])" by blast
    have "spec_step (sc_max s) (Start r xs) (sc_abs content s) (sc_abs content s')" if c: "tree_contract T content"
    proof -
      have v': "x \<noteq> r \<and> x \<notin> set (keys (sp_active (sc_abs content s)))" if "v = Some x" for x
        using v that by (force simp: same(1) sc_abs_def)
      have "sc_abs content s' = (sc_abs content s)\<lparr>sp_active := sp_active (sc_abs content s) @ [(r, token_list xs)],
          sp_cached := trim (sc_max s) (drop_victim v (AList.delete r (sp_cached (sc_abs content s))) @ [(r, [])])\<rparr>"
        using abs c s2(4) t [OF c] s'(4) same by (simp add: sc_abs_def same_requests_def) (simp add: s1_def)
      then show ?thesis using start_cached [OF act False v'] by simp
    qed
    then show ?thesis using s' abs start same by (intro exI [of _ s']) (auto simp: same_requests_def)
  qed
qed

text \<open>Changing the sequence of one id changes the entry of the one request that holds it.\<close>

lemma update_one_value:
  assumes "dict_wf d" and "map_of d r = Some q" and "\<And>r' q'. (r', q') \<in> set d \<Longrightarrow> r' \<noteq> r \<Longrightarrow> q' \<noteq> q"
  shows "map (\<lambda>(r, q'). (r, (f(q := v)) q')) d = AList.update r v (map (\<lambda>(r, q). (r, f q)) d)"
  using assms
proof (induction d)
  case (Cons p d)
  obtain a b where p: "p = (a, b)" by fastforce
  show ?case
  proof (cases "a = r")
    case True
    have "q' \<noteq> q" if "(r', q') \<in> set d" for r' q'
      using that Cons.prems True p by (intro Cons.prems(3) [of r']) (force simp: dict_wf_def)+
    then show ?thesis using True p Cons.prems(2) by (auto intro!: map_cong)
  next
    case False
    then show ?thesis using Cons p by (auto simp: dict_wf_def)
  qed
qed simp

lemma add_response_spec:
  assumes "sc_inv T s" and "map_of (sc_local s) r = Some t" and ov: "select_overload xs = Inr (nd, token_list xs)"
    and "add_active_response T r xs s = (x, s')"
  shows "x = Inr () \<and> sc_inv T s' \<and> (\<forall>content. tree_contract T content \<longrightarrow>
    spec_step (sc_max s) (Add_Response r xs) (sc_abs content s) (sc_abs content s'))"
proof -
  have tabs: "sc_tables s" using assms(1) by (simp add: sc_inv_def)
  let ?xs = "token_list xs"
  define l where "l = AList.update r (extend_func T nd t 0 ?xs) (sc_local s)"
  define g where "g = (case map_of (sc_req s) r of None \<Rightarrow> sc_global s | Some q \<Rightarrow> extend_func T nd (sc_global s) q ?xs)"
  have s': "x = Inr ()" "s' = s\<lparr>sc_local := l, sc_global := g\<rparr>"
    using assms(2-4) by (auto simp: add_active_response_def Let_def l_def g_def split: option.splits)
  have clean: "sc_clean content s'" if "tree_contract T content" for content
  proof (cases "map_of (sc_req s) r")
    case (Some q)
    then have "q \<in> set (keys (sc_seq s))" unfolding map_of_Some_keys using sc_tables_iff [OF tabs] by blast
    with assms(1) that Some show ?thesis by (auto simp: sc_inv_def sc_clean_def s' g_def tree_contractD(2) [OF that])
  qed (use assms(1) that in \<open>simp add: sc_inv_def sc_clean_def s' g_def\<close>)
  have inv: "sc_inv T s'" using assms(1) clean by (simp add: sc_inv_def sc_tables_def sc_within_def s' l_def)
  have "spec_step (sc_max s) (Add_Response r xs) (sc_abs content s) (sc_abs content s')" if c: "tree_contract T content" for content
  proof -
    let ?a = "sc_abs content s"
    have act: "map_of (sp_active ?a) r = Some (content t 0)" using assms(2) by (simp add: sc_abs_def map_of_map)
    have l: "map (\<lambda>(r, t). (r, content t 0)) l = AList.update r (content t 0 @ ?xs) (sp_active ?a)"
      unfolding l_def sc_abs_def by (simp add: tree_contractD(2) [OF c] flip: update_map_snd)
    have g: "map (\<lambda>(r, q). (r, content g q)) (sc_req s) =
        (case map_of (sp_cached ?a) r of None \<Rightarrow> sp_cached ?a | Some zs \<Rightarrow> AList.update r (zs @ ?xs) (sp_cached ?a))"
    proof (cases "map_of (sc_req s) r")
      case None
      then show ?thesis by (simp add: g_def sc_abs_def map_of_map)
    next
      case (Some q)
      have other: "q' \<noteq> q" if "(r', q') \<in> set (sc_req s)" "r' \<noteq> r" for r' q'
        using that tabs Some sc_tables_iff [OF tabs] by (metis dict_in_iff option.inject sc_tables_def)
      have cg: "content g = (content (sc_global s))(q := content (sc_global s) q @ ?xs)"
        by (simp add: g_def Some tree_contractD(2) [OF c])
      have m: "map_of (sp_cached ?a) r = Some (content (sc_global s) q)" by (simp add: sc_abs_def map_of_map Some)
      have wf: "dict_wf (sc_req s)" using tabs by (simp add: sc_tables_def)
      have "map (\<lambda>(r, q). (r, content g q)) (sc_req s) =
          AList.update r (content (sc_global s) q @ ?xs) (sc_cached_abs content s)"
        unfolding cg by (rule update_one_value [OF wf Some other])
      then show ?thesis unfolding m option.case by (simp add: sc_abs_def)
    qed
    have "sc_abs content s' = ?a\<lparr>sp_active := AList.update r (content t 0 @ ?xs) (sp_active ?a),
        sp_cached := (case map_of (sp_cached ?a) r of None \<Rightarrow> sp_cached ?a | Some zs \<Rightarrow> AList.update r (zs @ ?xs) (sp_cached ?a))\<rparr>"
      using l g by (simp add: sc_abs_def s')
    then show ?thesis using add_response [OF act] by simp
  qed
  with s'(1) inv show ?thesis by blast
qed

lemma sc_disabled: "sc_inv T s \<Longrightarrow> \<not> sc_enabled c s \<Longrightarrow> sc_exec T c s = Some (Inl ValueError, s)"
proof (cases c)
  case (Start r xs)
  assume "\<not> sc_enabled c s"
  then show ?thesis using Start select_overload_error [of xs]
    by (cases "select_overload xs") (auto simp: start_request_def active_requests_def)
next
  case (Stop r)
  assume "\<not> sc_enabled c s"
  with Stop show ?thesis by (simp add: stop_request_def active_requests_def)
next
  case (Add_Response r xs)
  assume "\<not> sc_enabled c s"
  then show ?thesis using Add_Response select_overload_error [of xs] map_of_None_keys [of "sc_local s" r]
    by (cases "select_overload xs"; cases "map_of (sc_local s) r")
      (auto simp: add_active_response_def active_requests_def map_of_Some_keys simp del: set_map)
next
  case (Evict r)
  assume "\<not> sc_enabled c s"
  then have "map_of (sc_req s) r = None" using Evict by (simp only: sc_enabled.simps cached_requests_def map_of_None_keys not_False_eq_True)
  with Evict show ?thesis by (simp add: evict_cached_response_def)
qed

text \<open>One call of an operation that applies, with everything the claims say of it.\<close>

lemma sc_exec_spec:
  assumes "sc_inv T s" and "sc_enabled c s" and "sc_exec T c s \<noteq> None \<or> length (sc_local s) < 2 ^ 31"
  shows "\<exists>s'. sc_exec T c s = Some (Inr (), s') \<and> sc_inv T s' \<and>
    (\<forall>content. tree_contract T content \<longrightarrow> spec_step (sc_max s) c (sc_abs content s) (sc_abs content s'))"
proof (cases c)
  case (Start r xs)
  have en: "sc_enabled (Start r xs) s" and fr: "start_request T r xs s \<noteq> None \<or> length (sc_local s) < 2 ^ 31"
    using assms(2,3) Start by auto
  note spec = start_spec [OF assms(1) en fr]
  from spec obtain s' where s': "start_request T r xs s = Some (Inr (), s')" "sc_tables s'" "sc_within s'" by blast
  have "sc_clean content s' \<and> spec_step (sc_max s) (Start r xs) (sc_abs content s) (sc_abs content s')"
    if "tree_contract T content" for content
    using spec [of content] that s'(1) by auto
  with s' show ?thesis unfolding Start by (auto simp: sc_inv_def)
next
  case (Stop r)
  let ?s = "s\<lparr>sc_local := AList.delete r (sc_local s)\<rparr>"
  have r: "r \<in> set (keys (sc_local s))" using assms(2) Stop by (simp add: active_requests_def)
  have "sc_exec T c s = Some (Inr (), ?s)" using r Stop by (simp add: stop_request_def)
  moreover have "sc_inv T ?s" using assms(1) by (simp add: sc_inv_def sc_tables_def sc_within_def sc_clean_def)
  moreover have "spec_step (sc_max s) (Stop r) (sc_abs content s) (sc_abs content ?s)" for content
    using stop [of r "sc_abs content s" "sc_max s"] r by (force simp: sc_abs_def simp flip: delete_map_snd)
  ultimately show ?thesis unfolding Stop by blast
next
  case (Add_Response r xs)
  obtain nd where ov: "select_overload xs = Inr (nd, token_list xs)"
    using assms(2) Add_Response select_overload_data by (cases "select_overload xs") fastforce+
  obtain t where t: "map_of (sc_local s) r = Some t"
    using assms(2) Add_Response by (auto simp: active_requests_def map_of_Some_keys simp del: set_map)
  obtain x s' where e: "add_active_response T r xs s = (x, s')" by fastforce
  from add_response_spec [OF assms(1) t ov e] e show ?thesis unfolding Add_Response by auto
next
  case (Evict r)
  obtain q where q: "map_of (sc_req s) r = Some q"
    using assms(2) Evict by (auto simp: cached_requests_def map_of_Some_keys simp del: set_map)
  from evict_present [OF assms(1) q] obtain s' where s': "evict_cached_response T r s = (Inr (), s')" "sc_inv T s'"
    "same_requests s s'" "\<forall>content. tree_contract T content \<longrightarrow> sc_cached_abs content s' = AList.delete r (sc_cached_abs content s)"
    by blast
  have "r \<in> set (keys (sp_cached (sc_abs content s)))" for content
    using assms(2) Evict by (force simp: cached_requests_def sc_abs_def)
  from evict [OF this, of "sc_max s"] s'(3,4)
  have "spec_step (sc_max s) (Evict r) (sc_abs content s) (sc_abs content s')" if "tree_contract T content" for content
    using that by (simp add: sc_abs_def same_requests_def)
  with s'(1,2) show ?thesis unfolding Evict by auto
qed

lemma sc_exec_inv: "sc_inv T s \<Longrightarrow> sc_exec T c s = Some (x, s') \<Longrightarrow> sc_inv T s'"
  using sc_exec_spec [of T s c] sc_disabled [of T s c] by (cases "sc_enabled c s") auto

lemma sc_reachable_inv: "sc_reachable T s \<Longrightarrow> sc_inv T s"
proof (induction rule: sc_reachable.induct)
  case (init d m s)
  then show ?case
    by (auto simp: sc_init_def sc_inv_def sc_tables_def sc_within_def sc_clean_def tree_contractD(1) split: if_splits)
next
  case (step s c r s')
  then show ?case by (blast intro: sc_exec_inv)
qed

section \<open>The decoding loop\<close>

lemma find_child_ok: "\<forall>c\<in>set cs. c < length (d_token_ids d) \<Longrightarrow> \<exists>x. find_child d token cs = Inr x"
  by (induction cs) auto

lemma accept_tokens_ok:
  assumes "length (d_parents d) \<le> length (d_token_ids d)"
  shows "\<exists>k\<le>length ts. accept_tokens d node ts = Inr (take k ts)"
proof (induction ts arbitrary: node)
  case (Cons t ts)
  have "\<forall>c\<in>set (draft_children d node). c < length (d_token_ids d)" using assms by (auto simp: draft_children_def)
  from find_child_ok [OF this] obtain x where x: "find_child d t (draft_children d node) = Inr x" by blast
  show ?case
  proof (cases x)
    case None
    with x show ?thesis by (intro exI [of _ 0]) simp
  next
    case (Some c)
    from Cons.IH [of "int c"] obtain k where "k \<le> length ts" "accept_tokens d (int c) ts = Inr (take k ts)" by blast
    with x Some show ?thesis by (intro exI [of _ "Suc k"]) simp
  qed
qed simp

lemma new_tokens_prefix:
  assumes "length response < length truth" and "response = take (length response) truth"
    and "k \<le> length truth - length response"
  defines "new \<equiv> new_tokens truth response (take k (drop (length response) truth))"
  shows "response @ new = take (length (response @ new)) truth" and "new \<noteq> []"
    and "length (response @ new) \<le> length truth"
proof -
  let ?n = "length response"
  have "response @ take k (drop ?n truth) = take (?n + k) truth" using assms(2) by (simp add: take_add)
  then have "response @ new = take (if ?n + k < length truth then Suc (?n + k) else ?n + k) truth"
    using assms(3) by (auto simp: new_def new_tokens_def take_Suc_conv_app_nth simp flip: append_assoc)
  then show "response @ new = take (length (response @ new)) truth" "length (response @ new) \<le> length truth"
    using assms(3) by (auto split: if_splits)
  show "new \<noteq> []" using assms(1,3) by (auto simp: new_def new_tokens_def)
qed

text \<open>
  What the trees return as a draft, as far as the loop relies on it: a parent for every token.
\<close>

definition drafts_ok :: "'t tree_ops \<Rightarrow> bool" where
  "drafts_ok T \<longleftrightarrow> (\<forall>t xs a. length (d_parents (tree_speculate_ndarray T t xs a)) = length (d_token_ids (tree_speculate_ndarray T t xs a)))"

definition ndarray_ok :: "ndarray \<Rightarrow> bool" where
  "ndarray_ok arr \<longleftrightarrow> nd_ndim arr = 1 \<and> nd_int32 arr \<and> nd_contiguous arr"

definition cached_tokens :: "('t \<Rightarrow> seq_id \<Rightarrow> int list) \<Rightarrow> ('k, 't) suffix_cache \<Rightarrow> 'k \<Rightarrow> int list option" where
  "cached_tokens content s r = map_of (sp_cached (sc_abs content s)) r"

lemma speculate_ndarray:
  assumes "map_of (sc_local s) r = Some t" and "ndarray_ok prompt"
  shows "\<exists>t' xs a. speculate T r (decode_context prompt response) (Some m) f offset mp tr s = Inr (tree_speculate_ndarray T t' xs a)"
  using assms unfolding speculate_def decode_context_def ndarray_ok_def
  by (auto simp: validate_ndarray_def spec_func_def Let_def intro: exI)

inductive_cases spec_start_cases: "spec_step cap (Start r xs) a b"
inductive_cases spec_add_cases: "spec_step cap (Add_Response r xs) a b"

lemma add_keys:
  "add_active_response T r xs s = (Inr (), s') \<Longrightarrow> keys (sc_local s') = keys (sc_local s) \<and> sc_max s' = sc_max s"
  by (auto simp: add_active_response_def Let_def map_of_Some_keys keys_update_present simp del: set_map
      split: option.splits sum.splits)

lemma cached_after_add:
  assumes "spec_step cap (Add_Response r xs) (sc_abs content s) (sc_abs content s')" and "cached_tokens content s r = Some zs"
  shows "cached_tokens content s' r = Some (zs @ token_list xs)"
  using assms(1) by (rule spec_add_cases) (use assms(2) in \<open>simp add: cached_tokens_def map_of_update\<close>)

lemma cached_after_start:
  assumes "spec_step cap (Start r xs) (sc_abs content s) (sc_abs content s')" and "cap \<noteq> 0" and "sc_tables s'"
  shows "cached_tokens content s' r = Some []"
  using assms(1)
proof (rule spec_start_cases)
  fix v
  assume e: "sc_abs content s' = sc_abs content s\<lparr>sp_active := sp_active (sc_abs content s) @ [(r, token_list xs)],
      sp_cached := trim cap (drop_victim v (AList.delete r (sp_cached (sc_abs content s))) @ [(r, [])])\<rparr>"
  have "(r, []) \<in> set (trim cap (D @ [(r, [])]))" for D :: "('a, int list) dict"
    using assms(2) by (auto simp: trim_def)
  then have "(r, []) \<in> set (sp_cached (sc_abs content s'))" by (simp add: e)
  moreover have "dict_wf (sp_cached (sc_abs content s'))"
    using assms(3) by (simp add: sc_abs_def sc_tables_def dict_wf_def o_def split_def)
  ultimately show ?thesis by (simp add: dict_in_iff cached_tokens_def)
qed (use assms(2) in simp)

lemma decode_loop_spec:
  assumes "sc_inv T s" and "r \<in> set (keys (sc_local s))" and "ndarray_ok prompt" and "drafts_ok T"
    and "response = take (length response) truth"
  shows "\<exists>steps s'. decode_loop T r prompt truth m f mp tr response results s = (Inr (truth, results @ steps), s') \<and>
    sc_inv T s' \<and> keys (sc_local s') = keys (sc_local s) \<and>
    sum_list (map st_num_out steps) = length truth - length response \<and>
    (\<forall>st\<in>set steps. 0 < st_num_out st \<and> st_num_out st \<le> st_num_accept st + 1) \<and>
    (\<forall>content zs. tree_contract T content \<longrightarrow> cached_tokens content s r = Some zs \<longrightarrow>
      cached_tokens content s' r = Some (zs @ drop (length response) truth))"
  using assms
proof (induction "length truth - length response" arbitrary: response results s rule: less_induct)
  case less
  show ?case
  proof (cases "length response < length truth")
    case False
    then have "response = truth" using less.prems(5) by simp
    with less.prems(1) show ?thesis by (subst decode_loop.simps) simp
  next
    case True
    from less.prems(2) obtain t where t: "map_of (sc_local s) r = Some t" unfolding map_of_Some_keys by blast
    from speculate_ndarray [OF t less.prems(3)] obtain d where
      spec: "speculate T r (decode_context prompt response) (Some m) f 0 mp tr s = Inr d"
      and d: "length (d_parents d) = length (d_token_ids d)" using less.prems(4) unfolding drafts_ok_def by metis
    from accept_tokens_ok [of d "drop (length response) truth" "- 1"] d obtain k where
      k: "k \<le> length truth - length response"
      and acc: "accept_tokens d (- 1) (drop (length response) truth) = Inr (take k (drop (length response) truth))" by auto
    define new where "new = new_tokens truth response (take k (drop (length response) truth))"
    note pre = new_tokens_prefix [OF True less.prems(5) k, folded new_def]
    obtain x s1 where add: "add_active_response T r (Seq new) s = (x, s1)" by fastforce
    from add_response_spec [OF less.prems(1) t _ add] have x: "x = Inr ()" and inv1: "sc_inv T s1"
      and sim: "\<And>content. tree_contract T content \<Longrightarrow> spec_step (sc_max s) (Add_Response r (Seq new)) (sc_abs content s) (sc_abs content s1)"
      by auto
    have keys1: "keys (sc_local s1) = keys (sc_local s)" using add_keys [of T r "Seq new" s s1] add x by simp
    define st where "st = \<lparr>st_step = length results, st_match_len = d_match_len d, st_score = d_score d,
        st_num_spec = length (d_token_ids d), st_num_accept = length (take k (drop (length response) truth)), st_num_out = length new\<rparr>"
    have lt: "length truth - length (response @ new) < length truth - length response"
      using True pre(2) by (cases new) auto
    have r1: "r \<in> set (keys (sc_local s1))" using less.prems(2) keys1 by (simp del: set_map)
    from less.hyps [OF lt inv1 r1 less.prems(3,4) pre(1), of "results @ [st]"] obtain steps s' where
      ih: "decode_loop T r prompt truth m f mp tr (response @ new) (results @ [st]) s1 = (Inr (truth, (results @ [st]) @ steps), s')"
      "sc_inv T s'" "keys (sc_local s') = keys (sc_local s1)"
      "sum_list (map st_num_out steps) = length truth - length (response @ new)"
      "\<forall>st\<in>set steps. 0 < st_num_out st \<and> st_num_out st \<le> st_num_accept st + 1"
      and c': "\<And>content zs. tree_contract T content \<Longrightarrow> cached_tokens content s1 r = Some zs \<Longrightarrow>
        cached_tokens content s' r = Some (zs @ drop (length (response @ new)) truth)" by blast
    have "decode_loop T r prompt truth m f mp tr response results s = (Inr (truth, results @ st # steps), s')"
      using True spec acc k add x ih(1) by (subst decode_loop.simps) (simp add: new_def st_def)
    moreover have "sum_list (map st_num_out (st # steps)) = length truth - length response"
      using ih(4) pre(3) by (simp add: st_def)
    moreover have "0 < st_num_out st \<and> st_num_out st \<le> st_num_accept st + 1"
    proof
      show "0 < st_num_out st" using pre(2) by (simp add: st_def)
      show "st_num_out st \<le> st_num_accept st + 1" by (simp add: st_def new_def new_tokens_def)
    qed
    moreover have "cached_tokens content s' r = Some (zs @ drop (length response) truth)"
      if "tree_contract T content" "cached_tokens content s r = Some zs" for content zs
    proof -
      have "new = take (length new) (drop (length response) truth)"
        by (metis append_eq_conv_conj drop_take length_append add_diff_cancel_left' pre(1))
      then have "new @ drop (length (response @ new)) truth = drop (length response) truth"
        by (metis append_take_drop_id drop_drop add.commute length_append)
      with c' [OF that(1) cached_after_add [OF sim [OF that(1)] that(2)]] show ?thesis by simp
    qed
    ultimately show ?thesis using ih(2,3,5) keys1 by (intro exI [of _ "st # steps"] exI [of _ s']) auto
  qed
qed

section \<open>The properties\<close>

text \<open>
  C25. Request and sequence ids: in every state that calls of the cache can reach, the two id tables
  are inverse to each other, no request is cached or active twice, and a limit on the cached
  requests holds.
\<close>

theorem suffix_cache_ids:
  assumes "sc_reachable T s"
  shows "(\<forall>r q. map_of (sc_req s) r = Some q \<longleftrightarrow> map_of (sc_seq s) q = Some r) \<and>
    distinct (cached_requests s) \<and> distinct (active_requests s) \<and> distinct (keys (sc_seq s)) \<and>
    (0 \<le> sc_max s \<longrightarrow> int (length (cached_requests s)) \<le> sc_max s)"
  using sc_reachable_inv [OF assms]
  by (auto simp: sc_inv_def sc_tables_def sc_within_def dict_wf_def cached_requests_def active_requests_def)

text \<open>
  C24. Refinement: with suffix trees that keep the sequence appended under each id, every successful
  call of the cache is a step of the abstract cache. A started request enters with an empty response
  behind the others and the oldest responses beyond the limit go (first in, first out); reusing a
  sequence id costs at most one response, of an inactive request; appended tokens reach the request
  and, while it is cached, its response; no call changes another request's tokens.
\<close>

theorem suffix_cache_refines:
  assumes "sc_reachable T s" and "tree_contract T content" and "sc_exec T c s = Some (Inr (), s')"
  shows "spec_step (sc_max s) c (sc_abs content s) (sc_abs content s')"
proof -
  have inv: "sc_inv T s" by (rule sc_reachable_inv [OF assms(1)])
  then have "sc_enabled c s" using sc_disabled assms(3) by fastforce
  from sc_exec_spec [OF inv this] assms(2,3) show ?thesis by auto
qed


text \<open>
  C29. Replay: the decoding loop of the simulator ends for every draft the trees propose, reproduces the
  response exactly, produces at least one and at most one more token than it accepted in each round,
  and leaves the request inactive with its whole response in the cache when caching is on.
\<close>

theorem suffix_decode_exact:
  assumes "sc_reachable T s" and "length (active_requests s) < 2 ^ 31" and "r \<notin> set (active_requests s)"
    and "ndarray_ok prompt" and "drafts_ok T" and con: "tree_contract T content"
  shows "\<exists>steps s'. suffix_decode T r prompt truth m f mp tr cached s = Some (Inr steps, s') \<and>
    sum_list (map st_num_out steps) = length truth \<and>
    (\<forall>st\<in>set steps. 0 < st_num_out st \<and> st_num_out st \<le> st_num_accept st + 1) \<and>
    set (active_requests s') = set (active_requests s) \<and>
    (sc_max s \<noteq> 0 \<longrightarrow> cached_tokens content s' r = Some truth)"
proof -
  let ?p = "if cached then Ndarray prompt else Seq []"
  have inv: "sc_inv T s" by (rule sc_reachable_inv [OF assms(1)])
  have en: "sc_enabled (Start r ?p) s" using assms(3,4) by (auto simp: ndarray_ok_def validate_ndarray_def)
  from sc_exec_spec [OF inv en] assms(2) con obtain s1 where
    s1: "start_request T r ?p s = Some (Inr (), s1)" "sc_inv T s1"
      "spec_step (sc_max s) (Start r ?p) (sc_abs content s) (sc_abs content s1)"
    unfolding sc_exec.simps active_requests_def by auto
  have act: "map fst (sp_active (sc_abs content s1)) = keys (sc_local s1)" for s1
    by (simp add: sc_abs_def o_def split_def)
  have "keys (sc_local s1) = keys (sc_local s) @ [r]"
    using s1(3) by (rule spec_start_cases) (simp_all flip: act)
  moreover define m' where "m' = (case m of None \<Rightarrow> sc_depth s | Some n \<Rightarrow> if n = 0 then sc_depth s else n)"
  ultimately obtain steps s2 where
    l: "decode_loop T r prompt truth m' f mp tr [] [] s1 = (Inr (truth, steps), s2)" "sc_inv T s2"
      "keys (sc_local s2) = keys (sc_local s) @ [r]" "sum_list (map st_num_out steps) = length truth"
      "\<forall>st\<in>set steps. 0 < st_num_out st \<and> st_num_out st \<le> st_num_accept st + 1"
      "cached_tokens content s1 r = Some [] \<Longrightarrow> cached_tokens content s2 r = Some truth"
    using decode_loop_spec [OF s1(2) _ assms(4,5), of r "[]" truth m' f mp tr "[]"] con by auto
  define s3 where "s3 = s2\<lparr>sc_local := AList.delete r (sc_local s2)\<rparr>"
  have "stop_request r s2 = (Inr (), s3)" using arg_cong [OF l(3), of set] by (simp add: stop_request_def s3_def)
  then have "suffix_decode T r prompt truth m f mp tr cached s = Some (Inr steps, s3)"
    using s1(1) l(1) by (simp add: suffix_decode_def Let_def flip: m'_def)
  moreover have "set (active_requests s3) = set (active_requests s)"
    using assms(3) arg_cong [OF l(3), of set] by (simp add: active_requests_def s3_def delete_keys)
  moreover have "cached_tokens content s3 r = cached_tokens content s2 r"
    by (simp add: cached_tokens_def sc_abs_def s3_def)
  moreover have "sc_max s \<noteq> 0 \<Longrightarrow> cached_tokens content s2 r = Some truth"
    using l(6) cached_after_start [OF s1(3)] s1(2) by (simp add: sc_inv_def)
  ultimately show ?thesis using l(4,5) by auto
qed


section \<open>Concrete runs\<close>

text \<open>Trees that keep their sequences in a function and propose the first two tokens of sequence 0.\<close>

definition store_draft :: "(seq_id \<Rightarrow> int list) \<Rightarrow> int list \<Rightarrow> spec_args \<Rightarrow> draft" where
  "store_draft t ctx a =
     (let xs = take 2 (t 0)
      in \<lparr>d_token_ids = xs, d_parents = take (length xs) [- 1, 0], d_probs = map (\<lambda>_. 1) xs,
          d_score = of_nat (length xs), d_match_len = int (length ctx)\<rparr>)"

definition store_ops :: "(seq_id \<Rightarrow> int list) tree_ops" where
  "store_ops = \<lparr>tree_new = (\<lambda>d q. []), tree_extend = (\<lambda>t q xs. t(q := t q @ xs)),
     tree_extend_ndarray = (\<lambda>t q xs. t(q := t q @ xs)), tree_remove = (\<lambda>t q. t(q := [])),
     tree_speculate = store_draft, tree_speculate_ndarray = store_draft\<rparr>"

definition ex_cache :: "(string, seq_id \<Rightarrow> int list) suffix_cache" where
  "ex_cache = \<lparr>sc_depth = 4, sc_max = 1, sc_global = (\<lambda>q. []), sc_local = [], sc_req = [], sc_seq = [], sc_next = 0\<rparr>"

definition ex_cache_a :: "(string, seq_id \<Rightarrow> int list) suffix_cache" where
  "ex_cache_a = ex_cache\<lparr>sc_local := [(''a'', (\<lambda>q. [])(0 := [5, 6]))], sc_req := [(''a'', 0)], sc_seq := [(0, ''a'')], sc_next := 1\<rparr>"

lemma store_contract: "tree_contract store_ops (\<lambda>t. t)"
  by (auto simp: tree_contract_def store_ops_def)

lemma store_drafts: "drafts_ok store_ops"
  by (auto simp: store_ops_def drafts_ok_def store_draft_def Let_def)

lemma ex_cache_reachable: "sc_reachable store_ops ex_cache"
  by (rule sc_reachable.init [of _ 4 1]) (simp add: sc_init_def ex_cache_def store_ops_def)

lemma ex_start: "sc_exec store_ops (Start ''a'' (Seq [5, 6])) ex_cache = Some (Inr (), ex_cache_a)"
proof -
  have "next_free (id_in_use s) 0 = Some (0, 1)" if "sc_seq s = []" for s :: "(string, seq_id \<Rightarrow> int list) suffix_cache"
    using that by (subst next_free.simps) (simp add: id_in_use_def)
  moreover have "evict_loop store_ops 0 s = Some (Inr (), s)" if "sc_max s = 1" "length (sc_req s) = 1"
    for s :: "(string, seq_id \<Rightarrow> int list) suffix_cache"
    using that by (subst evict_loop.simps) simp
  ultimately show ?thesis
    by (simp add: start_request_def generate_seq_id_def free_collision_def maybe_evict_requests_def
        ex_cache_a_def ex_cache_def Let_def extend_func_def) (simp add: store_ops_def)
qed

lemma ex_cache_a_reachable: "sc_reachable store_ops ex_cache_a"
  by (rule sc_reachable.step [OF ex_cache_reachable ex_start])

theorem suffix_cache_ids_witness:
  "sc_reachable store_ops ex_cache_a \<and> cached_requests ex_cache_a = [''a''] \<and>
   int (length (cached_requests ex_cache_a)) \<le> sc_max ex_cache_a"
  using suffix_cache_ids [OF ex_cache_a_reachable] ex_cache_a_reachable
  by (simp add: cached_requests_def ex_cache_a_def ex_cache_def)

theorem suffix_cache_refines_witness:
  "sc_abs (\<lambda>t. t) ex_cache_a = \<lparr>sp_active = [(''a'', [5, 6])], sp_cached = [(''a'', [])]\<rparr> \<and>
   spec_step 1 (Start ''a'' (Seq [5, 6])) (sc_abs (\<lambda>t. t) ex_cache) (sc_abs (\<lambda>t. t) ex_cache_a)"
  using suffix_cache_refines [OF ex_cache_reachable store_contract ex_start]
  by (simp add: sc_abs_def ex_cache_a_def ex_cache_def)


theorem suffix_decode_exact_witness:
  "\<exists>steps s'. suffix_decode store_ops ''b'' \<lparr>nd_ndim = 1, nd_int32 = True, nd_contiguous = True, nd_data = [5, 6]\<rparr>
      [5, 6, 7] None 1 0 False True ex_cache_a = Some (Inr steps, s') \<and>
    sum_list (map st_num_out steps) = 3 \<and> cached_tokens (\<lambda>t. t) s' ''b'' = Some [5, 6, 7]"
proof -
  have *: "length (active_requests ex_cache_a) < 2 ^ 31" "''b'' \<notin> set (active_requests ex_cache_a)"
    "ndarray_ok \<lparr>nd_ndim = 1, nd_int32 = True, nd_contiguous = True, nd_data = [5, 6]\<rparr>" "sc_max ex_cache_a \<noteq> 0"
    by (simp_all add: active_requests_def ex_cache_a_def ex_cache_def ndarray_ok_def)
  from suffix_decode_exact [OF ex_cache_a_reachable *(1-3) store_drafts store_contract, of "[5, 6, 7]" None 1 0 False True] *(4)
  show ?thesis by auto
qed


end
