(* ===== verification/Transfer_Schedule.thy ===== *)
theory Transfer_Schedule
  imports Prelude
begin

text \<open>
  The static plan of a weight transfer (\<open>inference/server/weight_sync/schedule.py\<close>): which training GPU
  sends to which tensor-parallel worker of which inference replica, and on which port. Counts are
  Python integers, so zero and negative values take the branches they take in the source.
\<close>

section \<open>The plan\<close>

type_synonym target = "nat \<times> nat"

record transfer_group =
  tg_group_id :: nat
  tg_sender_train_rank :: nat
  tg_targets :: "target list"

definition world_size :: nat where
  "world_size = 2"

definition replica_ids :: "transfer_group \<Rightarrow> nat list" where
  "replica_ids g = sorted_list_of_set (fst ` set (tg_targets g))"

record transfer_schedule =
  ts_training_sharding :: string
  ts_training_gpus :: int
  ts_inference_replicas :: int
  ts_inference_tp :: int
  ts_groups :: "transfer_group list"

definition all_targets :: "int \<Rightarrow> int \<Rightarrow> target list" where
  "all_targets replicas tp = concat (map (\<lambda>r. map (\<lambda>t. (r, t)) [0..<nat tp]) [0..<nat replicas])"

definition num_senders :: "string \<Rightarrow> int \<Rightarrow> nat \<Rightarrow> int res" where
  "num_senders sharding gpus n_targets =
     (if sharding = ''zero3''
      then (if gpus < int n_targets then Inl ValueError else Inr gpus)
      else Inr (min gpus (int n_targets)))"

text \<open>
  The round-robin assignment. An empty list of senders with targets left fails at the first target:
  by the remainder for zero senders and by the index for a negative number.
\<close>

definition assign_step :: "nat \<times> target \<Rightarrow> target list list \<Rightarrow> target list list" where
  "assign_step it as = (let j = fst it mod length as in as[j := as ! j @ [snd it]])"

definition assignments :: "int \<Rightarrow> target list \<Rightarrow> target list list res" where
  "assignments n_senders targets =
     (if targets \<noteq> [] \<and> n_senders = 0 then Inl ZeroDivisionError
      else if targets \<noteq> [] \<and> n_senders < 0 then Inl IndexError
      else Inr (fold assign_step (enumerate_from 0 targets) (replicate (nat n_senders) [])))"

definition build :: "string \<Rightarrow> int \<Rightarrow> int \<Rightarrow> int \<Rightarrow> transfer_schedule res" where
  "build sharding gpus replicas tp =
     (if sharding \<notin> {''dp'', ''fsdp'', ''zero3''} then Inl ValueError
      else (let targets = all_targets replicas tp
            in case num_senders sharding gpus (length targets) of
                 Inl e \<Rightarrow> Inl e
               | Inr n \<Rightarrow>
                   (case assignments n targets of
                      Inl e \<Rightarrow> Inl e
                    | Inr as \<Rightarrow>
                        Inr \<lparr>ts_training_sharding = sharding, ts_training_gpus = gpus, ts_inference_replicas = replicas,
                             ts_inference_tp = tp,
                             ts_groups = map (\<lambda>(i, tgs). \<lparr>tg_group_id = i, tg_sender_train_rank = i, tg_targets = tgs\<rparr>)
                                           (enumerate_from 0 as)\<rparr>)))"

definition port_for_target :: "transfer_schedule \<Rightarrow> target \<Rightarrow> int \<Rightarrow> int" where
  "port_for_target sch tgt base_port = base_port + int (fst tgt) * ts_inference_tp sch + int (snd tgt)"

definition num_groups :: "transfer_schedule \<Rightarrow> nat" where
  "num_groups sch = length (ts_groups sch)"

definition active_sender_ranks :: "transfer_schedule \<Rightarrow> nat list" where
  "active_sender_ranks sch = map tg_sender_train_rank (ts_groups sch)"

section \<open>Lemmas on the assignment\<close>

lemma set_all_targets: "set (all_targets replicas tp) = {(r, t). int r < replicas \<and> int t < tp}"
  by (force simp: all_targets_def)

lemma distinct_all_targets: "distinct (all_targets replicas tp)"
proof -
  have "distinct (concat (map (\<lambda>r. map (\<lambda>t. (r, t)) [0..<k]) [0..<n]))" for n k :: nat
    by (induction n) (auto simp: distinct_map inj_on_def)
  then show ?thesis by (simp add: all_targets_def)
qed

lemma length_all_targets: "0 \<le> replicas \<Longrightarrow> 0 \<le> tp \<Longrightarrow> int (length (all_targets replicas tp)) = replicas * tp"
  by (simp add: all_targets_def length_concat o_def sum_list_triv)

lemma div_step:
  fixes n :: nat
  assumes "j < n"
  shows "(Suc i + n - 1 - j) div n = (i + n - 1 - j) div n + (if i mod n = j then 1 else 0)"
proof -
  let ?m = "i + n - 1 - j"
  have S: "Suc i + n - 1 - j = Suc ?m" using assms by simp
  have "Suc ?m = i + (n - j)" using assms by simp
  moreover have "(i + (n - j)) mod n = 0 \<longleftrightarrow> i mod n = j"
  proof -
    have "(i + (n - j)) mod n = (i mod n + (n - j)) mod n" by (simp add: mod_add_left_eq)
    moreover have "(i mod n + (n - j)) mod n = 0 \<longleftrightarrow> i mod n = j"
    proof (cases "i mod n < j")
      case True
      then have "0 < i mod n + (n - j)" "i mod n + (n - j) < n" using assms by auto
      with True assms show ?thesis by auto
    next
      case False
      then have e: "i mod n + (n - j) = (i mod n - j) + n" using assms by simp
      have "i mod n - j < n" using assms by (simp add: less_imp_diff_less)
      then have "(i mod n + (n - j)) mod n = i mod n - j" unfolding e mod_add_self2 by simp
      with False show ?thesis by simp
    qed
    ultimately show ?thesis by simp
  qed
  ultimately have "Suc ?m mod n = 0 \<longleftrightarrow> i mod n = j" by simp
  then show ?thesis unfolding S by (simp add: div_Suc)
qed

lemma assign_spec:
  assumes "0 < n"
  defines "res \<equiv> \<lambda>ts. fold assign_step (enumerate_from 0 ts) (replicate n [])"
  shows "length (res ts) = n \<and> mset (concat (res ts)) = mset ts \<and>
    (\<forall>j<n. length (res ts ! j) = (length ts + n - 1 - j) div n)"
proof (induction ts rule: rev_induct)
  case Nil
  then show ?case using assms(1) by (auto simp: res_def enumerate_from_def)
next
  case (snoc t ts)
  let ?j = "length ts mod n"
  have j: "?j < n" using assms(1) by simp
  have step: "res (ts @ [t]) = (res ts)[?j := res ts ! ?j @ [t]]"
    using snoc by (simp add: res_def enumerate_from_def assign_step_def Let_def)
  have "length (res (ts @ [t]) ! k) = (length (ts @ [t]) + n - 1 - k) div n" if "k < n" for k
    using snoc that j div_step [OF that, of "length ts"] by (auto simp: step nth_list_update)
  then show ?case using snoc j mset_concat_extend [of ?j "res ts" "[t]"] by (simp add: step)
qed

lemma enumerate_from_nth: "i < length xs \<Longrightarrow> enumerate_from n xs ! i = (n + i, xs ! i)"
  by (simp add: enumerate_from_def)

lemma ports_distinct:
  "inj_on (\<lambda>x. port_for_target sch x base) {(r, t). int r < replicas \<and> int t < ts_inference_tp sch}"
proof (rule inj_onI, clarify)
  fix r t r' t' :: nat
  let ?tp = "ts_inference_tp sch"
  assume b: "int t < ?tp" "int t' < ?tp" and eq: "port_for_target sch (r, t) base = port_for_target sch (r', t') base"
  have e: "int r * ?tp + int t = int r' * ?tp + int t'" using eq by (simp add: port_for_target_def)
  have "(int r * ?tp + int t) div ?tp = int r" "(int r' * ?tp + int t') div ?tp = int r'" using b by simp_all
  with e have "r = r'" by simp
  with e show "r = r' \<and> t = t'" by simp
qed

text \<open>The targets per sender, also for no sender and no target.\<close>

lemma assignments_spec:
  assumes "ts = [] \<or> 0 < n"
  shows "\<exists>as. assignments (int n) ts = Inr as \<and> length as = n \<and> mset (concat as) = mset ts \<and>
    (\<forall>x\<in>set as. length ts div n \<le> length x \<and> length x \<le> (length ts + n - 1) div n)"
proof (cases "n = 0")
  case True
  with assms show ?thesis by (simp add: assignments_def enumerate_from_def)
next
  case False
  let ?as = "fold assign_step (enumerate_from 0 ts) (replicate n [])"
  have as: "length ?as = n" "mset (concat ?as) = mset ts" "\<And>j. j < n \<Longrightarrow> length (?as ! j) = (length ts + n - 1 - j) div n"
    using assign_spec [of n ts] False by auto
  have "length ts div n \<le> length x \<and> length x \<le> (length ts + n - 1) div n" if "x \<in> set ?as" for x
  proof -
    from that obtain j where "j < n" "x = ?as ! j" by (auto simp: in_set_conv_nth as(1))
    with as(3) show ?thesis by (auto intro!: div_le_mono)
  qed
  with False as(1,2) show ?thesis by (simp add: assignments_def)
qed

section \<open>The properties\<close>

text \<open>
  C34. A complete plan: for a known sharding and at least one training GPU, and as many GPUs as workers
  for \<open>zero3\<close>, the plan exists; every tensor-parallel worker of every replica is a target of exactly
  one sender; group \<open>j\<close> is sent by rank \<open>j\<close>, which is a training GPU; the loads of two senders differ
  by at most one, with one target at most each when there are enough GPUs; under \<open>zero3\<close> every
  training GPU takes part; and different workers have different ports.
\<close>

theorem transfer_plan_complete:
  assumes "sharding \<in> {''dp'', ''fsdp'', ''zero3''}" and gpus: "0 < gpus" and "0 \<le> replicas" and "0 \<le> tp"
    and zero3: "sharding = ''zero3'' \<longrightarrow> replicas * tp \<le> gpus"
  shows "\<exists>sch. build sharding gpus replicas tp = Inr sch \<and>
    (let G = ts_groups sch; T = {(r, t). int r < replicas \<and> int t < tp}
     in mset (concat (map tg_targets G)) = mset_set T \<and>
        active_sender_ranks sch = [0..<num_groups sch] \<and> int (num_groups sch) \<le> gpus \<and>
        (\<forall>g\<in>set G. \<forall>h\<in>set G. length (tg_targets g) \<le> length (tg_targets h) + 1) \<and>
        (replicas * tp \<le> gpus \<longrightarrow> (\<forall>g\<in>set G. length (tg_targets g) \<le> 1)) \<and>
        (sharding = ''zero3'' \<longrightarrow> int (num_groups sch) = gpus) \<and>
        (\<forall>base. inj_on (\<lambda>x. port_for_target sch x base) T))"
proof -
  let ?ts = "all_targets replicas tp"
  define N where "N = length ?ts"
  have N: "int N = replicas * tp" using length_all_targets assms(3,4) by (simp add: N_def)
  define n where "n = nat (if sharding = ''zero3'' then gpus else min gpus (int N))"
  have num: "num_senders sharding gpus N = Inr (int n)"
    using gpus zero3 N by (auto simp: num_senders_def n_def)
  have n_le: "int n \<le> gpus" using gpus by (auto simp: n_def)
  have n_pos: "0 < n" if "?ts \<noteq> []" using that gpus by (auto simp: n_def N_def)
  from assignments_spec [of ?ts n] n_pos obtain as where asg: "assignments (int n) ?ts = Inr as"
    and as: "length as = n" "mset (concat as) = mset ?ts"
      "\<forall>x\<in>set as. N div n \<le> length x \<and> length x \<le> (N + n - 1) div n" unfolding N_def by blast
  define sch where "sch = \<lparr>ts_training_sharding = sharding, ts_training_gpus = gpus, ts_inference_replicas = replicas,
      ts_inference_tp = tp, ts_groups = map (\<lambda>(i, tgs). \<lparr>tg_group_id = i, tg_sender_train_rank = i, tg_targets = tgs\<rparr>)
        (enumerate_from 0 as)\<rparr>"
  have ok: "build sharding gpus replicas tp = Inr sch"
    using assms(1) num asg by (simp add: build_def Let_def sch_def N_def)
  have G: "map tg_targets (ts_groups sch) = as" 
    using map_snd_enumerate_from [of 0 as] by (simp add: sch_def o_def split_def)
  have ranks: "active_sender_ranks sch = [0..<num_groups sch]" "num_groups sch = n"
    using map_fst_enumerate_from [of 0 as] as(1) by (simp_all add: active_sender_ranks_def num_groups_def sch_def o_def split_def)
  have len: "N div n \<le> length (tg_targets g) \<and> length (tg_targets g) \<le> (N + n - 1) div n" if "g \<in> set (ts_groups sch)" for g
  proof -
    have "tg_targets g \<in> set as" using that by (simp flip: G)
    with as(3) show ?thesis by blast
  qed
  have "(N + n - 1) div n \<le> N div n + 1"
  proof (cases "n = 0")
    case False
    then have "(N + n - 1) div n \<le> (N + n) div n" by (intro div_le_mono) simp
    with False show ?thesis by simp
  qed simp
  then have bal: "\<forall>g\<in>set (ts_groups sch). \<forall>h\<in>set (ts_groups sch). length (tg_targets g) \<le> length (tg_targets h) + 1"
    using len by (meson add_le_mono1 le_trans)
  have one: "\<forall>g\<in>set (ts_groups sch). length (tg_targets g) \<le> 1" if le: "replicas * tp \<le> gpus"
  proof
    fix g assume g: "g \<in> set (ts_groups sch)"
    have "N \<le> n" using le gpus N by (auto simp: n_def)
    then have "n = 0 \<or> N + n - 1 < 2 * n" by linarith
    then have "(N + n - 1) div n \<le> 1" using less_mult_imp_div_less [of "N + n - 1" 2 n] by auto
    with len [OF g] show "length (tg_targets g) \<le> 1" by linarith
  qed
  have cover: "mset (concat as) = mset_set {(r, t). int r < replicas \<and> int t < tp}"
    using mset_set_set [OF distinct_all_targets, of replicas tp] by (simp add: as(2) set_all_targets)
  have ports: "inj_on (\<lambda>x. port_for_target sch x base) {(r, t). int r < replicas \<and> int t < tp}" for base
    using ports_distinct [of sch base replicas] by (simp add: sch_def)
  have z: "int n = gpus" if "sharding = ''zero3''" using that gpus by (simp add: n_def)
  show ?thesis using ok ranks n_le bal one cover ports z G by (intro exI [of _ sch]) (simp add: Let_def)
qed

theorem transfer_plan_complete_witness:
  "\<exists>sch. build ''dp'' 4 4 2 = Inr sch \<and> num_groups sch = 4 \<and>
     map tg_targets (ts_groups sch) = [[(0, 0), (2, 0)], [(0, 1), (2, 1)], [(1, 0), (3, 0)], [(1, 1), (3, 1)]] \<and>
     (\<forall>g\<in>set (ts_groups sch). \<forall>h\<in>set (ts_groups sch). length (tg_targets g) \<le> length (tg_targets h) + 1)"
proof -
  obtain sch where sch: "build ''dp'' 4 4 2 = Inr sch" "map tg_targets (ts_groups sch) =
      [[(0, 0), (2, 0)], [(0, 1), (2, 1)], [(1, 0), (3, 0)], [(1, 1), (3, 1)]]" "num_groups sch = 4"
  proof -
    have "case build ''dp'' 4 4 2 of Inl _ \<Rightarrow> False | Inr sch \<Rightarrow> map tg_targets (ts_groups sch) =
        [[(0, 0), (2, 0)], [(0, 1), (2, 1)], [(1, 0), (3, 0)], [(1, 1), (3, 1)]] \<and> num_groups sch = 4"
      by code_simp
    then show ?thesis using that by (auto split: sum.splits)
  qed
  from transfer_plan_complete [of "''dp''" 4 4 2] sch show ?thesis by (auto simp: Let_def)
qed

end
