(* ===== verification/Gpu_Slots.thy ===== *)
theory Gpu_Slots
  imports Prelude
begin

text \<open>
  The buddy allocator of fractional GPU slots (\<open>inference/semi_persistence/slots.py\<close>). The class-level
  state is one record; every method runs under the lock and is one step. A blocking \<open>allocate\<close> is the
  step that enters the queue and makes its first attempt, and one step per wake-up from the condition
  variable; a waiter is identified by a ticket where the source compares object identity. The
  callback of a blocked call and the log lines are left out. Marking a GPU as draining is the locked
  part of \<open>Orchestrator.sub\<close>.
\<close>

section \<open>State\<close>

record slot =
  sl_gpu :: int
  sl_level :: nat
  sl_index :: nat

record waiter =
  w_ticket :: nat
  w_level :: nat
  w_gpu :: "int option"

type_synonym pools = "(int \<times> nat, slot list) dict"

record slots =
  s_pools :: pools
  s_live :: "slot list"
  s_last_used :: "(int, rat) dict"
  s_waiters :: "waiter list"
  s_draining :: "int set"
  s_inited :: bool
  s_ticket :: nat

definition slot_of :: "int \<Rightarrow> nat \<Rightarrow> nat \<Rightarrow> slot" where
  "slot_of g l i = \<lparr>sl_gpu = g, sl_level = l, sl_index = i\<rparr>"

definition buddy_index :: "nat \<Rightarrow> nat" where
  "buddy_index i = xor i 1"

definition split_slot :: "slot \<Rightarrow> slot \<times> slot" where
  "split_slot s = (slot_of (sl_gpu s) (sl_level s + 1) (2 * sl_index s), slot_of (sl_gpu s) (sl_level s + 1) (2 * sl_index s + 1))"

definition parent_slot :: "slot \<Rightarrow> slot" where
  "parent_slot s = slot_of (sl_gpu s) (sl_level s - 1) (sl_index s div 2)"

section \<open>Life cycle\<close>

definition slots_start :: slots where
  "slots_start = \<lparr>s_pools = [], s_live = [], s_last_used = [], s_waiters = [], s_draining = {}, s_inited = False, s_ticket = 0\<rparr>"

definition add_root :: "int \<Rightarrow> slots \<Rightarrow> slots" where
  "add_root g s = s\<lparr>s_pools := AList.update (g, 1) [slot_of g 1 0] (s_pools s), s_last_used := AList.update g 0 (s_last_used s)\<rparr>"

definition slots_init :: "int list \<Rightarrow> (slots, unit) op" where
  "slots_init gpu_ids s =
     (if s_inited s then (Inl AssertionError, s)
      else (Inr (), (fold add_root gpu_ids
              (s\<lparr>s_pools := [], s_live := [], s_last_used := [], s_waiters := [], s_draining := {}\<rparr>))\<lparr>s_inited := True\<rparr>))"

definition root_whole :: "slots \<Rightarrow> int \<Rightarrow> bool" where
  "root_whole s g = (case map_of (s_pools s) (g, 1) of None \<Rightarrow> False | Some pool \<Rightarrow> length pool = 1)"

definition slots_remove :: "(slots, unit) op" where
  "slots_remove s =
     (if \<not> s_inited s then (Inl AssertionError, s)
      else if s_live s \<noteq> [] then (Inl AssertionError, s)
      else if \<not> list_all (root_whole s) (keys (s_last_used s)) then (Inl AssertionError, s)
      else if \<not> list_all (\<lambda>((g, l), pool). l \<noteq> 1 \<longrightarrow> pool = []) (s_pools s) then (Inl AssertionError, s)
      else (Inr (), s\<lparr>s_pools := [], s_live := [], s_last_used := [], s_waiters := [], s_draining := {}, s_inited := False\<rparr>))"

definition slots_add :: "int \<Rightarrow> (slots, bool) op" where
  "slots_add g s =
     (if \<not> s_inited s then (Inl AssertionError, s)
      else if g \<in> set (keys (s_last_used s)) then (Inr False, s)
      else (Inr True, (add_root g s)\<lparr>s_draining := s_draining s - {g}\<rparr>))"

text \<open>The loop of \<open>pop\<close> over the pools of the GPU: what it removed before a failed assertion stays removed.\<close>

fun pop_pools :: "(int \<times> nat) list \<Rightarrow> pools \<Rightarrow> unit res \<times> pools" where
  "pop_pools [] p = (Inr (), p)"
| "pop_pools (k # ks) p =
     (if snd k \<noteq> 1 \<and> dict_get p k [] \<noteq> [] then (Inl AssertionError, p) else pop_pools ks (AList.delete k p))"

definition slots_pop :: "int \<Rightarrow> (slots, unit) op" where
  "slots_pop g s =
     (if \<not> s_inited s then (Inl AssertionError, s)
      else if list_ex (\<lambda>x. sl_gpu x = g) (s_live s) then (Inl AssertionError, s)
      else if \<not> root_whole s g then (Inl AssertionError, s)
      else (case pop_pools (filter (\<lambda>k. fst k = g) (keys (s_pools s))) (s_pools s) of
              (Inl e, p) \<Rightarrow> (Inl e, s\<lparr>s_pools := p\<rparr>)
            | (Inr _, p) \<Rightarrow>
                (Inr (), s\<lparr>s_pools := p, s_last_used := AList.delete g (s_last_used s), s_draining := s_draining s - {g}\<rparr>)))"

definition mark_draining :: "int \<Rightarrow> slots \<Rightarrow> slots" where
  "mark_draining g s =
     (if \<not> s_inited s then s
      else if g \<notin> set (keys (s_last_used s)) then s
      else if g \<in> s_draining s then s
      else s\<lparr>s_draining := insert g (s_draining s)\<rparr>)"

section \<open>Allocation\<close>

function split_down :: "int \<Rightarrow> nat \<Rightarrow> slot \<Rightarrow> pools \<Rightarrow> slot \<times> pools" where
  "split_down g level s p =
     (if sl_level s < level
      then (let (a, b) = split_slot s; k = (g, sl_level b)
            in split_down g level a (AList.update k (dict_get p k [] @ [b]) p))
      else (s, p))"
  by pat_completeness auto
termination by (relation "measure (\<lambda>(g, level, s, p). level - sl_level s)") (auto simp: split_slot_def slot_of_def)

declare split_down.simps [simp del]

text \<open>The levels from \<open>level\<close> down to 1; the first pool with a free slot gives its oldest.\<close>

fun find_free :: "pools \<Rightarrow> int \<Rightarrow> nat list \<Rightarrow> (slot \<times> pools) option" where
  "find_free p g [] = None"
| "find_free p g (l # ls) =
     (case dict_get p (g, l) [] of
        [] \<Rightarrow> find_free p g ls
      | x # xs \<Rightarrow> Some (x, AList.update (g, l) xs p))"

definition pop_free_in_subtree :: "int \<Rightarrow> nat \<Rightarrow> slots \<Rightarrow> (slot \<times> slots) option" where
  "pop_free_in_subtree g level s =
     (case find_free (s_pools s) g (rev [1..<level + 1]) of
        None \<Rightarrow> None
      | Some (x, p) \<Rightarrow> (let (y, p') = split_down g level x p in Some (y, s\<lparr>s_pools := p'\<rparr>)))"

fun first_fitting :: "nat \<Rightarrow> int list \<Rightarrow> slots \<Rightarrow> (slot \<times> slots) option" where
  "first_fitting level [] s = None"
| "first_fitting level (g # gs) s =
     (if g \<in> s_draining s then first_fitting level gs s
      else case pop_free_in_subtree g level s of None \<Rightarrow> first_fitting level gs s | Some r \<Rightarrow> Some r)"

text \<open>The GPUs from the coldest on, equal ones by id: sorting by id first and then stably by time.\<close>

definition coldest_first :: "slots \<Rightarrow> int list" where
  "coldest_first s = sort_key (\<lambda>g. dict_get (s_last_used s) g 0) (sort (keys (s_last_used s)))"

fun try_allocate_locked :: "nat \<Rightarrow> int option \<Rightarrow> slots \<Rightarrow> (slot \<times> slots) option" where
  "try_allocate_locked level (Some g) s = (if g \<in> s_draining s then None else pop_free_in_subtree g level s)"
| "try_allocate_locked level None s = first_fitting level (coldest_first s) s"

definition add_live :: "slot \<Rightarrow> slots \<Rightarrow> slots" where
  "add_live x s = s\<lparr>s_live := (if x \<in> set (s_live s) then s_live s else s_live s @ [x])\<rparr>"

text \<open>One pass of the loop of \<open>allocate\<close>: only the head of the queue may take a slot.\<close>

definition allocate_attempt :: "nat \<Rightarrow> (slots, slot option) op" where
  "allocate_attempt t s =
     (case s_waiters s of
        [] \<Rightarrow> (Inl IndexError, s)
      | w # ws \<Rightarrow>
          if w_ticket w \<noteq> t then (Inr None, s)
          else (case try_allocate_locked (w_level w) (w_gpu w) s of
                  None \<Rightarrow> (Inr None, s)
                | Some (x, s') \<Rightarrow> (Inr (Some x), add_live x (s'\<lparr>s_waiters := ws\<rparr>))))"

definition allocate :: "int \<Rightarrow> int option \<Rightarrow> (slots, slot option) op" where
  "allocate level gpu s =
     (if level < 1 then (Inl AssertionError, s)
      else if \<not> s_inited s then (Inl AssertionError, s)
      else allocate_attempt (s_ticket s)
             (s\<lparr>s_waiters := s_waiters s @ [\<lparr>w_ticket = s_ticket s, w_level = nat level, w_gpu = gpu\<rparr>],
                s_ticket := s_ticket s + 1\<rparr>))"

definition try_allocate :: "int \<Rightarrow> int option \<Rightarrow> (slots, slot option) op" where
  "try_allocate level gpu s =
     (if level < 1 then (Inl AssertionError, s)
      else if \<not> s_inited s then (Inl AssertionError, s)
      else case try_allocate_locked (nat level) gpu s of
             None \<Rightarrow> (Inr None, s)
           | Some (x, s') \<Rightarrow> (Inr (Some x), add_live x s'))"

section \<open>Release\<close>

function coalesce :: "slot \<Rightarrow> pools \<Rightarrow> slot \<times> pools" where
  "coalesce s p =
     (if sl_level s > 1
      then (let k = (sl_gpu s, sl_level s); pool = dict_get p k []
            in case find (\<lambda>x. sl_index x = buddy_index (sl_index s)) pool of
                 None \<Rightarrow> (s, p)
               | Some b \<Rightarrow> coalesce (parent_slot s) (AList.update k (remove1 b pool) p))
      else (s, p))"
  by pat_completeness auto
termination by (relation "measure (\<lambda>(s, p). sl_level s)") (auto simp: parent_slot_def slot_of_def)

declare coalesce.simps [simp del]

definition deallocate :: "time \<Rightarrow> slot \<Rightarrow> (slots, unit) op" where
  "deallocate now x s =
     (if \<not> s_inited s then (Inl AssertionError, s)
      else if x \<notin> set (s_live s) then (Inl AssertionError, s)
      else (let (y, p) = coalesce x (s_pools s); k = (sl_gpu y, sl_level y)
            in (Inr (), s\<lparr>s_live := remove1 x (s_live s), s_pools := AList.update k (dict_get p k [] @ [y]) p,
                          s_last_used := (if sl_level y = 1 then AList.update (sl_gpu y) now (s_last_used s)
                                          else s_last_used s)\<rparr>)))"

section \<open>Sequences of steps\<close>

datatype slots_cmd =
    Init "int list" | Remove | Add int | Pop int | Drain int
  | Allocate int "int option" | Wake nat | Try int "int option" | Deallocate time slot

definition drop_result :: "'a res \<times> slots \<Rightarrow> unit res \<times> slots" where
  "drop_result r = ((case fst r of Inl e \<Rightarrow> Inl e | Inr _ \<Rightarrow> Inr ()), snd r)"

fun slots_exec :: "slots_cmd \<Rightarrow> (slots, unit) op" where
  "slots_exec (Init gs) s = slots_init gs s"
| "slots_exec Remove s = slots_remove s"
| "slots_exec (Add g) s = drop_result (slots_add g s)"
| "slots_exec (Pop g) s = slots_pop g s"
| "slots_exec (Drain g) s = (Inr (), mark_draining g s)"
| "slots_exec (Allocate l g) s = drop_result (allocate l g s)"
| "slots_exec (Wake t) s = drop_result (allocate_attempt t s)"
| "slots_exec (Try l g) s = drop_result (try_allocate l g s)"
| "slots_exec (Deallocate now x) s = deallocate now x s"

inductive slots_reachable :: "slots \<Rightarrow> bool" where
  start: "slots_reachable slots_start"
| step: "slots_reachable s \<Longrightarrow> slots_reachable (snd (slots_exec c s))"

section \<open>The part of a GPU that a slot covers\<close>

text \<open>
  A slot of level \<open>l\<close> and index \<open>i\<close> is the interval from \<open>i / 2 ^ (l - 1)\<close> to \<open>(i + 1) / 2 ^ (l - 1)\<close> of its
  GPU; \<open>cover M g p\<close> counts the slots of \<open>M\<close> that hold the point \<open>p\<close> of GPU \<open>g\<close>.
\<close>

definition in_slot :: "slot \<Rightarrow> rat \<Rightarrow> bool" where
  "in_slot s p \<longleftrightarrow> \<lfloor>p * 2 ^ (sl_level s - 1)\<rfloor> = int (sl_index s)"

definition cover :: "slot multiset \<Rightarrow> int \<Rightarrow> rat \<Rightarrow> nat" where
  "cover M g p = size {#x \<in># M. sl_gpu x = g \<and> in_slot x p#}"

definition bud :: "slot \<Rightarrow> slot" where
  "bud s = slot_of (sl_gpu s) (sl_level s) (buddy_index (sl_index s))"

definition no_buddies :: "slot multiset \<Rightarrow> bool" where
  "no_buddies M \<longleftrightarrow> (\<forall>x\<in>#M. 1 < sl_level x \<longrightarrow> bud x \<notin># M)"

definition free_mset :: "pools \<Rightarrow> slot multiset" where
  "free_mset p = mset (concat (dict_values p))"

definition pools_wf :: "pools \<Rightarrow> bool" where
  "pools_wf p \<longleftrightarrow> dict_wf p \<and> (\<forall>k xs. map_of p k = Some xs \<longrightarrow> (\<forall>x\<in>set xs. (sl_gpu x, sl_level x) = k \<and> 1 \<le> sl_level x))"

lemma slot_of_sel [simp]: "sl_gpu (slot_of g l i) = g" "sl_level (slot_of g l i) = l" "sl_index (slot_of g l i) = i"
  by (simp_all add: slot_of_def)

lemma slot_of_eta [simp]: "slot_of (sl_gpu s) (sl_level s) (sl_index s) = s"
  by (simp add: slot_of_def)

lemma slot_eqI: "sl_gpu a = sl_gpu b \<Longrightarrow> sl_level a = sl_level b \<Longrightarrow> sl_index a = sl_index b \<Longrightarrow> a = (b :: slot)"
  by (metis slot_of_eta)

lemma buddy_index_eq: "buddy_index i = (if even i then i + 1 else i - 1)"
  by (simp add: buddy_index_def xor_Suc_0_eq)

lemma bud_simps [simp]: "sl_gpu (bud s) = sl_gpu s" "sl_level (bud s) = sl_level s" "bud (bud s) = s" "bud s \<noteq> s"
proof -
  show "bud (bud s) = s" by (rule slot_eqI) (auto simp: bud_def buddy_index_eq elim: oddE)
  show "bud s \<noteq> s" by (auto simp: bud_def buddy_index_eq slot_of_def dest!: arg_cong [of _ _ sl_index] elim: oddE)
qed (simp_all add: bud_def)

lemma cover_add [simp]: "cover (A + B) g p = cover A g p + cover B g p"
  by (simp add: cover_def)

lemma cover_add_mset: "cover (add_mset x A) g p = (if sl_gpu x = g \<and> in_slot x p then 1 else 0) + cover A g p"
  by (simp add: cover_def)

lemma cover_empty [simp]: "cover {#} g p = 0"
  by (simp add: cover_def)

lemma cover_mem: "x \<in># M \<Longrightarrow> sl_gpu x = g \<Longrightarrow> in_slot x p \<Longrightarrow> 0 < cover M g p"
proof -
  assume "x \<in># M" "sl_gpu x = g" "in_slot x p"
  then have "x \<in># {#x \<in># M. sl_gpu x = g \<and> in_slot x p#}" by simp
  then show ?thesis unfolding cover_def by (metis empty_iff nonempty_has_size set_mset_empty)
qed

lemma cover_pos: "0 < cover M g p \<longleftrightarrow> (\<exists>x. x \<in># M \<and> sl_gpu x = g \<and> in_slot x p)"
proof
  assume "0 < cover M g p"
  then have "{#x \<in># M. sl_gpu x = g \<and> in_slot x p#} \<noteq> {#}" unfolding cover_def by (rule contrapos_pn) simp
  then obtain x where "x \<in># {#x \<in># M. sl_gpu x = g \<and> in_slot x p#}" by (rule multiset_nonemptyE)
  then show "\<exists>x. x \<in># M \<and> sl_gpu x = g \<and> in_slot x p" by auto
qed (auto intro: cover_mem)

lemma floor_half: "(\<lfloor>2 * x\<rfloor> = 2 * int i \<or> \<lfloor>2 * x\<rfloor> = 2 * int i + 1) \<longleftrightarrow> \<lfloor>x\<rfloor> = int i" for x :: rat
  by (simp add: floor_eq_iff) linarith

lemma in_slot_split:
  assumes "1 \<le> sl_level s" and "split_slot s = (a, b)"
  shows "in_slot s p \<longleftrightarrow> in_slot a p \<or> in_slot b p" and "\<not> (in_slot a p \<and> in_slot b p)"
proof -
  obtain l where l: "sl_level s = Suc l" using assms(1) by (cases "sl_level s") auto
  have e: "\<lfloor>p * 2 ^ Suc l\<rfloor> = \<lfloor>2 * (p * 2 ^ l)\<rfloor>" by (rule arg_cong [of _ _ floor]) simp
  have ab: "a = slot_of (sl_gpu s) (Suc (Suc l)) (2 * sl_index s)" "b = slot_of (sl_gpu s) (Suc (Suc l)) (2 * sl_index s + 1)"
    using assms(2) by (simp_all add: split_slot_def l)
  have "in_slot a p \<longleftrightarrow> \<lfloor>2 * (p * 2 ^ l)\<rfloor> = 2 * int (sl_index s)"
    unfolding in_slot_def ab slot_of_sel diff_Suc_1 e by simp
  moreover have "in_slot b p \<longleftrightarrow> \<lfloor>2 * (p * 2 ^ l)\<rfloor> = 2 * int (sl_index s) + 1"
    unfolding in_slot_def ab slot_of_sel diff_Suc_1 e by (simp add: add.commute)
  moreover have "in_slot s p \<longleftrightarrow> \<lfloor>p * 2 ^ l\<rfloor> = int (sl_index s)" by (simp add: in_slot_def l)
  ultimately show "in_slot s p \<longleftrightarrow> in_slot a p \<or> in_slot b p" using floor_half [of "p * 2 ^ l" "sl_index s"] by blast
  show "\<not> (in_slot a p \<and> in_slot b p)" using assms(2) by (auto simp: in_slot_def split_slot_def)
qed

lemma cover_split:
  assumes "1 \<le> sl_level s" and "split_slot s = (a, b)"
  shows "cover {#a, b#} g p = cover {#s#} g p"
  using in_slot_split [OF assms, of p] assms(2) by (auto simp: split_slot_def cover_add_mset)

lemma split_parent: "1 < sl_level s \<Longrightarrow> {#fst (split_slot (parent_slot s)), snd (split_slot (parent_slot s))#} = {#s, bud s#}"
proof (cases "even (sl_index s)")
  case True
  assume "1 < sl_level s"
  with True have "fst (split_slot (parent_slot s)) = s" "snd (split_slot (parent_slot s)) = bud s"
    by (auto simp: split_slot_def parent_slot_def bud_def buddy_index_eq intro!: slot_eqI)
  then show ?thesis by simp
next
  case False
  assume "1 < sl_level s"
  with False have "fst (split_slot (parent_slot s)) = bud s" "snd (split_slot (parent_slot s)) = s"
    by (auto simp: split_slot_def parent_slot_def bud_def buddy_index_eq intro!: slot_eqI elim: oddE)
  then show ?thesis by simp
qed

lemma cover_parent: "1 < sl_level s \<Longrightarrow> cover {#parent_slot s#} g p = cover {#s, bud s#} g p"
  using cover_split [of "parent_slot s" "fst (split_slot (parent_slot s))" "snd (split_slot (parent_slot s))" g p]
  by (simp add: split_parent) (simp add: parent_slot_def)

lemma slot_nonempty: "1 \<le> sl_level s \<Longrightarrow> in_slot s (of_nat (sl_index s) / 2 ^ (sl_level s - 1))"
  by (simp add: in_slot_def)

lemma floor_scale:
  fixes y :: rat
  assumes "0 < m"
  shows "\<lfloor>y\<rfloor> = \<lfloor>y * of_int m\<rfloor> div m"
proof -
  have "of_int (\<lfloor>y\<rfloor> * m) \<le> y * of_int m" using assms by simp
  then have lo: "\<lfloor>y\<rfloor> * m \<le> \<lfloor>y * of_int m\<rfloor>" by (simp only: le_floor_iff)
  have "y * of_int m < of_int ((\<lfloor>y\<rfloor> + 1) * m)" using assms floor_correct [of y] by simp
  then have hi: "\<lfloor>y * of_int m\<rfloor> < (\<lfloor>y\<rfloor> + 1) * m" by (simp only: floor_less_iff)
  show ?thesis
    by (rule int_div_pos_eq [symmetric, where r = "\<lfloor>y * of_int m\<rfloor> - m * \<lfloor>y\<rfloor>"]) (use lo hi in \<open>auto simp: algebra_simps\<close>)
qed

text \<open>Two slots that share a point are nested.\<close>

lemma in_slot_nested:
  assumes "1 \<le> sl_level s" and "sl_level s \<le> sl_level t" and "in_slot s p" and "in_slot t p" and "in_slot t q"
  shows "in_slot s q"
proof -
  define d where "d = sl_level t - sl_level s"
  have e: "x * 2 ^ (sl_level t - 1) = (x * 2 ^ (sl_level s - 1)) * of_int (2 ^ d)" for x :: rat
    using assms(1,2) by (simp add: d_def flip: power_add)
  have "\<lfloor>x * 2 ^ (sl_level s - 1)\<rfloor> = \<lfloor>x * 2 ^ (sl_level t - 1)\<rfloor> div 2 ^ d" for x :: rat
    unfolding e by (rule floor_scale) simp
  with assms(3-5) show ?thesis by (simp add: in_slot_def)
qed

section \<open>Taking and returning a slot of the pools\<close>

lemma pools_wf_update:
  "pools_wf p \<Longrightarrow> (\<And>x. x \<in> set xs \<Longrightarrow> (sl_gpu x, sl_level x) = k \<and> 1 \<le> sl_level x) \<Longrightarrow> pools_wf (AList.update k xs p)"
  unfolding pools_wf_def map_of_update using dict_wf_update by (metis option.inject)

lemma pools_wf_get: "pools_wf p \<Longrightarrow> x \<in> set (dict_get p k []) \<Longrightarrow> (sl_gpu x, sl_level x) = k \<and> 1 \<le> sl_level x"
proof -
  assume wf: "pools_wf p" and "x \<in> set (dict_get p k [])"
  then obtain xs where "map_of p k = Some xs" "x \<in> set xs" by (cases "map_of p k") auto
  with wf show ?thesis unfolding pools_wf_def by blast
qed

lemma free_update: "pools_wf p \<Longrightarrow> free_mset (AList.update k xs p) + mset (dict_get p k []) = free_mset p + mset xs"
  by (simp add: free_mset_def mset_values_update pools_wf_def)

lemma free_push:
  assumes "pools_wf p" and "(sl_gpu x, sl_level x) = k" and "1 \<le> sl_level x"
  defines "p' \<equiv> AList.update k (dict_get p k [] @ [x]) p"
  shows "free_mset p' = add_mset x (free_mset p)" and "pools_wf p'"
proof -
  have "free_mset p' + mset (dict_get p k []) = add_mset x (free_mset p) + mset (dict_get p k [])"
    using free_update [OF assms(1), of k "dict_get p k [] @ [x]"] by (simp add: p'_def)
  then show "free_mset p' = add_mset x (free_mset p)" by (simp only: add_right_cancel)
  show "pools_wf p'" unfolding p'_def
    by (rule pools_wf_update [OF assms(1)]) (use assms pools_wf_get [OF assms(1)] in auto)
qed

lemma free_take:
  assumes "pools_wf p" and "x \<in> set (dict_get p k [])"
  defines "p' \<equiv> AList.update k (remove1 x (dict_get p k [])) p"
  shows "free_mset p = add_mset x (free_mset p')" and "pools_wf p'"
proof -
  let ?xs = "dict_get p k []"
  obtain Y where Y: "mset ?xs = add_mset x Y" using assms(2) by (metis insert_DiffM set_mset_mset)
  have "add_mset x (free_mset p') + Y = free_mset p + Y"
    using free_update [OF assms(1), of k "remove1 x ?xs"] by (simp add: p'_def Y)
  then show "free_mset p = add_mset x (free_mset p')" by (simp only: add_right_cancel)
  show "pools_wf p'" unfolding p'_def
    by (rule pools_wf_update [OF assms(1)], rule pools_wf_get [OF assms(1)], erule set_remove1_subset [THEN subsetD])
qed

lemma free_mem:
  assumes "pools_wf p"
  shows "x \<in># free_mset p \<longleftrightarrow> x \<in> set (dict_get p (sl_gpu x, sl_level x) [])"
proof
  assume "x \<in># free_mset p"
  then obtain k xs where "(k, xs) \<in> set p" "x \<in> set xs" by (auto simp: free_mset_def dict_values_def)
  moreover from this have "map_of p k = Some xs" using assms by (simp add: pools_wf_def dict_wf_def)
  moreover from this have "(sl_gpu x, sl_level x) = k" using assms \<open>x \<in> set xs\<close> unfolding pools_wf_def by blast
  ultimately show "x \<in> set (dict_get p (sl_gpu x, sl_level x) [])" by simp
next
  assume "x \<in> set (dict_get p (sl_gpu x, sl_level x) [])"
  from free_take(1) [OF assms this] show "x \<in># free_mset p" by simp
qed

lemma free_level: "pools_wf p \<Longrightarrow> x \<in># free_mset p \<Longrightarrow> 1 \<le> sl_level x"
  using free_mem [of p x] pools_wf_get by blast

lemma find_free_Some:
  assumes "pools_wf p" and "find_free p g ls = Some (x, p')"
  shows "pools_wf p' \<and> free_mset p = add_mset x (free_mset p') \<and> sl_gpu x = g \<and> sl_level x \<in> set ls \<and> 1 \<le> sl_level x"
  using assms(2)
proof (induction ls)
  case (Cons l ls)
  show ?case
  proof (cases "dict_get p (g, l) []")
    case Nil
    with Cons show ?thesis by simp
  next
    case (Cons y ys)
    then have e: "x = y" "p' = AList.update (g, l) (remove1 x (dict_get p (g, l) [])) p" and x: "x \<in> set (dict_get p (g, l) [])"
      using Cons.prems by auto
    from free_take [OF assms(1) x] pools_wf_get [OF assms(1) x] show ?thesis by (simp add: e(2))
  qed
qed simp

lemma find_free_None: "find_free p g ls = None \<longleftrightarrow> (\<forall>l\<in>set ls. dict_get p (g, l) [] = [])"
  by (induction ls) (auto split: list.splits)

text \<open>
  Splitting trades a slot for one of the wanted level and its cut-off buddies: what is covered stays
  the same, and no two buddies become free together.
\<close>

lemma split_down_spec:
  assumes "pools_wf p" and "sl_gpu x = g" and "1 \<le> sl_level x" and "sl_level x \<le> level" and "no_buddies (free_mset p)"
    and "\<And>g q. cover (add_mset x (free_mset p)) g q \<le> 1" and "split_down g level x p = (y, p')"
  shows "pools_wf p' \<and> sl_gpu y = g \<and> sl_level y = level \<and> no_buddies (free_mset p') \<and>
    (\<forall>h q. cover (add_mset y (free_mset p')) h q = cover (add_mset x (free_mset p)) h q)"
  using assms
proof (induction "level - sl_level x" arbitrary: x p)
  case 0
  then show ?case by (subst (asm) split_down.simps) simp
next
  case (Suc n)
  have lt: "sl_level x < level" using Suc.hyps(2) by simp
  obtain a b where ab: "split_slot x = (a, b)" by fastforce
  then have sel: "sl_gpu a = g" "sl_level a = Suc (sl_level x)" "sl_gpu b = g" "sl_level b = Suc (sl_level x)" "bud b = a"
    using Suc.prems(2) by (auto simp: split_slot_def bud_def buddy_index_eq)
  define p1 where "p1 = AList.update (g, sl_level b) (dict_get p (g, sl_level b) [] @ [b]) p"
  have "(sl_gpu b, sl_level b) = (g, sl_level b)" "1 \<le> sl_level b" by (simp_all add: sel)
  note push = free_push [OF Suc.prems(1) this, folded p1_def]
  have cov: "cover (add_mset a (free_mset p1)) h q = cover (add_mset x (free_mset p)) h q" for h q
    using cover_split [OF Suc.prems(3) ab, of h q] by (simp add: push(1) cover_add_mset)
  have "a \<notin># free_mset p"
  proof
    assume "a \<in># free_mset p"
    moreover define q :: rat where "q = of_nat (sl_index a) / 2 ^ (sl_level a - 1)"
    have "in_slot a q" unfolding q_def by (rule slot_nonempty) (simp add: sel)
    ultimately have "0 < cover (free_mset p) g q" "in_slot x q"
      using cover_mem [of a "free_mset p" g q] in_slot_split(1) [OF Suc.prems(3) ab] sel by auto
    with Suc.prems(6) [of g q] Suc.prems(2) show False by (simp add: cover_add_mset)
  qed
  then have nb: "no_buddies (free_mset p1)"
    using Suc.prems(5) sel bud_simps by (auto simp: no_buddies_def push(1))
  have "split_down g level a p1 = (y, p')"
    using Suc.prems(7) lt ab by (subst (asm) split_down.simps) (simp add: p1_def Let_def)
  moreover have "n = level - sl_level a" "sl_level a \<le> level" using Suc.hyps(2) sel by auto
  ultimately show ?case using Suc.hyps(1) [of a p1] push(2) sel(1,2) nb cov Suc.prems(6) by simp
qed

text \<open>Coalescing covers the same part of the GPU and ends where the buddy is not free.\<close>

lemma coalesce_spec:
  assumes "pools_wf p" and "1 \<le> sl_level x" and "no_buddies (free_mset p)" and "coalesce x p = (y, p')"
  shows "pools_wf p' \<and> sl_gpu y = sl_gpu x \<and> 1 \<le> sl_level y \<and> no_buddies (add_mset y (free_mset p')) \<and>
    (\<forall>h q. cover (add_mset y (free_mset p')) h q = cover (add_mset x (free_mset p)) h q)"
  using assms
proof (induction "sl_level x" arbitrary: x p rule: less_induct)
  case less
  let ?k = "(sl_gpu x, sl_level x)"
  let ?pool = "dict_get p ?k []"
  have mem: "bud x \<in># free_mset p \<longleftrightarrow> (\<exists>b\<in>set ?pool. sl_index b = buddy_index (sl_index x))"
  proof -
    have "b = bud x" if "b \<in> set ?pool" "sl_index b = buddy_index (sl_index x)" for b
      using that pools_wf_get [OF less.prems(1) that(1)] by (intro slot_eqI) (auto simp: bud_def)
    then show ?thesis unfolding free_mem [OF less.prems(1)] bud_simps by (metis bud_def slot_of_sel(3))
  qed
  show ?case
  proof (cases "1 < sl_level x \<and> bud x \<in># free_mset p")
    case False
    then have "coalesce x p = (x, p)"
      using mem by (subst coalesce.simps) (auto simp: Let_def find_Some_iff split: option.splits)
    then have e: "y = x" "p' = p" using less.prems(4) by auto
    have "no_buddies (add_mset x (free_mset p))"
      using False less.prems(3) unfolding no_buddies_def by auto
    with less.prems e show ?thesis by simp
  next
    case True
    then obtain b where b: "find (\<lambda>z. sl_index z = buddy_index (sl_index x)) ?pool = Some b"
      using mem by (cases "find (\<lambda>z. sl_index z = buddy_index (sl_index x)) ?pool") (auto simp: find_None_iff)
    then have bp: "b \<in> set ?pool" "sl_index b = buddy_index (sl_index x)" by (auto simp: find_Some_iff)
    then have bud: "b = bud x" using pools_wf_get [OF less.prems(1) bp(1)] by (intro slot_eqI) (auto simp: bud_def)
    define p1 where "p1 = AList.update ?k (remove1 b ?pool) p"
    note take = free_take [OF less.prems(1) bp(1), folded p1_def]
    have "coalesce (parent_slot x) p1 = (y, p')"
      using less.prems(4) True b by (subst (asm) coalesce.simps) (simp add: Let_def p1_def)
    moreover have lt: "sl_level (parent_slot x) < sl_level x" "1 \<le> sl_level (parent_slot x)" "sl_gpu (parent_slot x) = sl_gpu x"
      using True by (auto simp: parent_slot_def)
    moreover have "no_buddies (free_mset p1)" using less.prems(3) by (auto simp: no_buddies_def take(1))
    moreover have "cover (add_mset (parent_slot x) (free_mset p1)) h q = cover (add_mset x (free_mset p)) h q" for h q
      using cover_parent [of x h q] True by (simp add: take(1) bud cover_add_mset)
    ultimately show ?thesis using less.hyps [OF lt(1) take(2) lt(2)] by auto
  qed
qed

section \<open>The invariant\<close>

definition all_slots :: "slots \<Rightarrow> slot multiset" where
  "all_slots s = free_mset (s_pools s) + mset (s_live s)"

definition slots_inv :: "slots \<Rightarrow> bool" where
  "slots_inv s \<longleftrightarrow> pools_wf (s_pools s) \<and> dict_wf (s_last_used s) \<and> no_buddies (free_mset (s_pools s)) \<and>
     (\<forall>x\<in>set (s_live s). 1 \<le> sl_level x) \<and>
     (\<forall>g p. cover (all_slots s) g p = of_bool (g \<in> set (keys (s_last_used s)) \<and> 0 \<le> p \<and> p < 1))"

lemma slots_inv_level: "slots_inv s \<Longrightarrow> x \<in># all_slots s \<Longrightarrow> 1 \<le> sl_level x"
  by (auto simp: slots_inv_def all_slots_def dest: free_level)

definition slot_point :: "slot \<Rightarrow> rat" where
  "slot_point x = of_nat (sl_index x) / 2 ^ (sl_level x - 1)"

lemma slot_pointI: "1 \<le> sl_level x \<Longrightarrow> in_slot x (slot_point x)"
  unfolding slot_point_def by (rule slot_nonempty)

text \<open>Every slot lies on a known GPU and no slot occurs twice.\<close>

lemma slots_inv_mem:
  assumes "slots_inv s" and "x \<in># all_slots s"
  shows "sl_gpu x \<in> set (keys (s_last_used s))" and "x \<notin># all_slots s - {#x#}" and "slot_point x < 1"
proof -
  let ?q = "slot_point x"
  have q: "in_slot x ?q" by (rule slot_pointI [OF slots_inv_level [OF assms]])
  have c: "cover (all_slots s) (sl_gpu x) ?q = of_bool (sl_gpu x \<in> set (keys (s_last_used s)) \<and> 0 \<le> ?q \<and> ?q < 1)"
    using assms(1) by (simp only: slots_inv_def)
  moreover have "0 < cover (all_slots s) (sl_gpu x) ?q" by (rule cover_mem [OF assms(2) refl q])
  ultimately have ok: "sl_gpu x \<in> set (keys (s_last_used s)) \<and> 0 \<le> ?q \<and> ?q < 1"
    by (metis of_bool_eq(1) less_numeral_extra(3))
  then show "sl_gpu x \<in> set (keys (s_last_used s))" "?q < 1" by blast+
  have e: "all_slots s = add_mset x (all_slots s - {#x#})" using assms(2) by simp
  have "cover (all_slots s) (sl_gpu x) ?q = 1" using c ok by (metis of_bool_eq(2))
  then have "cover (all_slots s - {#x#}) (sl_gpu x) ?q = 0" using q by (subst (asm) e) (simp add: cover_add_mset)
  then show "x \<notin># all_slots s - {#x#}" using cover_mem [of x _ "sl_gpu x" ?q] q by force
qed

lemma pop_free_Some:
  assumes "slots_inv s" and "1 \<le> level" and "pop_free_in_subtree g level s = Some (y, s')"
  shows "\<exists>p. s' = s\<lparr>s_pools := p\<rparr> \<and> slots_inv (s\<lparr>s_pools := p, s_live := s_live s @ [y]\<rparr>) \<and>
    sl_gpu y = g \<and> sl_level y = level \<and> y \<notin> set (s_live s)"
proof -
  have wf: "pools_wf (s_pools s)" and nb: "no_buddies (free_mset (s_pools s))" using assms(1) by (auto simp: slots_inv_def)
  from assms(3) obtain x p p' where x: "find_free (s_pools s) g (rev [1..<level + 1]) = Some (x, p)"
    and y: "split_down g level x p = (y, p')" "s' = s\<lparr>s_pools := p'\<rparr>"
    by (auto simp: pop_free_in_subtree_def split: option.splits prod.splits)
  from find_free_Some [OF wf x] have f: "pools_wf p" "free_mset (s_pools s) = add_mset x (free_mset p)" "sl_gpu x = g"
    "1 \<le> sl_level x" "sl_level x \<le> level" by auto
  have cov1: "cover (add_mset x (free_mset p)) h q \<le> 1" for h q
  proof -
    have "cover (all_slots s) h q \<le> 1" using assms(1) by (simp only: slots_inv_def of_bool_def split: if_splits) simp
    then show ?thesis by (simp add: all_slots_def f(2) cover_add_mset)
  qed
  have nb1: "no_buddies (free_mset p)" using nb by (auto simp: no_buddies_def f(2))
  from split_down_spec [OF f(1,3,4,5) nb1 cov1 y(1)] have sp: "pools_wf p'" "sl_gpu y = g" "sl_level y = level"
    "no_buddies (free_mset p')" "\<And>h q. cover (add_mset y (free_mset p')) h q = cover (add_mset x (free_mset p)) h q" by auto
  let ?s = "s\<lparr>s_pools := p', s_live := s_live s @ [y]\<rparr>"
  have "cover (all_slots ?s) h q = cover (all_slots s) h q" for h q
    using sp(5) [of h q] by (simp add: all_slots_def f(2) cover_add_mset)
  then have inv: "slots_inv ?s" using assms(1,2) sp by (simp add: slots_inv_def)
  have "y \<in># all_slots ?s" by (simp add: all_slots_def)
  from slots_inv_mem(2) [OF inv this] have "y \<notin> set (s_live s)" by (auto simp: all_slots_def)
  with y(2) inv sp(2,3) show ?thesis by blast
qed

lemma pop_free_None:
  assumes "slots_inv s"
  shows "pop_free_in_subtree g level s = None \<longleftrightarrow> (\<forall>x. x \<in># free_mset (s_pools s) \<longrightarrow> sl_gpu x = g \<longrightarrow> level < sl_level x)"
proof -
  have wf: "pools_wf (s_pools s)" using assms by (simp add: slots_inv_def)
  have "pop_free_in_subtree g level s = None \<longleftrightarrow> (\<forall>l. 1 \<le> l \<and> l \<le> level \<longrightarrow> dict_get (s_pools s) (g, l) [] = [])"
  proof -
    have "pop_free_in_subtree g level s = None \<longleftrightarrow> find_free (s_pools s) g (rev [1..<level + 1]) = None"
      unfolding pop_free_in_subtree_def Let_def
      by (cases "find_free (s_pools s) g (rev [1..<level + 1])") (auto simp only: option.case split_def option.distinct)
    then show ?thesis unfolding find_free_None by (auto simp: less_Suc_eq_le)
  qed
  also have "\<dots> \<longleftrightarrow> (\<forall>x. x \<in># free_mset (s_pools s) \<longrightarrow> sl_gpu x = g \<longrightarrow> level < sl_level x)"
  proof
    assume *: "\<forall>l. 1 \<le> l \<and> l \<le> level \<longrightarrow> dict_get (s_pools s) (g, l) [] = []"
    show "\<forall>x. x \<in># free_mset (s_pools s) \<longrightarrow> sl_gpu x = g \<longrightarrow> level < sl_level x"
    proof (intro allI impI)
      fix x assume x: "x \<in># free_mset (s_pools s)" "sl_gpu x = g"
      then have "dict_get (s_pools s) (g, sl_level x) [] \<noteq> []" "1 \<le> sl_level x"
        using free_mem [OF wf, of x] free_level [OF wf x(1)] by auto
      with * show "level < sl_level x" by (meson not_le)
    qed
  next
    assume *: "\<forall>x. x \<in># free_mset (s_pools s) \<longrightarrow> sl_gpu x = g \<longrightarrow> level < sl_level x"
    show "\<forall>l. 1 \<le> l \<and> l \<le> level \<longrightarrow> dict_get (s_pools s) (g, l) [] = []"
    proof (intro allI impI, rule ccontr)
      fix l assume l: "1 \<le> l \<and> l \<le> level" and "dict_get (s_pools s) (g, l) [] \<noteq> []"
      then obtain x where x: "x \<in> set (dict_get (s_pools s) (g, l) [])" by (cases "dict_get (s_pools s) (g, l) []") auto
      then have "sl_gpu x = g" "sl_level x = l" using pools_wf_get [OF wf x] by auto
      moreover from this x have "x \<in># free_mset (s_pools s)" using free_mem [OF wf] by simp
      ultimately show False using * l by auto
    qed
  qed
  finally show ?thesis .
qed

definition eligible :: "int option \<Rightarrow> slots \<Rightarrow> int \<Rightarrow> bool" where
  "eligible gpu s g \<longleftrightarrow> g \<notin> s_draining s \<and> (case gpu of None \<Rightarrow> g \<in> set (keys (s_last_used s)) | Some h \<Rightarrow> g = h)"

lemma first_fitting_cases:
  "(first_fitting level gs s = None \<longleftrightarrow> (\<forall>g\<in>set gs. g \<in> s_draining s \<or> pop_free_in_subtree g level s = None)) \<and>
   (\<forall>r. first_fitting level gs s = Some r \<longrightarrow> (\<exists>g\<in>set gs. g \<notin> s_draining s \<and> pop_free_in_subtree g level s = Some r))"
  by (induction gs) (auto split: option.splits)

lemma set_coldest_first: "set (coldest_first s) = set (keys (s_last_used s))"
  by (simp add: coldest_first_def)

lemma try_locked_Some:
  assumes "slots_inv s" and "1 \<le> level" and "try_allocate_locked level gpu s = Some (y, s')"
  shows "\<exists>p. s' = s\<lparr>s_pools := p\<rparr> \<and> slots_inv (s\<lparr>s_pools := p, s_live := s_live s @ [y]\<rparr>) \<and>
    eligible gpu s (sl_gpu y) \<and> sl_level y = level \<and> y \<notin> set (s_live s)"
proof -
  have "\<exists>g. eligible gpu s g \<and> pop_free_in_subtree g level s = Some (y, s')"
  proof (cases gpu)
    case None
    with assms(3) first_fitting_cases [of level "coldest_first s" s] show ?thesis
      by (auto simp: eligible_def set_coldest_first)
  next
    case (Some g)
    with assms(3) show ?thesis by (auto simp: eligible_def split: if_splits)
  qed
  then obtain g where g: "eligible gpu s g" "pop_free_in_subtree g level s = Some (y, s')" by blast
  from pop_free_Some [OF assms(1,2) g(2)] g(1) show ?thesis by blast
qed

lemma try_locked_None:
  assumes "slots_inv s"
  shows "try_allocate_locked level gpu s = None \<longleftrightarrow>
    (\<forall>x. x \<in># free_mset (s_pools s) \<longrightarrow> eligible gpu s (sl_gpu x) \<longrightarrow> level < sl_level x)"
proof (cases gpu)
  case None
  have "x \<in># all_slots s" if "x \<in># free_mset (s_pools s)" for x using that by (simp add: all_slots_def)
  then have "sl_gpu x \<in> set (keys (s_last_used s))" if "x \<in># free_mset (s_pools s)" for x
    using that slots_inv_mem(1) [OF assms] by blast
  with None first_fitting_cases [of level "coldest_first s" s] pop_free_None [OF assms] show ?thesis
    by (auto simp: eligible_def set_coldest_first simp del: set_map)
next
  case (Some g)
  with pop_free_None [OF assms, of g level] show ?thesis by (auto simp: eligible_def)
qed

lemma slots_inv_frame: "slots_inv s \<Longrightarrow> s_pools s' = s_pools s \<Longrightarrow> s_live s' = s_live s \<Longrightarrow> s_last_used s' = s_last_used s \<Longrightarrow> slots_inv s'"
  by (simp add: slots_inv_def all_slots_def)

lemma add_live_inv:
  assumes "slots_inv s" and "1 \<le> level" and "try_allocate_locked level gpu s = Some (y, s')"
  shows "slots_inv (add_live y (s'\<lparr>s_waiters := ws\<rparr>))" and "slots_inv (add_live y s')"
proof -
  from try_locked_Some [OF assms] obtain p where p: "s' = s\<lparr>s_pools := p\<rparr>" "y \<notin> set (s_live s)"
    "slots_inv (s\<lparr>s_pools := p, s_live := s_live s @ [y]\<rparr>)" by blast
  from p(2,3) show "slots_inv (add_live y (s'\<lparr>s_waiters := ws\<rparr>))" "slots_inv (add_live y s')"
    by (auto simp: add_live_def p(1) elim: slots_inv_frame)
qed

lemma deallocate_inv:
  assumes "slots_inv s" and "deallocate now x s = (Inr (), s')"
  shows "slots_inv s'"
proof -
  from assms(2) obtain y p where y: "coalesce x (s_pools s) = (y, p)" and x: "x \<in> set (s_live s)"
    and s': "s' = s\<lparr>s_live := remove1 x (s_live s), s_pools := AList.update (sl_gpu y, sl_level y) (dict_get p (sl_gpu y, sl_level y) [] @ [y]) p,
        s_last_used := (if sl_level y = 1 then AList.update (sl_gpu y) now (s_last_used s) else s_last_used s)\<rparr>"
    by (auto simp: deallocate_def Let_def split: if_splits prod.splits)
  have wf: "pools_wf (s_pools s)" "no_buddies (free_mset (s_pools s))" "1 \<le> sl_level x"
    using assms(1) x by (auto simp: slots_inv_def)
  from coalesce_spec [OF wf(1,3,2) y] have c: "pools_wf p" "sl_gpu y = sl_gpu x" "1 \<le> sl_level y"
    "no_buddies (add_mset y (free_mset p))" "\<And>h q. cover (add_mset y (free_mset p)) h q = cover (add_mset x (free_mset (s_pools s))) h q" by auto
  note push = free_push [OF c(1) refl c(3)]
  have "x \<in># all_slots s" using x by (simp add: all_slots_def)
  from slots_inv_mem(1) [OF assms(1) this] have g: "sl_gpu y \<in> set (keys (s_last_used s))" by (simp add: c(2))
  have keys: "set (keys (s_last_used s')) = set (keys (s_last_used s))" using g by (simp add: s' keys_update_present del: set_map)
  have live: "mset (s_live s) = add_mset x (mset (remove1 x (s_live s)))" using x by simp
  have "cover (all_slots s') h q = cover (all_slots s) h q" for h q
    using c(5) [of h q] unfolding all_slots_def live by (simp add: s' push(1) cover_add_mset)
  then show ?thesis using assms(1) push c(4) keys unfolding slots_inv_def
    by (auto simp: s' dest: set_remove1_subset [THEN subsetD] simp del: set_map)
qed

section \<open>The other operations keep the invariant\<close>

lemma in_root: "in_slot (slot_of g (Suc 0) 0) p \<longleftrightarrow> 0 \<le> p \<and> p < 1"
  by (auto simp: in_slot_def floor_eq_iff)

lemma cover_unique:
  assumes "slots_inv s" and "x \<in># all_slots s" and "y \<in># all_slots s" and "sl_gpu y = sl_gpu x" and "in_slot x q" and "in_slot y q"
  shows "y = x"
proof (rule ccontr)
  assume "y \<noteq> x"
  have e: "all_slots s = add_mset x (all_slots s - {#x#})" using assms(2) by simp
  have "y \<in># all_slots s - {#x#}" using assms(3) \<open>y \<noteq> x\<close> by (simp add: in_diff_count)
  then have "0 < cover (all_slots s - {#x#}) (sl_gpu x) q" by (rule cover_mem) (use assms(4,6) in auto)
  moreover have "cover (all_slots s) (sl_gpu x) q = 1 + cover (all_slots s - {#x#}) (sl_gpu x) q"
    using assms(5) by (subst e) (simp add: cover_add_mset)
  moreover have "cover (all_slots s) (sl_gpu x) q \<le> 1" using assms(1) by (simp only: slots_inv_def of_bool_def split: if_splits) simp
  ultimately show False by simp
qed

text \<open>A free slot of level 1 is the whole GPU: nothing else of it is free or live.\<close>

lemma root_only:
  assumes "slots_inv s" and "x \<in># all_slots s" and "sl_level x = 1" and "y \<in># all_slots s" and "sl_gpu y = sl_gpu x"
  shows "x = slot_of (sl_gpu x) 1 0" and "y = x"
proof -
  have "slot_point x < 1" by (rule slots_inv_mem(3) [OF assms(1,2)])
  then have "sl_index x = 0" using assms(3) by (simp add: slot_point_def)
  then show x: "x = slot_of (sl_gpu x) 1 0" using assms(3) by (metis slot_of_eta)
  have "in_slot x (slot_point y)" using slots_inv_mem(3) [OF assms(1,4)] by (subst x) (simp add: in_root slot_point_def)
  with slot_pointI [OF slots_inv_level [OF assms(1,4)]] show "y = x" by (intro cover_unique [OF assms(1,2,4,5)])
qed

lemma add_root_inv:
  assumes "slots_inv s" and "g \<notin> set (keys (s_last_used s))"
  shows "slots_inv (add_root g s)"
proof -
  have wf: "pools_wf (s_pools s)" using assms(1) by (simp add: slots_inv_def)
  have none: "x \<notin># all_slots s" if "sl_gpu x = g" for x using slots_inv_mem(1) [OF assms(1), of x] assms(2) that by blast
  have "dict_get (s_pools s) (g, 1) [] = []"
  proof (rule ccontr)
    assume "dict_get (s_pools s) (g, 1) [] \<noteq> []"
    then obtain x where x: "x \<in> set (dict_get (s_pools s) (g, 1) [])" by (cases "dict_get (s_pools s) (g, 1) []") auto
    with pools_wf_get [OF wf x] have "x \<in># all_slots s" "sl_gpu x = g" using free_mem [OF wf, of x] by (auto simp: all_slots_def)
    with none show False by blast
  qed
  then have p: "s_pools (add_root g s) = AList.update (g, 1) (dict_get (s_pools s) (g, 1) [] @ [slot_of g 1 0]) (s_pools s)"
    by (simp add: add_root_def)
  have "(sl_gpu (slot_of g 1 0), sl_level (slot_of g 1 0)) = (g, 1)" "1 \<le> sl_level (slot_of g 1 0)" by simp_all
  note push = free_push [OF wf this, folded p]
  have nb: "no_buddies (free_mset (s_pools (add_root g s)))"
  proof -
    have "bud x \<noteq> slot_of g 1 0" if "1 < sl_level x" for x
      using that bud_simps(2) [of x] by (metis slot_of_sel(2) less_numeral_extra(4))
    then show ?thesis using assms(1) unfolding push(1) no_buddies_def slots_inv_def by auto
  qed
  have "cover (all_slots (add_root g s)) h q = of_bool (h = g \<and> 0 \<le> q \<and> q < 1) + cover (all_slots s) h q" for h q
    by (simp add: all_slots_def push(1) cover_add_mset in_root) (simp add: add_root_def)
  moreover have "set (keys (s_last_used (add_root g s))) = insert g (set (keys (s_last_used s)))"
    by (simp add: add_root_def set_keys_update del: set_map)
  moreover have "s_live (add_root g s) = s_live s" "dict_wf (s_last_used (add_root g s))"
    using assms(1) by (simp_all add: add_root_def slots_inv_def)
  ultimately show ?thesis using assms nb push(2) unfolding slots_inv_def by (auto simp del: set_map)
qed

lemma pop_pools_ok:
  "(\<And>k. k \<in> set ks \<Longrightarrow> snd k \<noteq> 1 \<Longrightarrow> dict_get p k [] = []) \<Longrightarrow>
   pop_pools ks p = (Inr (), filter (\<lambda>e. fst e \<notin> set ks) p)"
proof (induction ks arbitrary: p)
  case (Cons k ks)
  have "dict_get (AList.delete k p) k' [] = []" if "k' \<in> set ks" "snd k' \<noteq> 1" for k'
    using Cons.prems [of k'] that by (simp add: dict_get_def map_of_delete)
  from Cons.IH [OF this] Cons.prems [of k] show ?case
    by (auto simp: AList.delete_eq intro!: filter_cong)
qed simp

lemma free_filter_gpu:
  assumes "pools_wf p"
  shows "free_mset (filter (\<lambda>e. fst (fst e) \<noteq> g) p) = {#x \<in># free_mset p. sl_gpu x \<noteq> g#}"
    and "pools_wf (filter (\<lambda>e. fst (fst e) \<noteq> g) p)"
proof -
  have "\<forall>e\<in>set p. \<forall>x\<in>set (snd e). sl_gpu x = fst (fst e)"
  proof (intro ballI)
    fix e x assume "e \<in> set p" "x \<in> set (snd e)"
    moreover from this have "map_of p (fst e) = Some (snd e)" using assms by (simp add: pools_wf_def flip: dict_in_iff)
    ultimately have "(sl_gpu x, sl_level x) = fst e" using assms unfolding pools_wf_def by blast
    then show "sl_gpu x = fst (fst e)" by (metis fst_conv)
  qed
  then have "concat (map snd (filter (\<lambda>e. fst (fst e) \<noteq> g) p)) = filter (\<lambda>x. sl_gpu x \<noteq> g) (concat (map snd p))"
    by (induction p) (auto simp: filter_empty_conv intro!: filter_True [symmetric])
  then show "free_mset (filter (\<lambda>e. fst (fst e) \<noteq> g) p) = {#x \<in># free_mset p. sl_gpu x \<noteq> g#}"
    by (simp add: free_mset_def dict_values_def)
  let ?p = "filter (\<lambda>e. fst (fst e) \<noteq> g) p"
  have m: "map_of ?p k = (if fst k = g then None else map_of p k)" for k by (induction p) auto
  have "map_of p k = Some xs" if "map_of ?p k = Some xs" for k xs using that by (simp add: m split: if_splits)
  moreover have "dict_wf ?p" using assms by (simp add: pools_wf_def dict_wf_def distinct_map_filter)
  ultimately show "pools_wf ?p" using assms unfolding pools_wf_def by blast
qed

lemma cover_other: "cover {#x \<in># M. sl_gpu x \<noteq> g#} h q = (if h = g then 0 else cover M h q)"
  by (induction M) (auto simp: cover_add_mset)

lemma slots_pop_inv:
  assumes "slots_inv s"
  shows "slots_inv (snd (slots_pop g s))" and "s_inited s \<Longrightarrow> root_whole s g \<Longrightarrow> \<forall>x\<in>set (s_live s). sl_gpu x \<noteq> g \<Longrightarrow> fst (slots_pop g s) = Inr ()"
proof -
  have "slots_inv (snd (slots_pop g s)) \<and> fst (slots_pop g s) = Inr ()"
    if ok: "s_inited s" "root_whole s g" "\<forall>x\<in>set (s_live s). sl_gpu x \<noteq> g"
  proof -
    have wf: "pools_wf (s_pools s)" using assms by (simp add: slots_inv_def)
    from ok(2) obtain x where x: "dict_get (s_pools s) (g, 1) [] = [x]"
      by (auto simp: root_whole_def length_Suc_conv split: option.splits)
    with pools_wf_get [OF wf, of x "(g, 1)"] have xg: "sl_gpu x = g" "sl_level x = 1" "x \<in># all_slots s"
      using free_mem [OF wf, of x] by (auto simp: all_slots_def)
    have "dict_get (s_pools s) k [] = []" if "fst k = g" "snd k \<noteq> 1" for k
    proof (rule ccontr)
      assume "dict_get (s_pools s) k [] \<noteq> []"
      then obtain y where y: "y \<in> set (dict_get (s_pools s) k [])" by (cases "dict_get (s_pools s) k []") auto
      with pools_wf_get [OF wf y] that have "sl_gpu y = g" "sl_level y \<noteq> 1" "y \<in># all_slots s"
        using free_mem [OF wf, of y] by (auto simp: all_slots_def)
      with root_only(2) [OF assms xg(3,2)] xg show False by metis
    qed
    from pop_pools_ok [of "filter (\<lambda>k. fst k = g) (keys (s_pools s))" "s_pools s"] this
    have pp: "pop_pools (filter (\<lambda>k. fst k = g) (keys (s_pools s))) (s_pools s) = (Inr (), filter (\<lambda>e. fst (fst e) \<noteq> g) (s_pools s))"
      by (auto intro!: filter_cong)
    define s' where "s' = s\<lparr>s_pools := filter (\<lambda>e. fst (fst e) \<noteq> g) (s_pools s), s_last_used := AList.delete g (s_last_used s), s_draining := s_draining s - {g}\<rparr>"
    have "slots_pop g s = (Inr (), s')" using ok pp by (auto simp: slots_pop_def s'_def list_ex_iff)
    moreover have "cover (all_slots s') h q = (if h = g then 0 else cover (all_slots s) h q)" for h q
    proof -
      have "all_slots s' = {#x \<in># all_slots s. sl_gpu x \<noteq> g#}"
        using ok(3) by (simp add: all_slots_def s'_def free_filter_gpu(1) [OF wf] flip: mset_filter)
      then show ?thesis by (simp add: cover_other)
    qed
    moreover have "no_buddies (free_mset (s_pools s'))"
      using assms by (auto simp: s'_def free_filter_gpu(1) [OF wf] slots_inv_def no_buddies_def)
    ultimately show ?thesis using assms free_filter_gpu(2) [OF wf]
      by (auto simp: slots_inv_def s'_def delete_keys)
  qed
  moreover have "snd (slots_pop g s) = s" if "\<not> (s_inited s \<and> root_whole s g \<and> (\<forall>x\<in>set (s_live s). sl_gpu x \<noteq> g))"
    using that by (auto simp: slots_pop_def list_ex_iff)
  ultimately show "slots_inv (snd (slots_pop g s))" "s_inited s \<Longrightarrow> root_whole s g \<Longrightarrow> \<forall>x\<in>set (s_live s). sl_gpu x \<noteq> g \<Longrightarrow> fst (slots_pop g s) = Inr ()"
    using assms by metis+
qed

lemma empty_inv: "s_pools s = [] \<Longrightarrow> s_live s = [] \<Longrightarrow> s_last_used s = [] \<Longrightarrow> slots_inv s"
  by (simp add: slots_inv_def pools_wf_def no_buddies_def free_mset_def dict_values_def all_slots_def)

lemma add_root_again:
  assumes "map_of (s_pools s) (g, 1) = Some [slot_of g 1 0]" and "map_of (s_last_used s) g = Some 0"
  shows "add_root g s = s"
  using assms by (simp add: add_root_def update_same)

lemma init_roots:
  assumes "slots_inv s" and "\<forall>g\<in>set (keys (s_last_used s)). map_of (s_pools s) (g, 1) = Some [slot_of g 1 0] \<and> map_of (s_last_used s) g = Some 0"
  shows "slots_inv (fold add_root gs s)"
  using assms
proof (induction gs arbitrary: s)
  case (Cons g gs)
  show ?case
  proof (cases "g \<in> set (keys (s_last_used s))")
    case True
    then have "add_root g s = s" using Cons.prems(2) add_root_again by blast
    with Cons show ?thesis by simp
  next
    case False
    have "slots_inv (fold add_root gs (add_root g s))"
    proof (rule Cons.IH [OF add_root_inv [OF Cons.prems(1) False]])
      show "\<forall>h\<in>set (keys (s_last_used (add_root g s))). map_of (s_pools (add_root g s)) (h, 1) = Some [slot_of h 1 0] \<and>
          map_of (s_last_used (add_root g s)) h = Some 0"
        using Cons.prems(2) False by (auto simp: add_root_def map_of_update update_keys simp del: set_map)
    qed
    then show ?thesis by simp
  qed
qed simp

lemma in_parent: "1 < sl_level x \<Longrightarrow> in_slot (parent_slot x) q \<longleftrightarrow> in_slot x q \<or> in_slot (bud x) q"
proof -
  assume "1 < sl_level x"
  from cover_parent [OF this, of "sl_gpu x" q] have "(if in_slot (parent_slot x) q then 1 else 0) =
      (if in_slot x q then 1 else 0) + (if in_slot (bud x) q then 1 else (0 :: nat))"
    by (simp add: cover_add_mset parent_slot_def split del: if_split)
  then show ?thesis by (simp split: if_splits)
qed

lemma bud_inside: "1 < sl_level x \<Longrightarrow> slot_point x < 1 \<Longrightarrow> slot_point (bud x) < 1"
proof -
  assume "1 < sl_level x" "slot_point x < 1"
  define n where "n = sl_level x - 2"
  have n: "sl_level x = Suc (Suc n)" using \<open>1 < sl_level x\<close> by (simp add: n_def)
  have "rat_of_nat (sl_index x) < of_nat (2 * 2 ^ n)" using \<open>slot_point x < 1\<close> by (simp add: slot_point_def n)
  then have i: "sl_index x < 2 * 2 ^ n" by (simp only: of_nat_less_iff)
  from i have "buddy_index (sl_index x) < 2 * 2 ^ n" by (auto simp: buddy_index_eq elim!: evenE)
  then have "rat_of_nat (buddy_index (sl_index x)) < of_nat (2 * 2 ^ n)" by (simp only: of_nat_less_iff)
  then show ?thesis by (simp add: slot_point_def n bud_def)
qed

text \<open>When nothing of a GPU is live, its free slots have been merged back into the whole GPU.\<close>

lemma idle_gpu_whole:
  assumes "slots_inv s" and "g \<in> set (keys (s_last_used s))" and "\<forall>x\<in>set (s_live s). sl_gpu x \<noteq> g"
  shows "slot_of g 1 0 \<in># free_mset (s_pools s)"
proof -
  let ?S = "{x. x \<in># all_slots s \<and> sl_gpu x = g}"
  have cov: "cover (all_slots s) g q = 1" if "0 \<le> q" "q < 1" for q using assms(1,2) that by (simp add: slots_inv_def)
  have ex: "\<exists>x\<in>?S. in_slot x q" if "0 \<le> q" "q < 1" for q using cov [OF that] cover_pos [of "all_slots s" g q] by auto
  have fin: "finite (sl_level ` ?S)" by (rule finite_imageI, rule finite_subset [of _ "set_mset (all_slots s)"]) auto
  moreover have "sl_level ` ?S \<noteq> {}" using ex [of 0] by auto
  ultimately have "Max (sl_level ` ?S) \<in> sl_level ` ?S" by (rule Max_in)
  then obtain x where x: "x \<in># all_slots s" "sl_gpu x = g" and "sl_level x = Max (sl_level ` ?S)" by auto
  then have top: "sl_level y \<le> sl_level x" if "y \<in># all_slots s" "sl_gpu y = g" for y using Max_ge [OF fin] that by auto
  have free: "y \<in># free_mset (s_pools s)" if "y \<in># all_slots s" "sl_gpu y = g" for y
    using that assms(3) by (auto simp: all_slots_def)
  have "sl_level x = 1"
  proof (rule ccontr)
    assume "sl_level x \<noteq> 1"
    with slots_inv_level [OF assms(1) x(1)] have l: "1 < sl_level x" by simp
    let ?q = "slot_point (bud x)"
    have q: "in_slot (bud x) ?q" by (rule slot_pointI) (use l in simp)
    have "?q < 1" by (rule bud_inside [OF l slots_inv_mem(3) [OF assms(1) x(1)]])
    moreover have "0 \<le> ?q" by (simp add: slot_point_def)
    ultimately obtain y where y: "y \<in># all_slots s" "sl_gpu y = g" "in_slot y ?q" using ex by auto
    show False
    proof (cases "sl_level y = sl_level x")
      case True
      with y(2,3) q x(2) have "y = bud x" by (intro slot_eqI) (auto simp: in_slot_def)
      with free [OF y(1,2)] free [OF x] l assms(1) show False by (auto simp: slots_inv_def no_buddies_def)
    next
      case False
      with top [OF y(1,2)] have "sl_level y \<le> sl_level (parent_slot x)" by (simp add: parent_slot_def)
      moreover have "in_slot x (slot_point x)" using l by (intro slot_pointI) simp
      then have "in_slot (parent_slot x) ?q" "in_slot (parent_slot x) (slot_point x)" using in_parent [OF l] q by auto
      ultimately have "in_slot y (slot_point x)"
        using in_slot_nested [OF slots_inv_level [OF assms(1) y(1)] _ y(3)] by blast
      with cover_unique [OF assms(1) x(1) y(1)] x(2) y(2) \<open>in_slot x (slot_point x)\<close> False show False by auto
    qed
  qed
  from root_only(1) [OF assms(1) x(1) this x(1)] x(2) free [OF x] show ?thesis by simp
qed

lemma root_whole_free:
  assumes "slots_inv s" and "slot_of g 1 0 \<in># free_mset (s_pools s)"
  shows "dict_get (s_pools s) (g, 1) [] = [slot_of g 1 0]" and "l \<noteq> 1 \<Longrightarrow> dict_get (s_pools s) (g, l) [] = []"
proof -
  let ?r = "slot_of g 1 0" and ?pool = "\<lambda>l. dict_get (s_pools s) (g, l) []"
  have wf: "pools_wf (s_pools s)" using assms(1) by (simp add: slots_inv_def)
  have r: "?r \<in># all_slots s" using assms(2) by (simp add: all_slots_def)
  have only: "y = ?r" if "y \<in> set (?pool l)" for y l
  proof -
    have "y \<in># all_slots s" "sl_gpu y = g" using pools_wf_get [OF wf that] free_mem [OF wf, of y] that by (auto simp: all_slots_def)
    then show ?thesis using root_only(2) [OF assms(1) r] by simp
  qed
  have mem: "?r \<in> set (?pool 1)" using free_mem [OF wf, of ?r] assms(2) by simp
  have "mset (?pool 1) \<subseteq># free_mset (s_pools s)"
    using free_update [OF wf, of "(g, 1)" "[]"] by (metis mset.simps(1) add_0_right mset_subset_eq_add_right)
  from mset_subset_eq_count [OF this, of ?r] have "count (mset (?pool 1)) ?r \<le> count (all_slots s) ?r" by (simp add: all_slots_def)
  moreover have "count (all_slots s - {#?r#}) ?r = 0" using slots_inv_mem(2) [OF assms(1) r] by (simp only: not_in_iff)
  ultimately have "count (mset (?pool 1)) ?r \<le> 1" by simp
  moreover have "?pool 1 = replicate (length (?pool 1)) ?r" by (rule replicate_eqI [OF refl]) (rule only)
  then obtain k where "?pool 1 = replicate k ?r" by blast
  ultimately have "length (?pool 1) \<le> 1" by simp
  then show "?pool 1 = [?r]" using mem only by (cases "?pool 1") auto
  show "?pool l = []" if "l \<noteq> 1"
  proof (rule ccontr)
    assume "?pool l \<noteq> []"
    then obtain y where y: "y \<in> set (?pool l)" by (cases "?pool l") auto
    have "sl_level y = l" using pools_wf_get [OF wf y] by simp
    with only [OF y] that show False by simp
  qed
qed

section \<open>Reachable states\<close>

text \<open>Waiters always ask for a level of at least 1.\<close>

definition waiters_ok :: "slots \<Rightarrow> bool" where
  "waiters_ok s \<longleftrightarrow> (\<forall>w\<in>set (s_waiters s). 1 \<le> w_level w)"

lemma snd_drop_result [simp]: "snd (drop_result r) = snd r"
  by (simp add: drop_result_def)

lemma attempt_inv:
  assumes "slots_inv s" and "waiters_ok s"
  shows "slots_inv (snd (allocate_attempt t s))"
proof (cases "s_waiters s")
  case (Cons w ws)
  then have "1 \<le> w_level w" using assms(2) by (simp add: waiters_ok_def)
  with assms(1) Cons show ?thesis
    by (auto simp: allocate_attempt_def split: option.splits intro: add_live_inv(1))
qed (simp add: allocate_attempt_def assms(1))

lemma slots_exec_inv:
  assumes "slots_inv s" and "waiters_ok s"
  shows "slots_inv (snd (slots_exec c s))"
proof (cases c)
  case (Init gs)
  have "slots_inv (fold add_root gs (s\<lparr>s_pools := [], s_live := [], s_last_used := [], s_waiters := [], s_draining := {}\<rparr>))"
    by (rule init_roots) (simp_all add: empty_inv)
  then show ?thesis using Init assms(1) by (auto simp: slots_init_def elim: slots_inv_frame)
next
  case (Add g)
  have "slots_inv ((add_root g s)\<lparr>s_draining := s_draining s - {g}\<rparr>)" if "g \<notin> set (keys (s_last_used s))"
    by (rule slots_inv_frame [OF add_root_inv [OF assms(1) that]]) simp_all
  with Add assms(1) show ?thesis by (auto simp: slots_add_def)
next
  case (Allocate l g)
  let ?s = "s\<lparr>s_waiters := s_waiters s @ [\<lparr>w_ticket = s_ticket s, w_level = nat l, w_gpu = g\<rparr>], s_ticket := s_ticket s + 1\<rparr>"
  have "slots_inv ?s" using assms(1) by (auto elim: slots_inv_frame)
  moreover have "waiters_ok ?s" if "\<not> l < 1" using assms(2) that by (auto simp: waiters_ok_def)
  ultimately show ?thesis using Allocate assms(1) attempt_inv [of ?s] by (auto simp: allocate_def)
next
  case (Try l g)
  then show ?thesis using assms(1) add_live_inv(2) [OF assms(1), of "nat l" g]
    by (auto simp: try_allocate_def split: option.splits)
next
  case (Deallocate now x)
  show ?thesis
  proof (cases "fst (deallocate now x s)")
    case (Inl e)
    then have "snd (deallocate now x s) = s" by (auto simp: deallocate_def Let_def split: if_splits prod.splits)
    with Deallocate assms(1) show ?thesis by simp
  next
    case (Inr u)
    then have "deallocate now x s = (Inr (), snd (deallocate now x s))" by (simp add: prod_eq_iff)
    from deallocate_inv [OF assms(1) this] Deallocate show ?thesis by simp
  qed
next
  case Remove
  then show ?thesis using assms(1) by (auto simp: slots_remove_def empty_inv)
qed (use assms slots_pop_inv(1) attempt_inv in \<open>auto simp: mark_draining_def elim: slots_inv_frame\<close>)

lemma exec_waiters: "waiters_ok s \<Longrightarrow> waiters_ok (snd (slots_exec c s))"
proof -
  have loc: "s_waiters s' = s_waiters s" if "try_allocate_locked l g s = Some (y, s')" for l g y s' and s :: slots
  proof -
    have pop: "s_waiters s' = s_waiters s" if "pop_free_in_subtree h l s = Some (y, s')" for h
      using that by (auto simp: pop_free_in_subtree_def split: option.splits prod.splits)
    show ?thesis using that pop first_fitting_cases [of l "coldest_first s" s] by (cases g) (auto split: if_splits)
  qed
  have att: "waiters_ok (snd (allocate_attempt t s))" if "waiters_ok s" for t and s :: slots
    using that by (auto simp: allocate_attempt_def waiters_ok_def add_live_def split: list.splits option.splits)
  have roots: "s_waiters (fold add_root gs s) = s_waiters s" for gs and s :: slots
    by (induction gs arbitrary: s) (auto simp: add_root_def)
  assume "waiters_ok s"
  then show ?thesis
  proof (cases c)
    case (Allocate l g)
    let ?s = "s\<lparr>s_waiters := s_waiters s @ [\<lparr>w_ticket = s_ticket s, w_level = nat l, w_gpu = g\<rparr>], s_ticket := s_ticket s + 1\<rparr>"
    have "waiters_ok ?s" if "\<not> l < 1" using \<open>waiters_ok s\<close> that by (auto simp: waiters_ok_def)
    with Allocate \<open>waiters_ok s\<close> att [of ?s] show ?thesis by (auto simp: allocate_def)
  qed (use att loc in \<open>auto simp: slots_init_def roots slots_remove_def slots_add_def add_root_def slots_pop_def mark_draining_def
        try_allocate_def deallocate_def add_live_def Let_def waiters_ok_def split: prod.splits sum.splits option.splits\<close>)
qed

lemma slots_reachable_inv: "slots_reachable s \<Longrightarrow> slots_inv s \<and> waiters_ok s"
proof (induction rule: slots_reachable.induct)
  case start
  then show ?case by (simp add: slots_start_def empty_inv waiters_ok_def)
next
  case (step s c)
  then show ?case using slots_exec_inv exec_waiters by blast
qed

section \<open>The properties\<close>

text \<open>
  C9. The slots of a GPU never overlap and never leave a gap: in every state that the allocator can
  reach, each point of each GPU of the pool lies in exactly one slot, free or handed out; no slot is
  both, no slot is handed out twice, and slots exist only on GPUs of the pool.
\<close>

theorem slots_partition_gpus:
  assumes "slots_reachable s"
  shows "(\<forall>g\<in>set (keys (s_last_used s)). \<forall>p. 0 \<le> p \<and> p < 1 \<longrightarrow>
      (\<exists>!x. x \<in># all_slots s \<and> sl_gpu x = g \<and> in_slot x p)) \<and>
    (\<forall>x. x \<in># free_mset (s_pools s) \<longrightarrow> x \<notin> set (s_live s)) \<and> distinct (s_live s) \<and>
    (\<forall>x. x \<in># all_slots s \<longrightarrow> sl_gpu x \<in> set (keys (s_last_used s)))"
proof -
  have inv: "slots_inv s" using slots_reachable_inv [OF assms] by blast
  have "\<exists>!x. x \<in># all_slots s \<and> sl_gpu x = g \<and> in_slot x p" if "g \<in> set (keys (s_last_used s))" "0 \<le> p" "p < 1" for g p
  proof -
    have "cover (all_slots s) g p = 1" using inv that by (simp add: slots_inv_def)
    then have "\<exists>x. x \<in># all_slots s \<and> sl_gpu x = g \<and> in_slot x p" using cover_pos [of "all_slots s" g p] by simp
    then show ?thesis using cover_unique [OF inv] by blast
  qed
  moreover have "count (all_slots s) x \<le> 1" for x
    using slots_inv_mem(2) [OF inv, of x] by (cases "x \<in># all_slots s") (auto simp: not_in_iff)
  then have one: "count (free_mset (s_pools s)) x + count (mset (s_live s)) x \<le> 1" for x by (simp add: all_slots_def)
  have "x \<notin> set (s_live s)" if "x \<in># free_mset (s_pools s)" for x
  proof -
    have "0 < count (free_mset (s_pools s)) x" using that by simp
    with one [of x] have "count (mset (s_live s)) x = 0" by linarith
    then show ?thesis by simp
  qed
  moreover have "distinct (s_live s)" unfolding distinct_count_atmost_1
  proof
    fix a
    show "count (mset (s_live s)) a = (if a \<in> set (s_live s) then 1 else 0)"
    proof (cases "a \<in> set (s_live s)")
      case True
      then have "0 < count (mset (s_live s)) a" by simp
      with one [of a] have "count (mset (s_live s)) a = 1" by linarith
      with True show ?thesis by simp
    qed (simp add: count_eq_zero_iff)
  qed
  ultimately show ?thesis using slots_inv_mem(1) [OF inv] by blast
qed

text \<open>
  Allocation without waiting: on an initialised allocator a request for level \<open>l\<close> is met exactly
  when some permitted GPU has a free slot at least as large; it then hands out a slot of that
  level on a permitted, not draining GPU that no one else holds.
\<close>

theorem try_allocate_exact:
  assumes "slots_reachable s" and "s_inited s" and "1 \<le> l"
  shows "\<exists>r s'. try_allocate l gpu s = (Inr r, s') \<and>
    (r = None \<longleftrightarrow> (\<forall>x. x \<in># free_mset (s_pools s) \<longrightarrow> eligible gpu s (sl_gpu x) \<longrightarrow> l < int (sl_level x))) \<and>
    (\<forall>y. r = Some y \<longrightarrow> sl_level y = nat l \<and> eligible gpu s (sl_gpu y) \<and> y \<notin> set (s_live s) \<and> s_live s' = s_live s @ [y])"
proof -
  have inv: "slots_inv s" using slots_reachable_inv [OF assms(1)] by blast
  have lvl: "nat l < sl_level x \<longleftrightarrow> l < int (sl_level x)" for x using assms(3) by auto
  show ?thesis
  proof (cases "try_allocate_locked (nat l) gpu s")
    case None
    then show ?thesis using assms(2,3) try_locked_None [OF inv, of "nat l" gpu] by (auto simp: try_allocate_def lvl)
  next
    case (Some r)
    obtain y s' where r: "r = (y, s')" by fastforce
    have "1 \<le> nat l" using assms(3) by simp
    from try_locked_Some [OF inv this Some [unfolded r]] obtain p where p: "s' = s\<lparr>s_pools := p\<rparr>"
      "eligible gpu s (sl_gpu y)" "sl_level y = nat l" "y \<notin> set (s_live s)" by auto
    have "\<not> (\<forall>x. x \<in># free_mset (s_pools s) \<longrightarrow> eligible gpu s (sl_gpu x) \<longrightarrow> nat l < sl_level x)"
      using try_locked_None [OF inv, of "nat l" gpu] Some by auto
    then show ?thesis using assms(2,3) Some r p by (auto simp: try_allocate_def add_live_def lvl)
  qed
qed

text \<open>
  C12. Everything comes back: once no slot is handed out, every GPU of the pool is one whole free slot
  again, whatever was split on the way, so shutting the allocator down succeeds.
\<close>

theorem returned_slots_coalesce:
  assumes "slots_reachable s" and "s_inited s" and "s_live s = []"
  shows "(\<forall>g\<in>set (keys (s_last_used s)). dict_get (s_pools s) (g, 1) [] = [slot_of g 1 0] \<and>
      (\<forall>l. l \<noteq> 1 \<longrightarrow> dict_get (s_pools s) (g, l) [] = [])) \<and> fst (slots_remove s) = Inr ()"
proof -
  have inv: "slots_inv s" using slots_reachable_inv [OF assms(1)] by blast
  then have wf: "pools_wf (s_pools s)" by (simp add: slots_inv_def)
  have whole: "dict_get (s_pools s) (g, 1) [] = [slot_of g 1 0]" "l \<noteq> 1 \<Longrightarrow> dict_get (s_pools s) (g, l) [] = []"
    if "g \<in> set (keys (s_last_used s))" for g l
    using root_whole_free [OF inv idle_gpu_whole [OF inv that]] assms(3) by simp_all
  have "root_whole s g" if "g \<in> set (keys (s_last_used s))" for g
    using whole(1) [OF that] by (auto simp: root_whole_def dict_get_def split: option.splits)
  moreover have "pool = []" if e: "((g, l), pool) \<in> set (s_pools s)" "l \<noteq> 1" for g l pool
  proof (rule ccontr)
    assume "pool \<noteq> []"
    then obtain x where x: "x \<in> set pool" by (cases pool) auto
    have m: "dict_get (s_pools s) (g, l) [] = pool" using e(1) wf by (simp add: pools_wf_def dict_in_iff)
    then have "sl_gpu x = g" "x \<in># all_slots s" using pools_wf_get [OF wf, of x "(g, l)"] x free_mem [OF wf, of x] by (auto simp: all_slots_def)
    then have "g \<in> set (keys (s_last_used s))" using slots_inv_mem(1) [OF inv] by blast
    from whole(2) [OF this e(2)] m \<open>pool \<noteq> []\<close> show False by simp
  qed
  ultimately have "fst (slots_remove s) = Inr ()" using assms(2,3) by (auto simp: slots_remove_def list_all_iff simp del: set_map)
  with whole show ?thesis by blast
qed

section \<open>Concrete runs\<close>

definition ex_slots :: slots where
  "ex_slots = snd (slots_exec (Try 3 (Some 0)) (snd (slots_exec (Init [0, 1]) slots_start)))"

definition ex_returned :: slots where
  "ex_returned = snd (slots_exec (Deallocate 5 (slot_of 0 3 0)) ex_slots)"

lemma ex_slots_reachable: "slots_reachable ex_slots" "slots_reachable ex_returned"
  unfolding ex_returned_def ex_slots_def by (intro slots_reachable.intros)+

lemma ex_slots_fields:
  "s_inited ex_slots" "s_live ex_slots = [slot_of 0 3 0]" "0 \<in> set (keys (s_last_used ex_slots))"
  "s_inited ex_returned" "s_live ex_returned = []" "0 \<in> set (keys (s_last_used ex_returned))"
  by code_simp+

theorem slots_partition_gpus_witness:
  "slots_reachable ex_slots \<and> (\<exists>!x. x \<in># all_slots ex_slots \<and> sl_gpu x = 0 \<and> in_slot x (1 / 3))"
proof -
  have "0 \<le> (1 / 3 :: rat) \<and> 1 / 3 < (1 :: rat)" by simp
  with slots_partition_gpus [OF ex_slots_reachable(1)] ex_slots_fields(3) ex_slots_reachable(1) show ?thesis by blast
qed

theorem try_allocate_exact_witness:
  "fst (try_allocate 1 (Some 0) ex_slots) = Inr None \<and>
   \<not> (\<exists>x. x \<in># free_mset (s_pools ex_slots) \<and> eligible (Some 0) ex_slots (sl_gpu x) \<and> int (sl_level x) \<le> 1)"
proof -
  have none: "fst (try_allocate 1 (Some 0) ex_slots) = Inr None" by code_simp
  with try_allocate_exact [OF ex_slots_reachable(1) ex_slots_fields(1), of 1 "Some 0"] show ?thesis by (auto simp: not_le)
qed

theorem returned_slots_coalesce_witness:
  "fst (slots_remove ex_returned) = Inr () \<and> dict_get (s_pools ex_returned) (0, 1) [] = [slot_of 0 1 0]"
  using returned_slots_coalesce [OF ex_slots_reachable(2) ex_slots_fields(4,5)] ex_slots_fields(6) by blast

end
