(* ===== verification/Rank_Topology.thy ===== *)
theory Rank_Topology
  imports Prelude
begin

text \<open>
  The rank layout of the sequence-parallel, expert-parallel and data-parallel mesh
  (\<open>model/parallel/topology.py\<close>): the choice of a topology and the rank groups of each. The checks take
  Python integers and may divide by zero; the group functions take sizes and ranks, which are not
  negative.
\<close>

section \<open>The choice of a topology\<close>

datatype topology = Standard | Orthogonal | Node_Local | Decoupled | Host_Complete

definition EP_GROUP_LAYOUTS :: "string list" where
  "EP_GROUP_LAYOUTS = [''auto'', ''packed'', ''mesh'']"

definition normalize_ep_group_layout :: "string option \<Rightarrow> string res" where
  "normalize_ep_group_layout v =
     (let layout = (case v of None \<Rightarrow> ''auto'' | Some l \<Rightarrow> l)
      in if layout \<notin> set EP_GROUP_LAYOUTS then Inl ValueError else Inr layout)"

definition use_node_local_ep :: "int \<Rightarrow> int \<Rightarrow> int \<Rightarrow> int \<Rightarrow> bool res" where
  "use_node_local_ep world sp ep gpn =
     (if ep = 1 \<or> sp = 1 then Inr False
      else if gpn \<le> 0 \<or> world \<le> gpn then Inr False
      else if world mod gpn \<noteq> 0 then Inr False
      else if ep = 0 then Inl ZeroDivisionError
      else if gpn mod ep \<noteq> 0 then Inr False
      else if sp = 0 then Inl ZeroDivisionError
      else if world mod sp \<noteq> 0 then Inr False
      else if (world div sp) mod ep \<noteq> 0 then Inr False
      else Inr (gpn mod (sp * ep) \<noteq> 0))"

definition use_intra_node_ep_decoupled :: "int \<Rightarrow> int \<Rightarrow> int \<Rightarrow> int \<Rightarrow> bool res" where
  "use_intra_node_ep_decoupled world sp ep gpn =
     (if sp = 1 \<or> ep = 1 then Inr False
      else if gpn \<le> 0 then Inr False
      else if ep = 0 then Inl ZeroDivisionError
      else if gpn mod ep \<noteq> 0 then Inr False
      else if world mod gpn \<noteq> 0 then Inr False
      else if sp = 0 then Inl ZeroDivisionError
      else if world mod sp \<noteq> 0 \<or> world mod ep \<noteq> 0 then Inr False
      else Inr (sp = world \<or> (world div sp) mod ep \<noteq> 0))"

definition use_host_complete_ep :: "int \<Rightarrow> int \<Rightarrow> int \<Rightarrow> int \<Rightarrow> bool res" where
  "use_host_complete_ep world sp ep gpn =
     (if ep = 1 \<or> sp = 1 then Inr False
      else if gpn \<le> 0 \<or> world \<le> gpn then Inr False
      else if world mod gpn \<noteq> 0 then Inr False
      else if sp = 0 then Inl ZeroDivisionError
      else if world mod sp \<noteq> 0 then Inr False
      else if ep = 0 then Inl ZeroDivisionError
      else if world mod ep \<noteq> 0 then Inr False
      else if ep mod gpn \<noteq> 0 then Inr False
      else if gpn mod ep = 0 then Inr False
      else if and ep (ep - 1) \<noteq> 0 then Inr False
      else Inr True)"

definition mesh_valid :: "int \<Rightarrow> int \<Rightarrow> int \<Rightarrow> bool" where
  "mesh_valid world sp ep \<longleftrightarrow> world mod sp = 0 \<and> sp \<noteq> world \<and> (world div sp) mod ep = 0"

text \<open>The first of the listed checks that applies gives the topology.\<close>

fun first_topology :: "(bool res \<times> topology) list \<Rightarrow> topology res" where
  "first_topology [] = Inl ValueError"
| "first_topology ((c, t) # rest) = (case c of Inl e \<Rightarrow> Inl e | Inr b \<Rightarrow> if b then Inr t else first_topology rest)"

definition resolve_packed :: "int \<Rightarrow> int \<Rightarrow> int \<Rightarrow> int \<Rightarrow> topology res" where
  "resolve_packed world sp ep gpn =
     (if gpn \<le> 0 then Inl ValueError
      else if world mod gpn \<noteq> 0 then Inl ValueError
      else if gpn mod ep = 0 then Inr (if mesh_valid world sp ep then Node_Local else Decoupled)
      else first_topology [(use_host_complete_ep world sp ep gpn, Host_Complete)])"

definition resolve_ep_group_topology :: "int \<Rightarrow> int \<Rightarrow> int \<Rightarrow> int \<Rightarrow> string option \<Rightarrow> topology res" where
  "resolve_ep_group_topology world sp ep gpn lay =
     (case normalize_ep_group_layout lay of
        Inl e \<Rightarrow> Inl e
      | Inr layout \<Rightarrow>
          if sp \<le> 1 \<or> ep \<le> 1 then Inr Standard
          else if layout = ''mesh'' then (if mesh_valid world sp ep then Inr Orthogonal else Inl ValueError)
          else if layout = ''packed'' then resolve_packed world sp ep gpn
          else first_topology
                 [(use_node_local_ep world sp ep gpn, Node_Local), (use_intra_node_ep_decoupled world sp ep gpn, Decoupled),
                  (use_host_complete_ep world sp ep gpn, Host_Complete), (Inr (mesh_valid world sp ep), Orthogonal)])"

section \<open>Rank groups\<close>

definition host_complete_ep_groups :: "nat \<Rightarrow> nat \<Rightarrow> nat list list res" where
  "host_complete_ep_groups world ep =
     (if ep = 0 then Inl ValueError
      else Inr (map (\<lambda>b. [b * ep..<b * ep + ep]) [0..<(world + ep - 1) div ep]))"

definition rank_to_node_sp_ep :: "nat \<Rightarrow> nat \<Rightarrow> nat \<Rightarrow> (nat \<times> nat \<times> nat) res" where
  "rank_to_node_sp_ep rank ep gpn =
     (if gpn = 0 \<or> ep = 0 then Inl ZeroDivisionError
      else Inr (rank div gpn, (rank mod gpn) div ep, (rank mod gpn) mod ep))"

definition same_expert_slot :: "nat \<Rightarrow> nat \<Rightarrow> nat \<Rightarrow> nat res" where
  "same_expert_slot rank ep gpn =
     (case rank_to_node_sp_ep rank ep gpn of
        Inl e \<Rightarrow> Inl e
      | Inr (node, intra_sp, _) \<Rightarrow> Inr (node * (gpn div ep) + intra_sp))"

definition chunked :: "nat \<Rightarrow> 'a list \<Rightarrow> 'a list list" where
  "chunked n xs = map (\<lambda>c. take n (drop (c * n) xs)) [0..<(length xs + n - 1) div n]"

definition by_expert :: "nat \<Rightarrow> nat \<Rightarrow> nat \<Rightarrow> nat \<Rightarrow> nat list" where
  "by_expert world ep gpn pos =
     concat (map (\<lambda>node. map (\<lambda>intra_sp. node * gpn + intra_sp * ep + pos) [0..<gpn div ep]) [0..<world div gpn])"

definition sp_groups :: "nat \<Rightarrow> nat \<Rightarrow> nat \<Rightarrow> nat \<Rightarrow> nat list list res" where
  "sp_groups world ep gpn sp =
     (if ep = 0 \<or> gpn = 0 then Inl ZeroDivisionError
      else if sp = 0 then Inl ValueError
      else Inr (concat (map (\<lambda>pos. chunked sp (by_expert world ep gpn pos)) [0..<ep])))"

definition ep_groups :: "nat \<Rightarrow> nat \<Rightarrow> nat \<Rightarrow> nat list list res" where
  "ep_groups world ep gpn =
     (if ep = 0 \<or> gpn = 0 then Inl ZeroDivisionError
      else Inr (concat (map (\<lambda>node. map (\<lambda>intra_sp. map (\<lambda>pos. node * gpn + intra_sp * ep + pos) [0..<ep])
                                       [0..<gpn div ep]) [0..<world div gpn])))"

fun map_res :: "('a \<Rightarrow> 'b res) \<Rightarrow> 'a list \<Rightarrow> 'b list res" where
  "map_res f [] = Inr []"
| "map_res f (x # xs) =
     (case f x of Inl e \<Rightarrow> Inl e | Inr y \<Rightarrow> (case map_res f xs of Inl e \<Rightarrow> Inl e | Inr ys \<Rightarrow> Inr (y # ys)))"

definition dp_sp_coords :: "nat \<Rightarrow> nat \<Rightarrow> nat \<Rightarrow> nat \<Rightarrow> (nat \<times> nat) res" where
  "dp_sp_coords ep gpn sp rank =
     (case rank_to_node_sp_ep rank ep gpn of
        Inl e \<Rightarrow> Inl e
      | Inr (_, _, pos) \<Rightarrow>
          (case same_expert_slot rank ep gpn of
             Inl e \<Rightarrow> Inl e
           | Inr slot \<Rightarrow> if sp = 0 then Inl ZeroDivisionError else Inr ((slot div sp) * ep + pos, slot mod sp)))"

definition rank_to_dp_sp :: "nat \<Rightarrow> nat \<Rightarrow> nat \<Rightarrow> nat \<Rightarrow> (nat \<times> nat) list res" where
  "rank_to_dp_sp world ep gpn sp = map_res (dp_sp_coords ep gpn sp) [0..<world]"

definition intra_node_ep_groups :: "nat \<Rightarrow> nat \<Rightarrow> nat \<Rightarrow> nat list list res" where
  "intra_node_ep_groups world ep gpn = ep_groups world ep gpn"

definition orthogonal_edp_groups :: "nat \<Rightarrow> nat \<Rightarrow> nat \<Rightarrow> nat list list res" where
  "orthogonal_edp_groups world sp ep =
     (if sp = 0 \<and> 0 < ep \<and> 0 < world then Inl ZeroDivisionError
      else Inr (map (\<lambda>pos. filter (\<lambda>rank. (rank div sp) mod ep = pos) [0..<world]) [0..<ep]))"

definition intra_node_ep_replica_groups :: "nat \<Rightarrow> nat \<Rightarrow> nat list list" where
  "intra_node_ep_replica_groups world ep = map (\<lambda>pos. filter (\<lambda>rank. rank mod ep = pos) [0..<world]) [0..<ep]"

section \<open>The groups in closed form\<close>

lemma map_blocks: "concat (map (\<lambda>a. map (\<lambda>b. f (a * k + b)) [0..<k]) [0..<m]) = map f [0..<m * k]"
proof (induction m)
  case (Suc m)
  have "map (\<lambda>b. f (m * k + b)) [0..<k] = map f [m * k..<m * k + k]"
    by (simp add: map_add_upt [symmetric] o_def add.commute)
  moreover have "[0..<m * k + k] = [0..<m * k] @ [m * k..<m * k + k]" by (rule upt_add_eq_append) simp
  ultimately show ?case using Suc by (simp add: add.commute)
qed simp

lemma chunked_map:
  assumes "0 < n"
  shows "chunked n (map f [0..<R * n]) = map (\<lambda>c. map (\<lambda>i. f (c * n + i)) [0..<n]) [0..<R]"
proof -
  have "R * n + n - 1 = (n - 1) + R * n" using assms by simp
  then have "(R * n + n - 1) div n = R" using assms by (simp only: div_mult_self1) simp
  moreover have "take n (drop (c * n) (map f [0..<R * n])) = map (\<lambda>i. f (c * n + i)) [0..<n]" if "c < R" for c
  proof -
    have "c * n + n \<le> R * n" using that by (metis mult_le_mono1 Suc_leI mult_Suc add.commute)
    moreover from this have "c * n \<le> R * n" by (rule order_trans [OF le_add1])
    ultimately show ?thesis by (intro nth_equalityI) (auto simp: nth_drop)
  qed
  ultimately show ?thesis by (simp add: chunked_def)
qed

lemma by_expert_eq:
  assumes "0 < ep" and "0 < k" and "gpn = k * ep" and "world = m * gpn"
  shows "by_expert world ep gpn pos = map (\<lambda>s. s * ep + pos) [0..<m * k]"
proof -
  have "world div gpn = m" "gpn div ep = k" using assms by simp_all
  moreover have "node * gpn + intra * ep + pos = (node * k + intra) * ep + pos" for node intra
    by (simp add: assms(3) algebra_simps)
  ultimately show ?thesis using map_blocks [of "\<lambda>s. s * ep + pos" k m] by (simp add: by_expert_def)
qed

lemma block_upt: "map (\<lambda>pos. (j::nat) + pos) [0..<n] = [j..<j + n]"
  by (rule nth_equalityI) auto

lemma ep_groups_eq:
  assumes "0 < ep" and "0 < k" and "gpn = k * ep" and "world = m * gpn"
  shows "ep_groups world ep gpn = Inr (map (\<lambda>j. [j * ep..<j * ep + ep]) [0..<m * k])"
proof -
  have "world div gpn = m" "gpn div ep = k" "gpn \<noteq> 0" using assms by simp_all
  moreover have "map (\<lambda>pos. node * gpn + intra * ep + pos) [0..<ep] = [(node * k + intra) * ep..<(node * k + intra) * ep + ep]" for node intra
    using block_upt [of "(node * k + intra) * ep" ep] by (simp add: assms(3) algebra_simps)
  ultimately show ?thesis using map_blocks [of "\<lambda>j. [j * ep..<j * ep + ep]" k m] assms(1) by (simp add: ep_groups_def)
qed

lemma concat_blocks_upt: "concat (map (\<lambda>j. [j * n..<j * n + n]) [0..<m]) = [0..<m * n]"
  using map_blocks [of "\<lambda>x. x" n m] by (simp add: block_upt)

lemma mset_concat_append_map: "mset (concat (map (\<lambda>x. f x @ g x) xs)) = mset (concat (map f xs)) + mset (concat (map g xs))"
  by (induction xs) auto

text \<open>The ranks of all expert shards, shard by shard, are all ranks.\<close>

lemma mset_shards: "mset (concat (map (\<lambda>pos. map (\<lambda>s. s * ep + pos) [0..<n]) [0..<ep])) = mset [0..<n * ep]"
proof (induction n)
  case (Suc n)
  have "mset (concat (map (\<lambda>pos. map (\<lambda>s. s * ep + pos) [0..<Suc n]) [0..<ep])) =
      mset (concat (map (\<lambda>pos. map (\<lambda>s. s * ep + pos) [0..<n]) [0..<ep])) + mset (concat (map (\<lambda>pos. [n * ep + pos]) [0..<ep]))"
    using mset_concat_append_map [of "\<lambda>pos. map (\<lambda>s. s * ep + pos) [0..<n]" "\<lambda>pos. [n * ep + pos]" "[0..<ep]"] by simp
  also have "concat (map (\<lambda>pos. [n * ep + pos]) [0..<ep]) = [n * ep..<n * ep + ep]"
    by (simp add: concat_map_singleton block_upt)
  also have "mset (concat (map (\<lambda>pos. map (\<lambda>s. s * ep + pos) [0..<n]) [0..<ep])) + mset [n * ep..<n * ep + ep] =
      mset ([0..<n * ep] @ [n * ep..<n * ep + ep])" using Suc by simp
  also have "[0..<n * ep] @ [n * ep..<n * ep + ep] = [0..<Suc n * ep]"
    using upt_add_eq_append [of 0 "n * ep" ep] by (simp add: add.commute)
  finally show ?case .
qed simp

lemma sp_groups_eq:
  assumes "0 < ep" and "0 < k" and "gpn = k * ep" and "world = m * gpn" and "0 < sp" and "m * k = R * sp"
  shows "sp_groups world ep gpn sp =
    Inr (concat (map (\<lambda>pos. map (\<lambda>c. map (\<lambda>i. (c * sp + i) * ep + pos) [0..<sp]) [0..<R]) [0..<ep]))"
proof -
  have "gpn \<noteq> 0" using assms(1-3) by simp
  then show ?thesis using assms(1,5) by (simp add: sp_groups_def by_expert_eq [OF assms(1-4)] assms(6) chunked_map)
qed

lemma rank_split:
  fixes r ep k gpn :: nat
  assumes "0 < ep" and "0 < k" and "gpn = k * ep"
  shows "(r mod gpn) mod ep = r mod ep" and "(r div gpn) * k + (r mod gpn) div ep = r div ep"
proof -
  show "(r mod gpn) mod ep = r mod ep" using mod_mod_cancel [of ep gpn r] assms(3) by simp
  have "r = (r div gpn) * gpn + r mod gpn" by simp
  then have "r div ep = ((r div gpn) * k * ep + r mod gpn) div ep" by (simp add: assms(3) mult.assoc)
  also have "\<dots> = (r div gpn) * k + (r mod gpn) div ep" using assms(1) by simp
  finally show "(r div gpn) * k + (r mod gpn) div ep = r div ep" by simp
qed

lemma map_res_Inr: "(\<And>x. x \<in> set xs \<Longrightarrow> f x = Inr (g x)) \<Longrightarrow> map_res f xs = Inr (map g xs)"
  by (induction xs) auto

lemma rank_to_dp_sp_eq:
  assumes "0 < ep" and "0 < k" and "gpn = k * ep" and "0 < sp"
  shows "rank_to_dp_sp world ep gpn sp = Inr (map (\<lambda>r. ((r div ep div sp) * ep + r mod ep, r div ep mod sp)) [0..<world])"
  unfolding rank_to_dp_sp_def
proof (rule map_res_Inr)
  fix r
  have "gpn div ep = k" using assms by simp
  then show "dp_sp_coords ep gpn sp r = Inr ((r div ep div sp) * ep + r mod ep, r div ep mod sp)"
    using assms rank_split [OF assms(1-3), of r] by (simp add: dp_sp_coords_def same_expert_slot_def rank_to_node_sp_ep_def)
qed

lemma concat_map_concat_eq: "concat (concat (map f xs)) = concat (map (\<lambda>x. concat (f x)) xs)"
  by (induction xs) auto

section \<open>What a resolved topology guarantees\<close>

lemma first_topology_cases: "first_topology cs = Inr t \<Longrightarrow> (Inr True, t) \<in> set cs"
  by (induction cs rule: first_topology.induct) (auto split: sum.splits if_splits)

lemma use_node_local_ep_True:
  "use_node_local_ep w sp ep gpn = Inr True \<Longrightarrow>
   0 < gpn \<and> w mod gpn = 0 \<and> gpn mod ep = 0 \<and> w mod sp = 0 \<and> (w div sp) mod ep = 0"
  by (simp add: use_node_local_ep_def split: if_splits)

lemma use_intra_node_ep_decoupled_True:
  "use_intra_node_ep_decoupled w sp ep gpn = Inr True \<Longrightarrow> 0 < gpn \<and> w mod gpn = 0 \<and> gpn mod ep = 0"
  by (simp add: use_intra_node_ep_decoupled_def split: if_splits)

lemma use_host_complete_ep_True:
  "use_host_complete_ep w sp ep gpn = Inr True \<Longrightarrow> 0 < gpn \<and> w mod gpn = 0 \<and> w mod ep = 0 \<and> ep mod gpn = 0"
  by (simp add: use_host_complete_ep_def split: if_splits)

lemma resolve_packed_Inr:
  "resolve_packed w sp ep gpn = Inr t \<Longrightarrow> 0 < gpn \<and> w mod gpn = 0 \<and>
   (t = Node_Local \<and> gpn mod ep = 0 \<and> w mod sp = 0 \<and> (w div sp) mod ep = 0 \<or> t = Decoupled \<and> gpn mod ep = 0 \<or>
    t = Host_Complete \<and> use_host_complete_ep w sp ep gpn = Inr True)"
  by (auto simp: resolve_packed_def mesh_valid_def split: if_splits sum.splits)

text \<open>The divisibility that the chosen topology brings along.\<close>

lemma resolved_sizes:
  assumes "resolve_ep_group_topology (int world) (int sp) (int ep) (int gpn) lay = Inr t" and "t \<noteq> Standard" and "t \<noteq> Orthogonal"
  shows "1 < sp \<and> 1 < ep \<and> 0 < gpn \<and> gpn dvd world \<and> (t \<noteq> Host_Complete \<longrightarrow> ep dvd gpn) \<and>
    (t = Host_Complete \<longrightarrow> ep dvd world \<and> gpn dvd ep) \<and> (t = Node_Local \<longrightarrow> sp dvd world \<and> ep dvd world div sp)"
proof -
  let ?w = "int world" and ?s = "int sp" and ?e = "int ep" and ?g = "int gpn"
  from assms have se: "1 < ?s" "1 < ?e" and
    r: "resolve_packed ?w ?s ?e ?g = Inr t \<or> (Inr True, t) \<in>
      {(use_node_local_ep ?w ?s ?e ?g, Node_Local), (use_intra_node_ep_decoupled ?w ?s ?e ?g, Decoupled), (use_host_complete_ep ?w ?s ?e ?g, Host_Complete)}"
    by (auto simp: resolve_ep_group_topology_def not_le split: sum.splits if_splits)
  have dv: "a dvd b \<longleftrightarrow> int b mod int a = 0" for a b :: nat by (simp add: dvd_eq_mod_eq_0 flip: of_nat_mod)
  have "0 < ?g \<and> ?w mod ?g = 0 \<and> (t \<noteq> Host_Complete \<longrightarrow> ?g mod ?e = 0) \<and>
      (t = Host_Complete \<longrightarrow> ?w mod ?e = 0 \<and> ?e mod ?g = 0) \<and> (t = Node_Local \<longrightarrow> ?w mod ?s = 0 \<and> (?w div ?s) mod ?e = 0)"
    using r
  proof
    assume "resolve_packed ?w ?s ?e ?g = Inr t"
    from resolve_packed_Inr [OF this] use_host_complete_ep_True [of ?w ?s ?e ?g] show ?thesis by auto
  next
    assume "(Inr True, t) \<in> {(use_node_local_ep ?w ?s ?e ?g, Node_Local), (use_intra_node_ep_decoupled ?w ?s ?e ?g, Decoupled), (use_host_complete_ep ?w ?s ?e ?g, Host_Complete)}"
    then consider "t = Node_Local" "use_node_local_ep ?w ?s ?e ?g = Inr True" | "t = Decoupled" "use_intra_node_ep_decoupled ?w ?s ?e ?g = Inr True"
      | "t = Host_Complete" "use_host_complete_ep ?w ?s ?e ?g = Inr True" by auto
    then show ?thesis
      by cases (use use_node_local_ep_True use_intra_node_ep_decoupled_True use_host_complete_ep_True in blast)+
  qed
  then show ?thesis using se by (simp add: dv zdiv_int)
qed

section \<open>Blocks and replicas\<close>

lemma block_div: "r \<in> set [j * ep..<j * ep + ep] \<Longrightarrow> r div ep = (j :: nat)"
  by (auto simp: mult.commute intro: div_nat_eqI)

lemma block_in_node:
  fixes ep gpn :: nat
  assumes "0 < ep" and "ep dvd gpn"
  shows "\<exists>node. \<forall>r\<in>set [j * ep..<j * ep + ep]. r div gpn = node"
proof -
  from assms(2) obtain k where k: "gpn = ep * k" by blast
  have "r div gpn = j div k" if "r \<in> set [j * ep..<j * ep + ep]" for r
    using block_div [OF that] by (simp add: k div_mult2_eq)
  then show ?thesis by blast
qed

lemma filter_eq_upt: "pos < n \<Longrightarrow> filter (\<lambda>p. p = pos) [0..<n] = [pos]"
  by (induction n) (auto simp: less_Suc_eq filter_empty_conv)

lemma replica_groups_eq:
  "intra_node_ep_replica_groups (B * ep) ep = map (\<lambda>pos. map (\<lambda>s. s * ep + pos) [0..<B]) [0..<ep]"
  unfolding intra_node_ep_replica_groups_def
proof (rule map_cong [OF refl])
  fix pos assume "pos \<in> set [0..<ep]"
  then have p: "pos < ep" by simp
  have block: "filter (\<lambda>r. r mod ep = pos) [b * ep..<b * ep + ep] = [b * ep + pos]" for b
  proof -
    have "filter (\<lambda>r. r mod ep = pos) [b * ep..<b * ep + ep] = map (\<lambda>p. b * ep + p) (filter (\<lambda>p. (b * ep + p) mod ep = pos) [0..<ep])"
      by (simp add: filter_map o_def flip: block_upt)
    also have "filter (\<lambda>p. (b * ep + p) mod ep = pos) [0..<ep] = filter (\<lambda>p. p = pos) [0..<ep]" by (rule filter_cong) auto
    finally show ?thesis by (simp add: filter_eq_upt [OF p])
  qed
  show "filter (\<lambda>r. r mod ep = pos) [0..<B * ep] = map (\<lambda>s. s * ep + pos) [0..<B]"
  proof (induction B)
    case (Suc B)
    then show ?case using block [of B] upt_add_eq_append [of 0 "B * ep" ep] by (simp add: add.commute)
  qed simp
qed

section \<open>The properties\<close>

text \<open>
  C31. Expert-parallel axis: whenever a topology other than the standard and the orthogonal mesh is
  chosen, its expert-parallel groups are blocks of \<open>ep\<close> consecutive ranks that cover every rank once,
  each within one node, or filling whole nodes for the host-complete layout; the expert-data-parallel
  groups cover every rank once; and a group of either kind meets each group of the other in exactly
  one rank, so every block holds each expert shard once.
\<close>

theorem ep_axis_crosses_replicas:
  assumes "resolve_ep_group_topology (int world) (int sp) (int ep) (int gpn) lay = Inr t" and "t \<noteq> Standard" and "t \<noteq> Orthogonal"
  shows "\<exists>E. (if t = Host_Complete then host_complete_ep_groups world ep else ep_groups world ep gpn) = Inr E \<and>
    concat E = [0..<world] \<and> (\<forall>g\<in>set E. length g = ep) \<and>
    (t \<noteq> Host_Complete \<longrightarrow> (\<forall>g\<in>set E. \<exists>node. \<forall>r\<in>set g. r div gpn = node)) \<and>
    (t = Host_Complete \<longrightarrow> (\<forall>g\<in>set E. gpn dvd hd g \<and> gpn dvd length g)) \<and>
    mset (concat (intra_node_ep_replica_groups world ep)) = mset [0..<world] \<and>
    (\<forall>g\<in>set E. \<forall>h\<in>set (intra_node_ep_replica_groups world ep). \<exists>!r. r \<in> set g \<and> r \<in> set h)"
proof -
  note sz = resolved_sizes [OF assms]
  define B where "B = world div ep"
  define E where "E = map (\<lambda>j. [j * ep..<j * ep + ep]) [0..<B]"
  have ep: "0 < ep" and epw: "ep dvd world" using sz by (cases "t = Host_Complete"; fastforce intro: dvd_trans)+
  then have w: "world = B * ep" by (simp add: B_def)
  have groups: "(if t = Host_Complete then host_complete_ep_groups world ep else ep_groups world ep gpn) = Inr E"
  proof (cases "t = Host_Complete")
    case True
    have "world + ep - 1 = (ep - 1) + B * ep" using ep w by simp
    then have "(world + ep - 1) div ep = B" using ep by (simp only: div_mult_self1) simp
    with True ep show ?thesis by (simp add: host_complete_ep_groups_def E_def)
  next
    case False
    with sz obtain k where k: "gpn = k * ep" by (metis dvd_div_mult_self)
    from sz obtain m where m: "world = m * gpn" by (metis dvd_div_mult_self)
    have "0 < k" "m * k = B" using sz k m w ep by auto
    with ep_groups_eq [OF ep _ k m] False show ?thesis by (simp add: E_def)
  qed
  have mem: "\<exists>j<B. g = [j * ep..<j * ep + ep]" if "g \<in> set E" for g using that by (auto simp: E_def)
  have one_node: "\<exists>node. \<forall>r\<in>set g. r div gpn = node" if "g \<in> set E" "ep dvd gpn" for g
    using mem [OF that(1)] block_in_node [OF ep that(2)] by blast
  have cross: "\<exists>!r. r \<in> set g \<and> r \<in> set h" if gh: "g \<in> set E" "h \<in> set (intra_node_ep_replica_groups world ep)" for g h
  proof -
    from mem [OF gh(1)] obtain j where j: "j < B" and g: "g = [j * ep..<j * ep + ep]" by blast
    from gh(2) obtain pos where pos: "pos < ep" and h: "set h = {r. r < world \<and> r mod ep = pos}"
      by (auto simp: intra_node_ep_replica_groups_def)
    have "Suc j * ep \<le> B * ep" using j by (intro mult_le_mono1) simp
    then have in_range: "j * ep + ep \<le> world" using w by (simp add: add.commute)
    have "r = j * ep + pos" if "r \<in> set g" "r mod ep = pos" for r
      using block_div [of r j ep] that g by (metis div_mult_mod_eq)
    moreover have "j * ep + pos \<in> set g" "j * ep + pos \<in> set h" using pos in_range by (simp_all add: g h)
    ultimately show ?thesis unfolding h by blast
  qed
  have repl: "intra_node_ep_replica_groups world ep = map (\<lambda>pos. map (\<lambda>s. s * ep + pos) [0..<B]) [0..<ep]"
    unfolding w by (rule replica_groups_eq)
  have "\<forall>g\<in>set E. length g = ep" by (auto simp: E_def)
  moreover have "\<forall>g\<in>set E. gpn dvd hd g \<and> gpn dvd length g" if "gpn dvd ep" using that ep by (auto simp: E_def)
  ultimately show ?thesis using groups one_node cross repl mset_shards [of ep B] concat_blocks_upt [of ep B] w sz
    by (intro exI [of _ E]) (auto simp: E_def [symmetric])
qed

text \<open>
  Sequence-parallel axis of the node-local topology: the sequence-parallel groups have \<open>sp\<close> ranks
  each, cover every rank once and stay within one expert shard; the coordinates that the data plane
  uses agree with them: the ranks of a group share a data-parallel index that no other group has, and
  the sequence-parallel rank of a member is its position in the group.
\<close>

theorem node_local_sp_axis:
  assumes "resolve_ep_group_topology (int world) (int sp) (int ep) (int gpn) lay = Inr Node_Local"
  shows "\<exists>S C. sp_groups world ep gpn sp = Inr S \<and> rank_to_dp_sp world ep gpn sp = Inr C \<and> length C = world \<and>
    mset (concat S) = mset [0..<world] \<and>
    (\<forall>g\<in>set S. length g = sp \<and> (\<exists>pos. \<forall>r\<in>set g. r mod ep = pos) \<and> (\<exists>d. \<forall>i<sp. C ! (g ! i) = (d, i))) \<and>
    (\<forall>g\<in>set S. \<forall>h\<in>set S. fst (C ! hd g) = fst (C ! hd h) \<longrightarrow> g = h)"
proof -
  have sz: "1 < sp" "1 < ep" "0 < gpn" "gpn dvd world" "ep dvd gpn" "sp dvd world" "ep dvd world div sp"
    using resolved_sizes [OF assms] by auto
  from sz(5) obtain k where k: "gpn = k * ep" by (metis dvd_div_mult_self)
  from sz(4) obtain m where m: "world = m * gpn" by (metis dvd_div_mult_self)
  define R where "R = world div sp div ep"
  have pos: "0 < k" "0 < ep" "0 < sp" using sz k by auto
  have "world div sp = R * ep" "world = (world div sp) * sp" using sz(6,7) by (simp_all add: R_def)
  then have w: "world = R * sp * ep" by (metis mult.assoc mult.commute)
  then have mk: "m * k = R * sp" using m k pos by simp
  define grp where "grp = (\<lambda>p c. map (\<lambda>i. (c * sp + i) * ep + p) [0..<sp])"
  define S where "S = concat (map (\<lambda>p. map (grp p) [0..<R]) [0..<ep])"
  define coord where "coord = (\<lambda>r. ((r div ep div sp) * ep + r mod ep, r div ep mod sp))"
  have S: "sp_groups world ep gpn sp = Inr S"
    using sp_groups_eq [OF pos(2,1) k m pos(3) mk] by (simp add: S_def grp_def)
  have C: "rank_to_dp_sp world ep gpn sp = Inr (map coord [0..<world])"
    using rank_to_dp_sp_eq [OF pos(2,1) k pos(3)] by (simp add: coord_def)
  have mem: "\<exists>p<ep. \<exists>c<R. g = grp p c" if "g \<in> set S" for g using that unfolding S_def by (auto, blast)
  have cover: "mset (concat S) = mset [0..<world]"
  proof -
    have "concat (map (grp p) [0..<R]) = map (\<lambda>s. s * ep + p) [0..<R * sp]" for p
      using map_blocks [of "\<lambda>s. s * ep + p" sp R] by (simp add: grp_def)
    then have "concat S = concat (map (\<lambda>p. map (\<lambda>s. s * ep + p) [0..<R * sp]) [0..<ep])"
      by (simp add: S_def concat_map_concat_eq)
    then show ?thesis using mset_shards [of ep "R * sp"] w by simp
  qed
  have coord: "coord ((c * sp + i) * ep + p) = (c * ep + p, i)" if "i < sp" "p < ep" for c i p
    using that by (simp add: coord_def)
  have nth: "map coord [0..<world] ! (grp p c ! i) = (c * ep + p, i)" if "grp p c \<in> set S" "i < sp" "p < ep" for p c i
  proof -
    have "grp p c ! i \<in> set (grp p c)" using that(2) by (intro nth_mem) (simp add: grp_def)
    with that(1) have "grp p c ! i \<in> set (concat S)" by auto
    then have "grp p c ! i \<in> set [0..<world]" using mset_eq_setD [OF cover] by (simp only:)
    then have "grp p c ! i < world" by simp
    then show ?thesis using coord [OF that(2,3)] that(2) by (simp add: grp_def)
  qed
  have group: "length g = sp \<and> (\<exists>p. \<forall>r\<in>set g. r mod ep = p) \<and> (\<exists>d. \<forall>i<sp. map coord [0..<world] ! (g ! i) = (d, i))" if "g \<in> set S" for g
  proof -
    from mem [OF that] obtain p c where g: "p < ep" "g = grp p c" by blast
    have "\<forall>r\<in>set g. r mod ep = p" using g by (auto simp: grp_def)
    moreover have "\<forall>i<sp. map coord [0..<world] ! (g ! i) = (c * ep + p, i)" using nth that g by blast
    ultimately show ?thesis by (auto simp: g(2) grp_def)
  qed
  have unique: "g = h" if "g \<in> set S" "h \<in> set S" "fst (map coord [0..<world] ! hd g) = fst (map coord [0..<world] ! hd h)" for g h
  proof -
    from mem [OF that(1)] mem [OF that(2)] obtain p c q d where g: "p < ep" "g = grp p c" and h: "q < ep" "h = grp q d" by blast
    have hd: "hd (grp x y) = grp x y ! 0" for x y using pos(3) by (simp add: grp_def hd_conv_nth)
    have e: "c * ep + p = d * ep + q"
      using that(3) nth [of p c 0] nth [of q d 0] that(1,2) g h pos(3) by (simp add: hd)
    have "(c * ep + p) div ep = c" "(d * ep + q) div ep = d" using g(1) h(1) by simp_all
    with e have "c = d" "p = q" by auto
    with g h show ?thesis by simp
  qed
  show ?thesis using S C cover group unique by (intro exI [of _ S] exI [of _ "map coord [0..<world]"]) auto
qed

theorem ep_axis_crosses_replicas_witness:
  "resolve_ep_group_topology (int 8) (int 2) (int 2) (int 2) None = Inr Node_Local \<and>
   (\<exists>E. ep_groups 8 2 2 = Inr E \<and> concat E = [0..<8] \<and> (\<forall>g\<in>set E. \<exists>node. \<forall>r\<in>set g. r div 2 = node))"
proof -
  have r: "resolve_ep_group_topology (int 8) (int 2) (int 2) (int 2) None = Inr Node_Local" by code_simp
  from ep_axis_crosses_replicas [OF r] r show ?thesis by auto
qed

theorem node_local_sp_axis_witness:
  "resolve_ep_group_topology (int 8) (int 2) (int 2) (int 2) (Some ''packed'') = Inr Node_Local \<and>
   sp_groups 8 2 2 2 = Inr [[0, 2], [4, 6], [1, 3], [5, 7]] \<and> mset (concat [[0, 2], [4, 6], [1, 3], [5, 7]]) = mset [0..<8]"
proof -
  have r: "resolve_ep_group_topology (int 8) (int 2) (int 2) (int 2) (Some ''packed'') = Inr Node_Local" by code_simp
  have s: "sp_groups 8 2 2 2 = Inr [[0, 2], [4, 6], [1, 3], [5, 7]]" by code_simp
  from node_local_sp_axis [OF r] r s show ?thesis by auto
qed

end
