(* ===== verification/Balanced_Batch.thy ===== *)
theory Balanced_Batch
  imports Batch_Values Seqlen_Balancing
begin

text \<open>
  The assignment of the rows of a batch to data-parallel ranks (\<open>common/utils/balanced_batch.py\<close>):
  rows by length under fixed rank sizes, or whole prompt groups by a backtracking search with a node
  budget. A Python value that may or may not be a tensor is an optional leaf. The scalars of the
  request's metadata are the fields of a record; a missing or unusable entry is \<open>None\<close>.
\<close>

section \<open>Metadata and inputs\<close>

record balance_meta =
  bm_balance_batch :: "bool option"
  bm_zorro_train_enable :: bool
  bm_prompt_group_ids :: "leaf option"
  bm_max_response_len :: "int option"
  bm_max_token_len_per_gpu :: "int option"
  bm_zorro_train_max_rollouts :: "int option"
  bm_rollout_n :: "int option"

definition balance_disabled :: "balance_meta \<Rightarrow> bool" where
  "balance_disabled meta \<longleftrightarrow> bm_balance_batch meta = Some False"

fun tensor_of_ndim :: "nat \<Rightarrow> leaf option \<Rightarrow> tensor option" where
  "tensor_of_ndim n (Some (TensorLeaf t)) = (if t_ndim t = n then Some t else None)"
| "tensor_of_ndim n _ = None"

definition mask_lengths :: "leaf option \<Rightarrow> int list option" where
  "mask_lengths am =
     (case tensor_of_ndim 2 am of None \<Rightarrow> None
      | Some m \<Rightarrow> Some (map (\<lambda>r. sum_list (map to_long r)) (t_rows m)))"

definition id_groups :: "leaf option \<Rightarrow> nat \<Rightarrow> nat list list option" where
  "id_groups ids num_rows =
     (case tensor_of_ndim 1 ids of
        None \<Rightarrow> None
      | Some t \<Rightarrow> if hd (t_shape t) \<noteq> num_rows then None
                  else Some (dict_values (group_prompts (map to_long (t_data t)))))"

section \<open>Rows by length\<close>

definition rank_cap :: "nat \<Rightarrow> nat \<Rightarrow> nat \<Rightarrow> nat" where
  "rank_cap n k rank = n div k + (if rank < n mod k then 1 else 0)"

text \<open>One row goes to the cheapest rank with room, the lower rank on a tie.\<close>

definition lpt_step :: "(nat \<Rightarrow> nat) \<Rightarrow> int list \<Rightarrow> nat \<Rightarrow> (nat list \<times> int) list \<Rightarrow> (nat list \<times> int) list res" where
  "lpt_step cap costs idx bins =
     (case filter (\<lambda>rank. length (fst (bins ! rank)) < cap rank) [0..<length bins] of
        [] \<Rightarrow> Inl RuntimeError
      | c # cs \<Rightarrow>
          (let rank = first_min (\<lambda>rank. (snd (bins ! rank), rank)) c cs
           in Inr (bins[rank := (fst (bins ! rank) @ [idx], snd (bins ! rank) + costs ! idx)])))"

fun lpt_loop :: "(nat \<Rightarrow> nat) \<Rightarrow> int list \<Rightarrow> nat list \<Rightarrow> (nat list \<times> int) list \<Rightarrow> (nat list \<times> int) list res" where
  "lpt_loop cap costs [] bins = Inr bins"
| "lpt_loop cap costs (idx # rest) bins =
     (case lpt_step cap costs idx bins of Inl e \<Rightarrow> Inl e | Inr bins' \<Rightarrow> lpt_loop cap costs rest bins')"

definition assign_row_lpt :: "int list \<Rightarrow> int \<Rightarrow> nat list list res" where
  "assign_row_lpt costs num_shards =
     (if num_shards < 1 then Inl ValueError
      else if int (length costs) < num_shards then Inl ValueError
      else (let n = length costs; k = nat num_shards
            in case lpt_loop (rank_cap n k) costs (sort_key (\<lambda>i. - (costs ! i)) [0..<n]) (replicate k ([], 0)) of
                 Inl e \<Rightarrow> Inl e
               | Inr bins \<Rightarrow> Inr (map (\<lambda>b. sort (fst b)) bins)))"

section \<open>Whole groups: the search\<close>

definition PACK_NODE_BUDGET :: int where
  "PACK_NODE_BUDGET = 100000"

text \<open>A frame of the search stack: the ranks worth trying for a position, the choice among them, and what the choice overwrote.\<close>

record frame =
  fr_pos :: nat
  fr_ranks :: "nat list"
  fr_choice :: nat
  fr_rows :: nat
  fr_cost :: rat

record search =
  se_rows :: "nat list"
  se_costs :: "rat list"
  se_placed :: "(nat, nat) dict"
  se_stack :: "frame list"
  se_pos :: nat
  se_nodes :: int

datatype outcome = Placed "(nat, nat) dict" | Exceeded int | Exhausted

text \<open>The problem: group sizes, group costs, the order of placement and the rank capacity.\<close>

record problem =
  pr_sizes :: "nat list"
  pr_costs :: "rat list"
  pr_order :: "nat list"
  pr_cap :: nat

fun untried :: "problem \<Rightarrow> search \<Rightarrow> nat \<Rightarrow> (nat \<times> rat) list \<Rightarrow> nat list \<Rightarrow> nat list" where
  "untried P s index tried [] = []"
| "untried P s index tried (rank # ranks) =
     (let state = (se_rows s ! rank, se_costs s ! rank)
      in if pr_cap P < se_rows s ! rank + pr_sizes P ! index \<or> state \<in> set tried
         then untried P s index tried ranks
         else rank # untried P s index (state # tried) ranks)"

definition pack_candidates :: "problem \<Rightarrow> search \<Rightarrow> nat \<Rightarrow> nat list" where
  "pack_candidates P s index = untried P s index [] (sort_key (\<lambda>r. (se_costs s ! r, r)) [0..<length (se_rows s)])"

text \<open>Placing the group of a position on the chosen rank and pushing the frame.\<close>

definition place :: "problem \<Rightarrow> nat \<Rightarrow> nat list \<Rightarrow> nat \<Rightarrow> search \<Rightarrow> search" where
  "place P p ranks choice s =
     (let rank = ranks ! choice; index = pr_order P ! p
      in s\<lparr>se_rows := (se_rows s)[rank := se_rows s ! rank + pr_sizes P ! index],
           se_costs := (se_costs s)[rank := se_costs s ! rank + pr_costs P ! index],
           se_placed := AList.update index rank (se_placed s),
           se_stack := \<lparr>fr_pos = p, fr_ranks = ranks, fr_choice = choice, fr_rows = se_rows s ! rank, fr_cost = se_costs s ! rank\<rparr> # se_stack s,
           se_pos := p + 1\<rparr>)"

definition unplace :: "problem \<Rightarrow> frame \<Rightarrow> frame list \<Rightarrow> search \<Rightarrow> search" where
  "unplace P f rest s =
     (let rank = fr_ranks f ! fr_choice f
      in s\<lparr>se_rows := (se_rows s)[rank := fr_rows f], se_costs := (se_costs s)[rank := fr_cost f],
           se_placed := AList.delete (pr_order P ! fr_pos f) (se_placed s), se_stack := rest\<rparr>)"

text \<open>The inner loop: undo frames until one has another choice.\<close>

fun backtrack :: "problem \<Rightarrow> int \<Rightarrow> frame list \<Rightarrow> search \<Rightarrow> outcome + search" where
  "backtrack P budget [] s = Inl Exhausted"
| "backtrack P budget (f # rest) s =
     (let s1 = unplace P f rest s
      in if length (fr_ranks f) \<le> fr_choice f + 1 then backtrack P budget rest s1
         else if budget \<le> se_nodes s1 then Inl (Exceeded (se_nodes s1))
         else Inr ((place P (fr_pos f) (fr_ranks f) (fr_choice f + 1) s1)\<lparr>se_nodes := se_nodes s1 + 1\<rparr>))"

lemma backtrack_nodes: "backtrack P budget fs s = Inr s' \<Longrightarrow> se_nodes s < se_nodes s'"
  by (induction P budget fs s rule: backtrack.induct) (auto simp: Let_def unplace_def split: if_splits)

function pack_loop :: "problem \<Rightarrow> int \<Rightarrow> search \<Rightarrow> outcome" where
  "pack_loop P budget s =
     (if se_pos s = length (pr_order P) then Placed (se_placed s)
      else if budget \<le> se_nodes s then Exceeded (se_nodes s)
      else (let ranks = pack_candidates P s (pr_order P ! se_pos s); s1 = s\<lparr>se_nodes := se_nodes s + 1\<rparr>
            in if ranks \<noteq> [] then pack_loop P budget (place P (se_pos s) ranks 0 s1)
               else case backtrack P budget (se_stack s1) s1 of
                      Inl r \<Rightarrow> r
                    | Inr s2 \<Rightarrow> pack_loop P budget s2))"
  by pat_completeness auto
termination
  by (relation "measure (\<lambda>(P, budget, s). nat (budget - se_nodes s))")
    (auto simp: place_def Let_def dest: backtrack_nodes)

declare pack_loop.simps [simp del]

definition pack_groups :: "problem \<Rightarrow> nat \<Rightarrow> outcome" where
  "pack_groups P num_shards =
     pack_loop P PACK_NODE_BUDGET
       \<lparr>se_rows = replicate num_shards 0, se_costs = replicate num_shards 0, se_placed = [], se_stack = [], se_pos = 0, se_nodes = 0\<rparr>"

definition fill_bins :: "nat list list \<Rightarrow> (nat, nat) dict \<Rightarrow> nat list \<Rightarrow> nat \<Rightarrow> nat list list" where
  "fill_bins groups placed order k =
     fold (\<lambda>index bins. let r = dict_get placed index 0 in bins[r := bins ! r @ groups ! index]) order (replicate k [])"

definition assign_zorro_groups :: "nat list list \<Rightarrow> rat list \<Rightarrow> int \<Rightarrow> nat \<Rightarrow> nat list list option res" where
  "assign_zorro_groups groups costs num_shards num_rows =
     (if num_shards < 1 then Inl ValueError
      else if length groups \<noteq> length costs then Inl ValueError
      else if int num_rows \<le> num_shards then Inr None
      else (let k = nat num_shards
            in if num_rows mod k \<noteq> 0 then Inl ValueError
               else if sort (concat groups) \<noteq> [0..<num_rows] then Inl ValueError
               else (let cap = num_rows div k;
                         order = sorted_desc (\<lambda>i. (length (groups ! i), costs ! i)) [0..<length groups];
                         sizes = map (\<lambda>i. length (groups ! i)) order
                     in if list_ex (\<lambda>n. cap < n) sizes then Inl ValueError
                        else if sizes \<noteq> [] \<and> length (remdups sizes) = 1 \<and> 0 < hd sizes \<and> k * (cap div hd sizes) < length groups
                        then Inl ValueError
                        else case pack_groups \<lparr>pr_sizes = map length groups, pr_costs = costs, pr_order = order, pr_cap = cap\<rparr> k of
                               Exceeded _ \<Rightarrow> Inl ValueError
                             | Exhausted \<Rightarrow> Inl ValueError
                             | Placed placed \<Rightarrow> Inr (Some (fill_bins groups placed order k)))))"

definition assign_whole_groups :: "int list \<Rightarrow> leaf option \<Rightarrow> int \<Rightarrow> nat list list option res" where
  "assign_whole_groups costs ids num_shards =
     (case id_groups ids (length costs) of
        None \<Rightarrow> Inr None
      | Some groups \<Rightarrow>
          (case assign_zorro_groups groups (map (\<lambda>g. of_int (\<Sum>row\<leftarrow>g. costs ! row)) groups) num_shards (length costs) of
             Inl e \<Rightarrow> if e = ValueError then Inr None else Inl e
           | Inr r \<Rightarrow> Inr r))"

section \<open>Prompt groups and their costs\<close>

definition split_groups_to_max_length :: "nat list list \<Rightarrow> int \<Rightarrow> int \<Rightarrow> int \<Rightarrow> int option \<Rightarrow> nat list list res" where
  "split_groups_to_max_length groups prompt_len response_length max_token_len max_group_length =
     (case max_group_length of
        None \<Rightarrow> Inr groups
      | Some t \<Rightarrow>
          if groups = [] \<or> t \<le> 0 then Inr groups
          else if max_token_len < prompt_len + response_length * t then Inl ValueError
          else if int (Max (length ` set groups)) \<le> t then Inr groups
          else Inr (concat (map (\<lambda>g. if t < int (length g) then split_group (nat t) g else [g]) groups)))"

definition prompt_groups :: "leaf option \<Rightarrow> int \<Rightarrow> int \<Rightarrow> int option \<Rightarrow> leaf option \<Rightarrow> nat list list res" where
  "prompt_groups input_ids response_length max_token_len max_group_length ids =
     (case tensor_of_ndim 2 input_ids of
        None \<Rightarrow> Inl ValueError
      | Some t \<Rightarrow>
          (let batch_size = t_shape t ! 0; seq_len = int (t_shape t ! 1)
           in if response_length < 0 \<or> seq_len < response_length then Inl ValueError
              else (let prompt_len = seq_len - response_length;
                        groups = (case id_groups ids batch_size of
                                    Some gs \<Rightarrow> gs
                                  | None \<Rightarrow> dict_values (group_prompts (map (take (nat prompt_len)) (t_rows t))))
                    in split_groups_to_max_length groups prompt_len response_length max_token_len max_group_length)))"

definition linear_dedup_costs :: "leaf option \<Rightarrow> nat list list \<Rightarrow> int \<Rightarrow> rat list res" where
  "linear_dedup_costs am groups prompt_len =
     (case tensor_of_ndim 2 am of
        None \<Rightarrow> Inl ValueError
      | Some m \<Rightarrow>
          if prompt_len < 0 \<or> int (t_shape m ! 1) < prompt_len then Inl ValueError
          else if \<not> list_all (\<lambda>g. g \<noteq> [] \<and> list_all (\<lambda>r. r < t_shape m ! 0) g) groups then Inl IndexError
          else Inr (map (\<lambda>g. sum_list (take (nat prompt_len) (t_row m (hd g))) +
                             (\<Sum>r\<leftarrow>g. sum_list (drop (nat prompt_len) (t_row m r)))) groups))"

definition assign_prompt_groups :: "int \<Rightarrow> balance_meta \<Rightarrow> leaf option \<Rightarrow> leaf option \<Rightarrow> leaf option \<Rightarrow> nat list list option res" where
  "assign_prompt_groups num_shards meta input_ids am ids =
     (case (bm_max_response_len meta, bm_max_token_len_per_gpu meta,
            case bm_zorro_train_max_rollouts meta of None \<Rightarrow> bm_rollout_n meta | Some n \<Rightarrow> Some n) of
        (Some response_length, Some max_token_len, Some max_group) \<Rightarrow>
          (case (tensor_of_ndim 2 input_ids, am) of
             (Some t, Some (TensorLeaf _)) \<Rightarrow>
               (case prompt_groups input_ids response_length max_token_len (Some max_group) ids of
                  Inl e \<Rightarrow> Inl e
                | Inr groups \<Rightarrow>
                    (case linear_dedup_costs am groups (int (t_shape t ! 1) - response_length) of
                       Inl e \<Rightarrow> Inl e
                     | Inr costs \<Rightarrow> assign_zorro_groups groups costs num_shards (t_shape t ! 0)))
           | _ \<Rightarrow> Inl ValueError)
      | _ \<Rightarrow> Inl ValueError)"

section \<open>The entry point\<close>

definition assign_balanced_batch ::
  "int \<Rightarrow> balance_meta \<Rightarrow> leaf option \<Rightarrow> leaf option \<Rightarrow> int list option \<Rightarrow> leaf option \<Rightarrow> nat list list option res" where
  "assign_balanced_batch num_shards meta input_ids am lengths ids =
     (if balance_disabled meta then Inr None
      else (let group_ids = (case ids of None \<Rightarrow> bm_prompt_group_ids meta | Some l \<Rightarrow> Some l)
            in if bm_zorro_train_enable meta then assign_prompt_groups num_shards meta input_ids am group_ids
               else (case (case lengths of None \<Rightarrow> mask_lengths am | Some ls \<Rightarrow> Some ls) of
                       None \<Rightarrow> Inr None
                     | Some measured \<Rightarrow>
                         if int (length measured) < num_shards then Inr None
                         else (let costs = map (\<lambda>l. l * l) measured
                               in case group_ids of
                                    None \<Rightarrow> (case assign_row_lpt costs num_shards of Inl e \<Rightarrow> Inl e | Inr bins \<Rightarrow> Inr (Some bins))
                                  | Some _ \<Rightarrow> assign_whole_groups costs group_ids num_shards))))"

section \<open>Rows by length: the bins fill up exactly\<close>

lemma sum_rank_cap: "0 < k \<Longrightarrow> (\<Sum>r<k. rank_cap n k r) = n"
proof -
  assume k: "0 < k"
  have "(\<Sum>r<k. if r < n mod k then 1 else 0 :: nat) = card ({..<k} \<inter> {r. r < n mod k})" by (simp add: sum.If_cases)
  also have "{..<k} \<inter> {r. r < n mod k} = {..<n mod k}"
  proof -
    have "n mod k < k" using k by simp
    then show ?thesis by auto
  qed
  finally show ?thesis by (simp add: rank_cap_def sum.distrib)
qed

lemma length_concat_sum: "length (concat (map f xs)) = (\<Sum>r<length xs. length (f (xs ! r)))"
  by (simp add: length_concat o_def sum_list_sum_nth atLeast0LessThan)

lemma lpt_step_spec:
  assumes "length bins = k" and "\<forall>r<k. length (fst (bins ! r)) \<le> cap r" and "length (concat (map fst bins)) < (\<Sum>r<k. cap r)"
  shows "\<exists>bins'. lpt_step cap costs idx bins = Inr bins' \<and> length bins' = k \<and> (\<forall>r<k. length (fst (bins' ! r)) \<le> cap r) \<and>
    mset (concat (map fst bins')) = add_mset idx (mset (concat (map fst bins)))"
proof -
  let ?cs = "filter (\<lambda>rank. length (fst (bins ! rank)) < cap rank) [0..<length bins]"
  have "?cs \<noteq> []"
  proof
    assume "?cs = []"
    then have "cap r \<le> length (fst (bins ! r))" if "r < k" for r using that assms(1) by (auto simp: filter_empty_conv not_less)
    then have "(\<Sum>r<k. cap r) \<le> (\<Sum>r<k. length (fst (bins ! r)))" by (intro sum_mono) auto
    with assms(1,3) length_concat_sum [of fst bins] show False by simp
  qed
  then obtain c cs where cs: "?cs = c # cs" by (cases ?cs) auto
  define rank where "rank = first_min (\<lambda>rank. (snd (bins ! rank), rank)) c cs"
  have "rank \<in> set ?cs" unfolding cs rank_def using first_min_in by force
  then have r: "rank < k" "length (fst (bins ! rank)) < cap rank" using assms(1) by auto
  define bins' where "bins' = bins[rank := (fst (bins ! rank) @ [idx], snd (bins ! rank) + costs ! idx)]"
  have "lpt_step cap costs idx bins = Inr bins'" by (simp add: lpt_step_def cs rank_def bins'_def Let_def)
  moreover have "map fst bins' = (map fst bins)[rank := map fst bins ! rank @ [idx]]"
    using r(1) assms(1) by (simp add: bins'_def map_update)
  then have "mset (concat (map fst bins')) = add_mset idx (mset (concat (map fst bins)))"
    using mset_concat_extend [of rank "map fst bins" "[idx]"] r(1) assms(1) by simp
  moreover have "\<forall>r<k. length (fst (bins' ! r)) \<le> cap r" using assms(1,2) r by (auto simp: bins'_def nth_list_update)
  ultimately show ?thesis using assms(1) by (intro exI [of _ bins']) (auto simp: bins'_def)
qed

lemma lpt_loop_spec:
  assumes "length bins = k" and "\<forall>r<k. length (fst (bins ! r)) \<le> cap r"
    and "length (concat (map fst bins)) + length idxs \<le> (\<Sum>r<k. cap r)"
  shows "\<exists>bins'. lpt_loop cap costs idxs bins = Inr bins' \<and> length bins' = k \<and> (\<forall>r<k. length (fst (bins' ! r)) \<le> cap r) \<and>
    mset (concat (map fst bins')) = mset (concat (map fst bins)) + mset idxs"
  using assms
proof (induction idxs arbitrary: bins)
  case (Cons i idxs)
  from lpt_step_spec [OF Cons.prems(1,2), of costs i] Cons.prems(3) obtain b where
    b: "lpt_step cap costs i bins = Inr b" "length b = k" "\<forall>r<k. length (fst (b ! r)) \<le> cap r"
    "mset (concat (map fst b)) = add_mset i (mset (concat (map fst bins)))" by auto
  have "length (concat (map fst b)) = Suc (length (concat (map fst bins)))" using arg_cong [OF b(4), of size] by simp
  with Cons.IH [OF b(2,3)] Cons.prems(3) b(1,4) show ?case by fastforce
qed simp

lemma exact_sizes:
  assumes "length bins = k" and "\<And>r. r < k \<Longrightarrow> length (bins ! r) \<le> cap r" and "length (concat bins) = (\<Sum>r<k. cap r)" and "r < k"
  shows "length (bins ! r) = cap r"
proof -
  have "(\<Sum>r<k. length (bins ! r)) = (\<Sum>r<k. cap r)" using assms(1,3) length_concat_sum [of "\<lambda>x. x" bins] by simp
  then show ?thesis by (rule sum_mono_inv) (use assms(2,4) in auto)
qed

lemma assign_row_lpt_spec:
  assumes "1 \<le> num_shards" and "num_shards \<le> int (length costs)"
  shows "\<exists>bins. assign_row_lpt costs num_shards = Inr bins \<and> length bins = nat num_shards \<and>
    mset (concat bins) = mset [0..<length costs] \<and> (\<forall>b\<in>set bins. sorted b) \<and>
    (\<forall>r<nat num_shards. length (bins ! r) = rank_cap (length costs) (nat num_shards) r)"
proof -
  let ?n = "length costs" and ?k = "nat num_shards"
  let ?idxs = "sort_key (\<lambda>i. - (costs ! i)) [0..<?n]"
  have k: "0 < ?k" using assms(1) by simp
  have "concat (map fst (replicate ?k ([] :: nat list, 0 :: int))) = []" by (induction "nat num_shards") auto
  with lpt_loop_spec [of "replicate ?k ([], 0)" ?k "rank_cap ?n ?k" ?idxs costs] sum_rank_cap [OF k, of ?n]
  obtain b where b: "lpt_loop (rank_cap ?n ?k) costs ?idxs (replicate ?k ([], 0)) = Inr b" "length b = ?k"
    "\<forall>r<?k. length (fst (b ! r)) \<le> rank_cap ?n ?k r" "mset (concat (map fst b)) = mset [0..<?n]" by auto
  let ?bins = "map (\<lambda>x. sort (fst x)) b"
  have run: "assign_row_lpt costs num_shards = Inr ?bins" using assms b(1) by (simp add: assign_row_lpt_def Let_def)
  have mset: "mset (concat ?bins) = mset [0..<?n]" using b(4) by (simp add: mset_concat o_def)
  have "length (?bins ! r) = rank_cap ?n ?k r" if "r < ?k" for r
  proof (rule exact_sizes [OF _ _ _ that])
    show "length (concat ?bins) = (\<Sum>r<?k. rank_cap ?n ?k r)" using arg_cong [OF mset, of size] sum_rank_cap [OF k] by simp
  qed (use b(2,3) in auto)
  with run mset b(2) show ?thesis by (intro exI [of _ ?bins]) auto
qed

section \<open>Whole groups: the invariant of the search\<close>

definition choices :: "frame list \<Rightarrow> nat list" where
  "choices fs = map (\<lambda>f. fr_ranks f ! fr_choice f) (rev fs)"

text \<open>The rows on a rank after the first groups of the order went to the ranks \<open>rs\<close>.\<close>

definition load :: "problem \<Rightarrow> nat list \<Rightarrow> nat \<Rightarrow> nat" where
  "load P rs r = sum_list (map (\<lambda>(x, q). if q = r then pr_sizes P ! x else 0) (zip (pr_order P) rs))"

definition fits :: "problem \<Rightarrow> nat \<Rightarrow> nat list \<Rightarrow> nat list \<Rightarrow> bool" where
  "fits P k rs ranks \<longleftrightarrow> (\<forall>r\<in>set ranks. r < k \<and> load P rs r + pr_sizes P ! (pr_order P ! length rs) \<le> pr_cap P)"

fun stack_ok :: "problem \<Rightarrow> nat \<Rightarrow> frame list \<Rightarrow> bool" where
  "stack_ok P k [] \<longleftrightarrow> True"
| "stack_ok P k (f # fs) \<longleftrightarrow> stack_ok P k fs \<and> fr_pos f = length fs \<and> length fs < length (pr_order P) \<and>
     fr_choice f < length (fr_ranks f) \<and> fits P k (choices fs) (fr_ranks f) \<and>
     fr_rows f = load P (choices fs) (fr_ranks f ! fr_choice f)"

definition search_ok :: "problem \<Rightarrow> nat \<Rightarrow> search \<Rightarrow> bool" where
  "search_ok P k s \<longleftrightarrow> stack_ok P k (se_stack s) \<and> length (se_rows s) = k \<and>
     (\<forall>r<k. se_rows s ! r = load P (choices (se_stack s)) r) \<and>
     se_placed s = zip (pr_order P) (choices (se_stack s))"

lemma length_choices [simp]: "length (choices fs) = length fs"
  by (simp add: choices_def)

lemma choices_Cons [simp]: "choices (f # fs) = choices fs @ [fr_ranks f ! fr_choice f]"
  by (simp add: choices_def)

lemma zip_snoc: "length rs < length xs \<Longrightarrow> zip xs (rs @ [q]) = zip xs rs @ [(xs ! length rs, q)]"
proof (induction rs arbitrary: xs)
  case Nil
  then show ?case by (cases xs) auto
next
  case (Cons a rs)
  then show ?case by (cases xs) auto
qed

lemma load_snoc: "length rs < length (pr_order P) \<Longrightarrow>
  load P (rs @ [q]) r = load P rs r + (if q = r then pr_sizes P ! (pr_order P ! length rs) else 0)"
  by (simp add: load_def zip_snoc)

lemma stack_load: "stack_ok P k fs \<Longrightarrow> r < k \<Longrightarrow> load P (choices fs) r \<le> pr_cap P"
proof (induction fs)
  case Nil
  then show ?case by (simp add: load_def choices_def)
next
  case (Cons f fs)
  have "fr_ranks f ! fr_choice f \<in> set (fr_ranks f)" using Cons.prems(1) by simp
  with Cons show ?case by (auto simp: load_snoc fits_def)
qed

lemma stack_ranks: "stack_ok P k fs \<Longrightarrow> q \<in> set (choices fs) \<Longrightarrow> q < k"
  by (induction fs) (auto simp: choices_def fits_def)

lemma place_ok:
  assumes "search_ok P k s" and "p = length (se_stack s)" and "p < length (pr_order P)" and "distinct (pr_order P)"
    and "c < length ranks" and "fits P k (choices (se_stack s)) ranks"
  shows "search_ok P k (place P p ranks c s)" and "se_pos (place P p ranks c s) = length (se_stack (place P p ranks c s))"
proof -
  let ?cs = "choices (se_stack s)" and ?x = "pr_order P ! p"
  have mem: "ranks ! c \<in> set ranks" using assms(5) by simp
  then have r: "ranks ! c < k" using assms(6) by (auto simp: fits_def)
  have "?x \<notin> set (keys (se_placed s))"
  proof -
    have "set (keys (se_placed s)) \<subseteq> set (take p (pr_order P))"
      using assms(1-3) by (simp add: search_ok_def map_fst_zip_take min_absorb2 del: set_map)
    moreover have "?x \<notin> set (take p (pr_order P))" using assms(3,4)
      by (auto simp: in_set_conv_nth nth_eq_iff_index_eq)
    ultimately show ?thesis by blast
  qed
  then have placed: "AList.update ?x (ranks ! c) (se_placed s) = zip (pr_order P) (?cs @ [ranks ! c])"
    using assms(1-3) by (simp add: update_new zip_snoc search_ok_def)
  show "search_ok P k (place P p ranks c s)"
    using assms(1-3,5,6) r placed by (auto simp: search_ok_def place_def Let_def load_snoc nth_list_update)
  show "se_pos (place P p ranks c s) = length (se_stack (place P p ranks c s))" using assms(2) by (simp add: place_def Let_def)
qed

lemma unplace_ok:
  assumes "search_ok P k s" and "se_stack s = f # rest" and "distinct (pr_order P)"
  shows "search_ok P k (unplace P f rest s)"
proof -
  let ?cs = "choices rest" and ?q = "fr_ranks f ! fr_choice f" and ?x = "pr_order P ! length rest"
  have st: "stack_ok P k rest" "fr_pos f = length rest" "length rest < length (pr_order P)" "fr_rows f = load P ?cs ?q"
    using assms(1,2) by (auto simp: search_ok_def)
  have q: "?q < k" by (rule stack_ranks [of P k "f # rest"]) (use assms(1,2) in \<open>auto simp: search_ok_def choices_def\<close>)
  have "?x \<notin> set (keys (zip (pr_order P) ?cs))"
    using st(3) assms(3) by (auto simp: map_fst_zip_take in_set_conv_nth nth_eq_iff_index_eq simp del: set_map)
  then have "AList.delete ?x (se_placed s) = zip (pr_order P) ?cs"
    using assms(1,2) st(3) by (simp add: search_ok_def zip_snoc AList.delete_eq filter_id_conv) force
  then show ?thesis using assms(1,2) st q
    by (auto simp: search_ok_def unplace_def Let_def nth_list_update load_snoc)
qed

lemma backtrack_ok:
  assumes "search_ok P k s" and "se_stack s = fs" and "distinct (pr_order P)" and "backtrack P b fs s = Inr s'"
  shows "search_ok P k s' \<and> se_pos s' = length (se_stack s')"
  using assms
proof (induction P b fs s rule: backtrack.induct)
  case (2 P budget f rest s)
  let ?s1 = "unplace P f rest s"
  have s1: "search_ok P k ?s1" "se_stack ?s1 = rest"
    using unplace_ok [OF 2(2,3,4)] by (simp_all add: unplace_def Let_def)
  have st: "stack_ok P k (f # rest)" using 2(2,3) by (simp add: search_ok_def)
  show ?case
  proof (cases "length (fr_ranks f) \<le> fr_choice f + 1")
    case True
    with 2 s1 show ?thesis by (simp add: Let_def)
  next
    case False
    then have s': "s' = (place P (fr_pos f) (fr_ranks f) (fr_choice f + 1) ?s1)\<lparr>se_nodes := se_nodes ?s1 + 1\<rparr>"
      using 2(5) by (simp add: Let_def split: if_splits)
    have "search_ok P k (place P (fr_pos f) (fr_ranks f) (fr_choice f + 1) ?s1)"
      "se_pos (place P (fr_pos f) (fr_ranks f) (fr_choice f + 1) ?s1) = length (se_stack (place P (fr_pos f) (fr_ranks f) (fr_choice f + 1) ?s1))"
      by (rule place_ok [OF s1(1)]; use st s1(2) False 2(4) in simp)+
    then show ?thesis by (simp add: s' search_ok_def)
  qed
qed simp

lemma untried_sub: "set (untried P s x tried ranks) \<subseteq> {r \<in> set ranks. se_rows s ! r + pr_sizes P ! x \<le> pr_cap P}"
  by (induction ranks arbitrary: tried) (auto simp: Let_def not_less)

text \<open>A placement the search returns puts every group of the order on a rank, within the capacity.\<close>

lemma pack_loop_sound:
  assumes "search_ok P k s" and "se_pos s = length (se_stack s)" and "distinct (pr_order P)" and "pack_loop P b s = Placed d"
  shows "\<exists>rs. d = zip (pr_order P) rs \<and> length rs = length (pr_order P) \<and> (\<forall>q\<in>set rs. q < k) \<and> (\<forall>r<k. load P rs r \<le> pr_cap P)"
  using assms
proof (induction P b s rule: pack_loop.induct)
  case (1 P b s)
  let ?x = "pr_order P ! se_pos s"
  let ?ranks = "pack_candidates P s ?x" and ?s1 = "s\<lparr>se_nodes := se_nodes s + 1\<rparr>"
  have s1: "search_ok P k ?s1" "se_stack ?s1 = se_stack s" using 1(3) by (simp_all add: search_ok_def)
  have st: "stack_ok P k (se_stack s)" using 1(3) by (simp add: search_ok_def)
  have le: "length (se_stack s) \<le> length (pr_order P)" using st by (cases "se_stack s") auto
  consider "se_pos s = length (pr_order P)" | "se_pos s \<noteq> length (pr_order P)" "?ranks \<noteq> []" "\<not> b \<le> se_nodes s"
    | s2 where "se_pos s \<noteq> length (pr_order P)" "?ranks = []" "\<not> b \<le> se_nodes s" "backtrack P b (se_stack ?s1) ?s1 = Inr s2" "pack_loop P b s2 = Placed d"
    | (bad) "se_pos s \<noteq> length (pr_order P)" "?ranks = []" "\<not> b \<le> se_nodes s" "backtrack P b (se_stack ?s1) ?s1 = Inl (Placed d)"
    using 1(6) by (subst (asm) pack_loop.simps) (auto simp: Let_def split: if_splits sum.splits)
  then show ?case
  proof cases
    case 1
    then have "d = se_placed s" using \<open>pack_loop P b s = Placed d\<close> by (subst (asm) pack_loop.simps) simp
    with 1 \<open>search_ok P k s\<close> \<open>se_pos s = length (se_stack s)\<close> stack_load [OF st] stack_ranks [OF st] show ?thesis
      by (intro exI [of _ "choices (se_stack s)"]) (auto simp: search_ok_def)
  next
    case 2
    have lt: "se_pos s < length (pr_order P)" using 2(1) le \<open>se_pos s = length (se_stack s)\<close> by simp
    have "r < k \<and> load P (choices (se_stack s)) r + pr_sizes P ! ?x \<le> pr_cap P" if "r \<in> set ?ranks" for r
      using that untried_sub [of P s ?x] \<open>search_ok P k s\<close> by (force simp: pack_candidates_def search_ok_def)
    then have f: "fits P k (choices (se_stack s)) ?ranks" using \<open>se_pos s = length (se_stack s)\<close> by (simp add: fits_def)
    have p: "search_ok P k (place P (se_pos s) ?ranks 0 ?s1)"
      "se_pos (place P (se_pos s) ?ranks 0 ?s1) = length (se_stack (place P (se_pos s) ?ranks 0 ?s1))"
      by (rule place_ok [OF s1(1)]; use f lt 2(2) \<open>se_pos s = length (se_stack s)\<close> \<open>distinct (pr_order P)\<close> in simp)+
    have "pack_loop P b (place P (se_pos s) ?ranks 0 ?s1) = Placed d"
      using \<open>pack_loop P b s = Placed d\<close> 2 by (subst (asm) pack_loop.simps) (simp add: Let_def)
    from "1.IH"(1) [OF 2(1,3) refl refl 2(2) p \<open>distinct (pr_order P)\<close> this] show ?thesis .
  next
    case (3 s2)
    have ok: "search_ok P k s2 \<and> se_pos s2 = length (se_stack s2)"
      by (rule backtrack_ok [OF s1(1) refl \<open>distinct (pr_order P)\<close> 3(4)])
    show ?thesis by (rule "1.IH"(2) [OF 3(1,3) refl refl _ 3(4)]) (use 3 ok \<open>distinct (pr_order P)\<close> in auto)
  next
    case bad
    have "backtrack P b fs s \<noteq> Inl (Placed d)" for fs s by (induction P b fs s rule: backtrack.induct) (auto simp: Let_def)
    with bad show ?thesis by blast
  qed
qed

section \<open>Whole groups: the bins\<close>

definition fill :: "nat list list \<Rightarrow> nat \<Rightarrow> (nat \<times> nat) list \<Rightarrow> nat list list" where
  "fill groups k ps = fold (\<lambda>(x, r) bins. bins[r := bins ! r @ groups ! x]) ps (replicate k [])"

lemma fill_spec:
  assumes "\<forall>(x, r)\<in>set ps. r < k"
  shows "length (fill groups k ps) = k \<and> mset (concat (fill groups k ps)) = mset (concat (map (\<lambda>(x, r). groups ! x) ps)) \<and>
    (\<forall>r<k. length (fill groups k ps ! r) = sum_list (map (\<lambda>(x, q). if q = r then length (groups ! x) else 0) ps)) \<and>
    (\<forall>(x, r)\<in>set ps. \<exists>u v. fill groups k ps ! r = u @ groups ! x @ v)"
  using assms
proof (induction ps rule: rev_induct)
  case Nil
  have "concat (replicate k []) = ([] :: nat list)" by (induction k) auto
  then show ?case by (simp add: fill_def)
next
  case (snoc p ps)
  obtain y q where p: "p = (y, q)" by fastforce
  let ?B = "fill groups k ps"
  have q: "q < k" and IH: "length ?B = k" "mset (concat ?B) = mset (concat (map (\<lambda>(x, r). groups ! x) ps))"
    "\<And>r. r < k \<Longrightarrow> length (?B ! r) = sum_list (map (\<lambda>(x, q). if q = r then length (groups ! x) else 0) ps)"
    "\<And>x r. (x, r) \<in> set ps \<Longrightarrow> \<exists>u v. ?B ! r = u @ groups ! x @ v"
    using snoc p by auto
  have step: "fill groups k (ps @ [p]) = ?B[q := ?B ! q @ groups ! y]" by (simp add: fill_def p)
  have "\<exists>u v. ?B[q := ?B ! q @ groups ! y] ! r = u @ groups ! x @ v" if "(x, r) \<in> set ps" for x r
  proof (cases "r = q")
    case True
    from IH(4) [OF that] obtain u v where "?B ! q = u @ groups ! x @ v" using True by blast
    then show ?thesis using True q IH(1) by (intro exI [of _ u] exI [of _ "v @ groups ! y"]) simp
  next
    case False
    with IH(4) [OF that] show ?thesis by simp
  qed
  moreover have "\<exists>u v. ?B[q := ?B ! q @ groups ! y] ! q = u @ groups ! y @ v"
    using q IH(1) by (intro exI [of _ "?B ! q"] exI [of _ "[]"]) simp
  ultimately have "\<forall>(x, r)\<in>set (ps @ [p]). \<exists>u v. ?B[q := ?B ! q @ groups ! y] ! r = u @ groups ! x @ v" unfolding p by auto
  moreover have "mset (concat (?B[q := ?B ! q @ groups ! y])) = mset (concat (map (\<lambda>(x, r). groups ! x) (ps @ [p])))"
    using mset_concat_extend [of q ?B "groups ! y"] q IH(1,2) by (simp add: p)
  moreover have "\<forall>r<k. length (?B[q := ?B ! q @ groups ! y] ! r) =
      sum_list (map (\<lambda>(x, q). if q = r then length (groups ! x) else 0) (ps @ [p]))"
    using q IH(1,3) by (auto simp: p nth_list_update)
  ultimately show ?case using IH(1) unfolding step by simp
qed

lemma fill_bins_eq:
  assumes "distinct order" and "length rs = length order"
  shows "fill_bins groups (zip order rs) order k = fill groups k (zip order rs)"
proof -
  let ?ps = "zip order rs"
  have "dict_get ?ps x 0 = r" if "(x, r) \<in> set ?ps" for x r
    using that assms by (intro dict_get_Some map_of_is_SomeI) (simp_all add: map_fst_zip)
  then have "fold (\<lambda>p bins. let r = dict_get ?ps (fst p) 0 in bins[r := bins ! r @ groups ! fst p]) ?ps bs =
      fold (\<lambda>(x, r) bins. bins[r := bins ! r @ groups ! x]) ?ps bs" for bs
    by (intro fold_cong) (auto simp: Let_def)
  then have "fill_bins groups ?ps (map fst ?ps) k = fill groups k ?ps"
    unfolding fill_bins_def fill_def fold_map comp_def .
  moreover have "map fst ?ps = order" using assms(2) by (simp add: map_fst_zip)
  ultimately show ?thesis by simp
qed

lemma assign_zorro_spec:
  assumes "assign_zorro_groups groups costs num_shards n = Inr (Some bins)"
  shows "1 \<le> num_shards \<and> length bins = nat num_shards \<and> n mod nat num_shards = 0 \<and> mset (concat bins) = mset [0..<n] \<and>
    (\<forall>b\<in>set bins. length b = n div nat num_shards) \<and> (\<forall>g\<in>set groups. \<exists>b\<in>set bins. \<exists>u v. b = u @ g @ v)"
proof -
  define k where "k = nat num_shards"
  define order where "order = sorted_desc (\<lambda>i. (length (groups ! i), costs ! i)) [0..<length groups]"
  define P where "P = \<lparr>pr_sizes = map length groups, pr_costs = costs, pr_order = order, pr_cap = n div k\<rparr>"
  from assms obtain d where g: "1 \<le> num_shards" "n mod k = 0" "sort (concat groups) = [0..<n]" "pack_groups P k = Placed d"
    and bins: "bins = fill_bins groups d order k"
    by (auto simp: assign_zorro_groups_def Let_def k_def order_def P_def split: if_splits outcome.splits)
  have k: "0 < k" using g(1) by (simp add: k_def)
  have om: "mset order = mset [0..<length groups]" by (simp add: order_def)
  then have od: "distinct order" "set order = {0..<length groups}" using mset_eq_imp_distinct_iff [OF om] mset_eq_setD [OF om] by auto
  have init: "search_ok P k \<lparr>se_rows = replicate k 0, se_costs = replicate k 0, se_placed = [], se_stack = [], se_pos = 0, se_nodes = 0\<rparr>"
    by (simp add: search_ok_def choices_def load_def)
  have P: "pr_order P = order" "pr_cap P = n div k" "pr_sizes P = map length groups" by (simp_all add: P_def)
  obtain rs where rs: "d = zip order rs" "length rs = length order" "\<forall>q\<in>set rs. q < k" "\<forall>r<k. load P rs r \<le> n div k"
    using pack_loop_sound [OF init _ _ g(4) [unfolded pack_groups_def]] od(1) unfolding P by auto
  have B: "bins = fill groups k (zip order rs)" using fill_bins_eq [OF od(1) rs(2)] by (simp add: bins rs(1))
  have rk: "\<forall>(x, r)\<in>set (zip order rs). r < k" using rs(3) by (auto dest: set_zip_rightD)
  note fs = fill_spec [OF rk, of groups, folded B]
  have "map (\<lambda>(x, r). groups ! x) (zip order rs) = map (\<lambda>x. groups ! x) order"
  proof -
    have "map (\<lambda>(x, r). groups ! x) ps = map (\<lambda>x. groups ! x) (map fst ps)" for ps :: "(nat \<times> nat) list"
      by (simp add: split_def)
    then show ?thesis using rs(2) by (simp add: map_fst_zip del: map_map)
  qed
  then have "mset (concat bins) = mset (concat (map (\<lambda>x. groups ! x) order))" using fs by simp
  also have "\<dots> = mset (concat (map (\<lambda>x. groups ! x) [0..<length groups]))"
    by (rule mset_concat_cong) (use om in \<open>simp only: mset_map\<close>)
  also have "\<dots> = mset [0..<n]" using g(3) by (metis map_nth mset_sort)
  finally have part: "mset (concat bins) = mset [0..<n]" .
  have le: "length (bins ! r) \<le> n div k" if "r < k" for r
  proof -
    have idx: "x < length groups" if "(x, q) \<in> set (zip order rs)" for x q
    proof -
      from that have "x \<in> set order" by (rule set_zip_leftD)
      then show ?thesis using od(2) by simp
    qed
    have "length (bins ! r) = sum_list (map (\<lambda>(x, q). if q = r then length (groups ! x) else 0) (zip order rs))" using fs that by auto
    also have "\<dots> = load P rs r" unfolding load_def P
      by (intro arg_cong [of _ _ sum_list] map_cong) (auto simp: idx)
    finally have "length (bins ! r) = load P rs r" .
    with rs(4) that show ?thesis by simp
  qed
  have len: "length bins = k" using fs by simp
  have "length (bins ! r) = n div k" if "r < k" for r
  proof (rule exact_sizes [OF len le _ that])
    have "length (concat bins) = n" using arg_cong [OF part, of size] by simp
    also have "\<dots> = (\<Sum>r<k. n div k)" using g(2) k by (simp add: dvd_mult_div_cancel mod_eq_0_iff_dvd)
    finally show "length (concat bins) = (\<Sum>r<k. n div k)" .
  qed
  then have sizes: "\<forall>b\<in>set bins. length b = n div k" using len by (auto simp: in_set_conv_nth)
  have "\<exists>b\<in>set bins. \<exists>u v. b = u @ g @ v" if "g \<in> set groups" for g
  proof -
    from that obtain x where x: "x < length groups" "g = groups ! x" by (auto simp: in_set_conv_nth)
    then have "x \<in> set order" using od(2) by simp
    then obtain r where r: "(x, r) \<in> set (zip order rs)" using rs(2) by (metis in_set_impl_in_set_zip1)
    then have "r < k" using rk by auto
    then have "bins ! r \<in> set bins" using len by simp
    moreover have "\<exists>u v. bins ! r = u @ g @ v" using fs r x(2) by auto
    ultimately show ?thesis by blast
  qed
  with g(1,2) len part sizes show ?thesis by (simp add: k_def)
qed

lemma assign_zorro_error: "assign_zorro_groups groups costs num_shards n = Inl e \<Longrightarrow> e = ValueError"
  by (auto simp: assign_zorro_groups_def Let_def split: if_splits outcome.splits)

text \<open>The number of rows the entry point works on: the rows of the ids for ZoRRo, otherwise one per measured length.\<close>

definition batch_rows :: "balance_meta \<Rightarrow> leaf option \<Rightarrow> leaf option \<Rightarrow> int list option \<Rightarrow> nat" where
  "batch_rows meta input_ids am lengths =
     (if bm_zorro_train_enable meta then (case tensor_of_ndim 2 input_ids of None \<Rightarrow> 0 | Some t \<Rightarrow> t_shape t ! 0)
      else (case (case lengths of None \<Rightarrow> mask_lengths am | Some ls \<Rightarrow> Some ls) of None \<Rightarrow> 0 | Some ls \<Rightarrow> length ls))"

lemma rank_cap_exact: "n mod k = 0 \<Longrightarrow> rank_cap n k r = n div k"
  by (simp add: rank_cap_def)

lemma zorro_bins_split:
  assumes "assign_zorro_groups groups costs num_shards n = Inr (Some bins)"
  shows "1 \<le> num_shards \<and> length bins = nat num_shards \<and> mset (concat bins) = mset [0..<n] \<and>
    (\<forall>r<nat num_shards. length (bins ! r) = rank_cap n (nat num_shards) r)"
  using assign_zorro_spec [OF assms] by (auto simp: rank_cap_exact)

lemma assign_prompt_groups_zorro:
  assumes "assign_prompt_groups num_shards meta input_ids am ids = Inr (Some bins)"
  shows "\<exists>t groups costs. tensor_of_ndim 2 input_ids = Some t \<and> assign_zorro_groups groups costs num_shards (t_shape t ! 0) = Inr (Some bins)"
  using assms unfolding assign_prompt_groups_def by (auto split: option.splits leaf.splits sum.splits)

lemma assign_whole_groups_zorro:
  assumes "assign_whole_groups costs ids num_shards = Inr (Some bins)"
  shows "\<exists>groups. id_groups ids (length costs) = Some groups \<and>
    assign_zorro_groups groups (map (\<lambda>g. of_int (\<Sum>row\<leftarrow>g. costs ! row)) groups) num_shards (length costs) = Inr (Some bins)"
  using assms unfolding assign_whole_groups_def by (auto split: option.splits sum.splits if_splits)

lemma balanced_bins:
  assumes "assign_balanced_batch num_shards meta input_ids am lengths ids = Inr (Some bins)"
    and "1 \<le> num_shards"
  shows "length bins = nat num_shards \<and>
    mset (concat bins) = mset [0..<batch_rows meta input_ids am lengths] \<and>
    (\<forall>r<nat num_shards. length (bins ! r) = rank_cap (batch_rows meta input_ids am lengths) (nat num_shards) r)"
proof (cases "bm_zorro_train_enable meta")
  case True
  with assms(1) obtain ids' where "assign_prompt_groups num_shards meta input_ids am ids' = Inr (Some bins)"
    by (auto simp: assign_balanced_batch_def Let_def split: if_splits)
  from assign_prompt_groups_zorro [OF this] obtain t groups costs
    where "tensor_of_ndim 2 input_ids = Some t" and z: "assign_zorro_groups groups costs num_shards (t_shape t ! 0) = Inr (Some bins)" by blast
  then show ?thesis using zorro_bins_split [OF z] True by (simp add: batch_rows_def)
next
  case False
  with assms(1) obtain measured group_ids
    where m: "(case lengths of None \<Rightarrow> mask_lengths am | Some ls \<Rightarrow> Some ls) = Some measured" "num_shards \<le> int (length measured)"
      and c: "(case group_ids of
                 None \<Rightarrow> (case assign_row_lpt (map (\<lambda>l. l * l) measured) num_shards of Inl e \<Rightarrow> Inl e | Inr bins \<Rightarrow> Inr (Some bins))
               | Some _ \<Rightarrow> assign_whole_groups (map (\<lambda>l. l * l) measured) group_ids num_shards) = Inr (Some bins)"
    unfolding assign_balanced_batch_def Let_def by (simp split: if_splits option.splits)
  have rows: "batch_rows meta input_ids am lengths = length measured" using False m(1) by (simp add: batch_rows_def)
  show ?thesis
  proof (cases group_ids)
    case None
    then show ?thesis using c assign_row_lpt_spec [of num_shards "map (\<lambda>l. l * l) measured"] assms(2) m(2) by (auto simp: rows)
  next
    case (Some l)
    then have "assign_whole_groups (map (\<lambda>l. l * l) measured) group_ids num_shards = Inr (Some bins)" using c by simp
    from assign_whole_groups_zorro [OF this] show ?thesis using zorro_bins_split by (fastforce simp: rows)
  qed
qed

text \<open>
  C21. Whatever way a balanced assignment was computed (rows by length, whole prompt groups by id, or
  ZoRRo's prompt groups), the bins partition the rows of the batch, there is one bin per shard, and bin
  \<open>r\<close> has exactly the number of rows \<open>torch.tensor_split\<close> gives shard \<open>r\<close>, so that reordering the
  rows by the concatenated bins and cutting the batch evenly afterwards reproduces the bins.
\<close>

theorem balanced_assignment_matches_split:
  assumes "assign_balanced_batch num_shards meta input_ids am lengths ids = Inr (Some bins)"
    and "1 \<le> num_shards"
  shows "length bins = nat num_shards \<and>
    mset (concat bins) = mset [0..<batch_rows meta input_ids am lengths] \<and>
    (\<forall>r<nat num_shards.
      length (bins ! r) = batch_rows meta input_ids am lengths div nat num_shards +
        (if r < batch_rows meta input_ids am lengths mod nat num_shards then 1 else 0))"
  using balanced_bins [OF assms] by (simp add: rank_cap_def)

theorem balanced_assignment_matches_split_witness:
  "\<exists>bins. assign_balanced_batch 2 \<lparr>bm_balance_batch = None, bm_zorro_train_enable = False, bm_prompt_group_ids = None,
      bm_max_response_len = None, bm_max_token_len_per_gpu = None, bm_zorro_train_max_rollouts = None, bm_rollout_n = None\<rparr>
      None None (Some [5, 1, 3]) None = Inr (Some bins) \<and> length bins = 2 \<and> mset (concat bins) = {#0, 1, 2#}"
proof -
  let ?meta = "\<lparr>bm_balance_batch = None, bm_zorro_train_enable = False, bm_prompt_group_ids = None,
      bm_max_response_len = None, bm_max_token_len_per_gpu = None, bm_zorro_train_max_rollouts = None, bm_rollout_n = None\<rparr>"
  have a: "assign_balanced_batch 2 ?meta None None (Some [5, 1, 3]) None = Inr (Some [[0, 1], [2]])" by code_simp
  have "mset [0..<batch_rows ?meta None None (Some [5, 1, 3])] = {#0, 1, 2#}" by code_simp
  then show ?thesis using balanced_assignment_matches_split [OF a] a by simp
qed

text \<open>
  When prompt ids are given (outside ZoRRo) and an assignment is returned, all rows of a prompt are
  on the same rank: no prompt group is split. When the groups cannot be packed, or the search runs out of
  its node budget, the entry point falls back to arrival order and never raises for it.
\<close>

theorem prompt_rows_share_rank:
  assumes "\<not> bm_zorro_train_enable meta" and "t_ndim t = 1" and "1 \<le> num_shards"
  shows "(\<exists>r. assign_balanced_batch num_shards meta input_ids am lengths (Some (TensorLeaf t)) = Inr r) \<and>
    (\<forall>bins. assign_balanced_batch num_shards meta input_ids am lengths (Some (TensorLeaf t)) = Inr (Some bins) \<longrightarrow>
      (\<forall>i<length (t_data t). \<exists>b\<in>set bins. \<forall>j<length (t_data t). to_long (t_data t ! j) = to_long (t_data t ! i) \<longrightarrow> j \<in> set b))"
proof -
  let ?ids = "Some (TensorLeaf t)" and ?ps = "map to_long (t_data t)"
  have err: "assign_whole_groups costs ids num_shards \<noteq> Inl e" for costs ids e
    by (auto simp: assign_whole_groups_def dest: assign_zorro_error split: option.splits sum.splits if_splits)
  have "assign_balanced_batch num_shards meta input_ids am lengths ?ids \<noteq> Inl e" for e
    using assms(1) err by (auto simp: assign_balanced_batch_def Let_def split: option.splits)
  then have "\<exists>r. assign_balanced_batch num_shards meta input_ids am lengths ?ids = Inr r"
    by (metis sum.exhaust)
  moreover have "\<exists>b\<in>set bins. \<forall>j<length (t_data t). to_long (t_data t ! j) = to_long (t_data t ! i) \<longrightarrow> j \<in> set b"
    if a: "assign_balanced_batch num_shards meta input_ids am lengths ?ids = Inr (Some bins)" and i: "i < length (t_data t)" for bins i
  proof -
    from a assms(1) obtain costs where "assign_whole_groups costs ?ids num_shards = Inr (Some bins)"
      by (auto simp: assign_balanced_batch_def Let_def split: option.splits if_splits)
    from assign_whole_groups_zorro [OF this] obtain groups gc n
      where g: "id_groups ?ids (length costs) = Some groups" and z: "assign_zorro_groups groups gc num_shards n = Inr (Some bins)" by blast
    from g assms(2) have G: "groups = dict_values (group_prompts ?ps)" by (auto simp: id_groups_def split: if_splits)
    let ?g = "filter (\<lambda>j. ?ps ! j = ?ps ! i) [0..<length ?ps]"
    have "?ps ! i \<in> set ?ps" using i by (intro nth_mem) simp
    then have "map_of (group_prompts ?ps) (?ps ! i) = Some ?g" using group_prompts_spec [of ?ps] by blast
    then have "?g \<in> set groups" unfolding G dict_values_def by (force dest: map_of_SomeD)
    then obtain b u v where "b \<in> set bins" "b = u @ ?g @ v" using assign_zorro_spec [OF z] by blast
    then show ?thesis using i by (intro bexI [of _ b]) auto
  qed
  ultimately show ?thesis by blast
qed

theorem prompt_rows_share_rank_witness:
  "assign_balanced_batch 2 \<lparr>bm_balance_batch = Some True, bm_zorro_train_enable = False, bm_prompt_group_ids = None,
      bm_max_response_len = None, bm_max_token_len_per_gpu = None, bm_zorro_train_max_rollouts = None, bm_rollout_n = None\<rparr>
      None None (Some [5, 1, 3, 2]) (Some (TensorLeaf \<lparr>t_shape = [4], t_data = [7, 8, 7, 8]\<rparr>)) = Inr (Some [[0, 2], [1, 3]]) \<and>
   (\<exists>b\<in>set [[0, 2], [1, 3 :: nat]]. 1 \<in> set b \<and> 3 \<in> set b)"
  (is "assign_balanced_batch 2 ?meta None None ?ls (Some (TensorLeaf ?t)) = Inr (Some ?bins) \<and> ?share")
proof -
  have a: "assign_balanced_batch 2 ?meta None None ?ls (Some (TensorLeaf ?t)) = Inr (Some ?bins)" by code_simp
  have "\<forall>i<length (t_data ?t). \<exists>b\<in>set ?bins. \<forall>j<length (t_data ?t). to_long (t_data ?t ! j) = to_long (t_data ?t ! i) \<longrightarrow> j \<in> set b"
    using prompt_rows_share_rank [of ?meta ?t 2 None None ?ls] a by (simp del: list.set)
  from this [THEN spec, of 1] obtain b where b: "b \<in> set ?bins"
    and share: "\<forall>j<length (t_data ?t). to_long (t_data ?t ! j) = to_long (t_data ?t ! 1) \<longrightarrow> j \<in> set b"
    by (force simp del: list.set)
  have "1 \<in> set b \<and> 3 \<in> set b" using share [THEN spec, of 1] share [THEN spec, of 3] by simp
  with b have ?share by blast
  with a show ?thesis by blast
qed

end
