(* ===== verification/Batch_Split.thy ===== *)
theory Batch_Split
  imports Balanced_Batch Packing_Groups
begin

text \<open>
  The data plane between the training server and its data-parallel workers
  (\<open>common/utils/batch.py\<close>): unpacking a request into the sharded and the replicated bag, cutting it
  into one shard per worker in balanced order, merging what the workers return and restoring the
  order of arrival. A Python value is a datatype; a tensor carries its element type, which only
  comparison and concatenation look at. Dicts keep insertion order.
\<close>

section \<open>Values\<close>

datatype dtype = DBool | DUint8 | DInt8 | DInt16 | DInt32 | DInt64 | DFloat16 | DBfloat16 | DFloat32 | DFloat64

text \<open>The documented type promotion of torch, which concatenation applies.\<close>

fun dtype_rank :: "dtype \<Rightarrow> nat" where
  "dtype_rank DBool = 0" | "dtype_rank DUint8 = 1" | "dtype_rank DInt8 = 2" | "dtype_rank DInt16 = 3"
| "dtype_rank DInt32 = 4" | "dtype_rank DInt64 = 5" | "dtype_rank DFloat16 = 6" | "dtype_rank DBfloat16 = 7"
| "dtype_rank DFloat32 = 8" | "dtype_rank DFloat64 = 9"

definition promote_types :: "dtype \<Rightarrow> dtype \<Rightarrow> dtype" where
  "promote_types a b =
     (if (a, b) = (DUint8, DInt8) \<or> (a, b) = (DInt8, DUint8) then DInt16
      else if (a, b) = (DFloat16, DBfloat16) \<or> (a, b) = (DBfloat16, DFloat16) then DFloat32
      else if dtype_rank a \<le> dtype_rank b then b else a)"

datatype pyval =
    VNone
  | VBool bool
  | VInt int
  | VFloat rat
  | VStr string
  | VTensor dtype tensor
  | VList "pyval list"
  | VTuple "pyval list"
  | VDict "(string \<times> pyval) list"

type_synonym bag = "(string, pyval) dict"

fun truthy :: "pyval \<Rightarrow> bool res" where
  "truthy VNone = Inr False"
| "truthy (VBool b) = Inr b"
| "truthy (VInt i) = Inr (i \<noteq> 0)"
| "truthy (VFloat x) = Inr (x \<noteq> 0)"
| "truthy (VStr s) = Inr (s \<noteq> [])"
| "truthy (VTensor _ t) = (if length (t_data t) = 1 then Inr (hd (t_data t) \<noteq> 0) else Inl RuntimeError)"
| "truthy (VList xs) = Inr (xs \<noteq> [])"
| "truthy (VTuple xs) = Inr (xs \<noteq> [])"
| "truthy (VDict d) = Inr (d \<noteq> [])"

text \<open>\<open>dict(value)\<close>. A non-empty sequence is refused: the bags of a request are never sequences of pairs.\<close>

fun as_dict :: "pyval \<Rightarrow> bag res" where
  "as_dict (VDict d) = Inr d"
| "as_dict (VList []) = Inr []"
| "as_dict (VTuple []) = Inr []"
| "as_dict (VStr []) = Inr []"
| "as_dict _ = Inl TypeError"

text \<open>Numbers compare by value: booleans are the integers 0 and 1.\<close>

fun num_value :: "pyval \<Rightarrow> rat option" where
  "num_value (VBool b) = Some (if b then 1 else 0)"
| "num_value (VInt i) = Some (of_int i)"
| "num_value (VFloat x) = Some x"
| "num_value _ = None"

definition scalar_eq :: "pyval \<Rightarrow> pyval \<Rightarrow> bool" where
  "scalar_eq a b = (case (num_value a, num_value b) of (Some x, Some y) \<Rightarrow> x = y | _ \<Rightarrow> a = b)"

fun is_tensor :: "pyval \<Rightarrow> bool" where
  "is_tensor (VTensor _ _) = True"
| "is_tensor _ = False"

fun is_container :: "pyval \<Rightarrow> bool" where
  "is_container (VDict _) = True"
| "is_container (VList _) = True"
| "is_container (VTuple _) = True"
| "is_container _ = False"

section \<open>Degrees\<close>

fun resolve_parallelism_degree :: "pyval \<Rightarrow> int res" where
  "resolve_parallelism_degree VNone = Inr 1"
| "resolve_parallelism_degree (VInt i) = (if i < 1 then Inl ValueError else Inr i)"
| "resolve_parallelism_degree _ = Inl ValueError"

definition dp_sp_world_size :: "int \<Rightarrow> pyval \<Rightarrow> int res" where
  "dp_sp_world_size world_size sp_size =
     (case resolve_parallelism_degree sp_size of
        Inl e \<Rightarrow> Inl e
      | Inr sp \<Rightarrow> if world_size < 1 then Inl ValueError
                  else if world_size mod sp \<noteq> 0 then Inl ValueError
                  else Inr (world_size div sp))"

section \<open>The two bags of a request\<close>

definition BATCH_DIM_CONTEXT_KEYS :: "string list" where
  "BATCH_DIM_CONTEXT_KEYS =
     [''advantages'', ''old_log_probs'', ''old_log_probs_shifted'', ''loss_mask'', ''response_mask'', ''ref_log_prob'',
      ''ref_log_probs'', ''ref_log_probs_shifted'', ''prox_logp'', ''prox_logp_shifted'', ''labels'', ''sft_mask'',
      ''echo_observation_mask'', ''echo_observation_token_counts'', ''nll_mask'', ''teacher_log_probs_shifted'',
      ''sampler_kl_weights'', ''versions'', ''prompt_group_ids'', ''prompt_token_counts'', ''sequence_loss_weights'',
      ''rollout_is_weights'', ''teacher_token_ids'', ''teacher_log_probs'', ''teacher_tail_log_prob'', ''kd_mask'',
      ''logprob_weights_shifted'']"

definition META_FWD_SCALAR_KEYS :: "string list" where
  "META_FWD_SCALAR_KEYS = [''temperature'', ''calculate_entropy'']"

definition bag_values_equal :: "pyval \<Rightarrow> pyval \<Rightarrow> bool" where
  "bag_values_equal left right =
     (case (left, right) of
        (VTensor d t, VTensor d' t') \<Rightarrow> t_shape t = t_shape t' \<and> d = d' \<and> t_data t = t_data t'
      | _ \<Rightarrow> if is_tensor left \<or> is_tensor right then False
             else if is_container left \<or> is_container right then False
             else scalar_eq left right)"

definition assert_disjoint_bags :: "bag \<Rightarrow> bag \<Rightarrow> unit res" where
  "assert_disjoint_bags b meta = (if list_ex (\<lambda>k. k \<in> set (keys meta)) (keys b) then Inl ValueError else Inr ())"

definition reject_meta_fwd_scalars_on_batch :: "bag \<Rightarrow> unit res" where
  "reject_meta_fwd_scalars_on_batch b =
     (if list_ex (\<lambda>k. k \<in> set (keys b)) META_FWD_SCALAR_KEYS then Inl ValueError else Inr ())"

text \<open>The loop over the keys that are on both bags.\<close>

fun drop_duplicates :: "string list \<Rightarrow> bag \<Rightarrow> bag \<Rightarrow> (bag \<times> bag) res" where
  "drop_duplicates [] b meta = Inr (b, meta)"
| "drop_duplicates (k # ks) b meta =
     (if \<not> bag_values_equal (dict_get b k VNone) (dict_get meta k VNone) then Inl ValueError
      else if k \<in> set META_FWD_SCALAR_KEYS then drop_duplicates ks (AList.delete k b) meta
      else drop_duplicates ks b (AList.delete k meta))"

definition resolve_cortex_overlap :: "bag \<Rightarrow> bag \<Rightarrow> (bag \<times> bag) res" where
  "resolve_cortex_overlap b meta = drop_duplicates (filter (\<lambda>k. k \<in> set (keys meta)) (keys b)) b meta"

definition promote_key :: "string \<Rightarrow> bag \<times> bag \<Rightarrow> bag \<times> bag" where
  "promote_key k bm =
     (let b = fst bm; meta = snd bm
      in case map_of meta k of
           Some (VTensor d t) \<Rightarrow>
             (if k \<in> set (keys b) then b else b @ [(k, VTensor d t)], AList.delete k meta)
         | _ \<Rightarrow> (b, meta))"

definition promote_batch_dim_to_batch :: "bag \<Rightarrow> bag \<Rightarrow> bag \<times> bag" where
  "promote_batch_dim_to_batch b meta = fold promote_key BATCH_DIM_CONTEXT_KEYS (b, meta)"

text \<open>Microbatches take their labels from a list of labels on the metadata, by position.\<close>

fun promote_labels :: "nat \<Rightarrow> bag \<Rightarrow> pyval list \<Rightarrow> bag list res" where
  "promote_labels i meta [] = Inr []"
| "promote_labels i meta (mb # mbs) =
     (case mb of
        VDict d \<Rightarrow>
          (case (if ''labels'' \<in> set (keys d) then Inr d
                 else case map_of meta ''labels'' of
                        None \<Rightarrow> Inr d
                      | Some (VList ls) \<Rightarrow> if i < length ls then Inr (d @ [(''labels'', ls ! i)]) else Inl ValueError
                      | Some _ \<Rightarrow> Inl ValueError) of
             Inl e \<Rightarrow> Inl e
           | Inr d' \<Rightarrow> (case promote_labels (Suc i) meta mbs of Inl e \<Rightarrow> Inl e | Inr ds \<Rightarrow> Inr (d' # ds)))
      | _ \<Rightarrow> Inl TypeError)"

definition promote_list_batch :: "pyval list \<Rightarrow> bag \<Rightarrow> (bag list \<times> bag) res" where
  "promote_list_batch mbs meta =
     (case promote_labels 0 meta mbs of
        Inl e \<Rightarrow> Inl e
      | Inr ds \<Rightarrow>
          if ''labels'' \<in> set (keys meta)
          then (if list_all (\<lambda>d. ''labels'' \<in> set (keys d)) ds then Inr (ds, AList.delete ''labels'' meta) else Inl ValueError)
          else Inr (ds, meta))"

text \<open>What the request carries after unpacking: one dict of rows, a list of microbatches, or something else.\<close>

datatype payload = Rows bag | Micros "bag list" | Opaque pyval

fun check_microbatches :: "bag \<Rightarrow> pyval list \<Rightarrow> unit res" where
  "check_microbatches meta [] = Inr ()"
| "check_microbatches meta (VDict d # mbs) =
     (case reject_meta_fwd_scalars_on_batch d of
        Inl e \<Rightarrow> Inl e
      | Inr _ \<Rightarrow> (case assert_disjoint_bags d meta of Inl e \<Rightarrow> Inl e | Inr _ \<Rightarrow> check_microbatches meta mbs))"
| "check_microbatches meta (_ # mbs) = check_microbatches meta mbs"

text \<open>\<open>batch.get(key) or {}\<close>\<close>

definition get_or_empty :: "bag \<Rightarrow> string \<Rightarrow> pyval res" where
  "get_or_empty req k =
     (case map_of req k of
        None \<Rightarrow> Inr (VDict [])
      | Some v \<Rightarrow> (case truthy v of Inl e \<Rightarrow> Inl e | Inr b \<Rightarrow> Inr (if b then v else VDict [])))"

definition get_bag :: "bag \<Rightarrow> string \<Rightarrow> bag res" where
  "get_bag req k = (case get_or_empty req k of Inl e \<Rightarrow> Inl e | Inr v \<Rightarrow> as_dict v)"

definition getitem :: "bag \<Rightarrow> string \<Rightarrow> pyval res" where
  "getitem req k = (case map_of req k of None \<Rightarrow> Inl KeyError | Some v \<Rightarrow> Inr v)"

definition unpack_cortex :: "bag \<Rightarrow> (payload \<times> bag \<times> pyval) res" where
  "unpack_cortex req =
     (case get_bag req ''kwargs'' of Inl e \<Rightarrow> Inl e
      | Inr b0 \<Rightarrow>
     (case get_bag req ''context'' of Inl e \<Rightarrow> Inl e
      | Inr m0 \<Rightarrow>
     (case get_or_empty req ''processing'' of Inl e \<Rightarrow> Inl e
      | Inr p \<Rightarrow>
     (case resolve_cortex_overlap b0 m0 of Inl e \<Rightarrow> Inl e
      | Inr (b1, m1) \<Rightarrow>
     (case reject_meta_fwd_scalars_on_batch b1 of Inl e \<Rightarrow> Inl e
      | Inr _ \<Rightarrow> (case promote_batch_dim_to_batch b1 m1 of (b2, m2) \<Rightarrow> Inr (Rows b2, m2, p)))))))"

definition unpack_native :: "bag \<Rightarrow> (payload \<times> bag \<times> pyval) res" where
  "unpack_native req =
     (case getitem req ''batch'' of Inl e \<Rightarrow> Inl e
      | Inr v \<Rightarrow>
     (case getitem req ''meta'' of Inl e \<Rightarrow> Inl e
      | Inr mv \<Rightarrow>
     (case as_dict mv of Inl e \<Rightarrow> Inl e
      | Inr m \<Rightarrow>
     (case getitem req ''processing'' of Inl e \<Rightarrow> Inl e
      | Inr p \<Rightarrow>
     (case v of
        VDict b \<Rightarrow>
          (case reject_meta_fwd_scalars_on_batch b of Inl e \<Rightarrow> Inl e
           | Inr _ \<Rightarrow> (case assert_disjoint_bags b m of Inl e \<Rightarrow> Inl e
                       | Inr _ \<Rightarrow> (case promote_batch_dim_to_batch b m of (b2, m2) \<Rightarrow> Inr (Rows b2, m2, p))))
      | VList mbs \<Rightarrow>
          (case check_microbatches m mbs of Inl e \<Rightarrow> Inl e
           | Inr _ \<Rightarrow> (case promote_list_batch mbs m of Inl e \<Rightarrow> Inl e | Inr (ds, m2) \<Rightarrow> Inr (Micros ds, m2, p)))
      | _ \<Rightarrow> Inr (Opaque v, m, p))))))"

definition unpack_batch :: "bag \<Rightarrow> (payload \<times> bag \<times> pyval) res" where
  "unpack_batch req = (if ''kwargs'' \<in> set (keys req) then unpack_cortex req else unpack_native req)"

section \<open>Cutting rows\<close>

text \<open>The cuts of \<open>torch.tensor_split\<close>: the first \<open>n % k\<close> chunks are one longer.\<close>

fun bounds_from :: "nat \<Rightarrow> nat \<Rightarrow> nat \<Rightarrow> nat list \<Rightarrow> (nat \<times> nat) list" where
  "bounds_from base extra start [] = []"
| "bounds_from base extra start (index # rest) =
     (let size = base + (if index < extra then 1 else 0)
      in (start, start + size) # bounds_from base extra (start + size) rest)"

definition row_bounds :: "nat \<Rightarrow> nat \<Rightarrow> (nat \<times> nat) list" where
  "row_bounds n_rows num_chunks = bounds_from (n_rows div num_chunks) (n_rows mod num_chunks) 0 [0..<num_chunks]"

definition tensor_split :: "tensor \<Rightarrow> nat \<Rightarrow> tensor list" where
  "tensor_split t k = map (\<lambda>(a, b). index_select t [a..<b]) (row_bounds (hd (t_shape t)) k)"

definition split_value :: "pyval \<Rightarrow> nat \<Rightarrow> pyval list res" where
  "split_value v k =
     (case v of
        VTensor d t \<Rightarrow>
          if t_ndim t = 0 then Inr (replicate k v)
          else if hd (t_shape t) < k then Inl ValueError
          else if k = 0 then Inl RuntimeError
          else Inr (map (VTensor d) (tensor_split t k))
      | VList xs \<Rightarrow>
          if length xs < k then Inl ValueError
          else if k = 0 then Inl ZeroDivisionError
          else Inr (map (\<lambda>(a, b). VList (take (b - a) (drop a xs))) (row_bounds (length xs) k))
      | _ \<Rightarrow> Inr (replicate k v))"

fun split_values :: "bag \<Rightarrow> nat \<Rightarrow> (string \<times> pyval list) list res" where
  "split_values [] k = Inr []"
| "split_values ((key, v) # rest) k =
     (case split_value v k of Inl e \<Rightarrow> Inl e
      | Inr vs \<Rightarrow> (case split_values rest k of Inl e \<Rightarrow> Inl e | Inr r \<Rightarrow> Inr ((key, vs) # r)))"

definition split_dict :: "bag \<Rightarrow> nat \<Rightarrow> bag list res" where
  "split_dict d k =
     (if d = [] then Inr (replicate k [])
      else (case split_values d k of Inl e \<Rightarrow> Inl e
            | Inr svs \<Rightarrow> Inr (map (\<lambda>i. map (\<lambda>(key, vs). (key, vs ! i)) svs) [0..<k])))"

definition flatten_assignment :: "nat list list option \<Rightarrow> nat list option" where
  "flatten_assignment a = map_option concat a"

text \<open>Values with one entry per row follow the order; every other value stays. The order is a permutation of the rows.\<close>

definition reorder_value :: "nat list \<Rightarrow> pyval \<Rightarrow> pyval" where
  "reorder_value indices v =
     (case v of
        VTensor d t \<Rightarrow> if 1 \<le> t_ndim t \<and> hd (t_shape t) = length indices then VTensor d (index_select t indices) else v
      | VList xs \<Rightarrow> if length xs = length indices then VList (map (\<lambda>r. xs ! r) indices) else v
      | _ \<Rightarrow> v)"

definition reorder_rows :: "bag \<Rightarrow> nat list \<Rightarrow> bag" where
  "reorder_rows b indices = map (\<lambda>(k, v). (k, reorder_value indices v)) b"

fun position_row :: "int \<Rightarrow> int list \<Rightarrow> int list" where
  "position_row acc [] = []"
| "position_row acc (m # ms) = max 0 (acc + m - 1) * m # position_row (acc + m) ms"

definition reconstruct_position_ids :: "bag \<Rightarrow> bag res" where
  "reconstruct_position_ids b =
     (case map_of b ''attention_mask'' of
        Some (VTensor d m) \<Rightarrow>
          if t_ndim m \<noteq> 2 then Inl ValueError
          else Inr (AList.update ''position_ids''
                 (VTensor DInt64 \<lparr>t_shape = t_shape m,
                    t_data = concat (map (\<lambda>r. map of_int (position_row 0 (map to_long r))) (t_rows m))\<rparr>) b)
      | _ \<Rightarrow> Inl ValueError)"

section \<open>One shard per worker\<close>

record shard =
  sh_batch :: payload
  sh_meta :: bag
  sh_processing :: pyval

fun leaf_of :: "pyval option \<Rightarrow> leaf option" where
  "leaf_of None = None"
| "leaf_of (Some VNone) = None"
| "leaf_of (Some (VTensor d t)) = Some (TensorLeaf t)"
| "leaf_of (Some _) = Some (OtherLeaf 0)"

text \<open>The entries of the metadata that balancing reads; those it converts to integers are numbers.\<close>

fun meta_int :: "pyval option \<Rightarrow> int option" where
  "meta_int (Some (VInt i)) = Some i"
| "meta_int (Some (VBool b)) = Some (if b then 1 else 0)"
| "meta_int (Some (VFloat x)) = Some (to_long x)"
| "meta_int _ = None"

definition balance_meta_of :: "bag \<Rightarrow> balance_meta" where
  "balance_meta_of m =
     \<lparr>bm_balance_batch = (case map_of m ''balance_batch'' of Some (VBool b) \<Rightarrow> Some b | _ \<Rightarrow> None),
      bm_zorro_train_enable = (map_of m ''zorro_train_enable'' = Some (VBool True)),
      bm_prompt_group_ids = leaf_of (map_of m ''prompt_group_ids''),
      bm_max_response_len = meta_int (map_of m ''max_response_len''),
      bm_max_token_len_per_gpu = meta_int (map_of m ''max_token_len_per_gpu''),
      bm_zorro_train_max_rollouts = meta_int (map_of m ''zorro_train_max_rollouts''),
      bm_rollout_n = meta_int (map_of m ''rollout_n'')\<rparr>"

definition drops_positions :: "bag \<Rightarrow> bool res" where
  "drops_positions m = (case map_of m ''drop_position_ids'' of None \<Rightarrow> Inr False | Some v \<Rightarrow> truthy v)"

definition with_positions :: "bag \<Rightarrow> bag \<Rightarrow> bag res" where
  "with_positions m b =
     (case drops_positions m of
        Inl e \<Rightarrow> Inl e
      | Inr dropped \<Rightarrow> if dropped \<and> ''position_ids'' \<notin> set (keys b) then reconstruct_position_ids b else Inr b)"

fun split_micros :: "bag \<Rightarrow> nat \<Rightarrow> bag list \<Rightarrow> bag list list res" where
  "split_micros m k [] = Inr (replicate k [])"
| "split_micros m k (mb # mbs) =
     (case with_positions m mb of Inl e \<Rightarrow> Inl e
      | Inr mb' \<Rightarrow>
     (case split_dict mb' k of Inl e \<Rightarrow> Inl e
      | Inr parts \<Rightarrow>
     (case split_micros m k mbs of Inl e \<Rightarrow> Inl e
      | Inr rest \<Rightarrow> Inr (map2 (\<lambda>p r. p # r) parts rest))))"

definition split_rows :: "bag \<Rightarrow> nat \<Rightarrow> bag \<Rightarrow> (bag list \<times> nat list option) res" where
  "split_rows m k b =
     (case with_positions m b of Inl e \<Rightarrow> Inl e
      | Inr b1 \<Rightarrow>
     (case assign_balanced_batch (int k) (balance_meta_of m) (leaf_of (map_of b1 ''input_ids''))
             (leaf_of (map_of b1 ''attention_mask'')) None (leaf_of (map_of b1 ''prompt_group_ids'')) of Inl e \<Rightarrow> Inl e
      | Inr assignment \<Rightarrow>
          (let order = flatten_assignment assignment;
               b2 = (case order of None \<Rightarrow> b1 | Some idx \<Rightarrow> reorder_rows b1 idx)
           in case split_dict b2 k of Inl e \<Rightarrow> Inl e | Inr parts \<Rightarrow> Inr (parts, order))))"

definition opaque_error :: "bag \<Rightarrow> pyval \<Rightarrow> exn" where
  "opaque_error m v =
     (case drops_positions m of
        Inl e \<Rightarrow> e
      | Inr dropped \<Rightarrow> (case v of VStr _ \<Rightarrow> AttributeError | VTuple _ \<Rightarrow> AttributeError
                         | VTensor _ _ \<Rightarrow> if dropped then RuntimeError else AttributeError
                         | _ \<Rightarrow> if dropped then TypeError else AttributeError))"

definition split_batch :: "bag \<Rightarrow> nat \<Rightarrow> pyval \<Rightarrow> (shard list \<times> nat list option) res" where
  "split_batch req num_workers sp_size =
     (case unpack_batch req of Inl e \<Rightarrow> Inl e
      | Inr (data, m0, p) \<Rightarrow>
     (case resolve_parallelism_degree sp_size of Inl e \<Rightarrow> Inl e
      | Inr sp \<Rightarrow>
          if 1 < sp then Inl ValueError
          else (case dp_sp_world_size (int num_workers) (VInt sp) of Inl e \<Rightarrow> Inl e
                | Inr _ \<Rightarrow>
                    (let m = AList.update ''dp_size'' (VInt (int num_workers)) m0;
                         mk = (\<lambda>b. \<lparr>sh_batch = b, sh_meta = m, sh_processing = p\<rparr>)
                     in case data of
                          Micros mbs \<Rightarrow>
                            if mbs = [] then Inl ValueError
                            else (case split_micros m num_workers mbs of Inl e \<Rightarrow> Inl e
                                  | Inr parts \<Rightarrow> Inr (map (\<lambda>x. mk (Micros x)) parts, None))
                        | Rows b \<Rightarrow>
                            (case split_rows m num_workers b of Inl e \<Rightarrow> Inl e
                             | Inr (parts, order) \<Rightarrow> Inr (map (\<lambda>x. mk (Rows x)) parts, order))
                        | Opaque v \<Rightarrow> Inl (opaque_error m v)))))"

section \<open>Merging what the workers return\<close>

definition cat_tensors :: "(dtype \<times> tensor) list \<Rightarrow> (dtype \<times> tensor) res" where
  "cat_tensors ts =
     (case ts of
        [] \<Rightarrow> Inl RuntimeError
      | t0 # rest \<Rightarrow>
          if list_ex (\<lambda>t. t_ndim (snd t) = 0) ts then Inl RuntimeError
          else (let d = fold (\<lambda>t d. promote_types d (fst t)) rest (fst t0);
                    parts = filter (\<lambda>t. t_shape t \<noteq> [0]) (map snd ts)
                in case parts of
                     [] \<Rightarrow> Inr (d, \<lparr>t_shape = [0], t_data = []\<rparr>)
                   | q # _ \<Rightarrow>
                       if list_all (\<lambda>t. tl (t_shape t) = tl (t_shape q)) parts
                       then Inr (d, \<lparr>t_shape = (\<Sum>t\<leftarrow>parts. hd (t_shape t)) # tl (t_shape q), t_data = concat (map t_data parts)\<rparr>)
                       else Inl RuntimeError))"

definition combine_item :: "string \<times> pyval \<Rightarrow> (string, pyval list) dict \<Rightarrow> (string, pyval list) dict" where
  "combine_item kv c =
     AList.update (fst kv) (dict_get c (fst kv) [] @ (case snd kv of VList xs \<Rightarrow> xs | v \<Rightarrow> [v])) c"

fun tensor_parts :: "pyval list \<Rightarrow> (dtype \<times> tensor) list option" where
  "tensor_parts [] = Some []"
| "tensor_parts (VTensor d t # vs) = map_option (\<lambda>r. (d, t) # r) (tensor_parts vs)"
| "tensor_parts (_ # vs) = None"

definition merged_value :: "pyval list \<Rightarrow> pyval res" where
  "merged_value vs =
     (case tensor_parts vs of
        None \<Rightarrow> Inr (VList vs)
      | Some ts \<Rightarrow> (case cat_tensors ts of Inl e \<Rightarrow> Inl e | Inr (d, t) \<Rightarrow> Inr (VTensor d t)))"

fun merge_values :: "(string, pyval list) dict \<Rightarrow> bag res" where
  "merge_values [] = Inr []"
| "merge_values ((k, vs) # rest) =
     (case merged_value vs of Inl e \<Rightarrow> Inl e
      | Inr v \<Rightarrow> (case merge_values rest of Inl e \<Rightarrow> Inl e | Inr r \<Rightarrow> Inr ((k, v) # r)))"

definition merge_dict_shards :: "bag list \<Rightarrow> bag res" where
  "merge_dict_shards shards =
     (case shards of
        [] \<Rightarrow> Inr []
      | [d] \<Rightarrow> Inr d
      | _ \<Rightarrow> merge_values (fold (\<lambda>d c. fold combine_item d c) shards []))"

section \<open>Restoring the order of arrival\<close>

definition batch_reverse_idx :: "nat list \<Rightarrow> nat list res" where
  "batch_reverse_idx idx =
     (if list_all (\<lambda>i. i < length idx) idx then Inr (restore_order_of (length idx) idx) else Inl IndexError)"

fun take_rows :: "nat list \<Rightarrow> pyval \<Rightarrow> pyval res" where
  "take_rows rev_idx (VTensor d t) =
     (if t_ndim t = 0 \<or> list_ex (\<lambda>i. hd (t_shape t) \<le> i) rev_idx then Inl IndexError
      else Inr (VTensor d (index_select t rev_idx)))"
| "take_rows rev_idx v = Inr v"

fun restore_values :: "nat list \<Rightarrow> bag \<Rightarrow> bag res" where
  "restore_values rev_idx [] = Inr []"
| "restore_values rev_idx ((k, v) # rest) =
     (case take_rows rev_idx v of Inl e \<Rightarrow> Inl e
      | Inr v' \<Rightarrow> (case restore_values rev_idx rest of Inl e \<Rightarrow> Inl e | Inr r \<Rightarrow> Inr ((k, v') # r)))"

definition restore_batch_order :: "bag \<Rightarrow> nat list option \<Rightarrow> bag res" where
  "restore_batch_order b indices =
     (case indices of
        None \<Rightarrow> Inr b
      | Some idx \<Rightarrow> (case batch_reverse_idx idx of Inl e \<Rightarrow> Inl e | Inr rev_idx \<Rightarrow> restore_values rev_idx b))"

section \<open>Lemmas on the cuts\<close>

definition cut :: "nat \<Rightarrow> nat \<Rightarrow> nat \<Rightarrow> nat" where
  "cut n k i = (\<Sum>r<i. rank_cap n k r)"

lemma cut_simps [simp]: "cut n k 0 = 0" "cut n k (Suc i) = cut n k i + rank_cap n k i"
  by (simp_all add: cut_def)

lemma cut_all: "0 < k \<Longrightarrow> cut n k k = n"
  by (simp add: cut_def sum_rank_cap)

lemma bounds_from_eq:
  "bounds_from (n div k) (n mod k) (cut n k i) [i..<i + m] = map (\<lambda>j. (cut n k j, cut n k (Suc j))) [i..<i + m]"
proof (induction m arbitrary: i)
  case (Suc m)
  have u: "[i..<i + Suc m] = i # [Suc i..<Suc i + m]" by (simp add: upt_conv_Cons)
  show ?case unfolding u using Suc.IH [of "Suc i"] by (simp add: Let_def rank_cap_def)
qed simp

lemma row_bounds_eq: "row_bounds n k = map (\<lambda>j. (cut n k j, cut n k (Suc j))) [0..<k]"
  using bounds_from_eq [of n k 0 k] by (simp add: row_bounds_def)

lemma cut_mono: "i \<le> j \<Longrightarrow> cut n k i \<le> cut n k j"
  unfolding cut_def by (intro sum_mono2) auto


lemma concat_cuts: "concat (map (\<lambda>j. map f [cut n k j..<cut n k (Suc j)]) [0..<m]) = map f [0..<cut n k m]"
proof (induction m)
  case (Suc m)
  have "[0..<cut n k (Suc m)] = [0..<cut n k m] @ [cut n k m..<cut n k (Suc m)]"
    using upt_add_eq_append [of 0 "cut n k m" "rank_cap n k m"] by simp
  with Suc show ?case by simp
qed simp

text \<open>The rows of the pieces of a tensor.\<close>

lemma tensor_split_rows:
  assumes "tensor_wf t" and "t_shape t = n # sh" and "0 < k" and "i < k"
  shows "t_rows (tensor_split t k ! i) = map (t_row t) [cut n k i..<cut n k (Suc i)]"
proof -
  have "cut n k (Suc i) \<le> n" using cut_mono [of "Suc i" k n k] assms(3,4) by (simp add: cut_all del: cut_simps)
  then have "t_rows (index_select t [cut n k i..<cut n k (Suc i)]) = map (t_row t) [cut n k i..<cut n k (Suc i)]"
    using assms by (intro index_select_rows) auto
  then show ?thesis using assms by (simp add: tensor_split_def row_bounds_eq)
qed

lemma length_tensor_split [simp]: "length (tensor_split t k) = k"
  by (simp add: tensor_split_def row_bounds_eq)

section \<open>Lemmas on splitting dicts\<close>

lemma map_of_map_snd: "map_of (map (\<lambda>(k, v). (k, f v)) d) key = map_option f (map_of d key)"
  by (induction d) auto

lemma split_values_spec:
  assumes "split_values d k = Inr svs"
  shows "(map_of d key = None \<longleftrightarrow> map_of svs key = None) \<and>
    (\<forall>v. map_of d key = Some v \<longrightarrow> (\<exists>vs. split_value v k = Inr vs \<and> map_of svs key = Some vs))"
  using assms by (induction d k arbitrary: svs rule: split_values.induct) (auto split: sum.splits)

lemma split_dict_spec:
  assumes "split_dict d k = Inr parts"
  shows "length parts = k \<and>
    (\<forall>i<k. \<forall>v. map_of d key = Some v \<longrightarrow> (\<exists>vs. split_value v k = Inr vs \<and> map_of (parts ! i) key = Some (vs ! i)))"
proof (cases "d = []")
  case False
  with assms obtain svs where s: "split_values d k = Inr svs" "parts = map (\<lambda>i. map (\<lambda>(key, vs). (key, vs ! i)) svs) [0..<k]"
    by (auto simp: split_dict_def split: sum.splits)
  have "map_of (parts ! i) key = map_option (\<lambda>vs. vs ! i) (map_of svs key)" if "i < k" for i
    using that s(2) by (simp add: map_of_map_snd)
  then show ?thesis using split_values_spec [OF s(1), of key] s(2) by auto
qed (use assms in \<open>auto simp: split_dict_def\<close>)

lemma split_dict_tensor:
  assumes "split_dict d k = Inr parts" and "map_of d key = Some (VTensor dt t)" and "t_shape t = n # sh" and "i < k"
  shows "map_of (parts ! i) key = Some (VTensor dt (tensor_split t k ! i)) \<and> 0 < k \<and> k \<le> n"
proof -
  from split_dict_spec [OF assms(1), of key] assms(2,4) obtain vs
    where vs: "split_value (VTensor dt t) k = Inr vs" "map_of (parts ! i) key = Some (vs ! i)" by blast
  then show ?thesis using assms(3,4) by (auto simp: split_value_def split: if_splits)
qed

section \<open>What a worker receives\<close>

lemma reconstruct_update: "reconstruct_position_ids b = Inr b1 \<Longrightarrow> \<exists>v. b1 = AList.update ''position_ids'' v b"
  by (simp add: reconstruct_position_ids_def split: option.splits pyval.splits if_splits) blast

lemma with_positions_cases:
  assumes "with_positions m b = Inr b1"
  shows "b1 = b \<or> ''position_ids'' \<notin> set (keys b) \<and> (\<exists>v. b1 = AList.update ''position_ids'' v b)"
proof -
  obtain dropped where "drops_positions m = Inr dropped" using assms by (cases "drops_positions m") (auto simp: with_positions_def)
  then show ?thesis using assms reconstruct_update [of b b1]
    by (cases "dropped \<and> ''position_ids'' \<notin> set (keys b)") (auto simp: with_positions_def split: if_splits)
qed

lemma with_positions_keeps:
  assumes "with_positions m b = Inr b1" and "map_of b key = Some v"
  shows "map_of b1 key = Some v"
  using with_positions_cases [OF assms(1)]
proof
  assume "''position_ids'' \<notin> set (keys b) \<and> (\<exists>v. b1 = AList.update ''position_ids'' v b)"
  then obtain v' where p: "map_of b ''position_ids'' = None" "b1 = AList.update ''position_ids'' v' b"
    by (auto simp: map_of_eq_None_iff)
  then have "key \<noteq> ''position_ids''" using assms(2) by (intro notI) simp
  with p(2) assms(2) show ?thesis by (simp add: map_of_update)
qed (use assms(2) in simp)

definition row_order :: "nat list option \<Rightarrow> nat \<Rightarrow> nat list" where
  "row_order order n = (case order of None \<Rightarrow> [0..<n] | Some idx \<Rightarrow> idx)"

lemma split_rows_tensor:
  assumes "split_rows m k b = Inr (parts, order)" and "map_of b key = Some (VTensor d t)"
    and "tensor_wf t" and "t_shape t = n # sh" and "\<forall>idx. order = Some idx \<longrightarrow> mset idx = mset [0..<n]" and "i < k"
  shows "length parts = k \<and> k \<le> n \<and> (\<exists>u. map_of (parts ! i) key = Some (VTensor d u) \<and>
    t_rows u = map (\<lambda>j. t_row t (row_order order n ! j)) [cut n k i..<cut n k (Suc i)])"
proof -
  from assms(1) obtain b1 where b1: "with_positions m b = Inr b1"
    and sp: "split_dict (case order of None \<Rightarrow> b1 | Some idx \<Rightarrow> reorder_rows b1 idx) k = Inr parts"
    by (auto simp: split_rows_def Let_def split: sum.splits)
  have k1: "map_of b1 key = Some (VTensor d t)" by (rule with_positions_keeps [OF b1 assms(2)])
  have len: "length parts = k" using split_dict_spec [OF sp] by blast
  have cutn: "cut n k (Suc i) \<le> n" if "0 < k" using cut_mono [of "Suc i" k n k] that assms(6) by (simp add: cut_all del: cut_simps)
  show ?thesis
  proof (cases order)
    case None
    then have s: "map_of (parts ! i) key = Some (VTensor d (tensor_split t k ! i)) \<and> 0 < k \<and> k \<le> n"
      using split_dict_tensor [OF sp _ assms(4,6)] k1 by simp
    have "t_rows (tensor_split t k ! i) = map (\<lambda>j. t_row t (row_order order n ! j)) [cut n k i..<cut n k (Suc i)]"
      using tensor_split_rows [OF assms(3,4) _ assms(6)] s cutn None by (auto simp: row_order_def simp del: cut_simps)
    with s len show ?thesis by blast
  next
    case (Some idx)
    let ?t = "index_select t idx"
    have perm: "mset idx = mset [0..<n]" using assms(5) Some by blast
    then have idx: "length idx = n" "\<forall>j\<in>set idx. j < n" using mset_eq_length [OF perm] mset_eq_setD [OF perm] by auto
    have "map_of (reorder_rows b1 idx) key = Some (VTensor d ?t)"
      using k1 assms(4) idx(1) by (simp add: reorder_rows_def map_of_map_snd reorder_value_def)
    moreover have sh: "t_shape ?t = n # sh" using assms(4) idx(1) by (simp add: index_select_def)
    ultimately have s: "map_of (parts ! i) key = Some (VTensor d (tensor_split ?t k ! i)) \<and> 0 < k \<and> k \<le> n"
      using split_dict_tensor [OF sp _ sh assms(6)] Some by simp
    have "t_row ?t j = t_row t (idx ! j)" if "j < n" for j
      using t_row_index_select [OF assms(3,4) idx(2)] that idx(1) by simp
    then have "t_rows (tensor_split ?t k ! i) = map (\<lambda>j. t_row t (row_order order n ! j)) [cut n k i..<cut n k (Suc i)]"
      using tensor_split_rows [OF index_select_wf [OF assms(3,4) idx(2)] sh _ assms(6)] s cutn Some
      by (auto simp: row_order_def simp del: cut_simps)
    with s len show ?thesis by blast
  qed
qed

lemma split_batch_Rows:
  assumes "split_batch req k sp = Inr (shards, order)" and "unpack_batch req = Inr (Rows b, m, p)"
  shows "\<exists>parts. 1 \<le> k \<and> split_rows (AList.update ''dp_size'' (VInt (int k)) m) k b = Inr (parts, order) \<and>
    shards = map (\<lambda>x. \<lparr>sh_batch = Rows x, sh_meta = AList.update ''dp_size'' (VInt (int k)) m, sh_processing = p\<rparr>) parts"
  using assms unfolding split_batch_def dp_sp_world_size_def Let_def by (auto split: sum.splits if_splits)

text \<open>The tensor a shard holds under a key.\<close>

definition shard_tensor :: "string \<Rightarrow> shard \<Rightarrow> tensor" where
  "shard_tensor key s =
     (case sh_batch s of
        Rows b \<Rightarrow> (case map_of b key of Some (VTensor d t) \<Rightarrow> t | _ \<Rightarrow> \<lparr>t_shape = [], t_data = []\<rparr>)
      | _ \<Rightarrow> \<lparr>t_shape = [], t_data = []\<rparr>)"

lemma split_rows_order:
  assumes "split_rows m k b = Inr (parts, Some idx)" and "1 \<le> k"
  shows "\<exists>bins. concat bins = idx \<and> length bins = k \<and> mset idx = mset [0..<length idx] \<and>
    (\<forall>r<k. length (bins ! r) = rank_cap (length idx) k r)"
proof -
  from assms(1) obtain b1 bins
    where a: "assign_balanced_batch (int k) (balance_meta_of m) (leaf_of (map_of b1 ''input_ids''))
                (leaf_of (map_of b1 ''attention_mask'')) None (leaf_of (map_of b1 ''prompt_group_ids'')) = Inr (Some bins)"
      and idx: "concat bins = idx"
    by (auto simp: split_rows_def Let_def flatten_assignment_def split: sum.splits option.splits)
  note b = balanced_bins [OF a]
  have "length idx = batch_rows (balance_meta_of m) (leaf_of (map_of b1 ''input_ids'')) (leaf_of (map_of b1 ''attention_mask'')) None"
    using arg_cong [of _ _ size, OF conjunct1 [OF conjunct2 [OF b]]] assms(2) idx by simp
  with b assms(2) idx show ?thesis by (intro exI [of _ bins]) simp
qed

section \<open>Merging and restoring\<close>

lemma promote_same [simp]: "promote_types d d = d"
  by (cases d) (simp_all add: promote_types_def)

lemma fold_promote_same: "fold (\<lambda>t d. promote_types d (fst t)) (map (Pair d) ts) d = d"
  by (induction ts) auto

lemma tensor_parts_tensors: "tensor_parts (map (VTensor d) ts) = Some (map (Pair d) ts)"
  by (induction ts) auto

lemma combine_single: "fold (\<lambda>b c. fold combine_item b c) (map (\<lambda>t. [(key, VTensor d t)]) ts) [(key, vs)] = [(key, vs @ map (VTensor d) ts)]"
  by (induction ts arbitrary: vs) (auto simp: combine_item_def)

lemma rows_append:
  assumes "tensor_wf t" and "t_shape t = n # sh" and "length ds = k * prod_list sh"
  shows "map (block (prod_list sh) (t_data t @ ds)) [0..<n + k] = t_rows t @ map (block (prod_list sh) ds) [0..<k]"
proof -
  let ?w = "prod_list sh"
  have l: "length (t_data t) = n * ?w" using assms(1,2) by (simp add: tensor_wf_def)
  have "block ?w (t_data t @ ds) i = block ?w (t_data t) i" if "i < n" for i
    using index_in_range [OF that, of ?w] l by (simp add: block_def algebra_simps)
  then have a: "map (block ?w (t_data t @ ds)) [0..<n] = t_rows t" using assms(2) by (simp add: t_rows_def t_row_def)
  have "block ?w (t_data t @ ds) (n + i) = block ?w ds i" for i using l by (simp add: block_def algebra_simps)
  moreover have "[n..<n + k] = map (\<lambda>i. n + i) [0..<k]" by (simp add: map_add_upt add.commute)
  ultimately have b: "map (block ?w (t_data t @ ds)) [n..<n + k] = map (block ?w ds) [0..<k]" by simp
  have "[0..<n + k] = [0..<n] @ [n..<n + k]" by (rule upt_add_eq_append) simp
  then show ?thesis using a b by (simp only: map_append)
qed

lemma cat_rows:
  assumes "\<And>t. t \<in> set ts \<Longrightarrow> tensor_wf t \<and> t_shape t \<noteq> [] \<and> tl (t_shape t) = sh"
  shows "length (concat (map t_data ts)) = (\<Sum>t\<leftarrow>ts. hd (t_shape t)) * prod_list sh \<and>
    map (block (prod_list sh) (concat (map t_data ts))) [0..<(\<Sum>t\<leftarrow>ts. hd (t_shape t))] = concat (map t_rows ts)"
  using assms
proof (induction ts)
  case (Cons t ts)
  then obtain n where t: "tensor_wf t" "t_shape t = n # sh" by (metis list.collapse list.set_intros(1))
  with Cons show ?case using rows_append [OF t, of "concat (map t_data ts)" "\<Sum>t\<leftarrow>ts. hd (t_shape t)"]
    by (simp add: tensor_wf_def algebra_simps)
qed simp

lemma cat_tensors_rows:
  assumes "ts \<noteq> []" and "\<And>t. t \<in> set ts \<Longrightarrow> tensor_wf t \<and> t_shape t \<noteq> [] \<and> hd (t_shape t) \<noteq> 0 \<and> tl (t_shape t) = sh"
  shows "\<exists>u. cat_tensors (map (Pair d) ts) = Inr (d, u) \<and> tensor_wf u \<and> t_shape u = (\<Sum>t\<leftarrow>ts. hd (t_shape t)) # sh \<and>
    t_rows u = concat (map t_rows ts)"
proof -
  obtain q rest where q: "ts = q # rest" using assms(1) by (cases ts) auto
  let ?u = "\<lparr>t_shape = (\<Sum>t\<leftarrow>ts. hd (t_shape t)) # sh, t_data = concat (map t_data ts)\<rparr>"
  have f: "filter (\<lambda>t. t_shape t \<noteq> [0]) ts = ts" using assms(2) by (force simp: filter_id_conv)
  have nd: "\<not> list_ex (\<lambda>t. t_ndim (snd t) = 0) (map (Pair d) ts)" using assms(2) by (auto simp: list_ex_iff)
  have same: "list_all (\<lambda>t. tl (t_shape t) = tl (t_shape q)) ts" using assms(2) q by (simp add: list_all_iff)
  have "cat_tensors (map (Pair d) ts) = Inr (d, ?u)"
    using nd f same assms(2) [of q] unfolding q
    by (simp add: cat_tensors_def Let_def fold_promote_same o_def)
  moreover have "tensor_wf ?u" using cat_rows [of ts sh] assms(2) by (simp add: tensor_wf_def)
  moreover have "t_row ?u = block (prod_list sh) (concat (map t_data ts))" by (rule ext) (simp add: t_row_def)
  then have "t_rows ?u = concat (map t_rows ts)" using cat_rows [of ts sh] assms(2) by (simp add: t_rows_def)
  ultimately show ?thesis by auto
qed

lemma merge_tensors:
  assumes "ts \<noteq> []" and "\<And>t. t \<in> set ts \<Longrightarrow> tensor_wf t \<and> t_shape t \<noteq> [] \<and> hd (t_shape t) \<noteq> 0 \<and> tl (t_shape t) = sh"
  shows "\<exists>u. merge_dict_shards (map (\<lambda>t. [(key, VTensor d t)]) ts) = Inr [(key, VTensor d u)] \<and> tensor_wf u \<and>
    t_shape u = (\<Sum>t\<leftarrow>ts. hd (t_shape t)) # sh \<and> t_rows u = concat (map t_rows ts)"
proof (cases "\<exists>t. ts = [t]")
  case True
  then obtain t where t: "ts = [t]" by blast
  then have "t_shape t = hd (t_shape t) # sh" using assms(2) [of t] by (metis list.collapse list.set_intros(1))
  then show ?thesis using t assms(2) by (simp add: merge_dict_shards_def)
next
  case False
  then obtain a b r where r: "ts = a # b # r" using assms(1) by (metis neq_Nil_conv)
  have "fold (\<lambda>b c. fold combine_item b c) (map (\<lambda>t. [(key, VTensor d t)]) ts) [] = [(key, map (VTensor d) ts)]"
    using combine_single [of key d "b # r" "[VTensor d a]"] by (simp add: r combine_item_def dict_get_def)
  then show ?thesis using cat_tensors_rows [OF assms, of d] tensor_parts_tensors [of d ts]
    by (auto simp: merge_dict_shards_def r merged_value_def)
qed

lemma restore_rows:
  assumes "tensor_wf u" and "t_shape u = n # sh" and "mset idx = mset [0..<n]" and "\<And>p. p < n \<Longrightarrow> t_row u p = g (idx ! p)"
  shows "\<exists>v. restore_batch_order [(key, VTensor d u)] (Some idx) = Inr [(key, VTensor d v)] \<and> t_rows v = map g [0..<n]"
proof -
  have idx: "length idx = n" "distinct idx" "set idx = {0..<n}"
    using mset_eq_length [OF assms(3)] mset_eq_imp_distinct_iff [OF assms(3)] mset_eq_setD [OF assms(3)] by auto
  let ?r = "restore_order_of n idx"
  have at: "?r ! (idx ! p) = p" if "p < n" for p using restore_order_inverse [of idx n p] idx that by simp
  have r: "?r ! x < n \<and> idx ! (?r ! x) = x" if "x < n" for x
  proof -
    have "x \<in> set idx" using that idx(3) by simp
    then obtain p where "p < n" "idx ! p = x" using idx(1) by (auto simp: in_set_conv_nth)
    then show ?thesis using at [of p] by auto
  qed
  then have bnd: "\<forall>j\<in>set ?r. j < n" by (auto simp: in_set_conv_nth)
  have "t_rows (index_select u ?r) = map (t_row u) ?r" by (rule index_select_rows [OF assms(1,2) bnd])
  also have "\<dots> = map g [0..<n]"
  proof (rule nth_equalityI)
    fix i assume "i < length (map (t_row u) ?r)"
    then have "i < n" by simp
    then show "map (t_row u) ?r ! i = map g [0..<n] ! i" using r [of i] assms(4) [of "?r ! i"] by simp
  qed simp
  finally have "t_rows (index_select u ?r) = map g [0..<n]" .
  moreover have "restore_batch_order [(key, VTensor d u)] (Some idx) = Inr [(key, VTensor d (index_select u ?r))]"
    using idx bnd assms(2) by (auto simp: restore_batch_order_def batch_reverse_idx_def list_all_iff list_ex_iff)
  ultimately show ?thesis by blast
qed

section \<open>The round trip through the workers\<close>

lemma shards_of_key:
  assumes "split_batch req W sp = Inr (shards, order)" and "unpack_batch req = Inr (Rows b, m, p)"
    and "map_of b key = Some (VTensor d t)" and "tensor_wf t" and "t_shape t = n # sh"
    and "\<forall>idx. order = Some idx \<longrightarrow> length idx = n"
  shows "1 \<le> W \<and> W \<le> n \<and> length shards = W \<and> mset (row_order order n) = mset [0..<n] \<and>
    (\<forall>i<W. t_rows (shard_tensor key (shards ! i)) = map (\<lambda>j. t_row t (row_order order n ! j)) [cut n W i..<cut n W (Suc i)])"
proof -
  let ?m = "AList.update ''dp_size'' (VInt (int W)) m"
  from split_batch_Rows [OF assms(1,2)] obtain parts where W: "1 \<le> W" and sp: "split_rows ?m W b = Inr (parts, order)"
    and sh: "shards = map (\<lambda>x. \<lparr>sh_batch = Rows x, sh_meta = ?m, sh_processing = p\<rparr>) parts" by blast
  have perm: "\<forall>idx. order = Some idx \<longrightarrow> mset idx = mset [0..<n]"
  proof (intro allI impI)
    fix idx assume o: "order = Some idx"
    with assms(6) have "length idx = n" by blast
    with split_rows_order [OF sp [unfolded o] W] show "mset idx = mset [0..<n]" by auto
  qed
  note st = split_rows_tensor [OF sp assms(3,4,5) perm]
  have "t_rows (shard_tensor key (shards ! i)) = map (\<lambda>j. t_row t (row_order order n ! j)) [cut n W i..<cut n W (Suc i)]" if "i < W" for i
    using st [OF that] that sh by (auto simp: shard_tensor_def simp del: cut_simps)
  moreover have "mset (row_order order n) = mset [0..<n]" using perm by (simp add: row_order_def split: option.splits)
  moreover have "length parts = W" "W \<le> n" using st [of 0] W by auto
  ultimately show ?thesis using W sh by simp
qed

text \<open>
  C1. The server cuts a batch into one shard per worker in balanced order, the workers compute row by
  row, and the server merges their tensors and restores the order. For any function of a row, the result
  that comes back has, at the position of each row of the request, the function's value for that row:
  results arrive in the order of the request, whatever assignment the balancer chose.
\<close>

theorem results_in_arrival_order:
  assumes "split_batch req W sp = Inr (shards, order)" and "unpack_batch req = Inr (Rows b, m, p)"
    and "map_of b key = Some (VTensor d t)" and "tensor_wf t" and "t_shape t = n # sh"
    and "\<forall>idx. order = Some idx \<longrightarrow> length idx = n" and "length outs = W"
    and "\<forall>i<W. tensor_wf (outs ! i) \<and> t_shape (outs ! i) \<noteq> [] \<and> tl (t_shape (outs ! i)) = osh \<and>
           t_rows (outs ! i) = map f (t_rows (shard_tensor key (shards ! i)))"
  shows "\<exists>mg u. merge_dict_shards (map (\<lambda>x. [(out, VTensor od x)]) outs) = Inr mg \<and>
    restore_batch_order mg order = Inr [(out, VTensor od u)] \<and> t_rows u = map f (t_rows t)"
proof -
  let ?o = "row_order order n"
  note sh = shards_of_key [OF assms(1-6)]
  have W: "1 \<le> W" "W \<le> n" and perm: "mset ?o = mset [0..<n]" using sh by auto
  have rows: "t_rows (outs ! i) = map (\<lambda>j. f (t_row t (?o ! j))) [cut n W i..<cut n W (Suc i)]" if "i < W" for i
    using assms(8) sh that by simp
  have hd_len: "hd (t_shape x) = length (t_rows x)" for x by (simp add: t_rows_def)
  have ok: "tensor_wf x \<and> t_shape x \<noteq> [] \<and> hd (t_shape x) \<noteq> 0 \<and> tl (t_shape x) = osh" if "x \<in> set outs" for x
  proof -
    from that assms(7) obtain i where i: "i < W" "x = outs ! i" by (auto simp: in_set_conv_nth)
    have "rank_cap n W i \<noteq> 0" using W by (simp add: rank_cap_def div_greater_zero_iff)
    then show ?thesis using assms(8) rows [OF i(1)] i by (simp add: hd_len)
  qed
  have "outs \<noteq> []" using W(1) assms(7) by auto
  from merge_tensors [OF this ok] obtain u
    where mg: "merge_dict_shards (map (\<lambda>x. [(out, VTensor od x)]) outs) = Inr [(out, VTensor od u)]"
      and u: "tensor_wf u" "t_shape u = (\<Sum>x\<leftarrow>outs. hd (t_shape x)) # osh" "t_rows u = concat (map t_rows outs)" by blast
  have "map t_rows outs = map (\<lambda>i. map (\<lambda>j. f (t_row t (?o ! j))) [cut n W i..<cut n W (Suc i)]) [0..<W]"
    using assms(7) rows by (intro nth_equalityI) auto
  then have ur: "t_rows u = map (\<lambda>j. f (t_row t (?o ! j))) [0..<n]"
    using u(3) concat_cuts [of "\<lambda>j. f (t_row t (?o ! j))" n W W] W(1) by (simp add: cut_all del: cut_simps)
  have "(\<Sum>x\<leftarrow>outs. hd (t_shape x)) = n" using arg_cong [OF ur, of length] u(2) by (simp add: t_rows_def)
  with u(2) have us: "t_shape u = n # osh" by simp
  have tr: "t_rows t = map (t_row t) [0..<n]" using assms(5) by (simp add: t_rows_def)
  show ?thesis
  proof (cases order)
    case None
    then show ?thesis using mg ur tr by (auto simp: restore_batch_order_def row_order_def)
  next
    case (Some idx)
    have "t_row u q = f (t_row t (idx ! q))" if "q < n" for q
      using arg_cong [OF ur, of "\<lambda>xs. xs ! q"] that us Some by (simp add: t_rows_def row_order_def)
    from restore_rows [OF u(1) us _ this, of out od] obtain v
      where "restore_batch_order [(out, VTensor od u)] (Some idx) = Inr [(out, VTensor od v)]" "t_rows v = map (\<lambda>i. f (t_row t i)) [0..<n]"
      using perm Some by (auto simp: row_order_def)
    then show ?thesis using mg tr Some by auto
  qed
qed


section \<open>The two bags stay apart\<close>












text \<open>
  Two corners of merging and restoring: a per-row list of empty lists cannot be merged, because an
  empty list passes the test for tensors, and a list result is not put back into the order of arrival.
\<close>

lemma merge_empty_lists_raises: "merge_dict_shards [[(key, VList [])], [(key, VList [])]] = Inl RuntimeError"
  by (simp add: merge_dict_shards_def combine_item_def dict_get_def merged_value_def cat_tensors_def)

lemma list_results_keep_balanced_order:
  "mset idx = mset [0..<length idx] \<Longrightarrow> restore_batch_order [(key, VList xs)] (Some idx) = Inr [(key, VList xs)]"
  using mset_eq_setD [of idx "[0..<length idx]"] by (simp add: restore_batch_order_def batch_reverse_idx_def list_all_iff)

lemma all_less_two: "(\<forall>i<2. P i) \<longleftrightarrow> P 0 \<and> P (1 :: nat)"
  by (auto simp: less_2_cases_iff)

section \<open>A request of four rows for two workers\<close>

definition ex_mask :: tensor where
  "ex_mask = \<lparr>t_shape = [4, 2], t_data = [1, 1, 1, 1, 1, 0, 1, 0]\<rparr>"

definition ex_ids :: tensor where
  "ex_ids = \<lparr>t_shape = [4, 1], t_data = [10, 11, 12, 13]\<rparr>"

definition ex_request :: bag where
  "ex_request =
     [(''batch'', VDict [(''attention_mask'', VTensor DInt64 ex_mask), (''ids'', VTensor DInt64 ex_ids)]),
      (''meta'', VDict [(''temperature'', VFloat 1), (''labels'', VTensor DInt64 ex_ids)]), (''processing'', VDict [])]"

definition ex_rows :: bag where
  "ex_rows = [(''attention_mask'', VTensor DInt64 ex_mask), (''ids'', VTensor DInt64 ex_ids), (''labels'', VTensor DInt64 ex_ids)]"

definition ex_shards :: "shard list" where
  "ex_shards = (case split_batch ex_request 2 VNone of Inr (s, _) \<Rightarrow> s | _ \<Rightarrow> [])"

lemma ex_unpack: "unpack_batch ex_request = Inr (Rows ex_rows, [(''temperature'', VFloat 1)], VDict [])"
  by code_simp

lemma ex_split: "split_batch ex_request 2 VNone = Inr (ex_shards, Some [0, 2, 1, 3])"
  by code_simp



definition ex_outs :: "tensor list" where
  "ex_outs = [\<lparr>t_shape = [2, 1], t_data = [20, 24]\<rparr>, \<lparr>t_shape = [2, 1], t_data = [22, 26]\<rparr>]"

theorem results_in_arrival_order_witness:
  "\<exists>mg u. merge_dict_shards (map (\<lambda>x. [(''out'', VTensor DInt64 x)]) ex_outs) = Inr mg \<and>
   restore_batch_order mg (Some [0, 2, 1, 3]) = Inr [(''out'', VTensor DInt64 u)] \<and> t_rows u = [[20], [22], [24], [26]]"
proof -
  have ids: "map_of ex_rows ''ids'' = Some (VTensor DInt64 ex_ids)" "tensor_wf ex_ids" "t_shape ex_ids = 4 # [1]"
    by (simp_all add: ex_rows_def ex_ids_def tensor_wf_def)
  have len: "\<forall>idx. Some [0, 2, 1, 3 :: nat] = Some idx \<longrightarrow> length idx = 4" "length ex_outs = 2" by (simp_all add: ex_outs_def)
  have w0: "tensor_wf (ex_outs ! 0) \<and> t_shape (ex_outs ! 0) \<noteq> [] \<and> tl (t_shape (ex_outs ! 0)) = [1] \<and>
      t_rows (ex_outs ! 0) = map (map (\<lambda>x. 2 * x)) (t_rows (shard_tensor ''ids'' (ex_shards ! 0)))" by code_simp
  have w1: "tensor_wf (ex_outs ! 1) \<and> t_shape (ex_outs ! 1) \<noteq> [] \<and> tl (t_shape (ex_outs ! 1)) = [1] \<and>
      t_rows (ex_outs ! 1) = map (map (\<lambda>x. 2 * x)) (t_rows (shard_tensor ''ids'' (ex_shards ! 1)))" by code_simp
  have w: "\<forall>i<2. tensor_wf (ex_outs ! i) \<and> t_shape (ex_outs ! i) \<noteq> [] \<and> tl (t_shape (ex_outs ! i)) = [1] \<and>
      t_rows (ex_outs ! i) = map (map (\<lambda>x. 2 * x)) (t_rows (shard_tensor ''ids'' (ex_shards ! i)))"
    unfolding all_less_two using w0 w1 by blast
  have "map (map (\<lambda>x. 2 * x)) (t_rows ex_ids) = [[20], [22], [24], [26]]" by code_simp
  with results_in_arrival_order [OF ex_split ex_unpack ids len w, of "''out''" DInt64] show ?thesis by simp
qed

end
