(* ===== verification/Metric_Reduce.thy ===== *)
theory Metric_Reduce
  imports Batch_Split
begin

text \<open>
  The reduction of training metrics (\<open>common/utils/batch.py\<close>): each rank folds the metric dicts of its
  microbatches into one, and the server folds the dicts of the ranks. Keys \<open>name.sum\<close> and
  \<open>name.tokens\<close> are the two parts of a token mean; names declared additive by a loss function, or
  following the naming convention, are summed; other numbers are averaged; everything else is passed
  through from the first dict that has it. The set of declared names is the registry's state and an
  argument here.
\<close>

section \<open>Names\<close>

definition endswith :: "string \<Rightarrow> string \<Rightarrow> bool" where
  "endswith k suf \<longleftrightarrow> length suf \<le> length k \<and> drop (length k - length suf) k = suf"

definition startswith :: "string \<Rightarrow> string \<Rightarrow> bool" where
  "startswith k pre \<longleftrightarrow> take (length pre) k = pre"

definition METRIC_PAIR_SUM_SUFFIX :: string where
  "METRIC_PAIR_SUM_SUFFIX = ''.sum''"

definition METRIC_PAIR_TOKENS_SUFFIX :: string where
  "METRIC_PAIR_TOKENS_SUFFIX = ''.tokens''"

definition SUMMED_METRIC_PREFIXES :: "string list" where
  "SUMMED_METRIC_PREFIXES = [''loss_term_'']"

definition SUMMED_METRIC_SUFFIXES :: "string list" where
  "SUMMED_METRIC_SUFFIXES = [''_sum'', ''_count'']"

definition is_declared_summed_metric :: "string list \<Rightarrow> string \<Rightarrow> bool" where
  "is_declared_summed_metric declared name \<longleftrightarrow> name \<in> set declared"

definition metric_is_summed :: "string list \<Rightarrow> string \<Rightarrow> bool" where
  "metric_is_summed declared key \<longleftrightarrow>
     is_declared_summed_metric declared key \<or> list_ex (startswith key) SUMMED_METRIC_PREFIXES \<or> list_ex (endswith key) SUMMED_METRIC_SUFFIXES"

text \<open>The part of a key before a suffix.\<close>

definition strip :: "string \<Rightarrow> string \<Rightarrow> string" where
  "strip k suf = take (length k - length suf) k"

section \<open>Accumulation\<close>

record metric_acc =
  numeric_totals :: "(string, rat) dict"
  numeric_counts :: "(string, nat) dict"
  passthrough :: bag

definition setdefault :: "('k, 'v) dict \<Rightarrow> 'k \<Rightarrow> 'v \<Rightarrow> ('k, 'v) dict" where
  "setdefault d k v = (if k \<in> set (keys d) then d else d @ [(k, v)])"

text \<open>Integers and floats count as numbers; booleans do not.\<close>

fun metric_num :: "pyval \<Rightarrow> rat option" where
  "metric_num (VInt i) = Some (of_int i)"
| "metric_num (VFloat x) = Some x"
| "metric_num _ = None"

definition acc_item :: "string \<times> pyval \<Rightarrow> metric_acc \<Rightarrow> metric_acc" where
  "acc_item kv a =
     (let k = fst kv
      in case metric_num (snd kv) of
           None \<Rightarrow> a\<lparr>passthrough := setdefault (passthrough a) k (snd kv)\<rparr>
         | Some x \<Rightarrow> a\<lparr>numeric_totals := AList.update k (dict_get (numeric_totals a) k 0 + x) (numeric_totals a),
                       numeric_counts := AList.update k (dict_get (numeric_counts a) k 0 + 1) (numeric_counts a)\<rparr>)"

definition acc_metrics :: "bag list \<Rightarrow> metric_acc" where
  "acc_metrics ds = fold (\<lambda>d a. fold acc_item d a) ds \<lparr>numeric_totals = [], numeric_counts = [], passthrough = []\<rparr>"

text \<open>The base names whose two parts are both present.\<close>

definition paired_bases :: "(string, rat) dict \<Rightarrow> string list" where
  "paired_bases totals =
     map (\<lambda>k. strip k METRIC_PAIR_SUM_SUFFIX)
       (filter (\<lambda>k. endswith k METRIC_PAIR_SUM_SUFFIX \<and>
                    strip k METRIC_PAIR_SUM_SUFFIX @ METRIC_PAIR_TOKENS_SUFFIX \<in> set (keys totals)) (keys totals))"

definition mean :: "metric_acc \<Rightarrow> string \<Rightarrow> rat \<Rightarrow> rat" where
  "mean a k total_v = (let count = dict_get (numeric_counts a) k 1 in if 0 < count then total_v / of_nat count else total_v)"

section \<open>Across ranks\<close>

definition pair_mean :: "metric_acc \<Rightarrow> string \<Rightarrow> pyval" where
  "pair_mean a base =
     (let sum_total = dict_get (numeric_totals a) (base @ METRIC_PAIR_SUM_SUFFIX) 0;
          tokens_total = dict_get (numeric_totals a) (base @ METRIC_PAIR_TOKENS_SUFFIX) 0
      in VFloat (if 0 < tokens_total then sum_total / tokens_total else 0))"

definition part_of_pair :: "metric_acc \<Rightarrow> string \<Rightarrow> bool" where
  "part_of_pair a k \<longleftrightarrow>
     endswith k METRIC_PAIR_SUM_SUFFIX \<and> strip k METRIC_PAIR_SUM_SUFFIX \<in> set (paired_bases (numeric_totals a)) \<or>
     endswith k METRIC_PAIR_TOKENS_SUFFIX \<and> strip k METRIC_PAIR_TOKENS_SUFFIX \<in> set (paired_bases (numeric_totals a))"

definition carry_number :: "string list \<Rightarrow> metric_acc \<Rightarrow> string \<times> rat \<Rightarrow> bag \<Rightarrow> bag" where
  "carry_number declared a kt out =
     (if part_of_pair a (fst kt) then out
      else setdefault out (fst kt) (VFloat (if metric_is_summed declared (fst kt) then snd kt else mean a (fst kt) (snd kt))))"

definition combine_metric_shards :: "string list \<Rightarrow> bag list \<Rightarrow> bag" where
  "combine_metric_shards declared shards =
     (let a = acc_metrics shards;
          out0 = map (\<lambda>base. (base, pair_mean a base)) (paired_bases (numeric_totals a));
          out1 = fold (carry_number declared a) (numeric_totals a) out0
      in fold (\<lambda>(k, v) out. setdefault out k v) (passthrough a) out1)"

section \<open>Within a rank\<close>

definition paired_keys :: "(string, rat) dict \<Rightarrow> string list" where
  "paired_keys totals =
     concat (map (\<lambda>b. [b @ METRIC_PAIR_SUM_SUFFIX, b @ METRIC_PAIR_TOKENS_SUFFIX]) (paired_bases totals))"

definition combine_metric_microbatches :: "string list \<Rightarrow> bag list \<Rightarrow> bag" where
  "combine_metric_microbatches declared ds =
     (let a = acc_metrics ds;
          out = map (\<lambda>(k, total_v). (k, VFloat (if k \<in> set (paired_keys (numeric_totals a)) \<or> metric_is_summed declared k
                                             then total_v else mean a k total_v))) (numeric_totals a)
      in fold (\<lambda>(k, v) out. setdefault out k v) (passthrough a) out)"

section \<open>The result of a training step\<close>

record rank_result =
  rk_metrics :: "bag option"
  rk_avg_loss :: "rat option"

fun to_float :: "pyval \<Rightarrow> rat res" where
  "to_float (VBool b) = Inr (if b then 1 else 0)"
| "to_float (VInt i) = Inr (of_int i)"
| "to_float (VFloat x) = Inr x"
| "to_float (VTensor _ t) = (if length (t_data t) = 1 then Inr (hd (t_data t)) else Inl RuntimeError)"
| "to_float (VStr _) = Inl ValueError"
| "to_float _ = Inl TypeError"

definition finalize_fwd_bwd_metrics :: "string list \<Rightarrow> rank_result list \<Rightarrow> (bag \<times> rat) res" where
  "finalize_fwd_bwd_metrics declared results =
     (let metrics = combine_metric_shards declared (map (\<lambda>r. case rk_metrics r of None \<Rightarrow> [] | Some m \<Rightarrow> m) results)
      in case map_of metrics ''loss'' of
           Some v \<Rightarrow> (case to_float v of Inl e \<Rightarrow> Inl e | Inr x \<Rightarrow> Inr (metrics, x))
         | None \<Rightarrow> Inr (metrics, \<Sum>r\<leftarrow>results. case rk_avg_loss r of None \<Rightarrow> 0 | Some x \<Rightarrow> x))"

section \<open>Lemmas on accumulation\<close>

lemma map_of_setdefault: "map_of (setdefault d k v) j = (case map_of d j of Some x \<Rightarrow> Some x | None \<Rightarrow> if j = k then Some v else None)"
proof (cases "map_of d j")
  case None
  then have "j \<notin> set (keys d)" by (simp add: map_of_eq_None_iff)
  with None show ?thesis by (auto simp: setdefault_def map_add_def)
qed (simp add: setdefault_def map_add_def)

lemma map_of_map_keyed: "map_of (map (\<lambda>(k, t). (k, g k t)) d) k = map_option (g k) (map_of d k)"
  by (induction d) auto

text \<open>The numbers that a list of dicts has under a key.\<close>

definition num_at :: "string \<Rightarrow> bag \<Rightarrow> rat option" where
  "num_at k d = Option.bind (map_of d k) metric_num"

definition nums :: "string \<Rightarrow> bag list \<Rightarrow> rat list" where
  "nums k ds = List.map_filter (num_at k) ds"

lemma nums_snoc: "nums k (ds @ [d]) = nums k ds @ (case num_at k d of None \<Rightarrow> [] | Some x \<Rightarrow> [x])"
  by (simp add: nums_def map_filter_def split: option.splits)

lemma acc_dict:
  assumes "dict_wf d"
  shows "map_of (numeric_totals (fold acc_item d a)) k =
      (case num_at k d of None \<Rightarrow> map_of (numeric_totals a) k | Some x \<Rightarrow> Some (dict_get (numeric_totals a) k 0 + x)) \<and>
    map_of (numeric_counts (fold acc_item d a)) k =
      (case num_at k d of None \<Rightarrow> map_of (numeric_counts a) k | Some x \<Rightarrow> Some (dict_get (numeric_counts a) k 0 + 1)) \<and>
    (\<forall>v. map_of (passthrough (fold acc_item d a)) k = Some v \<longrightarrow> metric_num v = None \<or> map_of (passthrough a) k = Some v)"
  using assms
proof (induction d arbitrary: a)
  case (Cons kv d)
  obtain j v where kv: "kv = (j, v)" by (cases kv)
  have wf: "dict_wf d" and nj: "map_of d j = None" using Cons.prems kv by (auto simp: dict_wf_def map_of_eq_None_iff)
  note ih = Cons.IH [OF wf, of "acc_item kv a"]
  show ?case
  proof (cases "metric_num v")
    case None
    then have t: "numeric_totals (acc_item kv a) = numeric_totals a" "numeric_counts (acc_item kv a) = numeric_counts a"
      "passthrough (acc_item kv a) = setdefault (passthrough a) j v" by (simp_all add: acc_item_def kv)
    show ?thesis using ih None nj unfolding t by (auto simp: num_at_def kv map_of_setdefault split: option.splits if_splits)
  next
    case (Some x)
    then have t: "numeric_totals (acc_item kv a) = AList.update j (dict_get (numeric_totals a) j 0 + x) (numeric_totals a)"
      "numeric_counts (acc_item kv a) = AList.update j (dict_get (numeric_counts a) j 0 + 1) (numeric_counts a)"
      "passthrough (acc_item kv a) = passthrough a" by (simp_all add: acc_item_def kv)
    show ?thesis using ih Some nj unfolding t by (auto simp: num_at_def kv map_of_update dict_get_def split: option.splits)
  qed
qed (simp add: num_at_def)

lemma acc_metrics_spec:
  assumes "\<And>d. d \<in> set ds \<Longrightarrow> dict_wf d"
  shows "map_of (numeric_totals (acc_metrics ds)) k = (if nums k ds = [] then None else Some (sum_list (nums k ds))) \<and>
    map_of (numeric_counts (acc_metrics ds)) k = (if nums k ds = [] then None else Some (length (nums k ds))) \<and>
    (\<forall>v. map_of (passthrough (acc_metrics ds)) k = Some v \<longrightarrow> metric_num v = None)"
  using assms
proof (induction ds rule: rev_induct)
  case Nil
  then show ?case by (simp add: acc_metrics_def nums_def map_filter_def)
next
  case (snoc d ds)
  have wf: "dict_wf d" using snoc.prems by simp
  have e: "acc_metrics (ds @ [d]) = fold acc_item d (acc_metrics ds)" by (simp add: acc_metrics_def)
  show ?case using acc_dict [OF wf, of "acc_metrics ds" k] snoc unfolding e nums_snoc
    by (auto simp: dict_get_def split: option.splits)
qed


lemma fold_setdefault: "map_of (fold (\<lambda>(k, v) out. setdefault out k v) ps out) j = (case map_of out j of Some x \<Rightarrow> Some x | None \<Rightarrow> map_of ps j)"
  by (induction ps arbitrary: out) (auto simp: map_of_setdefault split: option.splits)

lemma dict_wf_setdefault: "dict_wf d \<Longrightarrow> dict_wf (setdefault d k v)"
  by (simp add: setdefault_def dict_wf_def)

lemma dict_wf_fold_setdefault: "dict_wf out \<Longrightarrow> dict_wf (fold (\<lambda>(k, v) out. setdefault out k v) ps out)"
  by (induction ps arbitrary: out) (auto intro: dict_wf_setdefault)

lemma acc_totals_wf: "dict_wf (numeric_totals (acc_metrics ds))"
proof -
  have "dict_wf (numeric_totals a) \<Longrightarrow> dict_wf (numeric_totals (acc_item kv a))" for kv a
    by (simp add: acc_item_def Let_def split: option.splits)
  then have i: "dict_wf (numeric_totals a) \<Longrightarrow> dict_wf (numeric_totals (fold acc_item d a))" for d a
    by (induction d arbitrary: a) auto
  have "dict_wf (numeric_totals a) \<Longrightarrow> dict_wf (numeric_totals (fold (\<lambda>d a. fold acc_item d a) ds a))" for a
    by (induction ds arbitrary: a) (auto intro: i)
  then show ?thesis by (simp add: acc_metrics_def)
qed

lemma endswith_append [simp]: "endswith (b @ suf) suf" "strip (b @ suf) suf = b"
  by (simp_all add: endswith_def strip_def)

lemma endswith_strip: "endswith k suf \<Longrightarrow> strip k suf @ suf = k"
  by (metis append_take_drop_id endswith_def strip_def)

lemma paired_bases_iff:
  "b \<in> set (paired_bases totals) \<longleftrightarrow> b @ METRIC_PAIR_SUM_SUFFIX \<in> set (keys totals) \<and> b @ METRIC_PAIR_TOKENS_SUFFIX \<in> set (keys totals)"
proof
  assume "b \<in> set (paired_bases totals)"
  then show "b @ METRIC_PAIR_SUM_SUFFIX \<in> set (keys totals) \<and> b @ METRIC_PAIR_TOKENS_SUFFIX \<in> set (keys totals)"
    unfolding paired_bases_def set_map set_filter by (force dest: endswith_strip)
next
  assume "b @ METRIC_PAIR_SUM_SUFFIX \<in> set (keys totals) \<and> b @ METRIC_PAIR_TOKENS_SUFFIX \<in> set (keys totals)"
  then show "b \<in> set (paired_bases totals)" unfolding paired_bases_def set_map set_filter
    by (intro image_eqI [of _ _ "b @ METRIC_PAIR_SUM_SUFFIX"]) simp_all
qed

lemma totals_keys:
  assumes "\<And>d. d \<in> set ds \<Longrightarrow> dict_wf d"
  shows "k \<in> set (keys (numeric_totals (acc_metrics ds))) \<longleftrightarrow> nums k ds \<noteq> []"
  using acc_metrics_spec [OF assms, of ds k] map_of_None_keys [of "numeric_totals (acc_metrics ds)" k] by (simp split: if_splits)

section \<open>What a rank reports\<close>

text \<open>Whether a rank adds up a key rather than averaging it.\<close>

definition rank_sums :: "string list \<Rightarrow> bag list \<Rightarrow> string \<Rightarrow> bool" where
  "rank_sums declared ds k \<longleftrightarrow> metric_is_summed declared k \<or> k \<in> set (paired_keys (numeric_totals (acc_metrics ds)))"

lemma microbatches_num:
  assumes "\<And>d. d \<in> set ds \<Longrightarrow> dict_wf d" and "rank_sums declared ds k \<or> nums k ds = []"
  shows "dict_wf (combine_metric_microbatches declared ds) \<and>
    num_at k (combine_metric_microbatches declared ds) = (if nums k ds = [] then None else Some (sum_list (nums k ds)))"
proof -
  let ?a = "acc_metrics ds"
  note a = acc_metrics_spec [OF assms(1), of ds k]
  let ?g = "\<lambda>k t. VFloat (if k \<in> set (paired_keys (numeric_totals ?a)) \<or> metric_is_summed declared k then t else mean ?a k t)"
  let ?out = "map (\<lambda>(k, t). (k, ?g k t)) (numeric_totals ?a)"
  have c: "combine_metric_microbatches declared ds = fold (\<lambda>(k, v) out. setdefault out k v) (passthrough ?a) ?out"
    by (simp add: combine_metric_microbatches_def Let_def)
  have m: "map_of ?out k = map_option (?g k) (map_of (numeric_totals ?a) k)" by (rule map_of_map_keyed)
  have "dict_wf ?out" using acc_totals_wf [of ds] by (simp add: dict_wf_def o_def split_def)
  then have wf: "dict_wf (combine_metric_microbatches declared ds)" unfolding c by (rule dict_wf_fold_setdefault)
  have "num_at k (combine_metric_microbatches declared ds) = (if nums k ds = [] then None else Some (sum_list (nums k ds)))"
  proof (cases "nums k ds = []")
    case True
    then show ?thesis using a m unfolding c num_at_def fold_setdefault by (cases "map_of (passthrough ?a) k") auto
  next
    case False
    then have "rank_sums declared ds k" using assms(2) by simp
    then show ?thesis using False a m unfolding c num_at_def fold_setdefault by (auto simp: rank_sums_def)
  qed
  with wf show ?thesis by blast
qed

lemma ranks_total:
  assumes "\<And>ds d. ds \<in> set mss \<Longrightarrow> d \<in> set ds \<Longrightarrow> dict_wf d" and "\<And>ds. ds \<in> set mss \<Longrightarrow> rank_sums declared ds k \<or> nums k ds = []"
  shows "sum_list (nums k (map (combine_metric_microbatches declared) mss)) = sum_list (nums k (concat mss)) \<and>
    (nums k (map (combine_metric_microbatches declared) mss) = [] \<longleftrightarrow> nums k (concat mss) = [])"
  using assms
proof (induction mss)
  case (Cons ds mss)
  have app: "nums k (xs @ ys) = nums k xs @ nums k ys" for xs ys by (simp add: nums_def map_filter_def)
  have one: "nums k (x # xs) = (case num_at k x of None \<Rightarrow> [] | Some v \<Rightarrow> [v]) @ nums k xs" for x xs
    by (simp add: nums_def map_filter_def split: option.splits)
  have "num_at k (combine_metric_microbatches declared ds) = (if nums k ds = [] then None else Some (sum_list (nums k ds)))"
  proof -
    have "dict_wf d" if "d \<in> set ds" for d using Cons.prems(1) [of ds] that by simp
    moreover have "rank_sums declared ds k \<or> nums k ds = []" using Cons.prems(2) by simp
    ultimately show ?thesis using microbatches_num [of ds declared k] by blast
  qed
  moreover have "sum_list (nums k (map (combine_metric_microbatches declared) mss)) = sum_list (nums k (concat mss)) \<and>
    (nums k (map (combine_metric_microbatches declared) mss) = [] \<longleftrightarrow> nums k (concat mss) = [])"
    using Cons by auto
  ultimately show ?case by (simp add: app one)
qed (simp add: nums_def map_filter_def)

lemma ranks_wf:
  assumes "\<And>ds d. ds \<in> set mss \<Longrightarrow> d \<in> set ds \<Longrightarrow> dict_wf d"
  shows "x \<in> set (map (combine_metric_microbatches declared) mss) \<Longrightarrow> dict_wf x"
proof -
  assume "x \<in> set (map (combine_metric_microbatches declared) mss)"
  then obtain ds where ds: "ds \<in> set mss" "x = combine_metric_microbatches declared ds" by auto
  have "dict_wf (fold (\<lambda>(k, v) out. setdefault out k v) ps (map (\<lambda>(k, t). (k, g k t)) (numeric_totals (acc_metrics ds))))" for ps g
    using acc_totals_wf [of ds] by (intro dict_wf_fold_setdefault) (simp add: dict_wf_def o_def split_def)
  then show "dict_wf x" unfolding ds(2) combine_metric_microbatches_def Let_def .
qed

section \<open>What the server reports\<close>

lemma fold_carry:
  "map_of (fold (carry_number declared a) ps out) k =
     (case map_of out k of Some x \<Rightarrow> Some x
      | None \<Rightarrow> if part_of_pair a k then None
                else map_option (\<lambda>t. VFloat (if metric_is_summed declared k then t else mean a k t)) (map_of ps k))"
  by (induction ps arbitrary: out) (auto simp: carry_number_def map_of_setdefault split: option.splits)

lemma map_of_bases: "map_of (map (\<lambda>b. (b, f b)) bs) b = (if b \<in> set bs then Some (f b) else None)"
  by (induction bs) auto

lemma shards_pair:
  assumes "\<And>d. d \<in> set ds \<Longrightarrow> dict_wf d" and "nums (b @ METRIC_PAIR_SUM_SUFFIX) ds \<noteq> []" and "nums (b @ METRIC_PAIR_TOKENS_SUFFIX) ds \<noteq> []"
  shows "map_of (combine_metric_shards declared ds) b =
    Some (VFloat (if 0 < sum_list (nums (b @ METRIC_PAIR_TOKENS_SUFFIX) ds)
                  then sum_list (nums (b @ METRIC_PAIR_SUM_SUFFIX) ds) / sum_list (nums (b @ METRIC_PAIR_TOKENS_SUFFIX) ds) else 0))"
proof -
  have "b \<in> set (paired_bases (numeric_totals (acc_metrics ds)))"
    using assms by (simp only: paired_bases_iff totals_keys [OF assms(1)]) simp
  then show ?thesis using acc_metrics_spec [OF assms(1), of ds] assms(2,3)
    by (simp add: combine_metric_shards_def Let_def fold_setdefault fold_carry map_of_bases pair_mean_def dict_get_def)
qed

lemma shards_sum:
  assumes "\<And>d. d \<in> set ds \<Longrightarrow> dict_wf d" and "metric_is_summed declared k" and "\<not> endswith k METRIC_PAIR_SUM_SUFFIX"
    and "\<not> endswith k METRIC_PAIR_TOKENS_SUFFIX" and "nums (k @ METRIC_PAIR_SUM_SUFFIX) ds = []" and "nums k ds \<noteq> []"
  shows "map_of (combine_metric_shards declared ds) k = Some (VFloat (sum_list (nums k ds)))"
proof -
  have "k \<notin> set (paired_bases (numeric_totals (acc_metrics ds)))"
    using assms(5) by (simp only: paired_bases_iff totals_keys [OF assms(1)]) simp
  then show ?thesis using acc_metrics_spec [OF assms(1), of ds k] assms(2-4,6)
    by (simp add: combine_metric_shards_def Let_def fold_setdefault fold_carry map_of_bases part_of_pair_def)
qed

text \<open>
  C3. The token mean that a training step reports is exact: whatever way the microbatches were spread
  over ranks and however many each rank had, the value of \<open>name\<close> is the sum of all \<open>name.sum\<close> divided by
  the sum of all \<open>name.tokens\<close> (0 when no token counted), and the reported loss is that mean of \<open>loss\<close>.
  Every rank must report both parts or neither.
\<close>

theorem token_mean_exact:
  assumes "\<forall>ds\<in>set mss. \<forall>d\<in>set ds. dict_wf d"
    and "\<forall>ds\<in>set mss. nums (b @ ''.sum'') ds = [] \<longleftrightarrow> nums (b @ ''.tokens'') ds = []"
    and "nums (b @ ''.sum'') (concat mss) \<noteq> []"
    and "map rk_metrics results = map (\<lambda>ds. Some (combine_metric_microbatches declared ds)) mss"
  shows "\<exists>metrics x. metrics = combine_metric_shards declared (map (combine_metric_microbatches declared) mss) \<and>
    x = (if 0 < sum_list (nums (b @ ''.tokens'') (concat mss))
         then sum_list (nums (b @ ''.sum'') (concat mss)) / sum_list (nums (b @ ''.tokens'') (concat mss)) else 0) \<and>
    map_of metrics b = Some (VFloat x) \<and> (b = ''loss'' \<longrightarrow> finalize_fwd_bwd_metrics declared results = Inr (metrics, x))"
proof -
  let ?ks = "b @ METRIC_PAIR_SUM_SUFFIX" and ?kt = "b @ METRIC_PAIR_TOKENS_SUFFIX"
  have suf: "''.sum'' = METRIC_PAIR_SUM_SUFFIX" "''.tokens'' = METRIC_PAIR_TOKENS_SUFFIX"
    by (simp_all add: METRIC_PAIR_SUM_SUFFIX_def METRIC_PAIR_TOKENS_SUFFIX_def)
  have wf: "\<And>ds d. ds \<in> set mss \<Longrightarrow> d \<in> set ds \<Longrightarrow> dict_wf d" using assms(1) by blast
  have paired: "(rank_sums declared ds ?ks \<or> nums ?ks ds = []) \<and> (rank_sums declared ds ?kt \<or> nums ?kt ds = [])" if "ds \<in> set mss" for ds
  proof (cases "nums ?ks ds = []")
    case False
    then have "nums ?kt ds \<noteq> []" using assms(2) that unfolding suf by blast
    then have "b \<in> set (paired_bases (numeric_totals (acc_metrics ds)))"
      using False wf [OF that] by (simp only: paired_bases_iff totals_keys) simp
    then show ?thesis unfolding rank_sums_def paired_keys_def by fastforce
  qed (use assms(2) that in \<open>simp add: suf\<close>)
  let ?out = "map (combine_metric_microbatches declared) mss"
  have s: "sum_list (nums ?ks ?out) = sum_list (nums ?ks (concat mss)) \<and> (nums ?ks ?out = [] \<longleftrightarrow> nums ?ks (concat mss) = [])"
    using paired by (intro ranks_total wf) auto
  have t: "sum_list (nums ?kt ?out) = sum_list (nums ?kt (concat mss)) \<and> (nums ?kt ?out = [] \<longleftrightarrow> nums ?kt (concat mss) = [])"
    using paired by (intro ranks_total wf) auto
  have "nums k (concat mss) = [] \<longleftrightarrow> (\<forall>ds\<in>set mss. nums k ds = [])" for k
    by (induction mss) (auto simp: nums_def map_filter_def)
  then have kt: "nums ?kt (concat mss) \<noteq> []" using assms(2,3) unfolding suf by blast
  have m: "map_of (combine_metric_shards declared ?out) b = Some (VFloat (if 0 < sum_list (nums ?kt (concat mss))
     then sum_list (nums ?ks (concat mss)) / sum_list (nums ?kt (concat mss)) else 0))"
    using shards_pair [of ?out b declared] ranks_wf [OF wf] s t kt assms(3) unfolding suf by simp
  have "map (\<lambda>r. case rk_metrics r of None \<Rightarrow> [] | Some m \<Rightarrow> m) results = map (case_option [] (\<lambda>m. m)) (map rk_metrics results)" by simp
  also have "\<dots> = ?out" unfolding assms(4) by simp
  finally have "finalize_fwd_bwd_metrics declared results =
      (case map_of (combine_metric_shards declared ?out) ''loss'' of
         Some v \<Rightarrow> (case to_float v of Inl e \<Rightarrow> Inl e | Inr x \<Rightarrow> Inr (combine_metric_shards declared ?out, x))
       | None \<Rightarrow> Inr (combine_metric_shards declared ?out, \<Sum>r\<leftarrow>results. case rk_avg_loss r of None \<Rightarrow> 0 | Some x \<Rightarrow> x))"
    by (simp add: finalize_fwd_bwd_metrics_def Let_def)
  moreover define x where "x = (if 0 < sum_list (nums ?kt (concat mss))
     then sum_list (nums ?ks (concat mss)) / sum_list (nums ?kt (concat mss)) else 0)"
  ultimately show ?thesis using m [folded x_def] unfolding suf x_def [symmetric] by auto
qed

text \<open>
  An additive metric (declared by a loss function or named \<open>loss_term_*\<close>, \<open>*_sum\<close>, \<open>*_count\<close>)
  is reported as the sum of its values over all microbatches of all ranks, never averaged.
\<close>

theorem summed_metric_exact:
  assumes "\<forall>ds\<in>set mss. \<forall>d\<in>set ds. dict_wf d" and "metric_is_summed declared k"
    and "\<not> endswith k ''.sum''" and "\<not> endswith k ''.tokens''" and "nums (k @ ''.sum'') (concat mss) = []" and "nums k (concat mss) \<noteq> []"
  shows "map_of (combine_metric_shards declared (map (combine_metric_microbatches declared) mss)) k = Some (VFloat (sum_list (nums k (concat mss))))"
proof -
  let ?out = "map (combine_metric_microbatches declared) mss" and ?ks = "k @ METRIC_PAIR_SUM_SUFFIX"
  have suf: "''.sum'' = METRIC_PAIR_SUM_SUFFIX" "''.tokens'' = METRIC_PAIR_TOKENS_SUFFIX"
    by (simp_all add: METRIC_PAIR_SUM_SUFFIX_def METRIC_PAIR_TOKENS_SUFFIX_def)
  have wf: "\<And>ds d. ds \<in> set mss \<Longrightarrow> d \<in> set ds \<Longrightarrow> dict_wf d" using assms(1) by blast
  have s: "sum_list (nums k ?out) = sum_list (nums k (concat mss)) \<and> (nums k ?out = [] \<longleftrightarrow> nums k (concat mss) = [])"
    using assms(2) by (intro ranks_total wf) (auto simp: rank_sums_def)
  have "\<forall>ds\<in>set mss. nums ?ks ds = []" using assms(5) unfolding suf by (induction mss) (auto simp: nums_def map_filter_def)
  then have "sum_list (nums ?ks ?out) = sum_list (nums ?ks (concat mss)) \<and> (nums ?ks ?out = [] \<longleftrightarrow> nums ?ks (concat mss) = [])"
    by (intro ranks_total wf) auto
  then have "nums ?ks ?out = []" using assms(5) unfolding suf by simp
  moreover have "\<And>d. d \<in> set ?out \<Longrightarrow> dict_wf d" by (rule ranks_wf [OF wf])
  ultimately show ?thesis using shards_sum [of ?out declared k] assms(2-6) s unfolding suf by simp
qed

section \<open>Two ranks, three microbatches\<close>

definition ex_mss :: "bag list list" where
  "ex_mss =
     [[[(''loss.sum'', VFloat 6), (''loss.tokens'', VInt 2), (''seq_count'', VInt 1)],
       [(''loss.sum'', VFloat 2), (''loss.tokens'', VInt 2), (''seq_count'', VInt 2)]],
      [[(''loss.sum'', VFloat 4), (''loss.tokens'', VInt 8), (''seq_count'', VInt 3)]]]"

definition ex_results :: "rank_result list" where
  "ex_results = map (\<lambda>ds. \<lparr>rk_metrics = Some (combine_metric_microbatches [] ds), rk_avg_loss = None\<rparr>) ex_mss"

lemma ex_mss_facts:
  "\<forall>ds\<in>set ex_mss. \<forall>d\<in>set ds. dict_wf d"
  "\<forall>ds\<in>set ex_mss. nums (''loss'' @ ''.sum'') ds = [] \<longleftrightarrow> nums (''loss'' @ ''.tokens'') ds = []"
  "nums (''loss'' @ ''.sum'') (concat ex_mss) \<noteq> []"
  "map rk_metrics ex_results = map (\<lambda>ds. Some (combine_metric_microbatches [] ds)) ex_mss"
  "sum_list (nums (''loss'' @ ''.sum'') (concat ex_mss)) = 12" "sum_list (nums (''loss'' @ ''.tokens'') (concat ex_mss)) = 12"
  by (code_simp, code_simp, code_simp, simp add: ex_results_def, code_simp, code_simp)

theorem token_mean_exact_witness:
  "\<exists>metrics. finalize_fwd_bwd_metrics [] ex_results = Inr (metrics, 1) \<and> map_of metrics ''loss'' = Some (VFloat 1)"
  using token_mean_exact [OF ex_mss_facts(1-4)] unfolding ex_mss_facts(5,6) by simp

theorem summed_metric_exact_witness:
  "map_of (combine_metric_shards [] (map (combine_metric_microbatches []) ex_mss)) ''seq_count'' = Some (VFloat 6)"
proof -
  have h: "metric_is_summed [] ''seq_count''" "\<not> endswith ''seq_count'' ''.sum''" "\<not> endswith ''seq_count'' ''.tokens''"
    "nums (''seq_count'' @ ''.sum'') (concat ex_mss) = []" "nums ''seq_count'' (concat ex_mss) \<noteq> []"
    by (code_simp, code_simp, code_simp, code_simp, code_simp)
  have "sum_list (nums ''seq_count'' (concat ex_mss)) = 6" by code_simp
  with summed_metric_exact [OF ex_mss_facts(1) h] show ?thesis by simp
qed

end
