(* ===== verification/Wire.thy ===== *)
theory Wire
  imports Batch_Split "HOL-Library.Word"
begin

text \<open>
  The DSSST1 wire protocol (\<open>wire.py\<close>): a nested Python value is one safetensors frame, whose tensors
  are keyed by their path in the value and whose header holds a skeleton of the rest; frames that are
  too large are cut into self-describing chunks.

  The safetensors library is a record of functions. Its writer produces an 8-byte little-endian header
  length, the header and the tensor bytes. The two JSON texts of the header (the skeleton and the
  metadata of the operation) are represented by the documents they denote; a text whose reading raises
  is that exception. The digest and the fresh group id are arguments.
\<close>

section \<open>Values\<close>

datatype wkey = KStr string | KInt int | KBool bool | KNone | KOther nat

datatype wobj =
    ONone
  | OBool bool
  | OInt int
  | OFloat rat
  | OStr string
  | OTensor dtype tensor
  | OList "wobj list"
  | OTuple "wobj list"
  | ODict "(wkey \<times> wobj) list"
  | OOpaque nat

type_synonym byte = "8 word"

type_synonym tensors = "(string, dtype \<times> tensor) dict"

definition WIRE_FORMAT_VERSION :: string where
  "WIRE_FORMAT_VERSION = ''DSSST1''"

definition PLACEHOLDER_KEY :: string where
  "PLACEHOLDER_KEY = ''__dss_empty__''"

definition ROOT_KEY :: string where
  "ROOT_KEY = ''__root__''"

definition MAX_HEADER_BYTES :: nat where
  "MAX_HEADER_BYTES = 64 * 1024 * 1024"

section \<open>Token prompts\<close>

definition token_tensor :: "int list \<Rightarrow> wobj res" where
  "token_tensor tokens =
     (let t = \<lparr>t_shape = [length tokens], t_data = map of_int tokens\<rparr>
      in if list_all (\<lambda>i. - (2 ^ 31) \<le> i \<and> i < 2 ^ 31) tokens then Inr (OTensor DInt32 t)
         else if list_all (\<lambda>i. - (2 ^ 63) \<le> i \<and> i < 2 ^ 63) tokens then Inr (OTensor DInt64 t)
         else Inl RuntimeError)"

fun int_tokens :: "wobj list \<Rightarrow> int list option" where
  "int_tokens [] = Some []"
| "int_tokens (OInt i # xs) = map_option (\<lambda>r. i # r) (int_tokens xs)"
| "int_tokens (_ # xs) = None"

fun pack_prompts :: "wobj list \<Rightarrow> wobj list res" where
  "pack_prompts [] = Inr []"
| "pack_prompts (p # ps) =
     (case (case p of
              OList xs \<Rightarrow> (case int_tokens xs of
                             Some tokens \<Rightarrow> if tokens \<noteq> [] then token_tensor tokens else Inr p
                           | None \<Rightarrow> Inr p)
            | _ \<Rightarrow> Inr p) of
        Inl e \<Rightarrow> Inl e
      | Inr p' \<Rightarrow> (case pack_prompts ps of Inl e \<Rightarrow> Inl e | Inr ps' \<Rightarrow> Inr (p' # ps')))"

definition pack_token_prompts :: "wobj \<Rightarrow> wobj res" where
  "pack_token_prompts prompts =
     (case prompts of
        OList xs \<Rightarrow>
          if xs = [] then Inr prompts
          else (case int_tokens xs of
                  Some tokens \<Rightarrow> token_tensor tokens
                | None \<Rightarrow> (case pack_prompts xs of Inl e \<Rightarrow> Inl e | Inr ys \<Rightarrow> Inr (OList ys)))
      | _ \<Rightarrow> Inr prompts)"

section \<open>JSON\<close>

definition digit :: "nat \<Rightarrow> char" where
  "digit n = char_of (48 + n)"

fun dec :: "nat \<Rightarrow> string" where
  "dec n = (if n < 10 then [digit n] else dec (n div 10) @ [digit (n mod 10)])"

declare dec.simps [simp del]

fun json_key :: "wkey \<Rightarrow> string res" where
  "json_key (KStr s) = Inr s"
| "json_key (KInt i) = Inr (if i < 0 then CHR ''-'' # dec (nat (- i)) else dec (nat i))"
| "json_key (KBool b) = Inr (if b then ''true'' else ''false'')"
| "json_key KNone = Inr ''null''"
| "json_key (KOther _) = Inl TypeError"

text \<open>The value that \<open>json.loads(json.dumps(x))\<close> gives: tuples become lists and keys become strings.\<close>

fun json_norm :: "wobj \<Rightarrow> wobj res"
and json_norms :: "wobj list \<Rightarrow> wobj list res"
and json_items :: "(wkey \<times> wobj) list \<Rightarrow> (wkey \<times> wobj) list res" where
  "json_norm (OTensor _ _) = Inl TypeError"
| "json_norm (OOpaque _) = Inl TypeError"
| "json_norm (OList xs) = (case json_norms xs of Inl e \<Rightarrow> Inl e | Inr ys \<Rightarrow> Inr (OList ys))"
| "json_norm (OTuple xs) = (case json_norms xs of Inl e \<Rightarrow> Inl e | Inr ys \<Rightarrow> Inr (OList ys))"
| "json_norm (ODict kvs) =
     (case json_items kvs of Inl e \<Rightarrow> Inl e | Inr its \<Rightarrow> Inr (ODict (fold (\<lambda>(k, v) d. AList.update k v d) its [])))"
| "json_norm x = Inr x"
| "json_norms [] = Inr []"
| "json_norms (x # xs) =
     (case json_norm x of Inl e \<Rightarrow> Inl e
      | Inr y \<Rightarrow> (case json_norms xs of Inl e \<Rightarrow> Inl e | Inr ys \<Rightarrow> Inr (y # ys)))"
| "json_items [] = Inr []"
| "json_items ((k, v) # rest) =
     (case json_key k of Inl e \<Rightarrow> Inl e
      | Inr s \<Rightarrow> (case json_norm v of Inl e \<Rightarrow> Inl e
      | Inr w \<Rightarrow> (case json_items rest of Inl e \<Rightarrow> Inl e | Inr r \<Rightarrow> Inr ((KStr s, w) # r))))"

section \<open>The skeleton of a value\<close>

datatype node =
    NTensor string bool
  | NJson wobj
  | NDict "(string \<times> node) list"
  | NList "node list"
  | NTuple "node list"
  | NUnknown string

fun subtree_has_tensor :: "wobj \<Rightarrow> bool"
and any_has_tensor :: "wobj list \<Rightarrow> bool"
and items_have_tensor :: "(wkey \<times> wobj) list \<Rightarrow> bool" where
  "subtree_has_tensor (OTensor _ _) = True"
| "subtree_has_tensor (ODict kvs) = items_have_tensor kvs"
| "subtree_has_tensor (OList xs) = any_has_tensor xs"
| "subtree_has_tensor (OTuple xs) = any_has_tensor xs"
| "subtree_has_tensor _ = False"
| "any_has_tensor [] = False"
| "any_has_tensor (x # xs) = (subtree_has_tensor x \<or> any_has_tensor xs)"
| "items_have_tensor [] = False"
| "items_have_tensor ((k, v) # rest) = (subtree_has_tensor v \<or> items_have_tensor rest)"

definition child_path :: "string \<Rightarrow> string \<Rightarrow> string" where
  "child_path path k = (if path \<noteq> [] then path @ ''.'' @ k else k)"

definition tensor_key :: "string \<Rightarrow> string" where
  "tensor_key path = (if path \<noteq> [] then path else ROOT_KEY)"

fun encode :: "wobj \<Rightarrow> tensors \<Rightarrow> string \<Rightarrow> (node \<times> tensors) res"
and encode_items :: "(wkey \<times> wobj) list \<Rightarrow> tensors \<Rightarrow> string \<Rightarrow> ((string \<times> node) list \<times> tensors) res"
and encode_seq :: "wobj list \<Rightarrow> nat \<Rightarrow> tensors \<Rightarrow> string \<Rightarrow> (node list \<times> tensors) res" where
  "encode (OTensor d t) ts path =
     (if t_ndim t = 0
      then Inr (NTensor (tensor_key path) True, AList.update (tensor_key path) (d, t_reshape [1] t) ts)
      else Inr (NTensor (tensor_key path) False, AList.update (tensor_key path) (d, t) ts))"
| "encode (ODict kvs) ts path =
     (if \<not> items_have_tensor kvs then Inr (NJson (ODict kvs), ts)
      else (case encode_items kvs ts path of Inl e \<Rightarrow> Inl e | Inr (its, ts') \<Rightarrow> Inr (NDict its, ts')))"
| "encode (OTuple xs) ts path =
     (case encode_seq xs 0 ts path of Inl e \<Rightarrow> Inl e | Inr (ns, ts') \<Rightarrow> Inr (NTuple ns, ts'))"
| "encode (OList xs) ts path =
     (if \<not> any_has_tensor xs then Inr (NJson (OList xs), ts)
      else (case encode_seq xs 0 ts path of Inl e \<Rightarrow> Inl e | Inr (ns, ts') \<Rightarrow> Inr (NList ns, ts')))"
| "encode x ts path = Inr (NJson x, ts)"
| "encode_items [] ts path = Inr ([], ts)"
| "encode_items ((k, v) # rest) ts path =
     (case k of
        KStr s \<Rightarrow>
          (case encode v ts (child_path path s) of Inl e \<Rightarrow> Inl e
           | Inr (n, ts1) \<Rightarrow>
               (case encode_items rest ts1 path of Inl e \<Rightarrow> Inl e | Inr (its, ts2) \<Rightarrow> Inr ((s, n) # its, ts2)))
      | _ \<Rightarrow> Inl WireError)"
| "encode_seq [] i ts path = Inr ([], ts)"
| "encode_seq (x # xs) i ts path =
     (case encode x ts (child_path path (dec i)) of Inl e \<Rightarrow> Inl e
      | Inr (n, ts1) \<Rightarrow>
          (case encode_seq xs (Suc i) ts1 path of Inl e \<Rightarrow> Inl e | Inr (ns, ts2) \<Rightarrow> Inr (n # ns, ts2)))"

text \<open>What the skeleton is after it went through JSON text.\<close>

fun norm_node :: "node \<Rightarrow> node res"
and norm_nodes :: "node list \<Rightarrow> node list res"
and norm_items :: "(string \<times> node) list \<Rightarrow> (string \<times> node) list res" where
  "norm_node (NJson x) = (case json_norm x of Inl e \<Rightarrow> Inl e | Inr y \<Rightarrow> Inr (NJson y))"
| "norm_node (NDict its) = (case norm_items its of Inl e \<Rightarrow> Inl e | Inr r \<Rightarrow> Inr (NDict r))"
| "norm_node (NList ns) = (case norm_nodes ns of Inl e \<Rightarrow> Inl e | Inr r \<Rightarrow> Inr (NList r))"
| "norm_node (NTuple ns) = (case norm_nodes ns of Inl e \<Rightarrow> Inl e | Inr r \<Rightarrow> Inr (NTuple r))"
| "norm_node n = Inr n"
| "norm_nodes [] = Inr []"
| "norm_nodes (n # ns) =
     (case norm_node n of Inl e \<Rightarrow> Inl e
      | Inr m \<Rightarrow> (case norm_nodes ns of Inl e \<Rightarrow> Inl e | Inr ms \<Rightarrow> Inr (m # ms)))"
| "norm_items [] = Inr []"
| "norm_items ((k, n) # its) =
     (case norm_node n of Inl e \<Rightarrow> Inl e
      | Inr m \<Rightarrow> (case norm_items its of Inl e \<Rightarrow> Inl e | Inr r \<Rightarrow> Inr ((k, m) # r)))"

fun decode :: "node \<Rightarrow> tensors \<Rightarrow> wobj res"
and decode_nodes :: "node list \<Rightarrow> tensors \<Rightarrow> wobj list res"
and decode_items :: "(string \<times> node) list \<Rightarrow> tensors \<Rightarrow> (wkey \<times> wobj) list res" where
  "decode (NTensor key scalar) T =
     (case map_of T key of
        None \<Rightarrow> Inl KeyError
      | Some (d, t) \<Rightarrow>
          if \<not> scalar then Inr (OTensor d t)
          else if length (t_data t) = 1 then Inr (OTensor d (t_reshape [] t))
          else Inl RuntimeError)"
| "decode (NJson x) T = Inr x"
| "decode (NDict its) T =
     (case decode_items its T of Inl e \<Rightarrow> Inl e | Inr kvs \<Rightarrow> Inr (ODict (fold (\<lambda>(k, v) d. AList.update k v d) kvs [])))"
| "decode (NList ns) T = (case decode_nodes ns T of Inl e \<Rightarrow> Inl e | Inr xs \<Rightarrow> Inr (OList xs))"
| "decode (NTuple ns) T = (case decode_nodes ns T of Inl e \<Rightarrow> Inl e | Inr xs \<Rightarrow> Inr (OTuple xs))"
| "decode (NUnknown tag) T = Inl WireError"
| "decode_nodes [] T = Inr []"
| "decode_nodes (n # ns) T =
     (case decode n T of Inl e \<Rightarrow> Inl e
      | Inr x \<Rightarrow> (case decode_nodes ns T of Inl e \<Rightarrow> Inl e | Inr xs \<Rightarrow> Inr (x # xs)))"
| "decode_items [] T = Inr []"
| "decode_items ((k, n) # its) T =
     (case decode n T of Inl e \<Rightarrow> Inl e
      | Inr x \<Rightarrow> (case decode_items its T of Inl e \<Rightarrow> Inl e | Inr kvs \<Rightarrow> Inr ((KStr k, x) # kvs)))"

section \<open>Frames\<close>

record header =
  h_dss :: "(string \<times> node) res option"
  h_op :: "wobj res option"

text \<open>
  The third-party library: writing a frame (it may refuse), reading its tensors, and the JSON document of the header
  bytes (its \<open>__metadata__\<close> entry), absent when the bytes are not such a text.
\<close>

record codec =
  st_save :: "tensors \<Rightarrow> header \<Rightarrow> byte list option"
  st_load :: "byte list \<Rightarrow> tensors option"
  header_json :: "byte list \<Rightarrow> header option"

definition placeholder :: tensors where
  "placeholder = [(PLACEHOLDER_KEY, DUint8, \<lparr>t_shape = [1], t_data = [0]\<rparr>)]"

definition save_frame :: "codec \<Rightarrow> tensors \<Rightarrow> header \<Rightarrow> byte list res" where
  "save_frame C ts h = (case st_save C ts h of None \<Rightarrow> Inl SafetensorError | Some data \<Rightarrow> Inr data)"

definition dumps :: "codec \<Rightarrow> wobj \<Rightarrow> (wkey \<times> wobj) list \<Rightarrow> byte list res" where
  "dumps C obj metadata =
     (case encode obj [] [] of
        Inl e \<Rightarrow> Inl e
      | Inr (tree, ts) \<Rightarrow>
          (case norm_node tree of
             Inl e \<Rightarrow> Inl e
           | Inr tree' \<Rightarrow>
               (let ts' = (if ts = [] then placeholder else ts);
                    dss = Some (Inr (WIRE_FORMAT_VERSION, tree'))
                in if metadata = [] then save_frame C ts' \<lparr>h_dss = dss, h_op = None\<rparr>
                   else (case json_norm (ODict metadata) of
                           Inl e \<Rightarrow> Inl e
                         | Inr m \<Rightarrow> save_frame C ts' \<lparr>h_dss = dss, h_op = Some (Inr m)\<rparr>))))"

definition le_nat :: "byte list \<Rightarrow> nat" where
  "le_nat bs = foldr (\<lambda>b n. unat b + 256 * n) bs 0"

definition header_len :: "byte list \<Rightarrow> nat" where
  "header_len data = le_nat (take 8 data)"

definition read_header :: "codec \<Rightarrow> byte list \<Rightarrow> header res" where
  "read_header C data =
     (if length data < 8 then Inl WireError
      else (let n = header_len data
            in if n = 0 \<or> length data < 8 + n \<or> MAX_HEADER_BYTES < n then Inl WireError
               else (case header_json C (take n (drop 8 data)) of None \<Rightarrow> Inl ValueError | Some h \<Rightarrow> Inr h)))"

text \<open>A payload that is no safetensors frame is refused, a pickle among them; nothing of it is executed.\<close>

definition loads :: "codec \<Rightarrow> byte list \<Rightarrow> wobj res" where
  "loads C data =
     (case (st_load C data, read_header C data) of
        (Some ts, Inr h) \<Rightarrow>
          (case h_dss h of
             None \<Rightarrow> Inl WireError
           | Some (Inl e) \<Rightarrow> Inl e
           | Some (Inr (v, tree)) \<Rightarrow>
               if v \<noteq> WIRE_FORMAT_VERSION then Inl WireError else decode tree (AList.delete PLACEHOLDER_KEY ts))
      | _ \<Rightarrow> Inl WireError)"

definition read_metadata :: "codec \<Rightarrow> byte list \<Rightarrow> wobj res" where
  "read_metadata C data =
     (case read_header C data of
        Inl e \<Rightarrow> Inr (ODict [])
      | Inr h \<Rightarrow> (case h_op h of None \<Rightarrow> Inr (ODict []) | Some r \<Rightarrow> r))"

section \<open>Chunks\<close>

definition REQUEST_CHUNK_KEY :: string where
  "REQUEST_CHUNK_KEY = ''request_chunk''"

definition RESULT_CHUNK_KEY :: string where
  "RESULT_CHUNK_KEY = ''result_chunk''"

definition CHUNK_PAYLOAD_KEY :: string where
  "CHUNK_PAYLOAD_KEY = ''payload''"

definition DEFAULT_CHUNK_OVERHEAD_BYTES :: nat where
  "DEFAULT_CHUNK_OVERHEAD_BYTES = 8192"

definition chunk_key :: "string \<Rightarrow> string res" where
  "chunk_key kind =
     (if kind = ''request'' then Inr REQUEST_CHUNK_KEY
      else if kind = ''result'' then Inr RESULT_CHUNK_KEY
      else Inl WireError)"

definition bytes_to_tensor :: "byte list \<Rightarrow> wobj" where
  "bytes_to_tensor bs = OTensor DUint8 \<lparr>t_shape = [length bs], t_data = map (\<lambda>b. of_nat (unat b)) bs\<rparr>"

definition tensor_to_bytes :: "wobj \<Rightarrow> byte list res" where
  "tensor_to_bytes x =
     (case x of
        OTensor d t \<Rightarrow>
          if d \<noteq> DUint8 then Inl WireError
          else if t_ndim t \<noteq> 1 then Inl WireError
          else Inr (map (\<lambda>v. word_of_int (to_long v)) (t_data t))
      | _ \<Rightarrow> Inl WireError)"

text \<open>The descriptor of a chunk.\<close>

definition chunk_desc :: "string \<Rightarrow> nat \<Rightarrow> string option \<Rightarrow> string option \<Rightarrow> nat \<Rightarrow> nat \<Rightarrow> (wkey \<times> wobj) list" where
  "chunk_desc digest nbytes grp operation idx total_n =
     [(KStr ''chunk_idx'', OInt (int idx)), (KStr ''total_chunks'', OInt (int total_n)),
      (KStr ''frame_sha256'', OStr digest), (KStr ''frame_size_bytes'', OInt (int nbytes))] @
     (case grp of None \<Rightarrow> [] | Some g \<Rightarrow> [(KStr ''chunk_group_id'', OStr g)]) @
     (case operation of None \<Rightarrow> [] | Some op \<Rightarrow> [(KStr ''operation'', OStr op)])"

definition make_byte_chunk_frame ::
  "codec \<Rightarrow> (byte list \<Rightarrow> string) \<Rightarrow> byte list \<Rightarrow> string \<Rightarrow> string option \<Rightarrow> string option \<Rightarrow> nat \<Rightarrow> nat \<Rightarrow> nat \<Rightarrow> nat \<Rightarrow> byte list res" where
  "make_byte_chunk_frame C sha frame kind operation grp idx total_n start stop =
     (case chunk_key kind of
        Inl e \<Rightarrow> Inl e
      | Inr key \<Rightarrow>
          dumps C (ODict [(KStr CHUNK_PAYLOAD_KEY, bytes_to_tensor (take (stop - start) (drop start frame)))])
            [(KStr key, ODict (chunk_desc (sha frame) (length frame) grp operation idx total_n))])"

text \<open>The byte ranges for a payload size: at least one, possibly empty.\<close>

definition ranges :: "nat \<Rightarrow> nat \<Rightarrow> (nat \<times> nat) list" where
  "ranges p n =
     (let rs = map (\<lambda>i. (i * p, min (i * p + p) n)) [0..<(n + p - 1) div p] in if rs = [] then [(0, 0)] else rs)"

fun make_chunks ::
  "codec \<Rightarrow> (byte list \<Rightarrow> string) \<Rightarrow> byte list \<Rightarrow> string \<Rightarrow> string option \<Rightarrow> string option \<Rightarrow> nat \<Rightarrow> (nat \<times> nat \<times> nat) list \<Rightarrow> byte list list res" where
  "make_chunks C sha frame kind operation grp total_n [] = Inr []"
| "make_chunks C sha frame kind operation grp total_n ((i, a, b) # rs) =
     (case make_byte_chunk_frame C sha frame kind operation grp i total_n a b of Inl e \<Rightarrow> Inl e
      | Inr c \<Rightarrow> (case make_chunks C sha frame kind operation grp total_n rs of Inl e \<Rightarrow> Inl e | Inr cs \<Rightarrow> Inr (c # cs)))"

text \<open>The sizing loop: halve the payload until every frame fits.\<close>

function chunk_loop ::
  "codec \<Rightarrow> (byte list \<Rightarrow> string) \<Rightarrow> byte list \<Rightarrow> string \<Rightarrow> string option \<Rightarrow> string option \<Rightarrow> nat \<Rightarrow> nat \<Rightarrow> byte list list res" where
  "chunk_loop C sha frame kind operation grp max_bytes p =
     (let rs = ranges p (length frame)
      in case make_chunks C sha frame kind operation grp (length rs) (enumerate_from 0 rs) of
           Inl e \<Rightarrow> Inl e
         | Inr cks \<Rightarrow>
             if list_all (\<lambda>c. length c \<le> max_bytes) cks then Inr cks
             else if p \<le> 1 then Inl WireError
             else chunk_loop C sha frame kind operation grp max_bytes (max 1 (p div 2)))"
  by pat_completeness auto
termination
  by (relation "measure (\<lambda>(C, sha, frame, kind, operation, grp, max_bytes, p). p)") auto

declare chunk_loop.simps [simp del]

definition encode_byte_chunks ::
  "codec \<Rightarrow> (byte list \<Rightarrow> string) \<Rightarrow> string \<Rightarrow> byte list \<Rightarrow> string \<Rightarrow> string option \<Rightarrow> int \<Rightarrow> string option \<Rightarrow> bool \<Rightarrow> byte list list res" where
  "encode_byte_chunks C sha fresh frame kind operation max_bytes chunk_group_id force_chunk =
     (if \<not> force_chunk \<and> (max_bytes \<le> 0 \<or> int (length frame) \<le> max_bytes) then Inr [frame]
      else if 0 < max_bytes \<and> max_bytes \<le> int DEFAULT_CHUNK_OVERHEAD_BYTES then Inl WireError
      else (let grp = (if kind = ''request''
                         then (case chunk_group_id of
                                 Some g \<Rightarrow> if g \<noteq> [] then Some g else Some fresh
                               | None \<Rightarrow> Some fresh)
                         else None)
            in if max_bytes \<le> 0
               then (case make_byte_chunk_frame C sha frame kind operation grp 0 1 0 (length frame) of
                       Inl e \<Rightarrow> Inl e | Inr c \<Rightarrow> Inr [c])
               else chunk_loop C sha frame kind operation grp (nat max_bytes) (nat max_bytes - DEFAULT_CHUNK_OVERHEAD_BYTES)))"

section \<open>Reassembly\<close>

abbreviation dget :: "(wkey \<times> wobj) list \<Rightarrow> string \<Rightarrow> wobj" where
  "dget d k \<equiv> dict_get d (KStr k) ONone"

fun as_desc :: "wobj \<Rightarrow> (wkey \<times> wobj) list res" where
  "as_desc (ODict d) = Inr d"
| "as_desc (OList []) = Inr []"
| "as_desc (OStr s) = (if s = [] then Inr [] else Inl ValueError)"
| "as_desc _ = Inl TypeError"

definition read_byte_chunk_metadata :: "codec \<Rightarrow> byte list \<Rightarrow> (wkey \<times> wobj) list option res" where
  "read_byte_chunk_metadata C frame =
     (case read_metadata C frame of
        Inl e \<Rightarrow> Inl e
      | Inr (ODict m) \<Rightarrow>
          (case map_of m (KStr REQUEST_CHUNK_KEY) of
             Some v \<Rightarrow> (case as_desc v of Inl e \<Rightarrow> Inl e | Inr d \<Rightarrow> Inr (Some (AList.update (KStr ''kind'') (OStr ''request'') d)))
           | None \<Rightarrow>
               (case map_of m (KStr RESULT_CHUNK_KEY) of
                  Some v \<Rightarrow> (case as_desc v of Inl e \<Rightarrow> Inl e | Inr d \<Rightarrow> Inr (Some (AList.update (KStr ''kind'') (OStr ''result'') d)))
                | None \<Rightarrow> Inr None))
      | Inr _ \<Rightarrow> Inl TypeError)"

fun to_int :: "wobj \<Rightarrow> int res" where
  "to_int (OInt i) = Inr i"
| "to_int (OBool b) = Inr (if b then 1 else 0)"
| "to_int (OFloat x) = Inr (to_long x)"
| "to_int (OStr _) = Inl ValueError"
| "to_int _ = Inl TypeError"

text \<open>What the first descriptor announces for the whole group.\<close>

record group_info =
  gi_kind :: wobj
  gi_total :: int
  gi_sha :: wobj
  gi_size :: int
  gi_group :: wobj
  gi_operation :: wobj

fun read_descriptors :: "codec \<Rightarrow> byte list list \<Rightarrow> (wkey \<times> wobj) list option list res" where
  "read_descriptors C [] = Inr []"
| "read_descriptors C (c # cs) =
     (case read_byte_chunk_metadata C c of Inl e \<Rightarrow> Inl e
      | Inr d \<Rightarrow> (case read_descriptors C cs of Inl e \<Rightarrow> Inl e | Inr ds \<Rightarrow> Inr (d # ds)))"

definition check_chunk :: "codec \<Rightarrow> group_info \<Rightarrow> int list \<Rightarrow> byte list \<Rightarrow> (wkey \<times> wobj) list \<Rightarrow> (int \<times> byte list) res" where
  "check_chunk C g seen chunk d =
     (if dget d ''kind'' \<noteq> gi_kind g then Inl WireError
      else (case to_int (dget d ''total_chunks'') of Inl e \<Rightarrow> Inl e
      | Inr n \<Rightarrow> if n \<noteq> gi_total g then Inl WireError
      else if dget d ''frame_sha256'' \<noteq> gi_sha g then Inl WireError
      else (case to_int (dget d ''frame_size_bytes'') of Inl e \<Rightarrow> Inl e
      | Inr sz \<Rightarrow> if sz \<noteq> gi_size g then Inl WireError
      else if dget d ''chunk_group_id'' \<noteq> gi_group g then Inl WireError
      else if dget d ''operation'' \<noteq> gi_operation g then Inl WireError
      else (case to_int (dget d ''chunk_idx'') of Inl e \<Rightarrow> Inl e
      | Inr idx \<Rightarrow> if idx < 0 \<or> gi_total g \<le> idx then Inl WireError
      else if idx \<in> set seen then Inl WireError
      else (case loads C chunk of Inl e \<Rightarrow> Inl e
      | Inr (ODict kvs) \<Rightarrow> (case tensor_to_bytes (dget kvs CHUNK_PAYLOAD_KEY) of Inl e \<Rightarrow> Inl e | Inr bs \<Rightarrow> Inr (idx, bs))
      | Inr _ \<Rightarrow> Inl AttributeError)))))"

fun gather :: "codec \<Rightarrow> group_info \<Rightarrow> (byte list \<times> (wkey \<times> wobj) list) list \<Rightarrow> (int \<times> byte list) list \<Rightarrow> (int \<times> byte list) list res" where
  "gather C g [] ordered = Inr ordered"
| "gather C g ((c, d) # rest) ordered =
     (case check_chunk C g (map fst ordered) c d of Inl e \<Rightarrow> Inl e | Inr ib \<Rightarrow> gather C g rest (ordered @ [ib]))"

definition reassemble :: "codec \<Rightarrow> (byte list \<Rightarrow> string) \<Rightarrow> group_info \<Rightarrow> byte list list \<Rightarrow> (wkey \<times> wobj) list list \<Rightarrow> byte list res" where
  "reassemble C sha g cks ds =
     (if int (length cks) \<noteq> gi_total g then Inl WireError
      else (case gather C g (zip cks ds) [] of
              Inl e \<Rightarrow> Inl e
            | Inr ordered \<Rightarrow>
                if set (map fst ordered) \<noteq> int ` {0..<nat (gi_total g)} then Inl WireError
                else (let frame = concat (map snd (sort_key fst ordered))
                      in if int (length frame) \<noteq> gi_size g then Inl WireError
                         else if OStr (sha frame) \<noteq> gi_sha g then Inl WireError
                         else Inr frame)))"

definition decode_byte_chunks :: "codec \<Rightarrow> (byte list \<Rightarrow> string) \<Rightarrow> byte list list \<Rightarrow> string option \<Rightarrow> byte list res" where
  "decode_byte_chunks C sha cks kind =
     (if cks = [] then Inl WireError
      else if length cks = 1 \<and> read_byte_chunk_metadata C (hd cks) = Inr None then Inr (hd cks)
      else (case read_descriptors C cks of
              Inl e \<Rightarrow> Inl e
            | Inr os \<Rightarrow>
                if None \<in> set os then Inl WireError
                else (let ds = map the os; d0 = hd ds
                      in if (case kind of None \<Rightarrow> False | Some k \<Rightarrow> dget d0 ''kind'' \<noteq> OStr k) then Inl WireError
                         else (case to_int (dget d0 ''total_chunks'') of Inl e \<Rightarrow> Inl e
                               | Inr n \<Rightarrow>
                                   (case to_int (dget d0 ''frame_size_bytes'') of Inl e \<Rightarrow> Inl e
                                    | Inr sz \<Rightarrow>
                                        reassemble C sha
                                          \<lparr>gi_kind = dget d0 ''kind'', gi_total = n, gi_sha = dget d0 ''frame_sha256'', gi_size = sz,
                                           gi_group = dget d0 ''chunk_group_id'', gi_operation = dget d0 ''operation''\<rparr> cks ds)))))"

definition encode_result_chunks :: "codec \<Rightarrow> (byte list \<Rightarrow> string) \<Rightarrow> string \<Rightarrow> wobj \<Rightarrow> int \<Rightarrow> byte list list res" where
  "encode_result_chunks C sha fresh result max_bytes =
     (case dumps C result [] of Inl e \<Rightarrow> Inl e
      | Inr frame \<Rightarrow> encode_byte_chunks C sha fresh frame ''result'' None max_bytes None False)"

definition decode_result_chunks :: "codec \<Rightarrow> (byte list \<Rightarrow> string) \<Rightarrow> byte list list \<Rightarrow> wobj res" where
  "decode_result_chunks C sha cks =
     (case decode_byte_chunks C sha cks (Some ''result'') of Inl e \<Rightarrow> Inl e | Inr frame \<Rightarrow> loads C frame)"

section \<open>Values that survive JSON\<close>

text \<open>
  \<open>plain\<close>: JSON gives the value back (string keys, no tuples). \<open>clean\<close>: the value is a tree of dicts,
  lists and tuples over well-formed tensors whose tensor-free dicts and lists are plain.
\<close>

fun plain :: "wobj \<Rightarrow> bool"
and plains :: "wobj list \<Rightarrow> bool"
and plain_items :: "(wkey \<times> wobj) list \<Rightarrow> bool" where
  "plain (OTensor _ _) = False"
| "plain (OOpaque _) = False"
| "plain (OTuple _) = False"
| "plain (OList xs) = plains xs"
| "plain (ODict kvs) = (distinct (map fst kvs) \<and> plain_items kvs)"
| "plain x = True"
| "plains [] = True"
| "plains (x # xs) = (plain x \<and> plains xs)"
| "plain_items [] = True"
| "plain_items ((k, v) # rest) = ((case k of KStr _ \<Rightarrow> True | _ \<Rightarrow> False) \<and> plain v \<and> plain_items rest)"

fun clean :: "wobj \<Rightarrow> bool"
and cleans :: "wobj list \<Rightarrow> bool"
and clean_items :: "(wkey \<times> wobj) list \<Rightarrow> bool" where
  "clean (OTensor d t) = tensor_wf t"
| "clean (OOpaque _) = False"
| "clean (OTuple xs) = cleans xs"
| "clean (OList xs) = (if any_has_tensor xs then cleans xs else plains xs)"
| "clean (ODict kvs) = (distinct (map fst kvs) \<and> (if items_have_tensor kvs then clean_items kvs else plain_items kvs))"
| "clean x = True"
| "cleans [] = True"
| "cleans (x # xs) = (clean x \<and> cleans xs)"
| "clean_items [] = True"
| "clean_items ((k, v) # rest) = ((case k of KStr _ \<Rightarrow> True | _ \<Rightarrow> False) \<and> clean v \<and> clean_items rest)"

text \<open>The keys under which the tensors of a value are stored, in the order of encoding.\<close>

fun paths :: "wobj \<Rightarrow> string \<Rightarrow> string list"
and paths_items :: "(wkey \<times> wobj) list \<Rightarrow> string \<Rightarrow> string list"
and paths_seq :: "wobj list \<Rightarrow> nat \<Rightarrow> string \<Rightarrow> string list" where
  "paths (OTensor d t) path = [tensor_key path]"
| "paths (ODict kvs) path = paths_items kvs path"
| "paths (OTuple xs) path = paths_seq xs 0 path"
| "paths (OList xs) path = paths_seq xs 0 path"
| "paths x path = []"
| "paths_items [] path = []"
| "paths_items ((k, v) # rest) path = (case k of KStr s \<Rightarrow> paths v (child_path path s) | _ \<Rightarrow> []) @ paths_items rest path"
| "paths_seq [] i path = []"
| "paths_seq (x # xs) i path = paths x (child_path path (dec i)) @ paths_seq xs (Suc i) path"

lemma fold_update_distinct:
  "distinct (map fst (d @ kvs)) \<Longrightarrow> fold (\<lambda>(k, v) d. AList.update k v d) kvs d = d @ kvs"
proof (induction kvs arbitrary: d)
  case (Cons kv kvs)
  then have "AList.update (fst kv) (snd kv) d = d @ [kv]" by (cases kv) (simp add: update_new)
  with Cons show ?case by (simp add: split_def)
qed simp

lemma json_norm_plain:
  "plain x \<Longrightarrow> json_norm x = Inr x"
  "plains xs \<Longrightarrow> json_norms xs = Inr xs"
  "plain_items kvs \<Longrightarrow> json_items kvs = Inr kvs"
  by (induction x and xs and kvs rule: plain_plains_plain_items.induct)
    (auto simp: fold_update_distinct [of "[]", simplified] split: wkey.splits)

lemma no_tensor_paths:
  "\<not> subtree_has_tensor x \<Longrightarrow> paths x path = []"
  "\<not> items_have_tensor kvs \<Longrightarrow> paths_items kvs path = []"
  "\<not> any_has_tensor xs \<Longrightarrow> paths_seq xs i path = []"
  by (induction x path and kvs path and xs i path rule: paths_paths_items_paths_seq.induct) (auto split: wkey.splits)

section \<open>Encoding and decoding the skeleton\<close>

definition holds :: "tensors \<Rightarrow> tensors \<Rightarrow> bool" where
  "holds T new \<longleftrightarrow> (\<forall>kv\<in>set new. map_of T (fst kv) = Some (snd kv))"

lemma holds_append [simp]: "holds T (a @ b) \<longleftrightarrow> holds T a \<and> holds T b"
  by (auto simp: holds_def)

lemma encode_tensor:
  assumes "tensor_wf t" and "distinct (keys ts @ paths (OTensor d t) path)"
  shows "\<exists>n new. encode (OTensor d t) ts path = Inr (n, ts @ new) \<and> keys new = paths (OTensor d t) path \<and> norm_node n = Inr n \<and>
    (\<forall>T. holds T new \<longrightarrow> decode n T = Inr (OTensor d t))"
proof -
  have new: "AList.update (tensor_key path) v ts = ts @ [(tensor_key path, v)]" for v using assms(2) by (simp add: update_new)
  show ?thesis
  proof (cases "t_shape t")
    case Nil
    then have "length (t_data t) = 1" using assms(1) by (simp add: tensor_wf_def)
    with Nil show ?thesis by (simp add: new holds_def t_reshape_def)
  qed (simp add: new holds_def)
qed

lemma encode_json:
  assumes "plain x"
  shows "\<exists>n new. Inr (NJson x, ts) = Inr (n, ts @ new) \<and> keys new = [] \<and> norm_node n = Inr n \<and> (\<forall>T. holds T new \<longrightarrow> decode n T = Inr x)"
  using json_norm_plain(1) [OF assms] by (intro exI [of _ "NJson x"] exI [of _ "[]"]) simp

lemma encode_spec:
  "clean x \<Longrightarrow> distinct (keys ts @ paths x path) \<Longrightarrow>
     \<exists>n new. encode x ts path = Inr (n, ts @ new) \<and> keys new = paths x path \<and> norm_node n = Inr n \<and>
       (\<forall>T. holds T new \<longrightarrow> decode n T = Inr x)"
  "clean_items kvs \<Longrightarrow> distinct (keys ts @ paths_items kvs path) \<Longrightarrow>
     \<exists>its new. encode_items kvs ts path = Inr (its, ts @ new) \<and> keys new = paths_items kvs path \<and> norm_items its = Inr its \<and>
       (\<forall>T. holds T new \<longrightarrow> decode_items its T = Inr kvs)"
  "cleans xs \<Longrightarrow> distinct (keys ts @ paths_seq xs i path) \<Longrightarrow>
     \<exists>ns new. encode_seq xs i ts path = Inr (ns, ts @ new) \<and> keys new = paths_seq xs i path \<and> norm_nodes ns = Inr ns \<and>
       (\<forall>T. holds T new \<longrightarrow> decode_nodes ns T = Inr xs)"
proof (induction x ts path and kvs ts path and xs i ts path rule: encode_encode_items_encode_seq.induct)
  case (1 d t ts path)
  then show ?case using encode_tensor by simp
next
  case (2 kvs ts path)
  show ?case
  proof (cases "items_have_tensor kvs")
    case True
    with 2 obtain its new where r: "encode_items kvs ts path = Inr (its, ts @ new)" "keys new = paths_items kvs path" "norm_items its = Inr its"
      "\<forall>T. holds T new \<longrightarrow> decode_items its T = Inr kvs" by auto
    have "distinct (map fst kvs)" using "2.prems"(1) by simp
    then show ?thesis using True r by (auto simp: fold_update_distinct [of "[]", simplified])
  next
    case False
    then show ?thesis using "2.prems"(1) encode_json [of "ODict kvs" ts] no_tensor_paths(2) by simp
  qed
next
  case (3 xs ts path)
  then obtain ns new where "encode_seq xs 0 ts path = Inr (ns, ts @ new)" "keys new = paths_seq xs 0 path" "norm_nodes ns = Inr ns"
    "\<forall>T. holds T new \<longrightarrow> decode_nodes ns T = Inr xs" by auto
  then show ?case by auto
next
  case (4 xs ts path)
  show ?case
  proof (cases "any_has_tensor xs")
    case True
    with 4 obtain ns new where "encode_seq xs 0 ts path = Inr (ns, ts @ new)" "keys new = paths_seq xs 0 path" "norm_nodes ns = Inr ns"
      "\<forall>T. holds T new \<longrightarrow> decode_nodes ns T = Inr xs" by auto
    with True show ?thesis by auto
  next
    case False
    then show ?thesis using "4.prems"(1) encode_json [of "OList xs" ts] no_tensor_paths(3) by simp
  qed
next
  case (7 k v rest ts path)
  from "7.prems"(1) obtain s where k: "k = KStr s" by (cases k) auto
  let ?p = "child_path path s"
  from 7 k have "clean v" "distinct (keys ts @ paths v ?p)" by auto
  with 7(1) [OF k] obtain n new where n: "encode v ts ?p = Inr (n, ts @ new)" "keys new = paths v ?p" "norm_node n = Inr n"
    "\<forall>T. holds T new \<longrightarrow> decode n T = Inr v" by blast
  have "clean_items rest" "distinct (keys (ts @ new) @ paths_items rest path)" using "7.prems" k n(2) by auto
  with 7(2) [OF k n(1)] obtain its new' where "encode_items rest (ts @ new) path = Inr (its, (ts @ new) @ new')"
    "keys new' = paths_items rest path" "norm_items its = Inr its" "\<forall>T. holds T new' \<longrightarrow> decode_items its T = Inr rest" by auto
  then show ?case using n k by auto
next
  case (9 x xs i ts path)
  let ?p = "child_path path (dec i)"
  from 9 have "clean x" "distinct (keys ts @ paths x ?p)" by auto
  with 9(1) obtain n new where n: "encode x ts ?p = Inr (n, ts @ new)" "keys new = paths x ?p" "norm_node n = Inr n"
    "\<forall>T. holds T new \<longrightarrow> decode n T = Inr x" by blast
  have "cleans xs" "distinct (keys (ts @ new) @ paths_seq xs (Suc i) path)" using "9.prems" n(2) by auto
  with 9(2) [OF n(1)] obtain ns new' where "encode_seq xs (Suc i) (ts @ new) path = Inr (ns, (ts @ new) @ new')"
    "keys new' = paths_seq xs (Suc i) path" "norm_nodes ns = Inr ns" "\<forall>T. holds T new' \<longrightarrow> decode_nodes ns T = Inr xs" by auto
  then show ?case using n by auto
qed auto

section \<open>The library's contract and the round trip of a frame\<close>

text \<open>
  What the code relies on: a frame that was written starts with the length of its header, the header
  bytes denote the metadata that was given, and loading returns the tensors that were given, in any order.
\<close>

definition codec_ok :: "codec \<Rightarrow> bool" where
  "codec_ok C \<longleftrightarrow>
     (\<forall>ts h data. st_save C ts h = Some data \<longrightarrow> distinct (keys ts) \<longrightarrow>
        (\<exists>ts'. st_load C data = Some ts' \<and> map_of ts' = map_of ts) \<and>
        8 \<le> length data \<and> 0 < header_len data \<and> 8 + header_len data \<le> length data \<and>
        header_json C (take (header_len data) (drop 8 data)) = Some h)"

lemma saved_frame:
  assumes "codec_ok C" and "save_frame C ts h = Inr data" and "distinct (keys ts)"
  shows "(\<exists>ts'. st_load C data = Some ts' \<and> map_of ts' = map_of ts) \<and> (header_len data \<le> MAX_HEADER_BYTES \<longrightarrow> read_header C data = Inr h)"
proof -
  have "st_save C ts h = Some data" using assms(2) by (simp add: save_frame_def split: option.splits)
  with assms(1,3) have "(\<exists>ts'. st_load C data = Some ts' \<and> map_of ts' = map_of ts)" "8 \<le> length data" "0 < header_len data"
    "8 + header_len data \<le> length data" "header_json C (take (header_len data) (drop 8 data)) = Some h"
    unfolding codec_ok_def by blast+
  then show ?thesis by (auto simp: read_header_def Let_def)
qed

lemma decode_saved:
  assumes "\<forall>T. holds T new \<longrightarrow> decode n T = Inr x" and "distinct (keys new)" and "PLACEHOLDER_KEY \<notin> set (keys new)"
    and "map_of ts' = map_of (if new = [] then placeholder else new)"
  shows "decode n (AList.delete PLACEHOLDER_KEY ts') = Inr x"
proof -
  have "map_of (AList.delete PLACEHOLDER_KEY ts') k = Some v" if kv: "(k, v) \<in> set new" for k v
  proof -
    have "k \<noteq> PLACEHOLDER_KEY" using kv assms(3) by force
    moreover have "map_of ts' k = Some v" using assms(2,4) kv by (auto split: if_splits)
    ultimately show ?thesis by (simp add: map_of_delete)
  qed
  then have "holds (AList.delete PLACEHOLDER_KEY ts') new" by (auto simp: holds_def)
  with assms(1) show ?thesis by blast
qed

lemma dumps_loads:
  assumes "codec_ok C" and "clean obj" and "distinct (paths obj [])" and "PLACEHOLDER_KEY \<notin> set (paths obj [])"
    and "plain (ODict md)"
  shows "dumps C obj md = Inl SafetensorError \<or> (\<exists>data. dumps C obj md = Inr data \<and>
    (header_len data \<le> MAX_HEADER_BYTES \<longrightarrow> loads C data = Inr obj \<and> read_metadata C data = Inr (ODict md)))"
proof -
  from encode_spec(1) [of obj "[]" "[]"] assms(2,3) obtain n new where n: "encode obj [] [] = Inr (n, new)" "keys new = paths obj []"
    "norm_node n = Inr n" "\<forall>T. holds T new \<longrightarrow> decode n T = Inr obj" by auto
  define ts where "ts = (if new = [] then placeholder else new)"
  define h where "h = \<lparr>h_dss = Some (Inr (WIRE_FORMAT_VERSION, n)), h_op = (if md = [] then None else Some (Inr (ODict md)))\<rparr>"
  have d: "dumps C obj md = save_frame C ts h"
    using n(1,3) json_norm_plain(1) [OF assms(5)] unfolding dumps_def ts_def h_def Let_def by simp
  have dist: "distinct (keys ts)" using n(2) assms(3) by (auto simp: ts_def placeholder_def)
  show ?thesis
  proof (cases "save_frame C ts h")
    case (Inl e)
    then show ?thesis using d by (simp add: save_frame_def split: option.splits)
  next
    case (Inr data)
    from saved_frame [OF assms(1) Inr dist] obtain ts' where t: "st_load C data = Some ts'" "map_of ts' = map_of ts"
      and r: "header_len data \<le> MAX_HEADER_BYTES \<longrightarrow> read_header C data = Inr h" by blast
    have "decode n (AList.delete PLACEHOLDER_KEY ts') = Inr obj"
      using n(2,4) assms(3,4) t(2) unfolding ts_def by (intro decode_saved [of new]) auto
    then show ?thesis using d Inr t(1) r by (auto simp: loads_def read_metadata_def h_def)
  qed
qed

text \<open>
  C4. A value that JSON can represent (string keys, no tuple without a tensor inside a tensor-free dict or
  list) and whose tensors have different paths survives the wire: serialising fails only where the
  safetensors writer refuses, and loading the frame gives back the very value and the metadata of the
  operation, as long as the header is within the reader's limit.
\<close>

theorem wire_round_trip:
  assumes "codec_ok C" and "clean obj" and "distinct (paths obj [])" and "PLACEHOLDER_KEY \<notin> set (paths obj [])"
    and "plain (ODict md)" and "dumps C obj md \<noteq> Inl SafetensorError"
  shows "\<exists>data. dumps C obj md = Inr data \<and>
    (header_len data \<le> MAX_HEADER_BYTES \<longrightarrow> loads C data = Inr obj \<and> read_metadata C data = Inr (ODict md))"
  using dumps_loads [OF assms(1-5)] assms(6) by blast


section \<open>Cutting a frame and putting it together\<close>

lemma bytes_round_trip [simp]: "tensor_to_bytes (bytes_to_tensor bs) = Inr bs"
proof -
  have "to_long (of_nat k) = int k" for k by (simp add: to_long_def)
  then have "word_of_int (to_long (of_nat (unat b))) = b" for b :: byte by (metis uint_nat word_of_int_uint)
  then show ?thesis by (simp add: tensor_to_bytes_def bytes_to_tensor_def o_def)
qed

lemma payload_clean:
  "clean (ODict [(KStr CHUNK_PAYLOAD_KEY, bytes_to_tensor bs)])"
  "paths (ODict [(KStr CHUNK_PAYLOAD_KEY, bytes_to_tensor bs)]) [] = [CHUNK_PAYLOAD_KEY]" "CHUNK_PAYLOAD_KEY \<noteq> PLACEHOLDER_KEY"
  by (simp_all add: bytes_to_tensor_def tensor_wf_def child_path_def tensor_key_def CHUNK_PAYLOAD_KEY_def PLACEHOLDER_KEY_def)

lemma desc_plain: "plain (ODict [(KStr key, ODict (chunk_desc digest n g op i total_n))])"
  by (simp add: chunk_desc_def split: option.splits)

definition chunk_meta :: "string \<Rightarrow> string \<Rightarrow> nat \<Rightarrow> string option \<Rightarrow> string option \<Rightarrow> nat \<Rightarrow> nat \<Rightarrow> (wkey \<times> wobj) list" where
  "chunk_meta kind digest n g op i total_n = chunk_desc digest n g op i total_n @ [(KStr ''kind'', OStr kind)]"

lemma dget_chunk_meta [simp]:
  "dget (chunk_meta kind digest n g op i total_n) ''kind'' = OStr kind"
  "dget (chunk_meta kind digest n g op i total_n) ''total_chunks'' = OInt (int total_n)"
  "dget (chunk_meta kind digest n g op i total_n) ''frame_sha256'' = OStr digest"
  "dget (chunk_meta kind digest n g op i total_n) ''frame_size_bytes'' = OInt (int n)"
  "dget (chunk_meta kind digest n g op i total_n) ''chunk_group_id'' = (case g of None \<Rightarrow> ONone | Some x \<Rightarrow> OStr x)"
  "dget (chunk_meta kind digest n g op i total_n) ''operation'' = (case op of None \<Rightarrow> ONone | Some x \<Rightarrow> OStr x)"
  "dget (chunk_meta kind digest n g op i total_n) ''chunk_idx'' = OInt (int i)"
  by (simp_all add: chunk_meta_def chunk_desc_def dict_get_def split: option.splits)

text \<open>What a reader finds in one chunk.\<close>

lemma chunk_frame_spec:
  assumes "codec_ok C" and "make_byte_chunk_frame C sha frame kind op g i total_n a b = Inr c" and "header_len c \<le> MAX_HEADER_BYTES"
  shows "loads C c = Inr (ODict [(KStr CHUNK_PAYLOAD_KEY, bytes_to_tensor (take (b - a) (drop a frame)))]) \<and>
    read_byte_chunk_metadata C c = Inr (Some (chunk_meta kind (sha frame) (length frame) g op i total_n))"
proof -
  let ?d = "chunk_desc (sha frame) (length frame) g op i total_n"
  let ?o = "ODict [(KStr CHUNK_PAYLOAD_KEY, bytes_to_tensor (take (b - a) (drop a frame)))]"
  from assms(2) obtain key where key: "chunk_key kind = Inr key" and d: "dumps C ?o [(KStr key, ODict ?d)] = Inr c"
    by (auto simp: make_byte_chunk_frame_def split: sum.splits)
  have l: "loads C c = Inr ?o" and m: "read_metadata C c = Inr (ODict [(KStr key, ODict ?d)])"
    using dumps_loads [OF assms(1) payload_clean(1) _ _ desc_plain, of "take (b - a) (drop a frame)" key "sha frame" "length frame" g op i total_n]
      d assms(3) payload_clean(2,3) by simp_all
  have "AList.update (KStr ''kind'') (OStr kind) ?d = chunk_meta kind (sha frame) (length frame) g op i total_n"
    unfolding chunk_meta_def by (intro update_new) (cases g; cases op; simp add: chunk_desc_def)
  moreover have "key = REQUEST_CHUNK_KEY \<and> kind = ''request'' \<or> key = RESULT_CHUNK_KEY \<and> kind = ''result''"
    using key by (auto simp: chunk_key_def split: if_splits)
  moreover have "REQUEST_CHUNK_KEY \<noteq> RESULT_CHUNK_KEY" by (simp add: REQUEST_CHUNK_KEY_def RESULT_CHUNK_KEY_def)
  ultimately show ?thesis using l m by (auto simp: read_byte_chunk_metadata_def)
qed

lemma mset_map_perm: "mset cs = mset (map f xs) \<Longrightarrow> \<exists>ys. mset ys = mset xs \<and> cs = map f ys"
proof (induction cs arbitrary: xs)
  case (Cons c cs)
  then have "c \<in> set (map f xs)" by (metis list.set_intros(1) mset_eq_setD)
  then obtain x where x: "x \<in> set xs" "c = f x" by auto
  then have "mset xs = add_mset x (mset (remove1 x xs))" by simp
  then have "mset (map f xs) = add_mset (f x) (mset (map f (remove1 x xs)))" by (metis image_mset_add_mset mset_map)
  with Cons.prems x(2) have "mset cs = mset (map f (remove1 x xs))" by simp
  then obtain ys where "mset ys = mset (remove1 x xs)" "cs = map f ys" using Cons.IH by blast
  with x show ?case by (intro exI [of _ "x # ys"]) simp
qed simp

lemma read_descriptors_map:
  assumes "\<And>i. i \<in> set xs \<Longrightarrow> read_byte_chunk_metadata C (ck i) = Inr (Some (f i))"
  shows "read_descriptors C (map ck xs) = Inr (map (\<lambda>i. Some (f i)) xs)"
  using assms by (induction xs) auto

lemma gather_map:
  assumes "\<And>i seen. i \<in> set xs \<Longrightarrow> int i \<notin> set seen \<Longrightarrow> check_chunk C g seen (ck i) (f i) = Inr (int i, s i)"
    and "distinct (ys @ xs)"
  shows "gather C g (map (\<lambda>i. (ck i, f i)) xs) (map (\<lambda>i. (int i, s i)) ys) = Inr (map (\<lambda>i. (int i, s i)) (ys @ xs))"
  using assms
proof (induction xs arbitrary: ys)
  case (Cons x xs)
  have "int x \<notin> set (map fst (map (\<lambda>i. (int i, s i)) ys))" using Cons.prems(2) by auto
  then have "check_chunk C g (map fst (map (\<lambda>i. (int i, s i)) ys)) (ck x) (f x) = Inr (int x, s x)" using Cons.prems(1) by simp
  moreover have "gather C g (map (\<lambda>i. (ck i, f i)) xs) (map (\<lambda>i. (int i, s i)) (ys @ [x])) = Inr (map (\<lambda>i. (int i, s i)) ((ys @ [x]) @ xs))"
    using Cons.prems by (intro Cons.IH) auto
  ultimately show ?case by simp
qed simp

lemma decode_group:
  assumes "codec_ok C" and "0 < n" and "mset cs = mset (map ck [0..<n])"
    and "\<And>i. i < n \<Longrightarrow> make_byte_chunk_frame C sha frame kind op g i n (a i) (b i) = Inr (ck i) \<and> header_len (ck i) \<le> MAX_HEADER_BYTES"
    and "concat (map (\<lambda>i. take (b i - a i) (drop (a i) frame)) [0..<n]) = frame"
  shows "decode_byte_chunks C sha cs (Some kind) = Inr frame"
proof -
  let ?m = "\<lambda>i. chunk_meta kind (sha frame) (length frame) g op i n" and ?s = "\<lambda>i. take (b i - a i) (drop (a i) frame)"
  from mset_map_perm [OF assms(3)] obtain xs where xs: "mset xs = mset [0..<n]" "cs = map ck xs" by blast
  have x: "set xs = {0..<n}" "distinct xs" "length xs = n"
    using mset_eq_setD [OF xs(1)] mset_eq_imp_distinct_iff [OF xs(1)] mset_eq_length [OF xs(1)] by auto
  have spec: "loads C (ck i) = Inr (ODict [(KStr CHUNK_PAYLOAD_KEY, bytes_to_tensor (?s i))]) \<and> read_byte_chunk_metadata C (ck i) = Inr (Some (?m i))"
    if "i \<in> set xs" for i using chunk_frame_spec [OF assms(1)] assms(4) [of i] that x(1) by auto
  have ne: "xs \<noteq> []" using x(3) assms(2) by auto
  then have h: "hd (map (\<lambda>i. ?m i) xs) = ?m (hd xs)" "hd xs \<in> set xs" by (auto simp: hd_map)
  define gi where "gi = \<lparr>gi_kind = OStr kind, gi_total = int n, gi_sha = OStr (sha frame), gi_size = int (length frame),
    gi_group = (case g of None \<Rightarrow> ONone | Some x \<Rightarrow> OStr x), gi_operation = (case op of None \<Rightarrow> ONone | Some x \<Rightarrow> OStr x)\<rparr>"
  have rd: "read_descriptors C cs = Inr (map (\<lambda>i. Some (?m i)) xs)" unfolding xs(2) using spec by (intro read_descriptors_map) blast
  have "decode_byte_chunks C sha cs (Some kind) = reassemble C sha gi cs (map ?m xs)"
  proof -
    have "cs \<noteq> []" "read_byte_chunk_metadata C (hd cs) \<noteq> Inr None" using ne spec h(2) by (auto simp: xs(2) hd_map)
    moreover have "None \<notin> set (map (\<lambda>i. Some (?m i)) xs)" by auto
    ultimately show ?thesis using rd h(1) by (simp add: decode_byte_chunks_def Let_def gi_def o_def)
  qed
  moreover have gt: "gather C gi (zip cs (map ?m xs)) [] = Inr (map (\<lambda>i. (int i, ?s i)) xs)"
  proof -
    have "check_chunk C gi seen (ck i) (?m i) = Inr (int i, ?s i)" if "i \<in> set xs" "int i \<notin> set seen" for i seen
    proof -
      have pl: "dget [(KStr CHUNK_PAYLOAD_KEY, bytes_to_tensor (?s i))] CHUNK_PAYLOAD_KEY = bytes_to_tensor (?s i)" by (simp add: dict_get_def)
      show ?thesis using spec [OF that(1)] that x(1) unfolding check_chunk_def dget_chunk_meta gi_def by (simp add: pl)
    qed
    then have "gather C gi (map (\<lambda>i. (ck i, ?m i)) xs) (map (\<lambda>i. (int i, ?s i)) []) = Inr (map (\<lambda>i. (int i, ?s i)) ([] @ xs))"
      using x(2) by (intro gather_map) auto
    moreover have "zip cs (map ?m xs) = map (\<lambda>i. (ck i, ?m i)) xs" by (simp add: xs(2) zip_map_map zip_same_conv_map)
    ultimately show ?thesis by simp
  qed
  moreover have "set (map fst (map (\<lambda>i. (int i, ?s i)) xs)) = int ` {0..<nat (gi_total gi)}" using x(1) by (simp add: gi_def image_image)
  moreover have "sort_key fst (map (\<lambda>i. (int i, ?s i)) xs) = map (\<lambda>i. (int i, ?s i)) [0..<n]"
  proof (rule sort_key_inj_key_eq)
    show "mset (map (\<lambda>i. (int i, ?s i)) xs) = mset (map (\<lambda>i. (int i, ?s i)) [0..<n])" using xs(1) by (simp only: mset_map)
  qed (auto simp: inj_on_def o_def sorted_wrt_map intro!: sorted_wrt_mono_rel [OF _ sorted_wrt_upt])
  ultimately show ?thesis using assms(5) x(3) by (simp add: reassemble_def gi_def xs(2) o_def)
qed

lemma make_chunks_nth:
  assumes "make_chunks C sha frame kind op g n (enumerate_from k rs) = Inr cks"
  shows "length cks = length rs \<and> (\<forall>i<length rs. make_byte_chunk_frame C sha frame kind op g (k + i) n (fst (rs ! i)) (snd (rs ! i)) = Inr (cks ! i))"
  using assms
proof (induction rs arbitrary: k cks)
  case (Cons r rs)
  have "enumerate_from k (r # rs) = (k, fst r, snd r) # enumerate_from (Suc k) rs" by (simp add: enumerate_from_def upt_conv_Cons del: upt_Suc)
  then have "make_chunks C sha frame kind op g n ((k, fst r, snd r) # enumerate_from (Suc k) rs) = Inr cks" using Cons.prems by (simp only:)
  then obtain c cs where c: "make_byte_chunk_frame C sha frame kind op g k n (fst r) (snd r) = Inr c"
    "make_chunks C sha frame kind op g n (enumerate_from (Suc k) rs) = Inr cs" "cks = c # cs"
    by (simp del: prod.collapse split: sum.splits)
  show ?case using Cons.IH [OF c(2)] c(1,3) by (auto simp: nth_Cons split: nat.splits)
qed (simp add: enumerate_from_def)

lemma ranges_cover:
  assumes "0 < p"
  shows "0 < length (ranges p (length frame)) \<and>
    concat (map (\<lambda>i. take (snd (ranges p (length frame) ! i) - fst (ranges p (length frame) ! i)) (drop (fst (ranges p (length frame) ! i)) frame))
      [0..<length (ranges p (length frame))]) = frame"
proof (cases "frame = []")
  case False
  let ?n = "length frame" and ?k = "(length frame + p - 1) div p"
  have "0 < ?n" using False by simp
  then have "p \<le> ?n + p - 1" by arith
  then have k: "0 < ?k" using assms by (simp add: div_greater_zero_iff)
  have r: "ranges p ?n = map (\<lambda>i. (i * p, min (i * p + p) ?n)) [0..<?k]" using k by (simp add: ranges_def)
  have "take (min (i * p + p) ?n - i * p) (drop (i * p) frame) = block p frame i" for i
    by (cases "i * p + p \<le> ?n") (simp_all add: block_def min_def)
  then have "concat (map (\<lambda>i. take (min (i * p + p) ?n - i * p) (drop (i * p) frame)) [0..<?k]) = take (?k * p) frame"
    using concat_blocks [of p frame ?k] by simp
  moreover have "?n \<le> ?k * p"
  proof -
    have "(?n + p - 1) mod p < p" using assms by simp
    then show ?thesis using div_mult_mod_eq [of "?n + p - 1" p] assms by linarith
  qed
  ultimately have c: "concat (map (\<lambda>i. take (min (i * p + p) ?n - i * p) (drop (i * p) frame)) [0..<?k]) = frame" by simp
  have e: "map (\<lambda>i. take (snd (ranges p ?n ! i) - fst (ranges p ?n ! i)) (drop (fst (ranges p ?n ! i)) frame)) [0..<length (ranges p ?n)] =
    map (\<lambda>i. take (min (i * p + p) ?n - i * p) (drop (i * p) frame)) [0..<?k]" unfolding r by simp
  have "0 < length (ranges p ?n)" using k by (simp add: r)
  then show ?thesis unfolding e c by simp
qed (use assms in \<open>simp add: ranges_def\<close>)

lemma chunk_loop_spec:
  assumes "chunk_loop C sha frame kind op g mb p = Inr cks" and "0 < p"
  shows "(\<forall>c\<in>set cks. length c \<le> mb) \<and> (\<exists>q>0. make_chunks C sha frame kind op g (length (ranges q (length frame)))
    (enumerate_from 0 (ranges q (length frame))) = Inr cks)"
  using assms
proof (induction C sha frame kind op g mb p rule: chunk_loop.induct)
  case (1 C sha frame kind op g mb p)
  let ?rs = "ranges p (length frame)"
  from "1.prems"(1) obtain cs where cs: "make_chunks C sha frame kind op g (length ?rs) (enumerate_from 0 ?rs) = Inr cs"
    by (subst (asm) chunk_loop.simps) (auto simp: Let_def split: sum.splits)
  show ?case
  proof (cases "list_all (\<lambda>c. length c \<le> mb) cs")
    case True
    then have "cks = cs" using "1.prems"(1) cs by (subst (asm) chunk_loop.simps) (simp add: Let_def)
    then show ?thesis using True cs "1.prems"(2) by (auto simp: list_all_iff)
  next
    case False
    then have p: "\<not> p \<le> 1" "chunk_loop C sha frame kind op g mb (max 1 (p div 2)) = Inr cks"
      using "1.prems"(1) cs by (subst (asm) chunk_loop.simps, simp add: Let_def split: if_splits)+
    show ?thesis using 1(1) [OF refl cs False p(1) p(2)] by simp
  qed
qed

text \<open>
  C5. A frame that is cut into chunks comes back whole from any order of arrival: reassembly accepts the
  chunks and returns the frame, and no chunk is longer than the limit. A frame that was not cut is
  returned as it is, provided it is not a chunk itself.
\<close>

theorem chunks_reassemble:
  assumes "codec_ok C" and "encode_byte_chunks C sha fresh frame kind op mb gid force = Inr cks" and "mset cs = mset cks"
    and "\<forall>c\<in>set cks. header_len c \<le> MAX_HEADER_BYTES" and "force \<or> read_byte_chunk_metadata C frame = Inr None"
  shows "decode_byte_chunks C sha cs (Some kind) = Inr frame \<and> (0 < mb \<longrightarrow> (\<forall>c\<in>set cs. int (length c) \<le> mb))"
proof (cases "\<not> force \<and> (mb \<le> 0 \<or> int (length frame) \<le> mb)")
  case True
  then have "cks = [frame]" using assms(2) by (simp add: encode_byte_chunks_def)
  then have "cs = [frame]" using assms(3) by (simp add: mset_single_iff)
  then show ?thesis using assms(5) True by (auto simp: decode_byte_chunks_def)
next
  case False
  define g where "g = (if kind = ''request'' then (case gid of Some g \<Rightarrow> if g \<noteq> [] then Some g else Some fresh | None \<Rightarrow> Some fresh) else None)"
  show ?thesis
  proof (cases "mb \<le> 0")
    case True
    then obtain c where c: "make_byte_chunk_frame C sha frame kind op g 0 1 0 (length frame) = Inr c" "cks = [c]"
      using assms(2) False by (auto simp: encode_byte_chunks_def Let_def g_def [symmetric] split: sum.splits)
    have "decode_byte_chunks C sha cs (Some kind) = Inr frame"
      using decode_group [OF assms(1), of 1 cs "\<lambda>_. c" sha frame kind op g "\<lambda>_. 0" "\<lambda>_. length frame"] assms(3,4) c by simp
    then show ?thesis using True by simp
  next
    case pos: False
    have ov: "\<not> mb \<le> int DEFAULT_CHUNK_OVERHEAD_BYTES" using assms(2) False pos by (auto simp: encode_byte_chunks_def split: if_splits)
    have enc: "encode_byte_chunks C sha fresh frame kind op mb gid force =
        chunk_loop C sha frame kind op g (nat mb) (nat mb - DEFAULT_CHUNK_OVERHEAD_BYTES)"
      using False pos ov unfolding encode_byte_chunks_def Let_def g_def by (simp only: if_False if_True simp_thms)
    have "0 < nat mb - DEFAULT_CHUNK_OVERHEAD_BYTES" using ov by simp
    from chunk_loop_spec [OF assms(2) [unfolded enc] this] obtain q where q: "0 < q" "\<forall>c\<in>set cks. length c \<le> nat mb"
      "make_chunks C sha frame kind op g (length (ranges q (length frame))) (enumerate_from 0 (ranges q (length frame))) = Inr cks"
      by (elim conjE exE)
    let ?rs = "ranges q (length frame)"
    note m = make_chunks_nth [OF q(3)]
    have "mset cs = mset (map (\<lambda>i. cks ! i) [0..<length ?rs])" using assms(3) m by (metis map_nth)
    then have "decode_byte_chunks C sha cs (Some kind) = Inr frame"
      using ranges_cover [OF q(1), of frame] m assms(4)
      by (intro decode_group [OF assms(1), where n = "length ?rs" and ck = "\<lambda>i. cks ! i" and a = "\<lambda>i. fst (?rs ! i)" and b = "\<lambda>i. snd (?rs ! i)"]) auto
    moreover have "set cs = set cks" using assms(3) by (rule mset_eq_setD)
    ultimately show ?thesis using q(2) pos by auto
  qed
qed

section \<open>Token prompts are packed without loss\<close>

lemma int_tokens_Some: "int_tokens xs = Some ts \<Longrightarrow> xs = map OInt ts"
  by (induction xs arbitrary: ts rule: int_tokens.induct) auto

lemma pack_token_prompts_exact:
  assumes "xs \<noteq> []" and "\<forall>i\<in>set xs. - (2 ^ 63) \<le> i \<and> i < 2 ^ 63"
  shows "\<exists>d t. pack_token_prompts (OList (map OInt xs)) = Inr (OTensor d t) \<and> map to_long (t_data t) = xs \<and>
    d = (if \<forall>i\<in>set xs. - (2 ^ 31) \<le> i \<and> i < 2 ^ 31 then DInt32 else DInt64)"
proof -
  have it: "int_tokens (map OInt xs) = Some xs" by (induction xs) auto
  have "to_long (of_int i) = i" for i by (simp add: to_long_def)
  with assms it show ?thesis by (auto simp: pack_token_prompts_def token_tensor_def Let_def list_all_iff o_def)
qed

section \<open>A codec over a table of frames\<close>

text \<open>
  A library that writes the frames of a given table: frame number \<open>i\<close> has a one-byte header \<open>i\<close>
  and no tensor bytes, and everything else is refused.
\<close>

fun find_index :: "'a \<Rightarrow> 'a list \<Rightarrow> nat option" where
  "find_index x [] = None"
| "find_index x (y # ys) = (if x = y then Some 0 else map_option Suc (find_index x ys))"

definition table_frame :: "nat \<Rightarrow> byte list" where
  "table_frame i = [1, 0, 0, 0, 0, 0, 0, 0, of_nat i]"

definition table_codec :: "(tensors \<times> header) list \<Rightarrow> codec" where
  "table_codec tab =
     \<lparr>st_save = (\<lambda>ts h. map_option table_frame (find_index (ts, h) tab)),
      st_load = (\<lambda>data. if length data = 9 \<and> unat (data ! 8) < length tab then Some (fst (tab ! unat (data ! 8))) else None),
      header_json = (\<lambda>bs. if length bs = 1 \<and> unat (hd bs) < length tab then Some (snd (tab ! unat (hd bs))) else None)\<rparr>"

lemma find_index_Some: "find_index x xs = Some i \<Longrightarrow> i < length xs \<and> xs ! i = x"
  by (induction xs arbitrary: i) (auto split: if_splits)

lemma table_header_len: "header_len (table_frame i) = 1"
  by (simp add: header_len_def table_frame_def le_nat_def)

lemma table_codec_ok: "length tab \<le> 256 \<Longrightarrow> codec_ok (table_codec tab)"
proof -
  assume tab: "length tab \<le> 256"
  have u: "unat (of_nat i :: byte) = i" if "i < length tab" for i
    using that tab by (simp add: unat_of_nat)
  show ?thesis unfolding codec_ok_def
  proof (intro allI impI)
    fix ts h data assume "st_save (table_codec tab) ts h = Some data"
    then obtain i where "find_index (ts, h) tab = Some i" "data = table_frame i" by (auto simp: table_codec_def)
    moreover from this have "i < length tab" "tab ! i = (ts, h)" using find_index_Some by fastforce+
    ultimately show "(\<exists>ts'. st_load (table_codec tab) data = Some ts' \<and> map_of ts' = map_of ts) \<and>
        8 \<le> length data \<and> 0 < header_len data \<and> 8 + header_len data \<le> length data \<and>
        header_json (table_codec tab) (take (header_len data) (drop 8 data)) = Some h"
      using u [of i] by (simp add: table_header_len) (simp add: table_codec_def table_frame_def)
  qed
qed

definition ex_value :: wobj where
  "ex_value = ODict [(KStr ''ids'', OTensor DInt64 \<lparr>t_shape = [2], t_data = [3, 4]\<rparr>),
     (KStr ''args'', OTuple [OInt 1, OTensor DFloat32 \<lparr>t_shape = [], t_data = [5]\<rparr>])]"

definition ex_value_frame :: "tensors \<times> header" where
  "ex_value_frame =
     ([(''ids'', DInt64, \<lparr>t_shape = [2], t_data = [3, 4]\<rparr>), (''args.1'', DFloat32, \<lparr>t_shape = [1], t_data = [5]\<rparr>)],
      \<lparr>h_dss = Some (Inr (WIRE_FORMAT_VERSION, NDict [(''ids'', NTensor ''ids'' False),
          (''args'', NTuple [NJson (OInt 1), NTensor ''args.1'' True])])), h_op = None\<rparr>)"

lemma ex_dumps: "dumps (table_codec [ex_value_frame]) ex_value [] = Inr (table_frame 0)"
  by code_simp

theorem wire_round_trip_witness: "loads (table_codec [ex_value_frame]) (table_frame 0) = Inr ex_value"
proof -
  have "clean ex_value" "distinct (paths ex_value [])" "PLACEHOLDER_KEY \<notin> set (paths ex_value [])" "plain (ODict [])"
    by (code_simp, code_simp, code_simp, code_simp)
  from wire_round_trip [OF table_codec_ok this, of "[ex_value_frame]"] ex_dumps
  show ?thesis by (simp add: table_header_len MAX_HEADER_BYTES_def)
qed




definition ex_chunk_frame :: "nat \<Rightarrow> byte list \<Rightarrow> tensors \<times> header" where
  "ex_chunk_frame i bs =
     ([(''payload'', DUint8, \<lparr>t_shape = [length bs], t_data = map (\<lambda>b. of_nat (unat b)) bs\<rparr>)],
      \<lparr>h_dss = Some (Inr (WIRE_FORMAT_VERSION, NDict [(''payload'', NTensor ''payload'' False)])),
       h_op = Some (Inr (ODict [(KStr ''result_chunk'', ODict (chunk_desc ''digest'' 3 None None i 2))]))\<rparr>)"

definition ex_chunk_codec :: codec where
  "ex_chunk_codec = table_codec [ex_chunk_frame 0 [7, 8], ex_chunk_frame 1 [9]]"

lemma ex_encode:
  "encode_byte_chunks ex_chunk_codec (\<lambda>_. ''digest'') ''g'' [7, 8, 9] ''result'' None 8194 None True = Inr [table_frame 0, table_frame 1]"
proof -
  let ?rs = "ranges 2 (length [7, 8, 9 :: byte])"
  have m: "make_chunks ex_chunk_codec (\<lambda>_. ''digest'') [7, 8, 9] ''result'' None None (length ?rs) (enumerate_from 0 ?rs) =
      Inr [table_frame 0, table_frame 1]" by code_simp
  have "chunk_loop ex_chunk_codec (\<lambda>_. ''digest'') [7, 8, 9] ''result'' None None 8194 2 = Inr [table_frame 0, table_frame 1]"
    by (subst chunk_loop.simps, simp only: Let_def m sum.case) (simp add: table_frame_def)
  then show ?thesis by (simp add: encode_byte_chunks_def DEFAULT_CHUNK_OVERHEAD_BYTES_def)
qed

theorem chunks_reassemble_witness:
  "decode_byte_chunks ex_chunk_codec (\<lambda>_. ''digest'') [table_frame 1, table_frame 0] (Some ''result'') = Inr [7, 8, 9]"
proof -
  have ok: "codec_ok ex_chunk_codec" unfolding ex_chunk_codec_def by (rule table_codec_ok) simp
  have "mset [table_frame 1, table_frame 0] = mset [table_frame 0, table_frame 1]" by simp
  from chunks_reassemble [OF ok ex_encode this] show ?thesis by (simp add: table_header_len MAX_HEADER_BYTES_def)
qed

end
