(* ===== verification/Streaming.thy ===== *)
theory Streaming
  imports Prelude
begin

text \<open>
  Token streaming (\<open>inference/server/streaming.py\<close>): the bounded buffer between the engine and the
  reader, which merges deltas of a choice while the reader is behind; the events that the engine side
  produces for a text prompt; their delivery in numbered batches; and the checks of the client.

  Events are JSON dicts. Text is a list of code points, because the size of an event is that of its
  ASCII-escaped compact serialisation. A float carries the length of its printed form. Entries of the
  buffer have identities, as the source compares them by identity.
\<close>

section \<open>JSON values and their compact size\<close>

datatype jv =
    JNull
  | JBool bool
  | JInt int
  | JFloat rat nat
  | JStr "int list"
  | JList "jv list"
  | JDict "(string \<times> jv) list"

type_synonym event = "(string \<times> jv) list"

definition js :: "string \<Rightarrow> jv" where
  "js s = JStr (map of_char s)"

text \<open>The length of an escaped character: printable ASCII stands for itself, the rest is escaped.\<close>

definition esc_len :: "int \<Rightarrow> int" where
  "esc_len cp =
     (if cp = 34 \<or> cp = 92 \<or> cp \<in> {8, 9, 10, 12, 13} then 2
      else if 32 \<le> cp \<and> cp \<le> 126 then 1
      else if cp < 65536 then 6
      else 12)"

function digits :: "int \<Rightarrow> int" where
  "digits n = (if n < 10 then 1 else 1 + digits (n div 10))"
  by auto
termination by (relation "measure nat") auto

declare digits.simps [simp del]

definition int_len :: "int \<Rightarrow> int" where
  "int_len i = (if i < 0 then 1 + digits (- i) else digits i)"

definition key_len :: "string \<Rightarrow> int" where
  "key_len k = 2 + sum_list (map (\<lambda>c. esc_len (of_char c)) k)"

definition commas :: "'a list \<Rightarrow> int" where
  "commas xs = (if xs = [] then 0 else int (length xs) - 1)"

fun jlen :: "jv \<Rightarrow> int"
and jlens :: "jv list \<Rightarrow> int"
and jfields :: "(string \<times> jv) list \<Rightarrow> int" where
  "jlen JNull = 4"
| "jlen (JBool b) = (if b then 4 else 5)"
| "jlen (JInt i) = int_len i"
| "jlen (JFloat x n) = int n"
| "jlen (JStr s) = 2 + sum_list (map esc_len s)"
| "jlen (JList xs) = 2 + jlens xs + commas xs"
| "jlen (JDict kvs) = 2 + jfields kvs + commas kvs"
| "jlens [] = 0"
| "jlens (x # xs) = jlen x + jlens xs"
| "jfields [] = 0"
| "jfields ((k, v) # rest) = key_len k + 1 + jlen v + jfields rest"

definition event_size :: "event \<Rightarrow> int" where
  "event_size e = jlen (JDict e)"

section \<open>Limits\<close>

record stream_limits =
  lm_timeout_s :: rat
  lm_stall_timeout_s :: rat
  lm_cleanup_timeout_s :: rat
  lm_max_buffer_events :: int
  lm_max_buffer_bytes :: int
  lm_max_event_bytes :: int

definition new_limits :: "stream_limits \<Rightarrow> stream_limits res" where
  "new_limits L =
     (if list_ex (\<lambda>v. \<not> (0 < v \<and> v \<le> 3600)) [lm_timeout_s L, lm_stall_timeout_s L, lm_cleanup_timeout_s L] then Inl ValueError
      else if list_ex (\<lambda>v. v \<le> 0) [lm_max_buffer_events L, lm_max_buffer_bytes L, lm_max_event_bytes L] then Inl ValueError
      else if 1024 < lm_max_buffer_events L \<or> 16 * 1024 * 1024 < lm_max_buffer_bytes L then Inl ValueError
      else if lm_max_buffer_bytes L < lm_max_event_bytes L then Inl ValueError
      else Inr L)"

section \<open>Stream errors\<close>

definition CONTEXT_LIMIT_SOURCES :: "string list" where
  "CONTEXT_LIMIT_SOURCES = [''prompt'', ''completion_budget'']"

definition PARAM_ERROR_CODES :: "string list" where
  "PARAM_ERROR_CODES = [''invalid_message_content'', ''invalid_chat_request'']"

record stream_error =
  se_code :: string
  se_source :: "string option"
  se_param :: "string option"

definition new_stream_error :: "string \<Rightarrow> string option \<Rightarrow> string option \<Rightarrow> stream_error res" where
  "new_stream_error code source param =
     (if (case param of
            None \<Rightarrow> False
          | Some p \<Rightarrow> code \<notin> set PARAM_ERROR_CODES \<or> \<not> (0 < length p \<and> length p \<le> 64)) then Inl ValueError
      else if code = ''context_length_exceeded'' \<and> (case source of None \<Rightarrow> True | Some s \<Rightarrow> s \<notin> set CONTEXT_LIMIT_SOURCES)
      then Inl ValueError
      else if code \<noteq> ''context_length_exceeded'' \<and> source \<noteq> None then Inl ValueError
      else Inr \<lparr>se_code = code, se_source = source, se_param = param\<rparr>)"

section \<open>The event buffer\<close>

definition DELTA_TYPES :: "string list" where
  "DELTA_TYPES = [''delta'', ''content_delta'', ''reasoning_delta'', ''tool_call_delta'']"

definition MERGED_KEYS :: "string list" where
  "MERGED_KEYS = [''text'', ''arguments'', ''token_ids'', ''logprobs'']"

definition is_delta :: "event \<Rightarrow> bool" where
  "is_delta e \<longleftrightarrow> map_of e ''type'' \<in> set (map (\<lambda>s. Some (js s)) DELTA_TYPES)"

record entry =
  en_id :: nat
  en_event :: event
  en_size :: int

record buffer =
  eb_limits :: stream_limits
  eb_events :: "entry list"
  eb_bytes :: int
  eb_peak_bytes :: int
  eb_peak_events :: int
  eb_error :: "stream_error option"
  eb_done :: bool
  eb_open :: "(jv, nat) dict"
  eb_next :: nat

definition new_buffer :: "stream_limits \<Rightarrow> buffer" where
  "new_buffer L = \<lparr>eb_limits = L, eb_events = [], eb_bytes = 0, eb_peak_bytes = 0, eb_peak_events = 0, eb_error = None,
     eb_done = False, eb_open = [], eb_next = 0\<rparr>"

definition appended_size :: "event \<Rightarrow> event \<Rightarrow> string \<Rightarrow> int" where
  "appended_size old added key =
     (case map_of added key of
        None \<Rightarrow> 0
      | Some v \<Rightarrow>
          (case map_of old key of
             None \<Rightarrow> int (length key) + 4 + jlen v
           | Some w \<Rightarrow>
               (case v of
                  JStr _ \<Rightarrow> jlen v - 2
                | JList [] \<Rightarrow> 0
                | _ \<Rightarrow> jlen v - 2 + (if w = JList [] then 0 else 1))))"

definition empty_of :: "string \<Rightarrow> jv" where
  "empty_of key = (if key = ''token_ids'' \<or> key = ''logprobs'' then JList [] else JStr [])"

fun join_values :: "jv \<Rightarrow> jv \<Rightarrow> jv res" where
  "join_values (JStr a) (JStr b) = Inr (JStr (a @ b))"
| "join_values (JList a) (JList b) = Inr (JList (a @ b))"
| "join_values _ _ = Inl TypeError"

fun merge_keys :: "string list \<Rightarrow> event \<Rightarrow> event \<Rightarrow> event \<Rightarrow> event res" where
  "merge_keys [] old e merged = Inr merged"
| "merge_keys (k # ks) old e merged =
     (if map_of old k = None \<and> map_of e k = None then merge_keys ks old e merged
      else (case join_values (dict_get old k (empty_of k)) (dict_get e k (empty_of k)) of
              Inl x \<Rightarrow> Inl x
            | Inr v \<Rightarrow> merge_keys ks old e (AList.update k v merged)))"

text \<open>The token counts of two reasoning deltas are added; the size changes by the printed length.\<close>

definition merge_counts :: "event \<Rightarrow> int \<Rightarrow> event \<Rightarrow> (event \<times> int) res" where
  "merge_counts old n e =
     (case (map_of old ''token_count'', map_of e ''token_count'') of
        (Some (JInt a), Some (JInt b)) \<Rightarrow> Inr (AList.update ''token_count'' (JInt (a + b)) old, n + int_len (a + b) - int_len a)
      | (None, _) \<Rightarrow> Inl KeyError
      | (_, None) \<Rightarrow> Inl KeyError
      | _ \<Rightarrow> Inl TypeError)"

text \<open>Argument text continues a tool call only under the same index and without a new id or name.\<close>

definition new_call :: "event \<Rightarrow> event \<Rightarrow> bool res" where
  "new_call old e =
     (case (map_of old ''index'', map_of e ''index'') of
        (Some i, Some j) \<Rightarrow> Inr (i \<noteq> j \<or> ''id'' \<in> set (keys e) \<or> ''name'' \<in> set (keys e))
      | _ \<Rightarrow> Inl KeyError)"

text \<open>The fields that a merge changes before it joins the texts and lists, with the size of the event so far.\<close>

definition merge_head :: "event \<Rightarrow> int \<Rightarrow> event \<Rightarrow> (event \<times> int) option res" where
  "merge_head old n e =
     (if map_of old ''type'' \<noteq> map_of e ''type'' then Inr None
      else if map_of e ''type'' = Some (js ''reasoning_delta'') then
        (case merge_counts old n e of Inl x \<Rightarrow> Inl x | Inr r \<Rightarrow> Inr (Some r))
      else if map_of e ''type'' = Some (js ''tool_call_delta'') then
        (case new_call old e of
           Inl x \<Rightarrow> Inl x
         | Inr fresh \<Rightarrow> Inr (if fresh then None else Some (old, n)))
      else Inr (Some (old, n)))"

definition merged_event :: "event \<Rightarrow> int \<Rightarrow> event \<Rightarrow> (event \<times> int) option res" where
  "merged_event old n e =
     (case merge_head old n e of
        Inl x \<Rightarrow> Inl x
      | Inr None \<Rightarrow> Inr None
      | Inr (Some (m, n1)) \<Rightarrow>
          (case merge_keys MERGED_KEYS old e m of
             Inl x \<Rightarrow> Inl x
           | Inr m' \<Rightarrow> Inr (Some (m', n1 + sum_list (map (appended_size old e) MERGED_KEYS)))))"

definition replace_entry :: "nat \<Rightarrow> event \<Rightarrow> int \<Rightarrow> entry list \<Rightarrow> entry list" where
  "replace_entry i e n es = map (\<lambda>x. if en_id x = i then x\<lparr>en_event := e, en_size := n\<rparr> else x) es"

definition buf_merge :: "event \<Rightarrow> (buffer, bool) op" where
  "buf_merge e b =
     (case map_of e ''choice_index'' of
        None \<Rightarrow> (Inl KeyError, b)
      | Some c \<Rightarrow>
          (case Option.bind (map_of (eb_open b) c) (\<lambda>i. find (\<lambda>x. en_id x = i) (eb_events b)) of
             None \<Rightarrow> (Inr False, b)
           | Some x \<Rightarrow>
               (case merged_event (en_event x) (en_size x) e of
                  Inl err \<Rightarrow> (Inl err, b)
                | Inr None \<Rightarrow> (Inr False, b)
                | Inr (Some (m, n)) \<Rightarrow>
                    if lm_max_event_bytes (eb_limits b) < n then (Inr False, b)
                    else if lm_max_buffer_bytes (eb_limits b) < eb_bytes b - en_size x + n then (Inl (StreamError ''buffer_overflow''), b)
                    else (Inr True,
                          b\<lparr>eb_events := replace_entry (en_id x) m n (eb_events b),
                            eb_bytes := eb_bytes b + n - en_size x,
                            eb_peak_bytes := max (eb_peak_bytes b) (eb_bytes b + n - en_size x)\<rparr>))))"

definition buf_append :: "event \<Rightarrow> (buffer, unit) op" where
  "buf_append e b =
     (let n = event_size e
      in if lm_max_event_bytes (eb_limits b) < n then (Inl (StreamError ''event_too_large''), b)
         else if lm_max_buffer_events (eb_limits b) \<le> int (length (eb_events b)) \<or> lm_max_buffer_bytes (eb_limits b) < eb_bytes b + n
         then (Inl (StreamError ''buffer_overflow''), b)
         else (Inr (),
               b\<lparr>eb_events := eb_events b @ [\<lparr>en_id = eb_next b, en_event = e, en_size = n\<rparr>],
                 eb_open := (case map_of e ''choice_index'' of
                               Some c \<Rightarrow> if is_delta e then AList.update c (eb_next b) (eb_open b) else AList.delete c (eb_open b)
                             | None \<Rightarrow> []),
                 eb_next := eb_next b + 1,
                 eb_bytes := eb_bytes b + n,
                 eb_peak_bytes := max (eb_peak_bytes b) (eb_bytes b + n),
                 eb_peak_events := max (eb_peak_events b) (int (length (eb_events b)) + 1)\<rparr>))"

definition buf_put :: "event \<Rightarrow> (buffer, unit) op" where
  "buf_put e b =
     (if is_delta e
      then (case buf_merge e b of
              (Inl x, b') \<Rightarrow> (Inl x, b')
            | (Inr True, b') \<Rightarrow> (Inr (), b')
            | (Inr False, b') \<Rightarrow> buf_append e b')
      else buf_append e b)"

definition buf_pop :: "buffer \<Rightarrow> (event \<times> buffer) option" where
  "buf_pop b =
     (case eb_events b of
        [] \<Rightarrow> None
      | x # rest \<Rightarrow>
          (let c = dict_get (en_event x) ''choice_index'' JNull
           in Some (en_event x,
                b\<lparr>eb_events := rest, eb_bytes := eb_bytes b - en_size x,
                  eb_open := (if map_of (eb_open b) c = Some (en_id x) then AList.delete c (eb_open b) else eb_open b)\<rparr>)))"

text \<open>The first failure is kept; its code has to be one that \<open>StreamError\<close> accepts.\<close>

definition buf_fail :: "string \<Rightarrow> string option \<Rightarrow> string option \<Rightarrow> (buffer, unit) op" where
  "buf_fail code source param b =
     (case (case eb_error b of None \<Rightarrow> new_stream_error code source param | Some err \<Rightarrow> Inr err) of
        Inl x \<Rightarrow> (Inl x, b)
      | Inr err \<Rightarrow> (Inr (), b\<lparr>eb_error := Some err, eb_events := [], eb_open := [], eb_bytes := 0\<rparr>))"

text \<open>One turn of \<open>get\<close>: an event, the recorded error, the end of the stream, or waiting for more.\<close>

datatype got = Got event | Raised stream_error | Ended | Waiting

definition buf_get :: "buffer \<Rightarrow> got \<times> buffer" where
  "buf_get b =
     (case eb_error b of
        Some err \<Rightarrow> (Raised err, b)
      | None \<Rightarrow> (case buf_pop b of
                   Some (e, b') \<Rightarrow> (Got e, b')
                 | None \<Rightarrow> if eb_done b then (Ended, b) else (Waiting, b)))"

fun drain_loop :: "nat \<Rightarrow> buffer \<Rightarrow> event list \<times> buffer" where
  "drain_loop 0 b = ([], b)"
| "drain_loop (Suc k) b =
     (case buf_pop b of
        None \<Rightarrow> ([], b)
      | Some (e, b') \<Rightarrow> (case drain_loop k b' of (es, b'') \<Rightarrow> (e # es, b'')))"

definition buf_drain :: "buffer \<Rightarrow> event list \<times> buffer" where
  "buf_drain b = (if eb_error b = None then drain_loop (length (eb_events b)) b else ([], b))"

section \<open>Well-formed events\<close>

text \<open>
  The fields of a delta have the types the producers give them: text and arguments are strings, token
  ids and log-probabilities lists, a reasoning delta counts its tokens and a tool-call delta has an index.
\<close>

fun same_kind :: "jv \<Rightarrow> jv \<Rightarrow> bool" where
  "same_kind (JStr _) v = (case v of JStr _ \<Rightarrow> True | _ \<Rightarrow> False)"
| "same_kind (JList _) v = (case v of JList _ \<Rightarrow> True | _ \<Rightarrow> False)"
| "same_kind _ v = False"

definition field_ok :: "event \<Rightarrow> string \<Rightarrow> bool" where
  "field_ok e k = (case map_of e k of None \<Rightarrow> True | Some v \<Rightarrow> same_kind (empty_of k) v)"

definition count_ok :: "event \<Rightarrow> bool" where
  "count_ok e = (case map_of e ''token_count'' of Some (JInt n) \<Rightarrow> 0 \<le> n | _ \<Rightarrow> False)"

definition delta_ok :: "event \<Rightarrow> bool" where
  "delta_ok e \<longleftrightarrow>
     ''choice_index'' \<in> set (keys e) \<and> list_all (field_ok e) MERGED_KEYS
     \<and> (map_of e ''type'' = Some (js ''reasoning_delta'') \<longrightarrow> count_ok e)
     \<and> (map_of e ''type'' = Some (js ''tool_call_delta'') \<longrightarrow> ''index'' \<in> set (keys e))"

definition event_ok :: "event \<Rightarrow> bool" where
  "event_ok e \<longleftrightarrow> dict_wf e \<and> (is_delta e \<longrightarrow> delta_ok e)"

section \<open>The incremental size is the size of the merged event\<close>

lemma jfields_update:
  "dict_wf d \<Longrightarrow> jfields (AList.update k v d) =
     jfields d + (case map_of d k of Some w \<Rightarrow> jlen v - jlen w | None \<Rightarrow> key_len k + 1 + jlen v)"
proof (induction d)
  case (Cons p d)
  then have "dict_wf d" by (simp add: dict_wf_def)
  with Cons.IH show ?case by (cases p) (auto split: option.splits)
qed simp

lemma length_update_dict:
  "length (AList.update k v d) = (if k \<in> set (keys d) then length d else Suc (length d))"
  by (induction d) auto

lemma event_size_update:
  assumes "dict_wf d" "d \<noteq> []"
  shows "event_size (AList.update k v d) =
     event_size d + (case map_of d k of Some w \<Rightarrow> jlen v - jlen w | None \<Rightarrow> key_len k + 2 + jlen v)"
proof -
  have ne: "AList.update k v d \<noteq> []" using assms(2) by (cases d) auto
  show ?thesis
    using assms ne map_of_None_keys [of d k]
    by (auto simp: event_size_def jfields_update commas_def length_update_dict split: option.splits)
qed

lemma esc_len_nonneg: "0 \<le> esc_len c"
  by (simp add: esc_len_def)

lemma digits_nonneg: "0 \<le> digits n"
proof (induction n rule: digits.induct)
  case (1 n)
  then show ?case by (subst digits.simps) simp
qed

lemma sum_esc_nonneg: "0 \<le> sum_list (map (\<lambda>x. esc_len (f x)) xs)"
  by (induction xs) (simp_all add: esc_len_nonneg)

lemma jlen_nonneg: "0 \<le> jlen v" "0 \<le> jlens vs" "0 \<le> jfields fs"
proof (induction v and vs and fs rule: jlen_jlens_jfields.induct)
  case (11 k v rest)
  then show ?case using sum_esc_nonneg [of of_char k] by (simp add: key_len_def)
qed (use sum_esc_nonneg [of "\<lambda>x. x"] in \<open>simp_all add: int_len_def digits_nonneg commas_def\<close>)

lemma event_size_nonneg: "0 \<le> event_size e"
  by (simp add: event_size_def jlen_nonneg del: jlen.simps)

lemma jlens_append [simp]: "jlens (a @ b) = jlens a + jlens b"
  by (induction a) auto

lemma jlen_join_list:
  "jlen (JList (a @ b)) = jlen (JList a) + (if b = [] then 0 else jlen (JList b) - 2 + (if a = [] then 0 else 1))"
  by (auto simp: commas_def)

lemma join_values_empty:
  "same_kind (empty_of k) v \<Longrightarrow> join_values (empty_of k) v = Inr v"
  "same_kind (empty_of k) v \<Longrightarrow> join_values v (empty_of k) = Inr v"
  by (auto simp: empty_of_def split: jv.splits if_splits)

lemma same_kindD:
  "same_kind (empty_of k) v \<Longrightarrow> same_kind (empty_of k) w \<Longrightarrow>
   (\<exists>a b. v = JStr a \<and> w = JStr b) \<or> (\<exists>a b. v = JList a \<and> w = JList b)"
  by (auto simp: empty_of_def split: jv.splits if_splits)

lemma same_kind_join:
  assumes "join_values v w = Inr u"
  shows "same_kind x v \<Longrightarrow> same_kind x u"
  using assms by (cases v; cases w; cases x) auto

text \<open>One step of a merge: the value that a key gets, and the growth that \<open>_appended_size\<close> computes for it.\<close>

definition merged_value :: "event \<Rightarrow> event \<Rightarrow> string \<Rightarrow> jv" where
  "merged_value old e k =
     (case join_values (dict_get old k (empty_of k)) (dict_get e k (empty_of k)) of Inr v \<Rightarrow> v | Inl _ \<Rightarrow> JNull)"

lemma merged_value:
  assumes "field_ok old k" "field_ok e k"
  shows "join_values (dict_get old k (empty_of k)) (dict_get e k (empty_of k)) = Inr (merged_value old e k)"
    and "same_kind (empty_of k) (merged_value old e k)"
proof -
  have kinds: "same_kind (empty_of k) (dict_get old k (empty_of k))" "same_kind (empty_of k) (dict_get e k (empty_of k))"
    using assms by (auto simp: field_ok_def dict_get_def empty_of_def split: option.splits)
  from same_kindD [OF this] obtain v where v: "join_values (dict_get old k (empty_of k)) (dict_get e k (empty_of k)) = Inr v"
    by auto
  then have mv: "merged_value old e k = v" by (simp add: merged_value_def)
  show "join_values (dict_get old k (empty_of k)) (dict_get e k (empty_of k)) = Inr (merged_value old e k)"
    using v mv by simp
  show "same_kind (empty_of k) (merged_value old e k)"
    using same_kind_join [OF v kinds(1)] mv by simp
qed

lemma appended_size_exact:
  assumes "field_ok old k" "field_ok e k" "key_len k = int (length k) + 2" "map_of old k \<noteq> None \<or> map_of e k \<noteq> None"
  shows "appended_size old e k =
    (case map_of old k of Some w \<Rightarrow> jlen (merged_value old e k) - jlen w
     | None \<Rightarrow> key_len k + 2 + jlen (merged_value old e k))"
proof (cases "map_of e k")
  case None
  then obtain w where w: "map_of old k = Some w" using assms(4) by auto
  with assms(1) have "same_kind (empty_of k) w" by (simp add: field_ok_def)
  then have "merged_value old e k = w"
    using None w by (simp add: merged_value_def join_values_empty)
  with None w show ?thesis by (simp add: appended_size_def)
next
  case (Some v)
  with assms(2) have kv: "same_kind (empty_of k) v" by (simp add: field_ok_def)
  show ?thesis
  proof (cases "map_of old k")
    case None
    then have "merged_value old e k = v"
      using Some kv by (simp add: merged_value_def join_values_empty)
    with None Some show ?thesis using assms(3) by (simp add: appended_size_def)
  next
    case w: (Some w)
    with assms(1) have kw: "same_kind (empty_of k) w" by (simp add: field_ok_def)
    from same_kindD [OF kw kv] show ?thesis
    proof (elim disjE exE conjE)
      fix a b assume "w = JStr a" "v = JStr b"
      then show ?thesis using Some w by (simp add: appended_size_def merged_value_def)
    next
      fix a b assume "w = JList a" "v = JList b"
      then show ?thesis
        using Some w jlen_join_list [of a b] by (cases b) (auto simp: appended_size_def merged_value_def)
    qed
  qed
qed

lemma merge_keys_size:
  assumes "merge_keys ks old e m = Inr m'" "distinct ks" "dict_wf m" "m \<noteq> []"
    and "\<And>k. k \<in> set ks \<Longrightarrow> map_of m k = map_of old k \<and> field_ok old k \<and> field_ok e k \<and> key_len k = int (length k) + 2"
  shows "event_size m' = event_size m + sum_list (map (appended_size old e) ks) \<and> dict_wf m' \<and> m' \<noteq> []"
  using assms
proof (induction ks arbitrary: m)
  case Nil
  then show ?case by simp
next
  case (Cons k ks)
  note k = Cons.prems(5) [of k, simplified]
  show ?case
  proof (cases "map_of old k = None \<and> map_of e k = None")
    case True
    then have "appended_size old e k = 0" by (simp add: appended_size_def)
    then show ?thesis using True Cons.prems Cons.IH [of m] by simp
  next
    case False
    let ?u = "AList.update k (merged_value old e k) m"
    have run: "merge_keys ks old e ?u = Inr m'"
      using Cons.prems(1) False merged_value(1) [of old k e] k by auto
    have ne: "?u \<noteq> []" using Cons.prems(4) by (cases m) auto
    have IH: "event_size m' = event_size ?u + sum_list (map (appended_size old e) ks) \<and> dict_wf m' \<and> m' \<noteq> []"
      by (rule Cons.IH [OF run]) (use Cons.prems ne in \<open>auto simp: map_of_update\<close>)
    have "event_size ?u = event_size m + appended_size old e k"
      using event_size_update [OF Cons.prems(3,4)] appended_size_exact [of old k e] k False by simp
    with IH show ?thesis by simp
  qed
qed

lemma merge_keys_value:
  assumes "merge_keys ks old e m = Inr m'" "distinct ks"
    and "\<And>k. k \<in> set ks \<Longrightarrow> field_ok old k \<and> field_ok e k"
  shows "map_of m' k =
    (if k \<in> set ks \<and> (map_of old k \<noteq> None \<or> map_of e k \<noteq> None) then Some (merged_value old e k) else map_of m k)"
  using assms
proof (induction ks arbitrary: m)
  case (Cons j ks)
  then show ?case
    using merged_value(1) [of old j e] by (auto simp: map_of_update split: if_splits sum.splits)
qed simp

lemma merged_keys_plain: "k \<in> set MERGED_KEYS \<Longrightarrow> key_len k = int (length k) + 2"
proof -
  have "list_all (\<lambda>k. key_len k = int (length k) + 2) MERGED_KEYS" by code_simp
  then show "k \<in> set MERGED_KEYS \<Longrightarrow> key_len k = int (length k) + 2" by (simp add: list_all_iff)
qed

lemma merged_keys_distinct: "distinct MERGED_KEYS"
  by (simp add: MERGED_KEYS_def)

lemma merge_head_Some:
  assumes "merge_head old n e = Inr (Some (m, n1))"
  shows "map_of old ''type'' = map_of e ''type''"
    and "map_of e ''type'' = Some (js ''tool_call_delta'') \<Longrightarrow>
      map_of old ''index'' = map_of e ''index'' \<and> ''id'' \<notin> set (keys e) \<and> ''name'' \<notin> set (keys e)"
    and "(map_of e ''type'' \<noteq> Some (js ''reasoning_delta'') \<and> m = old \<and> n1 = n)
       \<or> (\<exists>a b. map_of e ''type'' = Some (js ''reasoning_delta'')
            \<and> map_of old ''token_count'' = Some (JInt a) \<and> map_of e ''token_count'' = Some (JInt b)
            \<and> m = AList.update ''token_count'' (JInt (a + b)) old \<and> n1 = n + int_len (a + b) - int_len a)"
proof -
  show "map_of old ''type'' = map_of e ''type''"
    using assms by (simp add: merge_head_def split: if_splits)
  show "map_of old ''index'' = map_of e ''index'' \<and> ''id'' \<notin> set (keys e) \<and> ''name'' \<notin> set (keys e)"
    if "map_of e ''type'' = Some (js ''tool_call_delta'')"
  proof -
    have "js ''tool_call_delta'' \<noteq> js ''reasoning_delta''" by code_simp
    with that have "new_call old e = Inr False"
      using assms by (auto simp: merge_head_def split: if_splits sum.splits)
    then show ?thesis by (auto simp: new_call_def split: option.splits)
  qed
  show "(map_of e ''type'' \<noteq> Some (js ''reasoning_delta'') \<and> m = old \<and> n1 = n)
       \<or> (\<exists>a b. map_of e ''type'' = Some (js ''reasoning_delta'')
            \<and> map_of old ''token_count'' = Some (JInt a) \<and> map_of e ''token_count'' = Some (JInt b)
            \<and> m = AList.update ''token_count'' (JInt (a + b)) old \<and> n1 = n + int_len (a + b) - int_len a)"
    using assms
    by (cases "map_of e ''type'' = Some (js ''reasoning_delta'')")
      (auto simp: merge_head_def merge_counts_def split: if_splits sum.splits option.splits jv.splits)
qed

lemma merge_head_fields:
  assumes "merge_head old n e = Inr (Some (m, n1))" "k \<noteq> ''token_count''"
  shows "map_of m k = map_of old k"
  using merge_head_Some(3) [OF assms(1)] assms(2) by (auto simp: map_of_update)

lemma merge_head_size:
  assumes "merge_head old (event_size old) e = Inr (Some (m, n1))" "dict_wf old" "old \<noteq> []"
  shows "n1 = event_size m \<and> dict_wf m \<and> m \<noteq> []"
  using merge_head_Some(3) [OF assms(1)]
proof (elim disjE exE conjE)
  fix a b
  assume a: "map_of old ''token_count'' = Some (JInt a)"
    and m: "m = AList.update ''token_count'' (JInt (a + b)) old" "n1 = event_size old + int_len (a + b) - int_len a"
  have "m \<noteq> []" using m assms(3) by (cases old) auto
  with a m show ?thesis using assms event_size_update [OF assms(2,3)] by simp
qed (use assms in simp)

lemma delta_fields: "delta_ok e \<Longrightarrow> k \<in> set MERGED_KEYS \<Longrightarrow> field_ok e k"
  by (simp add: delta_ok_def list_all_iff)

lemma merged_event_head:
  assumes "merged_event old n e = Inr (Some (m', n'))"
  obtains m n1 where "merge_head old n e = Inr (Some (m, n1))" "merge_keys MERGED_KEYS old e m = Inr m'"
    "n' = n1 + sum_list (map (appended_size old e) MERGED_KEYS)"
  using assms by (auto simp: merged_event_def split: sum.splits option.splits)

text \<open>The size the buffer keeps by adding up appended parts is the size of the serialised merged event.\<close>

lemma merged_event_size:
  assumes "merged_event old (event_size old) e = Inr (Some (m', n'))" "dict_wf old" "old \<noteq> []" "delta_ok old" "delta_ok e"
  shows "n' = event_size m' \<and> dict_wf m'"
proof -
  from assms(1) obtain m n1 where m: "merge_head old (event_size old) e = Inr (Some (m, n1))"
    "merge_keys MERGED_KEYS old e m = Inr m'" "n' = n1 + sum_list (map (appended_size old e) MERGED_KEYS)"
    by (rule merged_event_head)
  have head: "n1 = event_size m \<and> dict_wf m \<and> m \<noteq> []" by (rule merge_head_size [OF m(1) assms(2,3)])
  have "k \<noteq> ''token_count''" if "k \<in> set MERGED_KEYS" for k using that by (auto simp: MERGED_KEYS_def)
  then have "event_size m' = event_size m + sum_list (map (appended_size old e) MERGED_KEYS) \<and> dict_wf m' \<and> m' \<noteq> []"
    using head delta_fields [OF assms(4)] delta_fields [OF assms(5)]
    by (intro merge_keys_size [OF m(2) merged_keys_distinct])
      (auto simp: merge_head_fields [OF m(1)] merged_keys_plain)
  with head m(3) show ?thesis by simp
qed

lemma merged_event_fields:
  assumes "merged_event old n e = Inr (Some (m', n'))" "delta_ok old" "delta_ok e"
  shows "k \<notin> set MERGED_KEYS \<Longrightarrow> k \<noteq> ''token_count'' \<Longrightarrow> map_of m' k = map_of old k"
    and "k \<in> set MERGED_KEYS \<Longrightarrow>
      map_of m' k = (if map_of old k \<noteq> None \<or> map_of e k \<noteq> None then Some (merged_value old e k) else None)"
    and "map_of m' ''token_count'' =
      (if map_of e ''type'' = Some (js ''reasoning_delta'')
       then (case (map_of old ''token_count'', map_of e ''token_count'') of
               (Some (JInt a), Some (JInt b)) \<Rightarrow> Some (JInt (a + b))
             | _ \<Rightarrow> None)
       else map_of old ''token_count'')"
proof -
  from assms(1) obtain m n1 where m: "merge_head old n e = Inr (Some (m, n1))" "merge_keys MERGED_KEYS old e m = Inr m'"
    by (rule merged_event_head)
  have val: "map_of m' k =
      (if k \<in> set MERGED_KEYS \<and> (map_of old k \<noteq> None \<or> map_of e k \<noteq> None) then Some (merged_value old e k) else map_of m k)" for k
    using delta_fields [OF assms(2)] delta_fields [OF assms(3)]
    by (intro merge_keys_value [OF m(2) merged_keys_distinct]) simp
  have tc: "''token_count'' \<notin> set MERGED_KEYS" by (simp add: MERGED_KEYS_def)
  show "k \<notin> set MERGED_KEYS \<Longrightarrow> k \<noteq> ''token_count'' \<Longrightarrow> map_of m' k = map_of old k"
    using val [of k] merge_head_fields [OF m(1), of k] by simp
  show "map_of m' k = (if map_of old k \<noteq> None \<or> map_of e k \<noteq> None then Some (merged_value old e k) else None)"
    if k: "k \<in> set MERGED_KEYS"
  proof -
    have "k \<noteq> ''token_count''" using k tc by blast
    then show ?thesis using val [of k] merge_head_fields [OF m(1), of k] k by auto
  qed
  show "map_of m' ''token_count'' =
      (if map_of e ''type'' = Some (js ''reasoning_delta'')
       then (case (map_of old ''token_count'', map_of e ''token_count'') of
               (Some (JInt a), Some (JInt b)) \<Rightarrow> Some (JInt (a + b))
             | _ \<Rightarrow> None)
       else map_of old ''token_count'')"
    using val [of "''token_count''"] tc merge_head_Some(3) [OF m(1)] by (auto simp: map_of_update)
qed

section \<open>What a reader sees of a sequence of events\<close>

text \<open>
  The pieces of an event under a key: a delta gives the units of its value, each under the kind of the
  delta (for a tool call, with its index), after the call's opening when it has an id or a name; every
  other event is a piece of its own. The trace of a choice is made of the events of that choice and of
  those without a choice.
\<close>

datatype piece =
    Opening "jv option" "jv option" "jv option"
  | Value "jv option" "jv option" jv
  | Whole event

definition tool_index :: "event \<Rightarrow> jv option" where
  "tool_index e = (if map_of e ''type'' = Some (js ''tool_call_delta'') then map_of e ''index'' else None)"

definition call_opening :: "event \<Rightarrow> piece list" where
  "call_opening e =
     (if map_of e ''type'' = Some (js ''tool_call_delta'') \<and> (''id'' \<in> set (keys e) \<or> ''name'' \<in> set (keys e))
      then [Opening (map_of e ''index'') (map_of e ''id'') (map_of e ''name'')] else [])"

definition payload :: "string \<Rightarrow> event \<Rightarrow> jv list" where
  "payload k e =
     (if k \<in> set MERGED_KEYS then
        (case map_of e k of
           Some (JStr s) \<Rightarrow> map (\<lambda>c. JStr [c]) s
         | Some (JList xs) \<Rightarrow> xs
         | _ \<Rightarrow> [])
      else if k = ''token_count'' \<and> map_of e ''type'' = Some (js ''reasoning_delta'') then
        (case map_of e ''token_count'' of
           Some (JInt n) \<Rightarrow> replicate (nat n) JNull
         | _ \<Rightarrow> [])
      else [])"

definition pieces :: "string \<Rightarrow> event \<Rightarrow> piece list" where
  "pieces k e =
     (if is_delta e then call_opening e @ map (Value (map_of e ''type'') (tool_index e)) (payload k e) else [Whole e])"

definition concerns :: "jv \<Rightarrow> event \<Rightarrow> bool" where
  "concerns c e \<longleftrightarrow> map_of e ''choice_index'' \<in> {None, Some c}"

definition trace :: "jv \<Rightarrow> string \<Rightarrow> event list \<Rightarrow> piece list" where
  "trace c k es = concat (map (pieces k) (filter (concerns c) es))"

lemma trace_append [simp]: "trace c k (es @ fs) = trace c k es @ trace c k fs"
  by (simp add: trace_def)

lemma trace_Nil [simp]: "trace c k [] = []"
  by (simp add: trace_def)

lemma trace_Cons: "trace c k (e # es) = (if concerns c e then pieces k e else []) @ trace c k es"
  by (simp add: trace_def)

lemma trace_unconcerned: "(\<And>e. e \<in> set es \<Longrightarrow> \<not> concerns c e) \<Longrightarrow> trace c k es = []"
  by (simp add: trace_def)

definition units :: "jv \<Rightarrow> jv list" where
  "units v = (case v of JStr s \<Rightarrow> map (\<lambda>c. JStr [c]) s | JList xs \<Rightarrow> xs | _ \<Rightarrow> [])"

lemma payload_units:
  "k \<in> set MERGED_KEYS \<Longrightarrow> payload k e = (case map_of e k of None \<Rightarrow> [] | Some v \<Rightarrow> units v)"
  by (simp add: payload_def units_def split: option.splits jv.splits)

lemma units_join: "join_values v w = Inr u \<Longrightarrow> units u = units v @ units w"
  by (cases v; cases w) (auto simp: units_def)

lemma units_empty [simp]: "units (empty_of k) = []"
  by (simp add: empty_of_def units_def)

lemma payload_merged_value:
  assumes "field_ok old k" "field_ok e k" "k \<in> set MERGED_KEYS"
  shows "units (merged_value old e k) = payload k old @ payload k e"
  using units_join [OF merged_value(1) [OF assms(1,2)]] assms(3)
  by (simp add: payload_units dict_get_def split: option.splits)

lemma fixed_keys: "''type'' \<notin> set MERGED_KEYS" "''choice_index'' \<notin> set MERGED_KEYS" "''index'' \<notin> set MERGED_KEYS"
  "''id'' \<notin> set MERGED_KEYS" "''name'' \<notin> set MERGED_KEYS" "''token_count'' \<notin> set MERGED_KEYS"
  by (simp_all add: MERGED_KEYS_def)

lemma merged_event_fixed:
  assumes "merged_event old n e = Inr (Some (m', n'))" "delta_ok old" "delta_ok e"
  shows "map_of m' ''type'' = map_of old ''type''" "map_of m' ''choice_index'' = map_of old ''choice_index''"
    "map_of m' ''index'' = map_of old ''index''" "map_of m' ''id'' = map_of old ''id''" "map_of m' ''name'' = map_of old ''name''"
    "map_of e ''type'' = map_of old ''type''"
proof -
  note f = merged_event_fields(1) [OF assms]
  show "map_of m' ''type'' = map_of old ''type''" by (rule f) (simp_all add: fixed_keys)
  show "map_of m' ''choice_index'' = map_of old ''choice_index''" by (rule f) (simp_all add: fixed_keys)
  show "map_of m' ''index'' = map_of old ''index''" by (rule f) (simp_all add: fixed_keys)
  show "map_of m' ''id'' = map_of old ''id''" by (rule f) (simp_all add: fixed_keys)
  show "map_of m' ''name'' = map_of old ''name''" by (rule f) (simp_all add: fixed_keys)
  show "map_of e ''type'' = map_of old ''type''"
    using assms(1) by (rule merged_event_head) (simp add: merge_head_Some(1))
qed

lemma count_ok_merged:
  "count_ok old \<Longrightarrow> count_ok e \<Longrightarrow>
   \<exists>a b. 0 \<le> a \<and> 0 \<le> b \<and> map_of old ''token_count'' = Some (JInt a) \<and> map_of e ''token_count'' = Some (JInt b)"
  by (auto simp: count_ok_def split: option.splits jv.splits)

lemma merged_event_payload:
  assumes "merged_event old n e = Inr (Some (m', n'))" "delta_ok old" "delta_ok e"
  shows "payload k m' = payload k old @ payload k e"
proof (cases "k \<in> set MERGED_KEYS")
  case True
  note ok = delta_fields [OF assms(2) True] delta_fields [OF assms(3) True]
  show ?thesis
    using merged_event_fields(2) [OF assms True] payload_merged_value [OF ok True] True
    by (simp add: payload_units split: if_splits)
next
  case False
  note ty = merged_event_fixed(1,6) [OF assms]
  show ?thesis
  proof (cases "k = ''token_count'' \<and> map_of e ''type'' = Some (js ''reasoning_delta'')")
    case True
    then obtain a b where "0 \<le> a" "0 \<le> b" "map_of old ''token_count'' = Some (JInt a)" "map_of e ''token_count'' = Some (JInt b)"
      using assms(2,3) ty count_ok_merged [of old e] by (auto simp: delta_ok_def)
    then show ?thesis
      using True False ty merged_event_fields(3) [OF assms]
      by (simp add: payload_def nat_add_distrib replicate_add)
  next
    case nr: False
    then show ?thesis using False ty by (auto simp: payload_def)
  qed
qed

lemma is_delta_cong: "map_of e ''type'' = map_of f ''type'' \<Longrightarrow> is_delta e = is_delta f"
  by (simp add: is_delta_def)

lemma in_keys_cong: "map_of d k = map_of e k \<Longrightarrow> k \<in> set (keys d) \<longleftrightarrow> k \<in> set (keys e)"
  by (simp add: map_of_Some_keys del: set_map)

lemma merged_event_ok:
  assumes "merged_event old n e = Inr (Some (m', n'))" "delta_ok old" "delta_ok e"
  shows "delta_ok m'"
proof -
  note fx = merged_event_fixed [OF assms]
  have "field_ok m' k" if k: "k \<in> set MERGED_KEYS" for k
    using merged_event_fields(2) [OF assms k] merged_value(2) [OF delta_fields [OF assms(2) k] delta_fields [OF assms(3) k]]
    by (simp add: field_ok_def)
  moreover have "count_ok m'" if "map_of m' ''type'' = Some (js ''reasoning_delta'')"
    using that fx assms(2,3) merged_event_fields(3) [OF assms] count_ok_merged [of old e]
    by (auto simp: delta_ok_def count_ok_def)
  ultimately show ?thesis
    using assms(2) fx in_keys_cong [OF fx(2)] in_keys_cong [OF fx(3)]
    by (simp add: delta_ok_def list_all_iff)
qed

text \<open>A merged delta shows the pieces of the old one followed by those of the new one.\<close>

lemma merged_event_pieces:
  assumes "merged_event old n e = Inr (Some (m', n'))" "delta_ok old" "delta_ok e" "is_delta e"
  shows "pieces k m' = pieces k old @ pieces k e"
proof -
  note fx = merged_event_fixed [OF assms(1-3)]
  have d: "is_delta m'" "is_delta old" using assms(4) fx is_delta_cong by metis+
  have o: "call_opening m' = call_opening old"
    using fx in_keys_cong [OF fx(4)] in_keys_cong [OF fx(5)] by (simp add: call_opening_def)
  from assms(1) obtain m n1 where m: "merge_head old n e = Inr (Some (m, n1))" by (rule merged_event_head)
  have "call_opening e = [] \<and> tool_index e = tool_index old"
    using merge_head_Some(2) [OF m] fx by (auto simp: call_opening_def tool_index_def)
  moreover have "tool_index m' = tool_index old" using fx by (simp add: tool_index_def)
  ultimately show ?thesis
    using merged_event_payload [OF assms(1-3)] d assms(4) fx o by (simp add: pieces_def)
qed

section \<open>The invariant of the buffer\<close>

text \<open>
  Entries have distinct identities, their recorded sizes are those of their events, the byte count is
  the sum of the sizes, the limits hold, and the open delta of a choice is the newest buffered event
  that concerns the choice.
\<close>

definition newest :: "jv \<Rightarrow> entry list \<Rightarrow> nat \<Rightarrow> bool" where
  "newest c es i \<longleftrightarrow>
     (\<exists>pre x post. es = pre @ x # post \<and> en_id x = i \<and> is_delta (en_event x)
        \<and> map_of (en_event x) ''choice_index'' = Some c \<and> (\<forall>y\<in>set post. \<not> concerns c (en_event y)))"

definition entry_inv :: "buffer \<Rightarrow> entry \<Rightarrow> bool" where
  "entry_inv b x \<longleftrightarrow>
     en_id x < eb_next b \<and> event_ok (en_event x) \<and> en_size x = event_size (en_event x)
     \<and> en_size x \<le> lm_max_event_bytes (eb_limits b)"

definition buf_inv :: "buffer \<Rightarrow> bool" where
  "buf_inv b \<longleftrightarrow>
     distinct (map en_id (eb_events b)) \<and> (\<forall>x\<in>set (eb_events b). entry_inv b x)
     \<and> eb_bytes b = sum_list (map en_size (eb_events b))
     \<and> eb_bytes b \<le> lm_max_buffer_bytes (eb_limits b)
     \<and> int (length (eb_events b)) \<le> lm_max_buffer_events (eb_limits b)
     \<and> eb_peak_bytes b \<le> lm_max_buffer_bytes (eb_limits b) \<and> eb_bytes b \<le> eb_peak_bytes b
     \<and> eb_peak_events b \<le> lm_max_buffer_events (eb_limits b) \<and> int (length (eb_events b)) \<le> eb_peak_events b
     \<and> (\<forall>c i. map_of (eb_open b) c = Some i \<longrightarrow> newest c (eb_events b) i)"

lemma entry_inv_cong:
  "eb_next b' = eb_next b \<Longrightarrow> eb_limits b' = eb_limits b \<Longrightarrow> entry_inv b' x = entry_inv b x"
  by (simp add: entry_inv_def)

lemma replace_entry_id: "i \<notin> en_id ` set es \<Longrightarrow> replace_entry i m n es = es"
  by (induction es) (auto simp: replace_entry_def)

lemma replace_entry_split:
  "distinct (map en_id (pre @ x # post)) \<Longrightarrow>
   replace_entry (en_id x) m n (pre @ x # post) = pre @ x\<lparr>en_event := m, en_size := n\<rparr> # post"
proof -
  assume "distinct (map en_id (pre @ x # post))"
  then have "replace_entry (en_id x) m n pre = pre" "replace_entry (en_id x) m n post = post"
    by (auto intro: replace_entry_id)
  then show ?thesis by (simp add: replace_entry_def)
qed

lemma find_entry_split:
  "distinct (map en_id (pre @ x # post)) \<Longrightarrow> find (\<lambda>y. en_id y = en_id x) (pre @ x # post) = Some x"
  by (induction pre) auto

text \<open>A successful merge replaces the newest entry of the choice by the merged event.\<close>

lemma buf_merge_split:
  assumes "buf_merge e b = (Inr True, b')" "buf_inv b"
  obtains c pre x post m n where "map_of e ''choice_index'' = Some c" "eb_events b = pre @ x # post"
    "is_delta (en_event x)" "map_of (en_event x) ''choice_index'' = Some c" "\<forall>y\<in>set post. \<not> concerns c (en_event y)"
    "merged_event (en_event x) (en_size x) e = Inr (Some (m, n))" "n \<le> lm_max_event_bytes (eb_limits b)"
    "eb_bytes b - en_size x + n \<le> lm_max_buffer_bytes (eb_limits b)"
    "b' = b\<lparr>eb_events := pre @ x\<lparr>en_event := m, en_size := n\<rparr> # post, eb_bytes := eb_bytes b + n - en_size x,
              eb_peak_bytes := max (eb_peak_bytes b) (eb_bytes b + n - en_size x)\<rparr>"
proof -
  obtain c where c: "map_of e ''choice_index'' = Some c"
    using assms(1) by (auto simp: buf_merge_def split: option.splits)
  obtain i where i: "map_of (eb_open b) c = Some i"
    using assms(1) c by (cases "map_of (eb_open b) c") (auto simp: buf_merge_def)
  then obtain pre x post where x: "eb_events b = pre @ x # post" "en_id x = i" "is_delta (en_event x)"
    "map_of (en_event x) ''choice_index'' = Some c" "\<forall>y\<in>set post. \<not> concerns c (en_event y)"
    using assms(2) unfolding buf_inv_def newest_def by blast
  have d: "distinct (map en_id (pre @ x # post))" using assms(2) x(1) by (simp add: buf_inv_def)
  obtain m n where m: "merged_event (en_event x) (en_size x) e = Inr (Some (m, n))"
    using assms(1) c i find_entry_split [OF d] x(1,2)
    by (auto simp: buf_merge_def split: sum.splits option.splits)
  show thesis
    using that [OF c x(1,3,4,5) m] assms(1) c i find_entry_split [OF d] replace_entry_split [OF d] x(1,2) m
    by (auto simp: buf_merge_def split: if_splits)
qed

lemma newest_replaced:
  assumes "newest c (pre @ x # post) i" "map_of m ''choice_index'' = map_of (en_event x) ''choice_index''"
    "is_delta m = is_delta (en_event x)"
  shows "newest c (pre @ x\<lparr>en_event := m, en_size := n\<rparr> # post) i"
proof -
  let ?r = "\<lambda>y. if y = x then x\<lparr>en_event := m, en_size := n\<rparr> else y"
  from assms(1) obtain p y q where y: "pre @ x # post = p @ y # q" "en_id y = i" "is_delta (en_event y)"
    "map_of (en_event y) ''choice_index'' = Some c" "\<forall>z\<in>set q. \<not> concerns c (en_event z)"
    unfolding newest_def by blast
  from y(1) consider us where "pre = p @ y # us" "q = us @ x # post" | "p = pre" "y = x" "q = post"
    | us where "post = us @ y # q" "p = pre @ x # us"
    by (auto simp: append_eq_append_conv2 append_eq_Cons_conv Cons_eq_append_conv)
  then show ?thesis
  proof cases
    case 1
    then show ?thesis
      using y assms(2) unfolding newest_def
      by (intro exI [of _ p] exI [of _ y] exI [of _ "us @ x\<lparr>en_event := m, en_size := n\<rparr> # post"]) (auto simp: concerns_def)
  next
    case 2
    then show ?thesis
      using y assms(2,3) unfolding newest_def
      by (intro exI [of _ pre] exI [of _ "x\<lparr>en_event := m, en_size := n\<rparr>"] exI [of _ post]) auto
  next
    case 3
    then show ?thesis
      using y unfolding newest_def
      by (intro exI [of _ "pre @ x\<lparr>en_event := m, en_size := n\<rparr> # us"] exI [of _ y] exI [of _ q]) auto
  qed
qed

lemma buf_merge_inv:
  assumes "buf_merge e b = (Inr True, b')" "buf_inv b" "event_ok e" "is_delta e"
  shows "buf_inv b'"
proof -
  obtain c pre x post m n where x: "map_of e ''choice_index'' = Some c" "eb_events b = pre @ x # post"
    "is_delta (en_event x)" "map_of (en_event x) ''choice_index'' = Some c"
    and m: "merged_event (en_event x) (en_size x) e = Inr (Some (m, n))"
    and n: "n \<le> lm_max_event_bytes (eb_limits b)" "eb_bytes b - en_size x + n \<le> lm_max_buffer_bytes (eb_limits b)"
    and b': "b' = b\<lparr>eb_events := pre @ x\<lparr>en_event := m, en_size := n\<rparr> # post, eb_bytes := eb_bytes b + n - en_size x,
              eb_peak_bytes := max (eb_peak_bytes b) (eb_bytes b + n - en_size x)\<rparr>"
    using buf_merge_split [OF assms(1,2)] by metis
  have ix: "entry_inv b x" using assms(2) x(2) by (simp add: buf_inv_def)
  then have ok: "delta_ok (en_event x)" "delta_ok e" "dict_wf (en_event x)" "en_event x \<noteq> []"
    and sz: "en_size x = event_size (en_event x)"
    using assms(3,4) x(3,4) by (auto simp: entry_inv_def event_ok_def)
  have m': "n = event_size m \<and> dict_wf m" using merged_event_size [OF _ ok(3,4,1,2)] m sz by metis
  have dm: "delta_ok m" by (rule merged_event_ok [OF m ok(1,2)])
  have fx: "map_of m ''choice_index'' = map_of (en_event x) ''choice_index''" "is_delta m = is_delta (en_event x)"
    using merged_event_fixed [OF m ok(1,2)] is_delta_cong by metis+
  have "entry_inv b (x\<lparr>en_event := m, en_size := n\<rparr>)"
    using ix m' dm n(1) by (simp add: entry_inv_def event_ok_def)
  then have es: "\<forall>y\<in>set (eb_events b'). entry_inv b' y"
    using assms(2) x(2) b' entry_inv_cong [of b' b] by (simp add: buf_inv_def)
  have "\<forall>d i. map_of (eb_open b') d = Some i \<longrightarrow> newest d (eb_events b') i"
    using assms(2) x(2) b' newest_replaced [OF _ fx] by (auto simp: buf_inv_def)
  with es show ?thesis
    using assms(2) x(2) b' n(2) by (simp add: buf_inv_def)
qed

lemma buf_merge_trace:
  assumes "buf_merge e b = (Inr True, b')" "buf_inv b" "event_ok e" "is_delta e"
  shows "trace c k (map en_event (eb_events b')) = trace c k (map en_event (eb_events b) @ [e])"
proof -
  obtain d pre x post m n where x: "map_of e ''choice_index'' = Some d" "eb_events b = pre @ x # post"
    "is_delta (en_event x)" "map_of (en_event x) ''choice_index'' = Some d" "\<forall>y\<in>set post. \<not> concerns d (en_event y)"
    and m: "merged_event (en_event x) (en_size x) e = Inr (Some (m, n))"
    and "b' = b\<lparr>eb_events := pre @ x\<lparr>en_event := m, en_size := n\<rparr> # post, eb_bytes := eb_bytes b + n - en_size x,
              eb_peak_bytes := max (eb_peak_bytes b) (eb_bytes b + n - en_size x)\<rparr>"
    using buf_merge_split [OF assms(1,2)] by metis
  then have b': "eb_events b' = pre @ x\<lparr>en_event := m, en_size := n\<rparr> # post" by simp
  have ok: "delta_ok (en_event x)" "delta_ok e"
    using assms x(2,3) by (auto simp: buf_inv_def entry_inv_def event_ok_def)
  have cm: "map_of m ''choice_index'' = Some d" using merged_event_fixed(2) [OF m ok] x(4) by simp
  show ?thesis
  proof (cases "c = d")
    case True
    have "trace c k (map en_event post) = []" by (rule trace_unconcerned) (use x(5) True in auto)
    then show ?thesis
      using x True b' cm merged_event_pieces [OF m ok assms(4)] by (simp add: trace_Cons concerns_def)
  next
    case False
    then show ?thesis using x b' cm by (simp add: trace_Cons concerns_def)
  qed
qed

lemma newest_appended: "newest c es i \<Longrightarrow> \<not> concerns c (en_event y) \<Longrightarrow> newest c (es @ [y]) i"
  by (fastforce simp: newest_def)

lemma newest_last: "is_delta (en_event y) \<Longrightarrow> map_of (en_event y) ''choice_index'' = Some c \<Longrightarrow> newest c (es @ [y]) (en_id y)"
  by (fastforce simp: newest_def)

lemma buf_append_events:
  assumes "buf_append e b = (Inr (), b')"
  shows "map en_event (eb_events b') = map en_event (eb_events b) @ [e]"
  using assms by (auto simp: buf_append_def Let_def split: if_splits)

lemma buf_append_inv:
  assumes "buf_append e b = (Inr (), b')" "buf_inv b" "event_ok e"
  shows "buf_inv b'"
proof -
  let ?y = "\<lparr>en_id = eb_next b, en_event = e, en_size = event_size e\<rparr>"
  let ?open = "case map_of e ''choice_index'' of
                 Some c \<Rightarrow> if is_delta e then AList.update c (eb_next b) (eb_open b) else AList.delete c (eb_open b)
               | None \<Rightarrow> []"
  have lim: "event_size e \<le> lm_max_event_bytes (eb_limits b)" "int (length (eb_events b)) < lm_max_buffer_events (eb_limits b)"
    "eb_bytes b + event_size e \<le> lm_max_buffer_bytes (eb_limits b)"
    and b': "b' = b\<lparr>eb_events := eb_events b @ [?y], eb_open := ?open, eb_next := eb_next b + 1, eb_bytes := eb_bytes b + event_size e,
                 eb_peak_bytes := max (eb_peak_bytes b) (eb_bytes b + event_size e),
                 eb_peak_events := max (eb_peak_events b) (int (length (eb_events b)) + 1)\<rparr>"
    using assms(1) by (auto simp: buf_append_def Let_def not_less split: if_splits)
  have es: "\<forall>x\<in>set (eb_events b). entry_inv b x" using assms(2) by (simp add: buf_inv_def)
  then have es': "\<forall>x\<in>set (eb_events b'). entry_inv b' x"
    using assms(3) lim(1) b' by (auto simp: entry_inv_def less_Suc_eq)
  have d: "distinct (map en_id (eb_events b'))"
    using assms(2) es b' by (auto simp: buf_inv_def entry_inv_def)
  have "newest c (eb_events b') i" if "map_of ?open c = Some i" for c i
  proof (cases "map_of e ''choice_index''")
    case None
    then show ?thesis using that by simp
  next
    case (Some d)
    show ?thesis
    proof (cases "d = c")
      case True
      then show ?thesis
        using that Some newest_last [of ?y c "eb_events b"] b'
        by (simp add: map_of_update map_of_delete split: if_splits)
    next
      case False
      then have "map_of (eb_open b) c = Some i"
        using that Some by (simp add: map_of_update map_of_delete split: if_splits)
      then have "newest c (eb_events b) i" using assms(2) by (simp add: buf_inv_def)
      then show ?thesis using newest_appended [of c _ i ?y] Some False b' by (simp add: concerns_def)
    qed
  qed
  then have "\<forall>c i. map_of (eb_open b') c = Some i \<longrightarrow> newest c (eb_events b') i" using b' by simp
  with es' d show ?thesis
    using assms(2) lim(2,3) unfolding buf_inv_def by (simp add: b')
qed

lemma buf_put_cases:
  assumes "buf_put e b = (Inr (), b')"
  obtains "is_delta e" "buf_merge e b = (Inr True, b')" | "buf_append e b = (Inr (), b')"
proof -
  have "b'' = b" if "buf_merge e b = (Inr False, b'')" for b''
    using that by (auto simp: buf_merge_def split: option.splits sum.splits if_splits)
  then show thesis
    using assms that by (auto simp: buf_put_def split: if_splits prod.splits sum.splits bool.splits)
qed

text \<open>A put that raises leaves the buffer as it was.\<close>

lemma buf_put_error: "buf_put e b = (Inl x, b') \<Longrightarrow> b' = b"
  by (auto simp: buf_put_def buf_merge_def buf_append_def Let_def split: option.splits sum.splits if_splits bool.splits)

lemma buf_put_inv: "buf_put e b = (Inr (), b') \<Longrightarrow> buf_inv b \<Longrightarrow> event_ok e \<Longrightarrow> buf_inv b'"
  by (erule buf_put_cases) (auto intro: buf_merge_inv buf_append_inv)

lemma buf_put_trace:
  "buf_put e b = (Inr (), b') \<Longrightarrow> buf_inv b \<Longrightarrow> event_ok e \<Longrightarrow>
   trace c k (map en_event (eb_events b')) = trace c k (map en_event (eb_events b)) @ trace c k [e]"
  by (erule buf_put_cases) (simp_all add: buf_merge_trace buf_append_events)

lemma newest_tail: "newest c (x # es) i \<Longrightarrow> en_id x \<noteq> i \<Longrightarrow> newest c es i"
  by (auto simp: newest_def Cons_eq_append_conv)

lemma newest_head:
  "newest c (x # es) (en_id x) \<Longrightarrow> distinct (map en_id (x # es)) \<Longrightarrow> map_of (en_event x) ''choice_index'' = Some c"
  by (fastforce simp: newest_def Cons_eq_append_conv)

lemma buf_pop_inv:
  assumes "buf_pop b = Some (e, b')" "buf_inv b"
  shows "buf_inv b'" and "map en_event (eb_events b) = e # map en_event (eb_events b')"
proof -
  obtain x es where x: "eb_events b = x # es"
    using assms(1) by (cases "eb_events b") (auto simp: buf_pop_def)
  let ?c = "dict_get (en_event x) ''choice_index'' JNull"
  let ?open = "if map_of (eb_open b) ?c = Some (en_id x) then AList.delete ?c (eb_open b) else eb_open b"
  have b': "e = en_event x" "b' = b\<lparr>eb_events := es, eb_bytes := eb_bytes b - en_size x, eb_open := ?open\<rparr>"
    using assms(1) x by (auto simp: buf_pop_def Let_def)
  show "map en_event (eb_events b) = e # map en_event (eb_events b')" using x b' by simp
  have dist: "distinct (map en_id (x # es))" using assms(2) x by (simp add: buf_inv_def)
  have "newest d es i" if "map_of ?open d = Some i" for d i
  proof -
    have o: "map_of (eb_open b) d = Some i" using that by (simp add: map_of_delete split: if_splits)
    then have n: "newest d (x # es) i" using assms(2) x by (simp add: buf_inv_def)
    have "en_id x \<noteq> i"
    proof
      assume i: "en_id x = i"
      then have "?c = d" using n newest_head [OF _ dist] by simp
      then show False using that o i by (simp add: map_of_delete)
    qed
    then show ?thesis using newest_tail [OF n] by simp
  qed
  then have op: "\<forall>d i. map_of (eb_open b') d = Some i \<longrightarrow> newest d (eb_events b') i" using b' by simp
  have es: "\<forall>y\<in>set (eb_events b'). entry_inv b' y"
    using assms(2) x b' entry_inv_cong [of b' b] by (simp add: buf_inv_def)
  have "0 \<le> en_size x"
    using assms(2) x by (simp add: buf_inv_def entry_inv_def event_size_nonneg)
  with op es show "buf_inv b'" using assms(2) x unfolding buf_inv_def by (simp add: b')
qed

lemma drain_loop_trace:
  "drain_loop k b = (es, b') \<Longrightarrow> buf_inv b \<Longrightarrow> buf_inv b' \<and> eb_error b' = eb_error b
     \<and> map en_event (eb_events b) = es @ map en_event (eb_events b')"
proof (induction k arbitrary: b es)
  case (Suc k)
  show ?case
  proof (cases "buf_pop b")
    case (Some r)
    obtain e b1 where r: "r = (e, b1)" by fastforce
    obtain fs where fs: "drain_loop k b1 = (fs, b')" "es = e # fs"
      using Suc.prems(1) Some r by (auto split: prod.splits)
    have "eb_error b1 = eb_error b" using Some r by (auto simp: buf_pop_def Let_def split: list.splits)
    with Suc.IH [OF fs(1)] buf_pop_inv [of b e b1] Suc.prems(2) Some r fs(2) show ?thesis by simp
  qed (use Suc.prems in simp)
qed simp

lemma drain_loop_limits: "drain_loop k b = (es, b') \<Longrightarrow> eb_limits b' = eb_limits b"
proof (induction k arbitrary: b es)
  case (Suc k)
  then show ?case by (fastforce simp: buf_pop_def Let_def split: option.splits list.splits prod.splits)
qed simp

section \<open>Runs of the buffer\<close>

text \<open>
  The engine task puts events, finishes or fails the stream; the reader takes one event or drains the
  rest. A run records the events that were put and those that were delivered.
\<close>

inductive stream_run :: "stream_limits \<Rightarrow> event list \<Rightarrow> event list \<Rightarrow> buffer \<Rightarrow> bool" for L where
  start: "new_limits L0 = Inr L \<Longrightarrow> stream_run L [] [] (new_buffer L)"
| put: "stream_run L ps out b \<Longrightarrow> event_ok e \<Longrightarrow> buf_put e b = (Inr (), b') \<Longrightarrow> stream_run L (ps @ [e]) out b'"
| get: "stream_run L ps out b \<Longrightarrow> buf_get b = (Got e, b') \<Longrightarrow> stream_run L ps (out @ [e]) b'"
| drain: "stream_run L ps out b \<Longrightarrow> buf_drain b = (es, b') \<Longrightarrow> stream_run L ps (out @ es) b'"
| fail: "stream_run L ps out b \<Longrightarrow> buf_fail code source param b = (Inr (), b') \<Longrightarrow> stream_run L ps out b'"
| finish: "stream_run L ps out b \<Longrightarrow> stream_run L ps out (b\<lparr>eb_done := True\<rparr>)"

lemma new_limits_pos:
  "new_limits L0 = Inr L \<Longrightarrow> 0 < lm_max_buffer_bytes L \<and> 0 < lm_max_buffer_events L"
  by (auto simp: new_limits_def split: if_splits)

lemma buf_get_Got: "buf_get b = (Got e, b') \<longleftrightarrow> eb_error b = None \<and> buf_pop b = Some (e, b')"
  by (auto simp: buf_get_def split: option.splits if_splits)

lemma buf_fail_Inr:
  "buf_fail code source param b = (Inr (), b') \<Longrightarrow>
   \<exists>err. b' = b\<lparr>eb_error := Some err, eb_events := [], eb_open := [], eb_bytes := 0\<rparr>"
  by (auto simp: buf_fail_def split: sum.splits)

lemma buf_inv_fail:
  assumes "buf_inv b" "buf_fail code source param b = (Inr (), b')"
  shows "buf_inv b' \<and> eb_limits b' = eb_limits b"
proof -
  have "0 \<le> sum_list (map en_size (eb_events b))"
    using assms(1) by (intro sum_list_nonneg) (auto simp: buf_inv_def entry_inv_def event_size_nonneg)
  with assms(1) buf_fail_Inr [OF assms(2)] show ?thesis by (auto simp: buf_inv_def)
qed

lemma stream_run_inv: "stream_run L ps out b \<Longrightarrow> buf_inv b \<and> eb_limits b = L"
proof (induction rule: stream_run.induct)
  case (start L0)
  then show ?case using new_limits_pos [of L0 L] by (simp add: buf_inv_def new_buffer_def)
next
  case (put ps out b e b')
  have "eb_limits b' = eb_limits b"
    using put.hyps(3) by (auto simp: buf_put_def buf_merge_def buf_append_def Let_def split: option.splits sum.splits if_splits bool.splits)
  with put show ?case using buf_put_inv by simp
next
  case (get ps out b e b')
  then have "buf_pop b = Some (e, b')" by (simp add: buf_get_Got)
  moreover from this have "eb_limits b' = eb_limits b" by (auto simp: buf_pop_def Let_def split: list.splits)
  ultimately show ?case using get.IH buf_pop_inv(1) by simp
next
  case (drain ps out b es b')
  then show ?case using drain_loop_trace [of "length (eb_events b)" b es b'] drain_loop_limits
    by (auto simp: buf_drain_def split: if_splits)
next
  case (fail ps out b code source param b')
  then show ?case using buf_inv_fail [of b] by simp
next
  case (finish ps out b)
  then show ?case using entry_inv_cong [of "b\<lparr>eb_done := True\<rparr>" b] by (auto simp: buf_inv_def)
qed

lemma buf_inv_event:
  "buf_inv b \<Longrightarrow> e \<in> set (map en_event (eb_events b)) \<Longrightarrow>
   event_ok e \<and> event_size e \<le> lm_max_event_bytes (eb_limits b)"
  by (auto simp: buf_inv_def entry_inv_def)

lemma stream_run_delivered:
  "stream_run L ps out b \<Longrightarrow> \<forall>e\<in>set out. event_ok e \<and> event_size e \<le> lm_max_event_bytes L"
proof (induction rule: stream_run.induct)
  case (get ps out b e b')
  have inv: "buf_inv b" "eb_limits b = L" using stream_run_inv [OF get.hyps(1)] by simp_all
  then have "e \<in> set (map en_event (eb_events b))"
    using buf_pop_inv(2) [of b e b'] get.hyps(2) by (metis buf_get_Got list.set_intros(1))
  with get.IH inv buf_inv_event [OF inv(1)] show ?case by auto
next
  case (drain ps out b es b')
  have inv: "buf_inv b" "eb_limits b = L" using stream_run_inv [OF drain.hyps(1)] by simp_all
  have "set es \<subseteq> set (map en_event (eb_events b))"
  proof (cases "eb_error b = None")
    case True
    then have "map en_event (eb_events b) = es @ map en_event (eb_events b')"
      using drain_loop_trace [OF _ inv(1)] drain.hyps(2) by (simp add: buf_drain_def)
    then show ?thesis by simp
  next
    case False
    then show ?thesis using drain.hyps(2) by (auto simp: buf_drain_def)
  qed
  with drain.IH inv buf_inv_event [OF inv(1)] show ?case by auto
qed auto

lemma buf_put_keeps_error: "buf_put e b = (Inr (), b') \<Longrightarrow> eb_error b' = eb_error b"
  by (auto simp: buf_put_def buf_merge_def buf_append_def Let_def split: option.splits sum.splits if_splits bool.splits)

lemma stream_run_trace:
  "stream_run L ps out b \<Longrightarrow>
   (eb_error b = None \<longrightarrow> trace c k ps = trace c k (out @ map en_event (eb_events b)))
   \<and> (\<exists>rest. trace c k ps = trace c k out @ rest)"
proof (induction rule: stream_run.induct)
  case (put ps out b e b')
  have "buf_inv b" using stream_run_inv [OF put.hyps(1)] by simp
  from buf_put_trace [OF put.hyps(3) this put.hyps(2)] buf_put_keeps_error [OF put.hyps(3)] put.IH
  show ?case by auto
next
  case (get ps out b e b')
  have "buf_inv b" using stream_run_inv [OF get.hyps(1)] by simp
  moreover from get.hyps(2) have p: "eb_error b = None" "buf_pop b = Some (e, b')" by (simp_all add: buf_get_Got)
  ultimately have "map en_event (eb_events b) = e # map en_event (eb_events b')" by (simp add: buf_pop_inv(2))
  then have "trace c k (out @ map en_event (eb_events b)) = trace c k ((out @ [e]) @ map en_event (eb_events b'))" by simp
  with get.IH p(1) show ?case by (auto simp: trace_Cons)
next
  case (drain ps out b es b')
  have inv: "buf_inv b" using stream_run_inv [OF drain.hyps(1)] by simp
  show ?case
  proof (cases "eb_error b = None")
    case True
    then have "map en_event (eb_events b) = es @ map en_event (eb_events b')"
      using drain_loop_trace [OF _ inv] drain.hyps(2) by (simp add: buf_drain_def)
    then have "trace c k (out @ map en_event (eb_events b)) = trace c k ((out @ es) @ map en_event (eb_events b'))" by simp
    with drain.IH True show ?thesis by auto
  next
    case False
    with drain show ?thesis by (simp add: buf_drain_def)
  qed
qed (auto simp: new_buffer_def dest!: buf_fail_Inr)

section \<open>Properties of the buffer\<close>

text \<open>
  C14. Limits of the event buffer. After any sequence of puts, reads, drains, failures and completion, on
  limits that \<open>StreamLimits\<close> accepts, the byte count that the buffer keeps incrementally is the sum of the
  serialised sizes of the buffered events, it and its peak stay within \<open>max_buffer_bytes\<close>, the number of
  events and its peak within \<open>max_buffer_events\<close>, and every event buffered or delivered, merged or not,
  serialises to at most \<open>max_event_bytes\<close>.
\<close>

theorem buffer_limits_kept:
  assumes "stream_run L ps out b"
  shows "eb_bytes b = sum_list (map (\<lambda>x. event_size (en_event x)) (eb_events b))
    \<and> eb_bytes b \<le> eb_peak_bytes b \<and> eb_peak_bytes b \<le> lm_max_buffer_bytes L
    \<and> int (length (eb_events b)) \<le> eb_peak_events b \<and> eb_peak_events b \<le> lm_max_buffer_events L
    \<and> (\<forall>e\<in>set (out @ map en_event (eb_events b)). event_size e \<le> lm_max_event_bytes L)"
proof -
  have inv: "buf_inv b" "eb_limits b = L" using stream_run_inv [OF assms] by simp_all
  then have "map en_size (eb_events b) = map (\<lambda>x. event_size (en_event x)) (eb_events b)"
    by (simp add: buf_inv_def entry_inv_def)
  then have "sum_list (map en_size (eb_events b)) = sum_list (map (\<lambda>x. event_size (en_event x)) (eb_events b))"
    by (rule arg_cong)
  moreover have "\<forall>e\<in>set (out @ map en_event (eb_events b)). event_size e \<le> lm_max_event_bytes L"
    using inv stream_run_delivered [OF assms] buf_inv_event [OF inv(1)] by auto
  ultimately show ?thesis using inv by (simp add: buf_inv_def)
qed

text \<open>
  C13. Merging loses and reorders nothing. For every choice and every merged field, what a reader sees of
  the delivered events followed by the buffered ones (the units of the field under the kind of their delta
  and the index of their tool call, the openings of tool calls, and the events that are no deltas, in
  order) is what it would see of the events the engine put, as long as no failure is recorded; and what was
  delivered is always a prefix of what was put.
\<close>

theorem merging_loses_nothing:
  assumes "stream_run L ps out b"
  shows "(eb_error b = None \<longrightarrow> trace c k ps = trace c k (out @ map en_event (eb_events b)))
    \<and> (\<exists>rest. trace c k ps = trace c k out @ rest)"
  using stream_run_trace [OF assms] .

section \<open>A run that merges\<close>

definition demo_limits :: stream_limits where
  "demo_limits = \<lparr>lm_timeout_s = 300, lm_stall_timeout_s = 30, lm_cleanup_timeout_s = 10, lm_max_buffer_events = 4,
     lm_max_buffer_bytes = 400, lm_max_event_bytes = 120\<rparr>"

definition demo_delta :: "string \<Rightarrow> int list \<Rightarrow> event" where
  "demo_delta text ids =
     [(''type'', js ''delta''), (''choice_index'', JInt 0), (''text'', js text), (''token_ids'', JList (map JInt ids))]"

definition demo_end :: event where
  "demo_end = [(''type'', js ''choice_finished''), (''choice_index'', JInt 0), (''finish_reason'', js ''stop'')]"

definition demo_puts :: "event list" where
  "demo_puts = [demo_delta ''He'' [11], demo_delta ''llo'' [12, 13], demo_end]"

fun put_all :: "event list \<Rightarrow> buffer \<Rightarrow> buffer option" where
  "put_all [] b = Some b"
| "put_all (e # es) b = (case buf_put e b of (Inr u, b') \<Rightarrow> put_all es b' | (Inl x, b') \<Rightarrow> None)"

lemma put_all_run:
  "put_all es b = Some b' \<Longrightarrow> stream_run L ps out b \<Longrightarrow> list_all event_ok es \<Longrightarrow> stream_run L (ps @ es) out b'"
proof (induction es arbitrary: b ps)
  case (Cons e es)
  obtain r b1 where r: "buf_put e b = (r, b1)" by fastforce
  with Cons.prems(1) have "r = Inr ()" by (cases r) auto
  with r Cons.prems(1) have "buf_put e b = (Inr (), b1)" "put_all es b1 = Some b'" by simp_all
  from Cons.IH [OF this(2) stream_run.put [OF Cons.prems(2) _ this(1)]] Cons.prems(3) show ?case by simp
qed simp

definition demo_full :: buffer where
  "demo_full = the (put_all demo_puts (new_buffer demo_limits))"

definition demo_rest :: buffer where
  "demo_rest = snd (buf_get demo_full)"

lemma demo_run: "stream_run demo_limits demo_puts [demo_delta ''Hello'' [11, 12, 13]] demo_rest"
proof -
  have "new_limits demo_limits = Inr demo_limits" by code_simp
  then have "stream_run demo_limits [] [] (new_buffer demo_limits)" by (rule stream_run.start)
  moreover have "put_all demo_puts (new_buffer demo_limits) \<noteq> None" by code_simp
  then have "put_all demo_puts (new_buffer demo_limits) = Some demo_full" by (auto simp: demo_full_def)
  moreover have "list_all event_ok demo_puts" by code_simp
  ultimately have "stream_run demo_limits ([] @ demo_puts) [] demo_full" by (intro put_all_run)
  moreover have "fst (buf_get demo_full) = Got (demo_delta ''Hello'' [11, 12, 13])" by code_simp
  then have "buf_get demo_full = (Got (demo_delta ''Hello'' [11, 12, 13]), demo_rest)"
    by (metis demo_rest_def prod.collapse)
  ultimately show ?thesis by (metis append_Nil stream_run.get)
qed

theorem buffer_limits_kept_witness:
  "eb_bytes demo_rest = 66 \<and> eb_peak_bytes demo_rest = 137 \<and> eb_peak_bytes demo_rest \<le> 400"
proof -
  have "eb_peak_bytes demo_rest \<le> lm_max_buffer_bytes demo_limits" using buffer_limits_kept [OF demo_run] by blast
  moreover have "eb_bytes demo_rest = 66" "eb_peak_bytes demo_rest = 137" by code_simp+
  ultimately show ?thesis by simp
qed

theorem merging_loses_nothing_witness:
  "length demo_puts = 3 \<and> eb_error demo_rest = None
   \<and> trace (JInt 0) ''text'' demo_puts =
       trace (JInt 0) ''text'' [demo_delta ''Hello'' [11, 12, 13], demo_end]"
proof -
  have "eb_error demo_rest = None" by code_simp
  moreover have "map en_event (eb_events demo_rest) = [demo_end]" by code_simp
  ultimately show ?thesis
    using merging_loses_nothing [OF demo_run, of "JInt 0" "''text''"] by (simp add: demo_puts_def)
qed

end
