(* ===== verification/Stream_Session.thy ===== *)
theory Stream_Session
  imports Streaming
begin

text \<open>
  The two ends of a stream (\<open>inference/server/streaming.py\<close>): the task that turns the engine's outputs
  for a text prompt into events (\<open>EngineStream.produce\<close>), the worker's delivery in numbered batches
  (\<open>stream_events\<close>), and the client that checks every event (\<open>ClientStream\<close>).

  The engine's outputs, the outcome of closing its generator and the outcome of the client's remote abort
  are arguments. Log-probabilities are finite or minus infinity.
\<close>

section \<open>Log-probabilities of a delta\<close>

datatype lp_value = Finite rat nat | NegInf

record logprob =
  lp_logprob :: lp_value
  lp_decoded_token :: "int list option"
  lp_rank :: "int option"

type_synonym position = "(int, logprob) dict"

definition logprob_entry :: "int \<Rightarrow> logprob \<Rightarrow> (string \<times> jv) list" where
  "logprob_entry tid lp =
     [(''token_id'', JInt tid),
      (''token'', JStr (case lp_decoded_token lp of None \<Rightarrow> [] | Some t \<Rightarrow> t)),
      (''logprob'', (case lp_logprob lp of NegInf \<Rightarrow> JFloat (- 9999) 7 | Finite x n \<Rightarrow> JFloat x n))]"

definition in_top :: "int \<Rightarrow> int \<times> logprob \<Rightarrow> bool" where
  "in_top top_k item = (case lp_rank (snd item) of None \<Rightarrow> False | Some r \<Rightarrow> r \<le> top_k)"

definition top_items :: "position \<Rightarrow> int \<Rightarrow> (int \<times> logprob) list" where
  "top_items pos top_k = sort_key (\<lambda>item. the (lp_rank (snd item))) (filter (in_top top_k) pos)"

fun logprob_entries :: "int list \<Rightarrow> position list \<Rightarrow> int \<Rightarrow> jv list res" where
  "logprob_entries (t # ts) (pos # ps) top_k =
     (case map_of pos t of
        None \<Rightarrow> Inl (StreamError ''invalid_engine_output'')
      | Some lp \<Rightarrow>
          (case logprob_entries ts ps top_k of
             Inl x \<Rightarrow> Inl x
           | Inr es \<Rightarrow>
               Inr (JDict (logprob_entry t lp
                           @ [(''top'', JList (map (\<lambda>(u, q). JDict (logprob_entry u q)) (top_items pos top_k)))]) # es)))"
| "logprob_entries _ _ top_k = Inr []"

definition delta_logprobs :: "int list \<Rightarrow> position list option \<Rightarrow> int \<Rightarrow> jv list res" where
  "delta_logprobs ts positions top_k =
     (case positions of
        None \<Rightarrow> Inl (StreamError ''invalid_engine_output'')
      | Some ps \<Rightarrow>
          if length ps \<noteq> length ts then Inl (StreamError ''invalid_engine_output'')
          else logprob_entries ts ps top_k)"

section \<open>The producer\<close>

record choice_output =
  co_index :: int
  co_text :: "int list"
  co_token_ids :: "int list"
  co_finish_reason :: "string option"
  co_logprobs :: "position list option"

record engine_output =
  eo_prompt_token_ids :: "int list option"
  eo_outputs :: "choice_output list"

record stream_params =
  sp_n :: nat
  sp_max_tokens :: int
  sp_max_tokens_omitted :: bool
  sp_logprobs :: "int option"
  sp_max_model_len :: int

record producer =
  pd_counts :: "int list"
  pd_finished :: "int list"
  pd_prompt_tokens :: "int option"
  pd_ended :: bool
  pd_buffer :: buffer

definition new_producer :: "stream_params \<Rightarrow> stream_limits \<Rightarrow> producer" where
  "new_producer par L =
     \<lparr>pd_counts = replicate (sp_n par) 0, pd_finished = [], pd_prompt_tokens = None, pd_ended = False, pd_buffer = new_buffer L\<rparr>"

definition text_delta :: "choice_output \<Rightarrow> jv list option \<Rightarrow> event" where
  "text_delta ch lps =
     [(''type'', js ''delta''), (''choice_index'', JInt (co_index ch)), (''text'', JStr (co_text ch)),
      (''token_ids'', JList (map JInt (co_token_ids ch)))]
     @ (case lps of None \<Rightarrow> [] | Some es \<Rightarrow> [(''logprobs'', JList es)])"

definition finish_event :: "int \<Rightarrow> string \<Rightarrow> event" where
  "finish_event i reason =
     [(''type'', js ''choice_finished''), (''choice_index'', JInt i), (''finish_reason'', js reason)]"

text \<open>The checks on one choice of an output, with the events that it puts, in order.\<close>

definition choice_logprobs :: "stream_params \<Rightarrow> choice_output \<Rightarrow> jv list option res" where
  "choice_logprobs par ch =
     (case sp_logprobs par of
        None \<Rightarrow> Inr None
      | Some k \<Rightarrow> (case delta_logprobs (co_token_ids ch) (co_logprobs ch) k of Inl x \<Rightarrow> Inl x | Inr es \<Rightarrow> Inr (Some es)))"

definition choice_events :: "choice_output \<Rightarrow> jv list option \<Rightarrow> event list" where
  "choice_events ch lps =
     (if co_text ch \<noteq> [] \<or> co_token_ids ch \<noteq> [] then [text_delta ch lps] else [])
     @ (case co_finish_reason ch of None \<Rightarrow> [] | Some r \<Rightarrow> [finish_event (co_index ch) r])"

fun put_events :: "event list \<Rightarrow> (buffer, unit) op" where
  "put_events [] b = (Inr (), b)"
| "put_events (e # es) b = (case buf_put e b of (Inl x, b') \<Rightarrow> (Inl x, b') | (Inr _, b') \<Rightarrow> put_events es b')"

definition produce_choice :: "stream_params \<Rightarrow> choice_output \<Rightarrow> (producer, unit) op" where
  "produce_choice par ch p =
     (let i = co_index ch in
      if \<not> (0 \<le> i \<and> i < int (length (pd_counts p))) \<or> i \<in> set (pd_finished p)
      then (Inl (StreamError ''invalid_engine_output''), p)
      else
        let cnt = pd_counts p ! nat i + int (length (co_token_ids ch));
            p1 = p\<lparr>pd_counts := (pd_counts p)[nat i := cnt]\<rparr>
        in if sp_max_tokens par < cnt then (Inl (StreamError ''invalid_engine_output''), p1)
           else if (case co_finish_reason ch of None \<Rightarrow> False | Some r \<Rightarrow> r \<notin> {''stop'', ''length''})
           then (Inl (StreamError ''engine_aborted''), p1)
           else (case choice_logprobs par ch of
                   Inl x \<Rightarrow> (Inl x, p1)
                 | Inr lps \<Rightarrow>
                     (case put_events (choice_events ch lps) (pd_buffer p1) of
                        (Inl x, b) \<Rightarrow> (Inl x, p1\<lparr>pd_buffer := b\<rparr>)
                      | (Inr _, b) \<Rightarrow>
                          (Inr (), p1\<lparr>pd_buffer := b,
                             pd_finished := (if co_finish_reason ch = None then pd_finished p1 else i # pd_finished p1)\<rparr>))))"

fun produce_choices :: "stream_params \<Rightarrow> choice_output list \<Rightarrow> (producer, unit) op" where
  "produce_choices par [] p = (Inr (), p)"
| "produce_choices par (ch # chs) p =
     (case produce_choice par ch p of (Inl x, p') \<Rightarrow> (Inl x, p') | (Inr _, p') \<Rightarrow> produce_choices par chs p')"

definition produce_output :: "stream_params \<Rightarrow> engine_output \<Rightarrow> (producer, unit) op" where
  "produce_output par out p =
     (case eo_prompt_token_ids out of
        None \<Rightarrow> produce_choices par (eo_outputs out) p
      | Some ids \<Rightarrow>
          let n = int (length ids); p1 = p\<lparr>pd_prompt_tokens := Some n\<rparr>
          in if \<not> sp_max_tokens_omitted par \<and> sp_max_model_len par < n + sp_max_tokens par
             then (Inl (StreamError ''context_length_exceeded''), p1)
             else produce_choices par (eo_outputs out) p1)"

definition usage_event :: "int \<Rightarrow> int \<Rightarrow> event" where
  "usage_event pt ct =
     [(''type'', js ''usage''), (''prompt_tokens'', JInt pt), (''completion_tokens'', JInt ct), (''total_tokens'', JInt (pt + ct))]"

definition completed_event :: event where
  "completed_event = [(''type'', js ''completed'')]"

text \<open>The end of the stream; \<open>confirmed\<close> says whether closing the engine's generator was confirmed in time.\<close>

definition produce_end :: "bool \<Rightarrow> (producer, unit) op" where
  "produce_end confirmed p =
     (case pd_prompt_tokens p of
        None \<Rightarrow> (Inl (StreamError ''incomplete_engine_output''), p)
      | Some pt \<Rightarrow>
          if length (pd_finished p) \<noteq> length (pd_counts p) then (Inl (StreamError ''incomplete_engine_output''), p)
          else if \<not> confirmed then (Inl (StreamError ''cleanup_unconfirmed''), p)
          else (case eb_error (pd_buffer p) of
                  Some err \<Rightarrow> (Inl (StreamError (se_code err)), p)
                | None \<Rightarrow>
                    (case put_events [usage_event pt (sum_list (pd_counts p)), completed_event] (pd_buffer p) of
                       (Inl x, b) \<Rightarrow> (Inl x, p\<lparr>pd_buffer := b\<rparr>)
                     | (Inr _, b) \<Rightarrow> (Inr (), p\<lparr>pd_buffer := b\<lparr>eb_done := True\<rparr>, pd_ended := True\<rparr>))))"

text \<open>
  A failure of the producer is recorded in the buffer. Only the check of the completion budget raises
  \<open>context_length_exceeded\<close> here; an error that is no stream error is the engine's.
\<close>

definition produce_failed :: "exn \<Rightarrow> (producer, unit) op" where
  "produce_failed x p =
     (let code = (case x of StreamError c \<Rightarrow> c | _ \<Rightarrow> ''engine_error'');
          source = (if code = ''context_length_exceeded'' then Some ''completion_budget'' else None)
      in (case buf_fail code source None (pd_buffer p) of
            (r, b) \<Rightarrow> (r, p\<lparr>pd_buffer := b, pd_ended := True\<rparr>)))"

text \<open>
  An exception of the engine: whether it is vLLM's validation error, the parameter it names, and its
  message. Its classification decides the code the client sees.
\<close>

record engine_exn =
  ee_validation :: bool
  ee_parameter :: "string option"
  ee_message :: string

definition STRUCTURED_OUTPUT_ERRORS :: "string list" where
  "STRUCTURED_OUTPUT_ERRORS =
     [''Failed to transform json schema into a grammar: '',
      ''The provided JSON schema contains features not supported by xgrammar.'',
      ''Invalid JSON grammar specification.'',
      ''Invalid grammar specification'',
      ''Failed to transform regex into a grammar: '',
      ''Failed to transform choices into a grammar: '',
      ''Grammar error: '',
      ''Error serializing structured outputs jsonschema: '',
      ''Failed to transform json schema into a regex: '',
      ''Error parsing regex: '',
      ''Regex uses unsupported feature for structured outputs: '',
      ''Regex does not have a anchored universal start state'']"

definition SAMPLING_PARAM_ERRORS :: "string list" where
  "SAMPLING_PARAM_ERRORS =
     [''The min_p and logit_bias sampling parameters are not yet supported with speculative decoding.'',
      ''thinking_token_budget is set but reasoning_config is not configured.'']"

fun starts_with :: "string \<Rightarrow> string \<Rightarrow> bool" where
  "starts_with s [] = True"
| "starts_with [] (p # ps) = False"
| "starts_with (c # cs) (p # ps) = (c = p \<and> starts_with cs ps)"

fun contains :: "string \<Rightarrow> string \<Rightarrow> bool" where
  "contains [] p = (p = [])"
| "contains (c # cs) p = (starts_with (c # cs) p \<or> contains cs p)"

definition classify_engine_error :: "engine_exn \<Rightarrow> string \<times> string option" where
  "classify_engine_error x =
     (if \<not> ee_validation x then (''engine_error'', None)
      else if ee_parameter x = Some ''input_tokens'' then (''context_length_exceeded'', Some ''prompt'')
      else if ee_parameter x \<in> {Some ''logit_bias'', Some ''logprobs''} then (''invalid_sampling_params'', None)
      else if list_ex (starts_with (ee_message x)) SAMPLING_PARAM_ERRORS then (''invalid_sampling_params'', None)
      else if list_ex (starts_with (ee_message x)) STRUCTURED_OUTPUT_ERRORS then (''invalid_structured_output'', None)
      else if starts_with (ee_message x) ''This model's maximum context length is ''
           \<and> contains (ee_message x) ''your prompt contains'' \<and> contains (ee_message x) '' input tokens''
           \<and> contains (ee_message x)
                ''Please reduce the length of the input prompt or the number of requested output tokens.''
      then (''context_length_exceeded'', Some ''prompt'')
      else if starts_with (ee_message x) ''The decoder prompt (length ''
           \<and> contains (ee_message x) ''longer than the maximum model length of ''
      then (''context_length_exceeded'', Some ''prompt'')
      else (''engine_error'', None))"

definition engine_failed :: "engine_exn \<Rightarrow> (producer, unit) op" where
  "engine_failed x p =
     (case classify_engine_error x of
        (code, source) \<Rightarrow>
          (case buf_fail code source None (pd_buffer p) of (r, b) \<Rightarrow> (r, p\<lparr>pd_buffer := b, pd_ended := True\<rparr>)))"

section \<open>Delivery in numbered batches\<close>

record reader =
  rd_sequence :: int
  rd_completed :: bool
  rd_returned :: bool
  rd_pending :: "int option"

definition new_reader :: reader where
  "new_reader = \<lparr>rd_sequence = 0, rd_completed = False, rd_returned = False, rd_pending = None\<rparr>"

definition numbered :: "int \<Rightarrow> event \<Rightarrow> event" where
  "numbered s e = AList.update ''version'' (JInt 1) (AList.update ''sequence'' (JInt s) e)"

fun number_batch :: "int \<Rightarrow> event list \<Rightarrow> event list \<times> int \<times> bool" where
  "number_batch s [] = ([], s, False)"
| "number_batch s (e # es) =
     (if map_of e ''type'' = Some (js ''completed'') then ([numbered s e], s + 1, True)
      else (case number_batch (s + 1) es of (fs, s', done) \<Rightarrow> (numbered s e # fs, s', done)))"

definition terminal_event :: "int \<Rightarrow> stream_error \<Rightarrow> event" where
  "terminal_event s err =
     [(''type'', js ''terminal_error''), (''code'', js (se_code err)), (''sequence'', JInt s), (''version'', JInt 1)]
     @ (case se_source err of None \<Rightarrow> [] | Some src \<Rightarrow> [(''context_limit_source'', js src)])
     @ (case se_param err of None \<Rightarrow> [] | Some q \<Rightarrow> [(''param'', js q)])"

text \<open>One turn of the reader: the batch it yields, if any.\<close>

definition next_batch :: "buffer \<Rightarrow> reader \<Rightarrow> event list \<times> buffer \<times> reader" where
  "next_batch b r =
     (if rd_returned r \<or> rd_pending r \<noteq> None then ([], b, r)
      else (case buf_get b of
              (Raised err, b') \<Rightarrow> ([terminal_event (rd_sequence r) err], b', r\<lparr>rd_returned := True\<rparr>)
            | (Ended, b') \<Rightarrow> ([], b', r\<lparr>rd_returned := True\<rparr>)
            | (Waiting, b') \<Rightarrow> ([], b', r)
            | (Got e, b') \<Rightarrow>
                (case buf_drain b' of
                   (es, b'') \<Rightarrow>
                     (case number_batch (rd_sequence r) (e # es) of
                        (batch, s, done) \<Rightarrow>
                          (batch, b'',
                           r\<lparr>rd_sequence := s, rd_completed := done, rd_returned := done, rd_pending := Some (s - 1)\<rparr>)))))"

text \<open>An acknowledgement; a stream whose reader has returned is no longer registered.\<close>

definition acknowledge_stream :: "int \<Rightarrow> (reader, bool) op" where
  "acknowledge_stream s r =
     (if rd_returned r then (Inr False, r)
      else if rd_pending r \<noteq> Some s then (Inl ValueError, r)
      else (Inr True, r\<lparr>rd_pending := None\<rparr>))"

section \<open>The checks of the client\<close>

definition FINISH_REASONS :: "string list" where
  "FINISH_REASONS = [''stop'', ''length'', ''tool_calls'']"

definition is_str :: "jv option \<Rightarrow> bool" where
  "is_str v = (case v of Some (JStr _) \<Rightarrow> True | _ \<Rightarrow> False)"

definition is_int :: "jv option \<Rightarrow> bool" where
  "is_int v = (case v of Some (JInt _) \<Rightarrow> True | _ \<Rightarrow> False)"

definition is_nat_int :: "jv option \<Rightarrow> bool" where
  "is_nat_int v = (case v of Some (JInt i) \<Rightarrow> 0 \<le> i | _ \<Rightarrow> False)"

definition valid_logprob_entry :: "jv \<Rightarrow> bool" where
  "valid_logprob_entry v =
     (case v of
        JDict e \<Rightarrow>
          is_int (map_of e ''token_id'') \<and> is_str (map_of e ''token'')
          \<and> (case map_of e ''logprob'' of Some (JInt _) \<Rightarrow> True | Some (JFloat _ _) \<Rightarrow> True | _ \<Rightarrow> False)
      | _ \<Rightarrow> False)"

definition valid_top :: "jv \<Rightarrow> jv \<Rightarrow> int \<Rightarrow> bool" where
  "valid_top v t top_k =
     (valid_logprob_entry v
      \<and> (case v of
           JDict e \<Rightarrow>
             map_of e ''token_id'' = Some t
             \<and> (case map_of e ''top'' of
                  Some (JList tops) \<Rightarrow> int (length tops) \<le> top_k \<and> list_all valid_logprob_entry tops
                | _ \<Rightarrow> False)
         | _ \<Rightarrow> False))"

definition valid_delta_logprobs :: "event \<Rightarrow> int \<Rightarrow> bool" where
  "valid_delta_logprobs e top_k =
     (case (map_of e ''logprobs'', map_of e ''token_ids'') of
        (Some (JList lps), Some (JList ids)) \<Rightarrow>
          length lps = length ids \<and> list_all (\<lambda>(v, t). valid_top v t top_k) (zip lps ids)
      | _ \<Rightarrow> False)"

definition valid_delta_fields :: "event \<Rightarrow> bool \<Rightarrow> bool" where
  "valid_delta_fields e chat =
     (let kind = map_of e ''type'' in
      if kind = Some (js ''choice_finished'') then chat \<or> map_of e ''finish_reason'' \<noteq> Some (js ''tool_calls'')
      else if (kind = Some (js ''delta'')) = chat then False
      else if kind = Some (js ''content_delta'') then is_str (map_of e ''text'')
      else if kind = Some (js ''reasoning_delta'') then is_nat_int (map_of e ''token_count'')
      else if kind = Some (js ''tool_call_delta'') then
        is_nat_int (map_of e ''index'') \<and> is_str (map_of e ''arguments'')
        \<and> list_all (\<lambda>k. k \<in> set (keys e) \<longrightarrow> is_str (map_of e k)) [''id'', ''name'']
      else True)"

record client_params =
  cp_n :: nat
  cp_logprobs :: "int option"
  cp_chat :: bool
  cp_request_id :: string

record client =
  cl_next_sequence :: int
  cl_previous_sequence :: "int option"
  cl_finished :: "int list"
  cl_usage :: "event option"
  cl_first_delta_time :: "time option"
  cl_error :: "jv option"
  cl_error_delivered :: bool
  cl_closed :: bool
  cl_cleanup_unconfirmed :: bool
  cl_records :: "(jv option \<times> jv option) list"

definition new_client :: client where
  "new_client = \<lparr>cl_next_sequence = 0, cl_previous_sequence = None, cl_finished = [], cl_usage = None, cl_first_delta_time = None,
     cl_error = None, cl_error_delivered = False, cl_closed = False, cl_cleanup_unconfirmed = False, cl_records = []\<rparr>"

definition wants_logprobs :: "client_params \<Rightarrow> event \<Rightarrow> bool" where
  "wants_logprobs par e \<longleftrightarrow>
     map_of e ''type'' \<in> {Some (js ''delta''), Some (js ''content_delta'')} \<and> cp_logprobs par \<noteq> None"

text \<open>The index of a choice event when it may come now, and its other fields are valid.\<close>

definition choice_index_ok :: "client_params \<Rightarrow> int list \<Rightarrow> bool \<Rightarrow> event \<Rightarrow> int option" where
  "choice_index_ok par fin counted e =
     (case map_of e ''choice_index'' of
        Some (JInt i) \<Rightarrow>
          if \<not> (0 \<le> i \<and> i < int (cp_n par)) \<or> i \<in> set fin \<or> counted \<or> \<not> valid_delta_fields e (cp_chat par) then None
          else Some i
      | _ \<Rightarrow> None)"

definition logprobs_ok :: "client_params \<Rightarrow> event \<Rightarrow> bool" where
  "logprobs_ok par e \<longleftrightarrow>
     (''logprobs'' \<in> set (keys e)) = wants_logprobs par e
     \<and> (wants_logprobs par e \<longrightarrow> (case cp_logprobs par of Some k \<Rightarrow> valid_delta_logprobs e k | None \<Rightarrow> False))"

definition usage_ok :: "event \<Rightarrow> bool" where
  "usage_ok e \<longleftrightarrow>
     list_all (\<lambda>k. is_nat_int (map_of e k)) [''prompt_tokens'', ''completion_tokens'', ''total_tokens'']
     \<and> (case (map_of e ''prompt_tokens'', map_of e ''completion_tokens'', map_of e ''total_tokens'') of
          (Some (JInt p), Some (JInt c), Some (JInt t)) \<Rightarrow>
            t = p + c
            \<and> (case map_of e ''reasoning_tokens'' of None \<Rightarrow> True | Some (JInt r) \<Rightarrow> 0 \<le> r \<and> r \<le> c | Some _ \<Rightarrow> False)
        | _ \<Rightarrow> False)"

definition terminal_ok :: "event \<Rightarrow> bool" where
  "terminal_ok e \<longleftrightarrow>
     (if map_of e ''code'' = Some (js ''context_length_exceeded'')
      then map_of e ''context_limit_source'' \<in> set (map (\<lambda>s. Some (js s)) CONTEXT_LIMIT_SOURCES)
      else ''context_limit_source'' \<notin> set (keys e))
     \<and> (''param'' \<in> set (keys e) \<longrightarrow>
          map_of e ''code'' \<in> set (map (\<lambda>s. Some (js s)) PARAM_ERROR_CODES) \<and> is_str (map_of e ''param''))"

section \<open>The client's operations\<close>

text \<open>\<open>finish\<close>: a request record is pushed for a stream that was counted and has no error.\<close>

definition client_finish :: "client \<Rightarrow> client" where
  "client_finish c =
     (if cl_closed c then c
      else c\<lparr>cl_closed := True,
             cl_records := cl_records c
               @ (case cl_usage c of
                    Some u \<Rightarrow> if cl_error c = None then [(map_of u ''prompt_tokens'', map_of u ''completion_tokens'')] else []
                  | None \<Rightarrow> [])\<rparr>)"

text \<open>\<open>abort\<close>, with the status that the remote cleanup ends in.\<close>

definition client_abort :: "string \<Rightarrow> jv \<Rightarrow> client \<Rightarrow> string \<times> client" where
  "client_abort status code c =
     (if cl_closed c then (if cl_cleanup_unconfirmed c then ''cleanup_unconfirmed'' else ''already_terminal'', c)
      else
        let c1 = c\<lparr>cl_error := Some code\<rparr>;
            c2 = (if status = ''cleanup_unconfirmed'' then c1\<lparr>cl_cleanup_unconfirmed := True\<rparr> else c1)
        in (status, client_finish c2))"

definition accept_terminal :: "string \<Rightarrow> event \<Rightarrow> (client, event) op" where
  "accept_terminal status e c =
     (if \<not> terminal_ok e then (Inl (StreamError ''invalid_terminal_error''), c)
      else (case map_of e ''code'' of
              None \<Rightarrow> (Inl KeyError, c)
            | Some code \<Rightarrow>
                (case client_abort status code c of
                   (st, c') \<Rightarrow>
                     (Inr (if st = ''cleanup_unconfirmed''
                           then AList.update ''code'' (js ''cleanup_unconfirmed'')
                                  (filter (\<lambda>kv. fst kv \<notin> {''context_limit_source'', ''param''}) e)
                           else e),
                      c'\<lparr>cl_error_delivered := True\<rparr>))))"

definition accept_choice :: "client_params \<Rightarrow> time \<Rightarrow> event \<Rightarrow> (client, event) op" where
  "accept_choice par now e c =
     (case choice_index_ok par (cl_finished c) (cl_usage c \<noteq> None) e of
        None \<Rightarrow> (Inl (StreamError ''invalid_choice_event''), c)
      | Some i \<Rightarrow>
          if \<not> logprobs_ok par e then (Inl (StreamError ''invalid_choice_event''), c)
          else if map_of e ''type'' \<noteq> Some (js ''choice_finished'')
          then (Inr e, if cl_first_delta_time c = None then c\<lparr>cl_first_delta_time := Some now\<rparr> else c)
          else if map_of e ''finish_reason'' \<notin> set (map (\<lambda>s. Some (js s)) FINISH_REASONS)
          then (Inl (StreamError ''invalid_finish_reason''), c)
          else (Inr e, c\<lparr>cl_finished := i # cl_finished c\<rparr>))"

definition accept_usage :: "client_params \<Rightarrow> event \<Rightarrow> (client, event) op" where
  "accept_usage par e c =
     (if cl_usage c \<noteq> None \<or> length (cl_finished c) \<noteq> cp_n par \<or> \<not> usage_ok e
      then (Inl (StreamError ''invalid_usage_event''), c)
      else (Inr e, c\<lparr>cl_usage := Some e\<rparr>))"

definition accept_kind :: "client_params \<Rightarrow> time \<Rightarrow> string \<Rightarrow> event \<Rightarrow> (client, event) op" where
  "accept_kind par now status e c =
     (let kind = map_of e ''type'' in
      if kind = Some (js ''terminal_error'') then accept_terminal status e c
      else if is_delta e \<or> kind = Some (js ''choice_finished'') then accept_choice par now e c
      else if kind = Some (js ''usage'') then accept_usage par e c
      else if kind = Some (js ''completed'') then
        (if cl_usage c = None then (Inl (StreamError ''incomplete_stream''), c) else (Inr e, client_finish c))
      else (Inl (StreamError ''unknown_event''), c))"

text \<open>
  Reading on after an error raises it again by its code alone, which \<open>StreamError\<close> itself refuses for the
  code that needs a source.
\<close>

definition error_code :: "jv \<Rightarrow> string" where
  "error_code v = (case v of JStr s \<Rightarrow> map char_of s | _ \<Rightarrow> [])"

definition raise_again :: "jv \<Rightarrow> exn" where
  "raise_again v = (case new_stream_error (error_code v) None None of Inl x \<Rightarrow> x | Inr err \<Rightarrow> StreamError (se_code err))"

definition accept_event :: "client_params \<Rightarrow> time \<Rightarrow> string \<Rightarrow> event \<Rightarrow> (client, event) op" where
  "accept_event par now status e c =
     (if cl_error c \<noteq> None then (Inl (raise_again (the (cl_error c))), c)
      else if map_of e ''version'' \<noteq> Some (JInt 1) \<or> map_of e ''sequence'' \<noteq> Some (JInt (cl_next_sequence c))
      then (Inl (StreamError ''invalid_event_sequence''), c)
      else (case accept_kind par now status e
                   (c\<lparr>cl_next_sequence := cl_next_sequence c + 1, cl_previous_sequence := Some (cl_next_sequence c)\<rparr>) of
              (Inl x, c') \<Rightarrow> (Inl x, c')
            | (Inr f, c') \<Rightarrow> (Inr (AList.update ''request_id'' (js (cp_request_id par)) f), c')))"

section \<open>Admissible sequences of events\<close>

text \<open>
  What a text stream may send next, as an automaton over the choices that have finished, the token ids
  sent, and whether the usage and the end were sent. It is stricter than the client: the usage has to
  report the token ids sent so far, and nothing follows the end.
\<close>

record admission =
  ad_finished :: "int list"
  ad_tokens :: int
  ad_counted :: bool
  ad_closed :: bool

definition tokens_of :: "event \<Rightarrow> int" where
  "tokens_of e = int (length (payload ''token_ids'' e))"

definition admit :: "client_params \<Rightarrow> admission \<Rightarrow> event \<Rightarrow> admission option" where
  "admit par a e =
     (if ad_closed a then None
      else if is_delta e \<or> map_of e ''type'' = Some (js ''choice_finished'') then
        (case choice_index_ok par (ad_finished a) (ad_counted a) e of
           None \<Rightarrow> None
         | Some i \<Rightarrow>
             if \<not> logprobs_ok par e then None
             else if map_of e ''type'' \<noteq> Some (js ''choice_finished'') then Some (a\<lparr>ad_tokens := ad_tokens a + tokens_of e\<rparr>)
             else if map_of e ''finish_reason'' \<notin> set (map (\<lambda>s. Some (js s)) FINISH_REASONS) then None
             else Some (a\<lparr>ad_finished := i # ad_finished a\<rparr>))
      else if map_of e ''type'' = Some (js ''usage'') then
        (if ad_counted a \<or> length (ad_finished a) \<noteq> cp_n par \<or> \<not> usage_ok e \<or> ''choice_index'' \<in> set (keys e)
           \<or> map_of e ''completion_tokens'' \<noteq> Some (JInt (ad_tokens a)) then None
         else Some (a\<lparr>ad_counted := True\<rparr>))
      else if map_of e ''type'' = Some (js ''completed'') then
        (if \<not> ad_counted a \<or> ''choice_index'' \<in> set (keys e) then None else Some (a\<lparr>ad_closed := True\<rparr>))
      else None)"

fun admits :: "client_params \<Rightarrow> admission \<Rightarrow> event list \<Rightarrow> admission option" where
  "admits par a [] = Some a"
| "admits par a (e # es) = (case admit par a e of None \<Rightarrow> None | Some a' \<Rightarrow> admits par a' es)"

lemma admits_append: "admits par a (es @ fs) = (case admits par a es of None \<Rightarrow> None | Some a' \<Rightarrow> admits par a' fs)"
  by (induction es arbitrary: a) (auto split: option.splits)

lemma js_eq [simp]: "js s = js t \<longleftrightarrow> s = t"
  by (simp add: js_def inj_map_eq_map inj_of_char)

lemma is_delta_not:
  assumes "is_delta e"
  shows "map_of e ''type'' \<noteq> Some (js ''choice_finished'')" "map_of e ''type'' \<noteq> Some (js ''usage'')"
    "map_of e ''type'' \<noteq> Some (js ''completed'')" "map_of e ''type'' \<noteq> Some (js ''terminal_error'')"
  using assms by (auto simp: is_delta_def DELTA_TYPES_def)

lemma admit_delta:
  assumes "is_delta e"
  shows "admit par a e = Some a' \<longleftrightarrow>
     \<not> ad_closed a \<and> choice_index_ok par (ad_finished a) (ad_counted a) e \<noteq> None \<and> logprobs_ok par e
     \<and> a' = a\<lparr>ad_tokens := ad_tokens a + tokens_of e\<rparr>"
  using assms is_delta_not(1) [OF assms] by (auto simp: admit_def split: option.splits)

text \<open>Events of choices do not look at the tokens sent before them.\<close>

lemma admit_shift:
  assumes "''choice_index'' \<in> set (keys e)"
  shows "admit par (a\<lparr>ad_tokens := ad_tokens a + t\<rparr>) e = map_option (\<lambda>a'. a'\<lparr>ad_tokens := ad_tokens a' + t\<rparr>) (admit par a e)"
  using assms by (simp add: admit_def algebra_simps split: option.splits)

lemma admits_shift:
  "(\<And>e. e \<in> set es \<Longrightarrow> ''choice_index'' \<in> set (keys e)) \<Longrightarrow>
   admits par (a\<lparr>ad_tokens := ad_tokens a + t\<rparr>) es = map_option (\<lambda>a'. a'\<lparr>ad_tokens := ad_tokens a' + t\<rparr>) (admits par a es)"
proof (induction es arbitrary: a)
  case (Cons e es)
  have "admit par (a\<lparr>ad_tokens := ad_tokens a + t\<rparr>) e = map_option (\<lambda>a'. a'\<lparr>ad_tokens := ad_tokens a' + t\<rparr>) (admit par a e)"
    by (rule admit_shift, rule Cons.prems) simp
  moreover have "admits par (a1\<lparr>ad_tokens := ad_tokens a1 + t\<rparr>) es
      = map_option (\<lambda>a'. a'\<lparr>ad_tokens := ad_tokens a' + t\<rparr>) (admits par a1 es)" for a1
    by (rule Cons.IH, rule Cons.prems) simp
  ultimately show ?case by (cases "admit par a e") simp_all
qed simp

section \<open>Merged deltas stay admissible\<close>

lemma text_delta_kind:
  assumes "choice_index_ok par fin counted e \<noteq> None" "is_delta e" "\<not> cp_chat par"
  shows "map_of e ''type'' = Some (js ''delta'')"
  using assms is_delta_not(1) [OF assms(2)]
  by (auto simp: choice_index_ok_def valid_delta_fields_def Let_def split: option.splits jv.splits if_splits)

lemma choice_index_ok_text:
  assumes "map_of e ''type'' = Some (js ''delta'')" "\<not> cp_chat par"
  shows "choice_index_ok par fin counted e =
    (case map_of e ''choice_index'' of
       Some (JInt i) \<Rightarrow> if \<not> (0 \<le> i \<and> i < int (cp_n par)) \<or> i \<in> set fin \<or> counted then None else Some i
     | _ \<Rightarrow> None)"
  using assms by (auto simp: choice_index_ok_def valid_delta_fields_def Let_def split: option.splits jv.splits)

lemma valid_delta_logprobs_lists:
  assumes "valid_delta_logprobs e k"
  shows "\<exists>lps ids. map_of e ''logprobs'' = Some (JList lps) \<and> map_of e ''token_ids'' = Some (JList ids)
     \<and> length lps = length ids \<and> list_all (\<lambda>(v, t). valid_top v t k) (zip lps ids)"
proof -
  obtain v w where v: "map_of e ''logprobs'' = Some v" and w: "map_of e ''token_ids'' = Some w"
    using assms by (simp add: valid_delta_logprobs_def split: option.splits jv.splits)
  then show ?thesis using assms by (cases v; cases w) (simp_all add: valid_delta_logprobs_def)
qed

lemma merged_logprobs_ok:
  assumes m: "merged_event x n e = Inr (Some (m, n'))" and ok: "delta_ok x" "delta_ok e"
    and lp: "logprobs_ok par x" "logprobs_ok par e"
  shows "logprobs_ok par m"
proof -
  have keys: "''logprobs'' \<in> set MERGED_KEYS" "''token_ids'' \<in> set MERGED_KEYS" by (simp_all add: MERGED_KEYS_def)
  note fx = merged_event_fixed [OF m ok]
  note lps = merged_event_fields(2) [OF m ok keys(1)] and ids = merged_event_fields(2) [OF m ok keys(2)]
  have w: "wants_logprobs par m = wants_logprobs par x" "wants_logprobs par e = wants_logprobs par x"
    using fx by (simp_all add: wants_logprobs_def)
  have in_keys: "''logprobs'' \<in> set (keys d) \<longleftrightarrow> map_of d ''logprobs'' \<noteq> None" for d :: event
    by (simp add: map_of_Some_keys del: set_map)
  show ?thesis
  proof (cases "wants_logprobs par x")
    case False
    then have "map_of x ''logprobs'' = None" "map_of e ''logprobs'' = None"
      using lp w in_keys by (auto simp: logprobs_ok_def)
    then show ?thesis using False w lps in_keys by (simp add: logprobs_ok_def)
  next
    case True
    then obtain k where k: "cp_logprobs par = Some k" "valid_delta_logprobs x k" "valid_delta_logprobs e k"
      using lp w by (auto simp: logprobs_ok_def split: option.splits)
    obtain l1 i1 where 1: "map_of x ''logprobs'' = Some (JList l1)" "map_of x ''token_ids'' = Some (JList i1)"
      "length l1 = length i1" "list_all (\<lambda>(v, t). valid_top v t k) (zip l1 i1)"
      using valid_delta_logprobs_lists [OF k(2)] by blast
    obtain l2 i2 where 2: "map_of e ''logprobs'' = Some (JList l2)" "map_of e ''token_ids'' = Some (JList i2)"
      "length l2 = length i2" "list_all (\<lambda>(v, t). valid_top v t k) (zip l2 i2)"
      using valid_delta_logprobs_lists [OF k(3)] by blast
    have "map_of m ''logprobs'' = Some (JList (l1 @ l2))" "map_of m ''token_ids'' = Some (JList (i1 @ i2))"
      using lps ids 1 2 by (simp_all add: merged_value_def)
    then show ?thesis
      using True w k(1) in_keys 1 2 by (simp add: logprobs_ok_def valid_delta_logprobs_def)
  qed
qed

lemma merged_admits:
  assumes m: "merged_event x n e = Inr (Some (m, n'))" and ok: "delta_ok x" "delta_ok e" and de: "is_delta e"
    and c: "map_of x ''choice_index'' = Some c" "map_of e ''choice_index'' = Some c"
    and post: "\<forall>y\<in>set post. \<not> concerns c y" and chat: "\<not> cp_chat par"
    and adm: "admits par a (pre @ x # post @ [e]) = Some a'"
  shows "admits par a (pre @ m # post) = Some a'"
proof -
  note fx = merged_event_fixed [OF m ok]
  have d: "is_delta x" "is_delta m" using de fx is_delta_cong by metis+
  obtain a1 where a1: "admits par a pre = Some a1" using adm by (auto simp: admits_append split: option.splits)
  obtain ax where x: "admit par a1 x = Some ax" using adm a1 by (auto simp: admits_append split: option.splits)
  obtain a2 where a2: "admits par ax post = Some a2" "admit par a2 e = Some a'"
    using adm a1 x by (auto simp: admits_append split: option.splits)
  note x' = x [unfolded admit_delta [OF d(1)]] and e' = a2(2) [unfolded admit_delta [OF de]]
  have kx: "map_of x ''type'' = Some (js ''delta'')" using text_delta_kind [OF _ d(1) chat] x' by blast
  then have km: "map_of m ''type'' = Some (js ''delta'')" using fx by simp
  have "choice_index_ok par (ad_finished a1) (ad_counted a1) m = choice_index_ok par (ad_finished a1) (ad_counted a1) x"
    using choice_index_ok_text [OF kx chat] choice_index_ok_text [OF km chat] fx(2) by simp
  moreover have "logprobs_ok par m" using merged_logprobs_ok [OF m ok] x' e' by blast
  moreover have tok: "tokens_of m = tokens_of x + tokens_of e"
    using merged_event_payload [OF m ok] by (simp add: tokens_of_def)
  ultimately have "admit par a1 m = Some (ax\<lparr>ad_tokens := ad_tokens ax + tokens_of e\<rparr>)"
    using x' by (simp add: admit_delta [OF d(2)])
  moreover have "''choice_index'' \<in> set (keys y)" if "y \<in> set post" for y
    using that post map_of_None_keys [of y "''choice_index''"] by (auto simp: concerns_def)
  then have "admits par (ax\<lparr>ad_tokens := ad_tokens ax + tokens_of e\<rparr>) post = Some a'"
    using admits_shift [of post par ax "tokens_of e"] a2(1) e' by simp
  ultimately show ?thesis using a1 by (simp add: admits_append)
qed

text \<open>Putting an admissible event keeps the buffered sequence admissible, with the same outcome.\<close>

lemma buf_put_admits:
  assumes "buf_put e b = (Inr (), b')" "buf_inv b" "event_ok e" "\<not> cp_chat par"
    and "admits par a (map en_event (eb_events b) @ [e]) = Some a'"
  shows "admits par a (map en_event (eb_events b')) = Some a'"
  using assms(1)
proof (cases rule: buf_put_cases)
  case 1
  obtain c pre x post m n where x: "map_of e ''choice_index'' = Some c" "eb_events b = pre @ x # post"
    "is_delta (en_event x)" "map_of (en_event x) ''choice_index'' = Some c" "\<forall>y\<in>set post. \<not> concerns c (en_event y)"
    and m: "merged_event (en_event x) (en_size x) e = Inr (Some (m, n))"
    and "b' = b\<lparr>eb_events := pre @ x\<lparr>en_event := m, en_size := n\<rparr> # post, eb_bytes := eb_bytes b + n - en_size x,
              eb_peak_bytes := max (eb_peak_bytes b) (eb_bytes b + n - en_size x)\<rparr>"
    using buf_merge_split [OF 1(2) assms(2)] by metis
  then have b': "eb_events b' = pre @ x\<lparr>en_event := m, en_size := n\<rparr> # post" by simp
  have ok: "delta_ok (en_event x)" "delta_ok e"
    using assms x(2,3) 1(1) by (auto simp: buf_inv_def entry_inv_def event_ok_def)
  have post: "\<forall>y\<in>set (map en_event post). \<not> concerns c y" using x(5) by simp
  have "admits par a (map en_event pre @ en_event x # map en_event post @ [e]) = Some a'"
    using assms(5) x(2) by simp
  from merged_admits [OF m ok 1(1) x(4,1) post assms(4) this] show ?thesis using b' by simp
next
  case 2
  then show ?thesis using assms(5) by (simp add: buf_append_events)
qed

section \<open>The producer sends admissible events\<close>

text \<open>
  The engine reports distinct positive ranks among the alternatives of a position, so at most \<open>k\<close> of them
  are the best \<open>k\<close>.
\<close>

definition ranks_ok :: "int \<Rightarrow> position \<Rightarrow> bool" where
  "ranks_ok k pos \<longleftrightarrow>
     list_all (\<lambda>item. \<exists>r. lp_rank (snd item) = Some r \<and> 1 \<le> r) (filter (in_top k) pos)
     \<and> distinct (map (\<lambda>item. the (lp_rank (snd item))) (filter (in_top k) pos))"

definition engine_ok :: "stream_params \<Rightarrow> engine_output \<Rightarrow> bool" where
  "engine_ok par out \<longleftrightarrow>
     (case sp_logprobs par of
        None \<Rightarrow> True
      | Some k \<Rightarrow>
          0 \<le> k
          \<and> list_all (\<lambda>ch. case co_logprobs ch of None \<Rightarrow> True | Some ps \<Rightarrow> list_all (ranks_ok k) ps) (eo_outputs out))"

lemma top_items_bounded:
  assumes "ranks_ok k pos" "0 \<le> k"
  shows "int (length (top_items pos k)) \<le> k"
proof -
  let ?rs = "map (\<lambda>item. the (lp_rank (snd item))) (filter (in_top k) pos)"
  have "set ?rs \<subseteq> {1..k}" using assms(1) by (fastforce simp: ranks_ok_def list_all_iff in_top_def)
  then have "card (set ?rs) \<le> card {1..k}" by (intro card_mono) simp_all
  moreover have "card (set ?rs) = length ?rs" using assms(1) by (intro distinct_card) (simp add: ranks_ok_def)
  ultimately show ?thesis using assms(2) by (simp add: top_items_def)
qed

lemma logprob_entry_valid: "valid_logprob_entry (JDict (logprob_entry t lp))"
  by (simp add: valid_logprob_entry_def logprob_entry_def is_int_def is_str_def split: lp_value.split)

lemma logprob_entry_fields:
  "map_of (logprob_entry t lp @ [(''top'', v)]) ''token_id'' = Some (JInt t)"
  "map_of (logprob_entry t lp @ [(''top'', v)]) ''top'' = Some v"
  "valid_logprob_entry (JDict (logprob_entry t lp @ [(''top'', v)]))"
  by (simp_all add: logprob_entry_def valid_logprob_entry_def is_int_def is_str_def split: lp_value.split)

lemma valid_top_entry:
  assumes "ranks_ok k pos" "0 \<le> k"
  shows "valid_top (JDict (logprob_entry t lp
     @ [(''top'', JList (map (\<lambda>(u, q). JDict (logprob_entry u q)) (top_items pos k)))])) (JInt t) k"
  using top_items_bounded [OF assms] logprob_entry_valid
  by (auto simp: valid_top_def logprob_entry_fields list_all_iff simp del: map_of_append)

lemma logprob_entries_valid:
  "logprob_entries ts ps k = Inr es \<Longrightarrow> length ps = length ts \<Longrightarrow> list_all (ranks_ok k) ps \<Longrightarrow> 0 \<le> k \<Longrightarrow>
   length es = length ts \<and> list_all (\<lambda>(v, t). valid_top v t k) (zip es (map JInt ts))"
proof (induction ts ps k arbitrary: es rule: logprob_entries.induct)
  case (1 t ts pos ps k)
  obtain lp where lp: "map_of pos t = Some lp" using 1(2) by (simp split: option.splits)
  obtain fs where fs: "logprob_entries ts ps k = Inr fs" using 1(2) lp by (simp split: sum.splits)
  have es: "es = JDict (logprob_entry t lp
      @ [(''top'', JList (map (\<lambda>(u, q). JDict (logprob_entry u q)) (top_items pos k)))]) # fs"
    using 1(2) lp fs by simp
  show ?case using 1(1) [OF lp fs] 1(3-) valid_top_entry [of k pos t lp] es by simp
qed auto

lemma choice_logprobs_ok:
  assumes "choice_logprobs par ch = Inr lps" "cp_logprobs cpar = sp_logprobs par"
    and "\<And>k. sp_logprobs par = Some k \<Longrightarrow> 0 \<le> k \<and> (case co_logprobs ch of None \<Rightarrow> True | Some ps \<Rightarrow> list_all (ranks_ok k) ps)"
  shows "logprobs_ok cpar (text_delta ch lps)"
proof (cases "sp_logprobs par")
  case None
  then have "lps = None" using assms(1) by (simp add: choice_logprobs_def)
  then show ?thesis using None assms(2) by (simp add: logprobs_ok_def wants_logprobs_def text_delta_def)
next
  case (Some k)
  then obtain es where es: "delta_logprobs (co_token_ids ch) (co_logprobs ch) k = Inr es" "lps = Some es"
    using assms(1) by (auto simp: choice_logprobs_def split: sum.splits)
  then obtain ps where ps: "co_logprobs ch = Some ps" "length ps = length (co_token_ids ch)"
    "logprob_entries (co_token_ids ch) ps k = Inr es"
    by (auto simp: delta_logprobs_def split: option.splits if_splits)
  have "length es = length (co_token_ids ch) \<and> list_all (\<lambda>(v, t). valid_top v t k) (zip es (map JInt (co_token_ids ch)))"
    using logprob_entries_valid [OF ps(3,2)] assms(3) [OF Some] ps(1) by simp
  then show ?thesis
    using Some assms(2) es(2)
    by (simp add: logprobs_ok_def wants_logprobs_def text_delta_def valid_delta_logprobs_def)
qed

lemma is_delta_text [simp]: "is_delta (text_delta ch lps)"
  by (simp add: is_delta_def text_delta_def DELTA_TYPES_def)

lemma not_is_delta [simp]: "\<not> is_delta (finish_event i r)" "\<not> is_delta (usage_event pt ct)" "\<not> is_delta completed_event"
  by (simp_all add: is_delta_def finish_event_def usage_event_def completed_event_def DELTA_TYPES_def)

lemma event_ok_text [simp]: "event_ok (text_delta ch lps)"
  by (auto simp: event_ok_def text_delta_def dict_wf_def delta_ok_def MERGED_KEYS_def field_ok_def empty_of_def
      split: option.split)

lemma event_ok_others [simp]: "event_ok (finish_event i r)" "event_ok (usage_event pt ct)" "event_ok completed_event"
  by (simp_all add: event_ok_def dict_wf_def) (simp_all add: finish_event_def usage_event_def completed_event_def)

lemma buf_put_keeps_done: "buf_put e b = (Inr (), b') \<Longrightarrow> eb_done b' = eb_done b"
  by (auto simp: buf_put_def buf_merge_def buf_append_def Let_def split: option.splits sum.splits if_splits bool.splits)

lemma put_events_admits:
  "put_events es b = (Inr (), b') \<Longrightarrow> buf_inv b \<Longrightarrow> list_all event_ok es \<Longrightarrow> \<not> cp_chat par \<Longrightarrow>
   admits par a (map en_event (eb_events b) @ es) = Some a' \<Longrightarrow>
   buf_inv b' \<and> eb_error b' = eb_error b \<and> eb_done b' = eb_done b \<and> admits par a (map en_event (eb_events b')) = Some a'"
proof (induction es arbitrary: b)
  case (Cons e es)
  obtain r b1 where r: "buf_put e b = (r, b1)" by fastforce
  have "r = Inr ()" using Cons.prems(1) r by (cases r) auto
  with r have b1: "buf_put e b = (Inr (), b1)" by simp
  obtain a1 where a1: "admits par a (map en_event (eb_events b) @ [e]) = Some a1" "admits par a1 es = Some a'"
    using Cons.prems(5) by (auto simp: admits_append split: option.splits)
  have ok: "event_ok e" using Cons.prems(3) by simp
  have "admits par a (map en_event (eb_events b1)) = Some a1"
    by (rule buf_put_admits [OF b1 Cons.prems(2) ok Cons.prems(4) a1(1)])
  then have "admits par a (map en_event (eb_events b1) @ es) = Some a'" using a1(2) by (simp add: admits_append)
  with Cons.IH [of b1] Cons.prems b1 buf_put_inv [OF b1 Cons.prems(2) ok] buf_put_keeps_error [OF b1] buf_put_keeps_done [OF b1] show ?case by simp
qed simp

definition linked :: "stream_params \<Rightarrow> client_params \<Rightarrow> bool" where
  "linked par cpar \<longleftrightarrow> cp_n cpar = sp_n par \<and> cp_logprobs cpar = sp_logprobs par \<and> \<not> cp_chat cpar"

text \<open>Where the automaton is after everything the producer has put.\<close>

definition sent :: "producer \<Rightarrow> admission" where
  "sent p = \<lparr>ad_finished = pd_finished p, ad_tokens = sum_list (pd_counts p), ad_counted = pd_ended p, ad_closed = pd_ended p\<rparr>"

definition prod_inv :: "stream_params \<Rightarrow> client_params \<Rightarrow> admission \<Rightarrow> producer \<Rightarrow> bool" where
  "prod_inv par cpar a p \<longleftrightarrow>
     buf_inv (pd_buffer p) \<and> length (pd_counts p) = sp_n par \<and> 0 \<le> sum_list (pd_counts p)
     \<and> (eb_done (pd_buffer p) \<longrightarrow> pd_ended p)
     \<and> (case pd_prompt_tokens p of None \<Rightarrow> True | Some n \<Rightarrow> 0 \<le> n)
     \<and> admits cpar a (map en_event (eb_events (pd_buffer p))) = Some (sent p)"

lemma sum_list_add_at: "j < length xs \<Longrightarrow> sum_list (xs[j := xs ! j + d]) = sum_list xs + (d::int)"
proof (induction xs arbitrary: j)
  case (Cons x xs)
  then show ?case by (cases j) simp_all
qed simp

lemma admit_text_delta:
  assumes "linked par cpar" "logprobs_ok cpar (text_delta ch lps)" "\<not> ad_closed a" "\<not> ad_counted a"
    and "0 \<le> co_index ch" "co_index ch < int (sp_n par)" "co_index ch \<notin> set (ad_finished a)"
  shows "admit cpar a (text_delta ch lps) = Some (a\<lparr>ad_tokens := ad_tokens a + int (length (co_token_ids ch))\<rparr>)"
proof -
  have f: "map_of (text_delta ch lps) ''type'' = Some (js ''delta'')"
    "map_of (text_delta ch lps) ''choice_index'' = Some (JInt (co_index ch))"
    by (simp_all add: text_delta_def)
  have "tokens_of (text_delta ch lps) = int (length (co_token_ids ch))"
    by (simp add: tokens_of_def payload_def MERGED_KEYS_def text_delta_def)
  then show ?thesis
    using assms choice_index_ok_text [OF f(1)] f(2) by (simp add: admit_delta linked_def)
qed

lemma admit_finish:
  assumes "linked par cpar" "\<not> ad_closed a" "\<not> ad_counted a" "0 \<le> i" "i < int (sp_n par)" "i \<notin> set (ad_finished a)"
    and "r \<in> {''stop'', ''length''}"
  shows "admit cpar a (finish_event i r) = Some (a\<lparr>ad_finished := i # ad_finished a\<rparr>)"
proof -
  have f: "map_of (finish_event i r) ''type'' = Some (js ''choice_finished'')"
    "map_of (finish_event i r) ''choice_index'' = Some (JInt i)" "map_of (finish_event i r) ''finish_reason'' = Some (js r)"
    "''logprobs'' \<notin> set (keys (finish_event i r))"
    by (simp_all add: finish_event_def)
  have "valid_delta_fields (finish_event i r) False" using f assms(7) by (auto simp: valid_delta_fields_def)
  then have "choice_index_ok cpar (ad_finished a) (ad_counted a) (finish_event i r) = Some i"
    using f assms by (simp add: choice_index_ok_def linked_def)
  moreover have "logprobs_ok cpar (finish_event i r)" using f by (simp add: logprobs_ok_def wants_logprobs_def)
  moreover have "Some (js r) \<in> set (map (\<lambda>s. Some (js s)) FINISH_REASONS)" using assms(7) by (auto simp: FINISH_REASONS_def)
  ultimately show ?thesis using f assms(2) by (simp add: admit_def)
qed

lemma produce_choice_inv:
  assumes "produce_choice par ch p = (Inr (), p')" "linked par cpar" "prod_inv par cpar a p" "\<not> pd_ended p"
    and "\<And>k. sp_logprobs par = Some k \<Longrightarrow> 0 \<le> k \<and> (case co_logprobs ch of None \<Rightarrow> True | Some ps \<Rightarrow> list_all (ranks_ok k) ps)"
  shows "prod_inv par cpar a p' \<and> \<not> pd_ended p' \<and> eb_error (pd_buffer p') = eb_error (pd_buffer p)"
proof -
  let ?i = "co_index ch" and ?l = "int (length (co_token_ids ch))"
  have i: "0 \<le> ?i" "?i < int (length (pd_counts p))" "?i \<notin> set (pd_finished p)"
    and fr: "\<And>r. co_finish_reason ch = Some r \<Longrightarrow> r \<in> {''stop'', ''length''}"
    using assms(1) by (auto simp: produce_choice_def Let_def split: if_splits option.splits)
  obtain lps where lps: "choice_logprobs par ch = Inr lps"
    using assms(1) by (auto simp: produce_choice_def Let_def split: if_splits sum.splits)
  obtain b where b: "put_events (choice_events ch lps) (pd_buffer p) = (Inr (), b)"
    and p': "p' = p\<lparr>pd_counts := (pd_counts p)[nat ?i := pd_counts p ! nat ?i + ?l], pd_buffer := b,
               pd_finished := (if co_finish_reason ch = None then pd_finished p else ?i # pd_finished p)\<rparr>"
    using assms(1) lps by (auto simp: produce_choice_def Let_def split: if_splits prod.splits sum.splits)
  have sum: "sum_list (pd_counts p') = sum_list (pd_counts p) + ?l"
    using i p' sum_list_add_at [of "nat ?i" "pd_counts p" ?l] by simp
  have n: "length (pd_counts p) = sp_n par" using assms(3) by (simp add: prod_inv_def)
  let ?a = "(sent p)\<lparr>ad_tokens := sum_list (pd_counts p) + ?l\<rparr>"
  have "admits cpar (sent p) (if co_text ch \<noteq> [] \<or> co_token_ids ch \<noteq> [] then [text_delta ch lps] else []) = Some ?a"
    using admit_text_delta [OF assms(2) choice_logprobs_ok [OF lps _ assms(5)], of "sent p"] i n assms(2,4)
    by (auto simp: sent_def linked_def)
  moreover have "admits cpar ?a (case co_finish_reason ch of None \<Rightarrow> [] | Some r \<Rightarrow> [finish_event ?i r]) = Some (sent p')"
    using admit_finish [OF assms(2), of ?a ?i] i n fr p' sum assms(4) by (auto simp: sent_def split: option.split)
  ultimately have "admits cpar a (map en_event (eb_events (pd_buffer p)) @ choice_events ch lps) = Some (sent p')"
    using assms(3) by (simp add: prod_inv_def admits_append choice_events_def)
  moreover have "list_all event_ok (choice_events ch lps)"
    by (auto simp: choice_events_def split: option.split)
  ultimately have "buf_inv b \<and> eb_error b = eb_error (pd_buffer p) \<and> eb_done b = eb_done (pd_buffer p) \<and> admits cpar a (map en_event (eb_events b)) = Some (sent p')"
    using put_events_admits [OF b, of cpar a "sent p'"] assms(2,3) by (simp add: prod_inv_def linked_def)
  then show ?thesis using p' sum assms(3,4) by (simp add: prod_inv_def)
qed

lemma produce_choices_inv:
  "produce_choices par chs p = (Inr (), p') \<Longrightarrow> linked par cpar \<Longrightarrow> prod_inv par cpar a p \<Longrightarrow> \<not> pd_ended p \<Longrightarrow>
   (\<And>ch k. ch \<in> set chs \<Longrightarrow> sp_logprobs par = Some k \<Longrightarrow>
      0 \<le> k \<and> (case co_logprobs ch of None \<Rightarrow> True | Some ps \<Rightarrow> list_all (ranks_ok k) ps)) \<Longrightarrow>
   prod_inv par cpar a p' \<and> \<not> pd_ended p' \<and> eb_error (pd_buffer p') = eb_error (pd_buffer p)"
proof (induction chs arbitrary: p)
  case (Cons ch chs)
  obtain r p1 where r: "produce_choice par ch p = (r, p1)" by fastforce
  have "r = Inr ()" using Cons.prems(1) r by (cases r) auto
  with r have p1: "produce_choice par ch p = (Inr (), p1)" by simp
  have inv: "prod_inv par cpar a p1 \<and> \<not> pd_ended p1 \<and> eb_error (pd_buffer p1) = eb_error (pd_buffer p)"
    by (rule produce_choice_inv [OF p1 Cons.prems(2-4)]) (rule Cons.prems(5), simp_all)
  have "produce_choices par chs p1 = (Inr (), p')" using Cons.prems(1) p1 by simp
  then have "prod_inv par cpar a p' \<and> \<not> pd_ended p' \<and> eb_error (pd_buffer p') = eb_error (pd_buffer p1)"
    by (rule Cons.IH) (use Cons.prems(2) inv in simp_all, rule Cons.prems(5), simp_all)
  with inv show ?case by simp
qed simp

lemma produce_output_inv:
  assumes "produce_output par out p = (Inr (), p')" "linked par cpar" "prod_inv par cpar a p" "\<not> pd_ended p" "engine_ok par out"
  shows "prod_inv par cpar a p' \<and> \<not> pd_ended p' \<and> eb_error (pd_buffer p') = eb_error (pd_buffer p)"
proof -
  define q where "q = (case eo_prompt_token_ids out of None \<Rightarrow> p | Some ids \<Rightarrow> p\<lparr>pd_prompt_tokens := Some (int (length ids))\<rparr>)"
  have "produce_choices par (eo_outputs out) q = (Inr (), p')"
    using assms(1) by (auto simp: produce_output_def q_def Let_def split: option.splits if_splits)
  moreover have "prod_inv par cpar a q" "\<not> pd_ended q" "pd_buffer q = pd_buffer p"
    using assms(3,4) by (auto simp: q_def prod_inv_def sent_def split: option.splits)
  moreover have "0 \<le> k \<and> (case co_logprobs ch of None \<Rightarrow> True | Some ps \<Rightarrow> list_all (ranks_ok k) ps)"
    if "ch \<in> set (eo_outputs out)" "sp_logprobs par = Some k" for ch k
    using assms(5) that by (simp add: engine_ok_def list_all_iff)
  ultimately show ?thesis using produce_choices_inv [of par "eo_outputs out" q p' cpar a] assms(2) by simp
qed

lemma usage_event_ok: "0 \<le> pt \<Longrightarrow> 0 \<le> ct \<Longrightarrow> usage_ok (usage_event pt ct)"
  by (simp add: usage_ok_def usage_event_def is_nat_int_def)

lemma admits_end:
  assumes "linked par cpar" "length (pd_finished p) = sp_n par" "0 \<le> pt" "0 \<le> sum_list (pd_counts p)" "\<not> pd_ended p"
  shows "admits cpar (sent p) [usage_event pt (sum_list (pd_counts p)), completed_event] = Some (sent (p\<lparr>pd_ended := True\<rparr>))"
proof -
  let ?u = "usage_event pt (sum_list (pd_counts p))"
  have u: "map_of ?u ''type'' = Some (js ''usage'')" "''choice_index'' \<notin> set (keys ?u)"
    "map_of ?u ''completion_tokens'' = Some (JInt (sum_list (pd_counts p)))"
    by (simp_all add: usage_event_def)
  have c: "map_of completed_event ''type'' = Some (js ''completed'')" "''choice_index'' \<notin> set (keys completed_event)"
    by (simp_all add: completed_event_def)
  have "admit cpar (sent p) ?u = Some ((sent p)\<lparr>ad_counted := True\<rparr>)"
    using u usage_event_ok [OF assms(3,4)] assms by (simp add: admit_def sent_def linked_def)
  moreover have "admit cpar ((sent p)\<lparr>ad_counted := True\<rparr>) completed_event = Some (sent (p\<lparr>pd_ended := True\<rparr>))"
    using c assms(5) by (simp add: admit_def sent_def)
  ultimately show ?thesis by simp
qed

lemma produce_end_inv:
  assumes "produce_end confirmed p = (Inr (), p')" "linked par cpar" "prod_inv par cpar a p" "\<not> pd_ended p"
  shows "prod_inv par cpar a p' \<and> eb_error (pd_buffer p') = None \<and> eb_error (pd_buffer p) = None \<and> pd_ended p'"
proof -
  obtain pt b where pt: "pd_prompt_tokens p = Some pt" and len: "length (pd_finished p) = length (pd_counts p)"
    and err: "eb_error (pd_buffer p) = None"
    and b: "put_events [usage_event pt (sum_list (pd_counts p)), completed_event] (pd_buffer p) = (Inr (), b)"
    and p': "p' = p\<lparr>pd_buffer := b\<lparr>eb_done := True\<rparr>, pd_ended := True\<rparr>"
    using assms(1) by (auto simp: produce_end_def split: option.splits if_splits prod.splits sum.splits simp del: put_events.simps)
  have "admits cpar a (map en_event (eb_events (pd_buffer p)) @ [usage_event pt (sum_list (pd_counts p)), completed_event])
      = Some (sent (p\<lparr>pd_ended := True\<rparr>))"
    using admits_end [OF assms(2) _ _ _ assms(4), of pt] len pt assms(3) by (simp add: prod_inv_def admits_append del: admits.simps)
  then have "buf_inv b \<and> eb_error b = None \<and> admits cpar a (map en_event (eb_events b)) = Some (sent (p\<lparr>pd_ended := True\<rparr>))"
    using put_events_admits [OF b, of cpar a "sent (p\<lparr>pd_ended := True\<rparr>)"] assms(2,3) err by (simp add: prod_inv_def linked_def del: admits.simps)
  moreover from this have "buf_inv (b\<lparr>eb_done := True\<rparr>)"
    using entry_inv_cong [of "b\<lparr>eb_done := True\<rparr>" b] by (simp add: buf_inv_def)
  ultimately show ?thesis using p' err assms(3) by (simp add: prod_inv_def sent_def)
qed

section \<open>The session: worker and client together\<close>

record session =
  ss_producer :: producer
  ss_reader :: reader
  ss_inbox :: "event list"
  ss_client :: client
  ss_read :: "event list"

definition new_session :: "stream_params \<Rightarrow> stream_limits \<Rightarrow> session" where
  "new_session par L =
     \<lparr>ss_producer = new_producer par L, ss_reader = new_reader, ss_inbox = [], ss_client = new_client, ss_read = []\<rparr>"

text \<open>Fetching a batch: the previous one is acknowledged, then the worker's reader takes a turn.\<close>

definition fetch_batch :: "session \<Rightarrow> (exn + event list) \<times> session" where
  "fetch_batch s =
     (case (case cl_previous_sequence (ss_client s) of
              None \<Rightarrow> (Inr True, ss_reader s)
            | Some q \<Rightarrow> acknowledge_stream q (ss_reader s)) of
        (Inl x, r) \<Rightarrow> (Inl x, s)
      | (Inr _, r) \<Rightarrow>
          (case next_batch (pd_buffer (ss_producer s)) r of
             (batch, b, r') \<Rightarrow>
               (if batch = [] \<and> rd_returned r' then Inl (StreamError ''incomplete_stream'') else Inr batch,
                s\<lparr>ss_producer := (ss_producer s)\<lparr>pd_buffer := b\<rparr>, ss_reader := r', ss_inbox := batch\<rparr>)))"

text \<open>
  Steps of a session. The engine delivers an output or its end; a failure of the producer, a deadline, a
  stall or an abort fails the buffer; the client fetches when its inbox is empty and accepts events one by
  one, each at some time and, for a terminal error, with some outcome of the remote cleanup.
\<close>

inductive session_run :: "stream_params \<Rightarrow> client_params \<Rightarrow> session \<Rightarrow> bool" for par cpar where
  start: "new_limits L0 = Inr L \<Longrightarrow> session_run par cpar (new_session par L)"
| engine_step: "session_run par cpar s \<Longrightarrow> \<not> pd_ended (ss_producer s) \<Longrightarrow> engine_ok par out \<Longrightarrow>
    produce_output par out (ss_producer s) = (Inr (), p) \<Longrightarrow> session_run par cpar (s\<lparr>ss_producer := p\<rparr>)"
| engine_end: "session_run par cpar s \<Longrightarrow> \<not> pd_ended (ss_producer s) \<Longrightarrow>
    produce_end confirmed (ss_producer s) = (Inr (), p) \<Longrightarrow> session_run par cpar (s\<lparr>ss_producer := p\<rparr>)"
| crash_output: "session_run par cpar s \<Longrightarrow> \<not> pd_ended (ss_producer s) \<Longrightarrow>
    produce_output par out (ss_producer s) = (Inl x, p) \<Longrightarrow> produce_failed x p = (Inr (), p') \<Longrightarrow>
    session_run par cpar (s\<lparr>ss_producer := p'\<rparr>)"
| crash_close: "session_run par cpar s \<Longrightarrow> \<not> pd_ended (ss_producer s) \<Longrightarrow>
    produce_end confirmed (ss_producer s) = (Inl x, p) \<Longrightarrow> produce_failed x p = (Inr (), p') \<Longrightarrow>
    session_run par cpar (s\<lparr>ss_producer := p'\<rparr>)"
| crash_engine: "session_run par cpar s \<Longrightarrow> \<not> pd_ended (ss_producer s) \<Longrightarrow>
    engine_failed x (ss_producer s) = (Inr (), p) \<Longrightarrow> session_run par cpar (s\<lparr>ss_producer := p\<rparr>)"
| stop: "session_run par cpar s \<Longrightarrow> buf_fail code source param (pd_buffer (ss_producer s)) = (Inr (), b) \<Longrightarrow>
    session_run par cpar (s\<lparr>ss_producer := (ss_producer s)\<lparr>pd_buffer := b\<rparr>\<rparr>)"
| fetch: "session_run par cpar s \<Longrightarrow> ss_inbox s = [] \<Longrightarrow> \<not> cl_closed (ss_client s) \<Longrightarrow>
    fetch_batch s = (Inr batch, s') \<Longrightarrow> batch \<noteq> [] \<Longrightarrow> session_run par cpar s'"
| accept: "session_run par cpar s \<Longrightarrow> ss_inbox s = e # rest \<Longrightarrow>
    accept_event cpar now status e (ss_client s) = (Inr f, c) \<Longrightarrow>
    session_run par cpar (s\<lparr>ss_inbox := rest, ss_client := c, ss_read := ss_read s @ [f]\<rparr>)"

section \<open>The client accepts what is admissible\<close>

lemma numbered_same: "k \<noteq> ''sequence'' \<Longrightarrow> k \<noteq> ''version'' \<Longrightarrow> map_of (numbered s e) k = map_of e k"
  by (simp add: numbered_def map_of_update)

lemma numbered_header: "map_of (numbered s e) ''sequence'' = Some (JInt s)" "map_of (numbered s e) ''version'' = Some (JInt 1)"
  by (simp_all add: numbered_def map_of_update)

lemma numbered_keys: "k \<noteq> ''sequence'' \<Longrightarrow> k \<noteq> ''version'' \<Longrightarrow> k \<in> set (keys (numbered s e)) \<longleftrightarrow> k \<in> set (keys e)"
  by (rule in_keys_cong) (rule numbered_same)

lemma numbered_fields:
  "map_of (numbered s e) ''type'' = map_of e ''type''" "map_of (numbered s e) ''choice_index'' = map_of e ''choice_index''"
  "map_of (numbered s e) ''finish_reason'' = map_of e ''finish_reason''" "map_of (numbered s e) ''text'' = map_of e ''text''"
  "map_of (numbered s e) ''token_count'' = map_of e ''token_count''" "map_of (numbered s e) ''index'' = map_of e ''index''"
  "map_of (numbered s e) ''arguments'' = map_of e ''arguments''" "map_of (numbered s e) ''logprobs'' = map_of e ''logprobs''"
  "map_of (numbered s e) ''token_ids'' = map_of e ''token_ids''" "map_of (numbered s e) ''prompt_tokens'' = map_of e ''prompt_tokens''"
  "map_of (numbered s e) ''completion_tokens'' = map_of e ''completion_tokens''"
  "map_of (numbered s e) ''total_tokens'' = map_of e ''total_tokens''"
  "map_of (numbered s e) ''reasoning_tokens'' = map_of e ''reasoning_tokens''"
  by (simp_all add: numbered_same)

lemma numbered_logprobs_key: "''logprobs'' \<in> set (keys (numbered s e)) \<longleftrightarrow> ''logprobs'' \<in> set (keys e)"
  by (rule numbered_keys) simp_all

lemma numbered_delta_fields: "valid_delta_fields (numbered s e) chat = valid_delta_fields e chat"
  by (simp add: valid_delta_fields_def numbered_same numbered_keys del: set_map)

lemma numbered_checks:
  "is_delta (numbered s e) = is_delta e"
  "choice_index_ok par fin counted (numbered s e) = choice_index_ok par fin counted e"
  "logprobs_ok par (numbered s e) = logprobs_ok par e"
  "usage_ok (numbered s e) = usage_ok e"
  unfolding is_delta_def choice_index_ok_def logprobs_ok_def wants_logprobs_def valid_delta_logprobs_def usage_ok_def
    list.pred_inject(2) eqTrueI [OF list.pred_inject(1)] numbered_fields numbered_logprobs_key numbered_delta_fields
  by (rule refl)+

lemma tokens_of_same: "map_of d ''token_ids'' = map_of e ''token_ids'' \<Longrightarrow> tokens_of d = tokens_of e"
  by (simp add: tokens_of_def payload_def MERGED_KEYS_def)

text \<open>The automaton's state as the client has it.\<close>

definition seen :: "client \<Rightarrow> event list \<Rightarrow> admission" where
  "seen c fs = \<lparr>ad_finished = cl_finished c, ad_tokens = sum_list (map tokens_of (filter is_delta fs)),
     ad_counted = (cl_usage c \<noteq> None), ad_closed = cl_closed c\<rparr>"

lemma seen_read:
  assumes "map_of f ''type'' = map_of e ''type''" "map_of f ''token_ids'' = map_of e ''token_ids''"
  shows "ad_tokens (seen c (fs @ [f])) = ad_tokens (seen c' fs) + (if is_delta e then tokens_of e else 0)"
  using is_delta_cong [OF assms(1)] tokens_of_same [OF assms(2)] by (simp add: seen_def)

text \<open>
  The usage that the client keeps reports the token ids it has read, and comes after all choices have
  finished; a request record is pushed when the stream completes.
\<close>

definition accounted :: "client_params \<Rightarrow> client \<Rightarrow> event list \<Rightarrow> bool" where
  "accounted cpar c fs \<longleftrightarrow>
     (case cl_usage c of
        None \<Rightarrow> cl_records c = [] \<and> (cl_closed c \<longrightarrow> cl_error c \<noteq> None)
      | Some u \<Rightarrow>
          length (cl_finished c) = cp_n cpar \<and> map_of u ''completion_tokens'' = Some (JInt (ad_tokens (seen c fs)))
          \<and> cl_records c =
              (if cl_closed c \<and> cl_error c = None then [(map_of u ''prompt_tokens'', map_of u ''completion_tokens'')] else []))"

lemma accept_kind_admitted:
  assumes "admit cpar (seen c fs) e = Some a" "cl_error c = None" "accounted cpar c fs"
    and "map_of e ''type'' \<noteq> Some (js ''terminal_error'')"
  obtains c' where "accept_kind cpar now status (numbered q e) c = (Inr (numbered q e), c')"
    "accounted cpar c' (fs @ [AList.update ''request_id'' v (numbered q e)])"
    "seen c' (fs @ [AList.update ''request_id'' v (numbered q e)]) = a" "cl_error c' = None"
    "cl_next_sequence c' = cl_next_sequence c" "cl_previous_sequence c' = cl_previous_sequence c"
proof -
  let ?n = "numbered q e" and ?f = "AList.update ''request_id'' v (numbered q e)"
  have f: "map_of ?f ''type'' = map_of e ''type''" "map_of ?f ''token_ids'' = map_of e ''token_ids''"
    by (simp_all add: map_of_update numbered_fields)
  note tok = seen_read [OF f]
  have open_: "\<not> cl_closed c" using assms(1) by (auto simp: admit_def seen_def split: if_splits)
  note n = numbered_checks [where s = q and e = e] numbered_fields [of q e]
  consider (choice) "is_delta e \<or> map_of e ''type'' = Some (js ''choice_finished'')"
    | (usage) "map_of e ''type'' = Some (js ''usage'')" "\<not> is_delta e"
    | (completed) "map_of e ''type'' = Some (js ''completed'')" "\<not> is_delta e"
    using assms(1) is_delta_not [of e] by (auto simp: admit_def split: if_splits)
  then show thesis
  proof cases
    case choice
    obtain i where i: "choice_index_ok cpar (cl_finished c) (cl_usage c \<noteq> None) e = Some i" and lp: "logprobs_ok cpar e"
      using assms(1) choice by (auto simp: admit_def seen_def split: if_splits option.splits)
    show ?thesis
    proof (cases "map_of e ''type'' = Some (js ''choice_finished'')")
      case True
      then have nd: "\<not> is_delta e" using is_delta_not(1) by blast
      have fr: "map_of e ''finish_reason'' \<in> set (map (\<lambda>s. Some (js s)) FINISH_REASONS)"
        and a: "a = (seen c fs)\<lparr>ad_finished := i # cl_finished c\<rparr>"
        using assms(1) True i lp open_ by (auto simp: admit_def seen_def split: if_splits)
      let ?c = "c\<lparr>cl_finished := i # cl_finished c\<rparr>"
      have "cl_usage c = None" using i by (auto simp: choice_index_ok_def split: option.splits jv.splits if_splits)
      then have "accounted cpar ?c (fs @ [?f])" using assms(2,3) by (simp add: accounted_def)
      moreover have "accept_kind cpar now status ?n c = (Inr ?n, ?c)"
        using True i lp fr assms(4) by (simp add: accept_kind_def accept_choice_def n)
      moreover have "seen ?c (fs @ [?f]) = a" using a tok [of ?c fs ?c] nd by (simp add: seen_def)
      ultimately show thesis using assms(2) by (intro that [of ?c]) simp_all
    next
      case False
      then have d: "is_delta e" using choice by simp
      have a: "a = (seen c fs)\<lparr>ad_tokens := ad_tokens (seen c fs) + tokens_of e\<rparr>"
        using assms(1) by (simp add: admit_delta [OF d])
      let ?c = "if cl_first_delta_time c = None then c\<lparr>cl_first_delta_time := Some now\<rparr> else c"
      have "cl_usage c = None" using i by (auto simp: choice_index_ok_def split: option.splits jv.splits if_splits)
      then have "accounted cpar ?c (fs @ [?f])" using assms(2,3) by (simp add: accounted_def)
      moreover have "accept_kind cpar now status ?n c = (Inr ?n, ?c)"
        using False d i lp assms(4) by (simp add: accept_kind_def accept_choice_def n)
      moreover have "seen ?c (fs @ [?f]) = a" using a tok [of ?c fs ?c] d by (simp add: seen_def)
      ultimately show thesis using assms(2) by (intro that [of ?c]) simp_all
    qed
  next
    case usage
    then have u: "cl_usage c = None" "length (cl_finished c) = cp_n cpar" "usage_ok e" "a = (seen c fs)\<lparr>ad_counted := True\<rparr>"
      using assms(1) by (auto simp: admit_def seen_def split: if_splits)
    let ?c = "c\<lparr>cl_usage := Some ?n\<rparr>"
    have "map_of e ''completion_tokens'' = Some (JInt (ad_tokens (seen c fs)))"
      using assms(1) usage by (auto simp: admit_def split: if_splits)
    then have "accounted cpar ?c (fs @ [?f])"
      using u assms(2,3) open_ tok [of ?c fs c] usage(2) by (simp add: accounted_def n)
    moreover have "accept_kind cpar now status ?n c = (Inr ?n, ?c)"
      using usage u by (simp add: accept_kind_def accept_usage_def n)
    moreover have "seen ?c (fs @ [?f]) = a" using u tok [of ?c fs ?c] usage(2) by (simp add: seen_def)
    ultimately show thesis using assms(2) by (intro that [of ?c]) simp_all
  next
    case completed
    then have u: "cl_usage c \<noteq> None" "a = (seen c fs)\<lparr>ad_closed := True\<rparr>"
      using assms(1) by (auto simp: admit_def seen_def split: if_splits)
    then have "accounted cpar (client_finish c) (fs @ [?f])"
      using assms(2,3) open_ tok [of "client_finish c" fs c] completed(2)
      by (auto simp: accounted_def client_finish_def split: option.splits)
    moreover have "accept_kind cpar now status ?n c = (Inr ?n, client_finish c)"
      using completed u by (simp add: accept_kind_def n)
    moreover have "seen (client_finish c) (fs @ [?f]) = a"
      using u tok [of c fs c] completed(2) open_ by (simp add: seen_def client_finish_def)
    ultimately show thesis using assms(2) open_ by (intro that [of "client_finish c"]) (simp_all add: client_finish_def)
  qed
qed

lemma admit_not_terminal: "admit cpar a e = Some a' \<Longrightarrow> map_of e ''type'' \<noteq> Some (js ''terminal_error'')"
  by (auto simp: admit_def is_delta_def DELTA_TYPES_def split: if_splits)

lemma accept_admitted:
  assumes "admit cpar (seen c fs) e = Some a" "cl_error c = None" "cl_next_sequence c = q" "accounted cpar c fs"
  obtains f c' where "accept_event cpar now status (numbered q e) c = (Inr f, c')" "seen c' (fs @ [f]) = a"
    "accounted cpar c' (fs @ [f])" "cl_error c' = None" "cl_next_sequence c' = q + 1" "cl_previous_sequence c' = Some q"
proof -
  let ?c = "c\<lparr>cl_next_sequence := q + 1, cl_previous_sequence := Some q\<rparr>"
  have same: "seen ?c fs = seen c fs" by (simp add: seen_def)
  then have "accounted cpar ?c fs" using assms(4) by (auto simp: accounted_def split: option.splits)
  with same obtain c' where c': "accept_kind cpar now status (numbered q e) ?c = (Inr (numbered q e), c')"
    "accounted cpar c' (fs @ [AList.update ''request_id'' (js (cp_request_id cpar)) (numbered q e)])"
    "seen c' (fs @ [AList.update ''request_id'' (js (cp_request_id cpar)) (numbered q e)]) = a" "cl_error c' = None"
    "cl_next_sequence c' = q + 1" "cl_previous_sequence c' = Some q"
    using accept_kind_admitted [of cpar ?c fs e a now status q "js (cp_request_id cpar)"] assms admit_not_terminal [OF assms(1)]
    by auto
  have "accept_event cpar now status (numbered q e) c
      = (Inr (AList.update ''request_id'' (js (cp_request_id cpar)) (numbered q e)), c')"
    using c'(1) assms(2,3) by (simp add: accept_event_def numbered_header)
  then show thesis using c' that by blast
qed

text \<open>A recorded failure is one that the client accepts as the end of the stream.\<close>

definition error_ok :: "stream_error \<Rightarrow> bool" where
  "error_ok err \<longleftrightarrow> new_stream_error (se_code err) (se_source err) (se_param err) = Inr err"

lemma new_stream_error_ok: "new_stream_error code source param = Inr err \<Longrightarrow> error_ok err"
proof -
  assume e: "new_stream_error code source param = Inr err"
  then have "err = \<lparr>se_code = code, se_source = source, se_param = param\<rparr>"
    by (simp add: new_stream_error_def split: if_splits)
  with e show ?thesis by (simp add: error_ok_def)
qed

lemma is_str_js [simp]: "is_str (Some (js x))"
  by (simp add: is_str_def js_def)

lemma terminal_event_fields:
  "map_of (terminal_event q err) ''type'' = Some (js ''terminal_error'')"
  "map_of (terminal_event q err) ''code'' = Some (js (se_code err))"
  "map_of (terminal_event q err) ''sequence'' = Some (JInt q)"
  "map_of (terminal_event q err) ''version'' = Some (JInt 1)"
  "map_of (terminal_event q err) ''context_limit_source'' = map_option js (se_source err)"
  "map_of (terminal_event q err) ''param'' = map_option js (se_param err)"
  by (simp_all add: terminal_event_def split: option.split)

lemma terminal_event_ok:
  assumes "error_ok err"
  shows "terminal_ok (terminal_event q err)"
proof -
  let ?e = "terminal_event q err"
  have src: "if se_code err = ''context_length_exceeded'' then \<exists>x. se_source err = Some x \<and> x \<in> set CONTEXT_LIMIT_SOURCES
      else se_source err = None"
    using assms by (auto simp: error_ok_def new_stream_error_def split: if_splits option.splits)
  have par: "se_param err \<noteq> None \<Longrightarrow> se_code err \<in> set PARAM_ERROR_CODES"
    using assms by (auto simp: error_ok_def new_stream_error_def split: if_splits option.splits)
  have k: "''context_limit_source'' \<in> set (keys ?e) \<longleftrightarrow> se_source err \<noteq> None" "''param'' \<in> set (keys ?e) \<longleftrightarrow> se_param err \<noteq> None"
    using map_of_None_keys [of ?e "''context_limit_source''"] map_of_None_keys [of ?e "''param''"]
    by (auto simp: terminal_event_fields)
  show ?thesis
    using src par unfolding terminal_ok_def k terminal_event_fields
    by (cases "se_code err = ''context_length_exceeded''") auto
qed

lemma accept_terminal_event:
  assumes "error_ok err" "cl_error c = None" "cl_next_sequence c = q" "\<not> cl_closed c" "accounted cpar c fs"
  obtains f c' where "accept_event cpar now status (terminal_event q err) c = (Inr f, c')" "cl_error c' \<noteq> None" "cl_closed c'"
    "accounted cpar c' (fs @ [f])" "cl_next_sequence c' = q + 1" "cl_previous_sequence c' = Some q"
proof -
  let ?e = "terminal_event q err" and ?c = "c\<lparr>cl_next_sequence := q + 1, cl_previous_sequence := Some q\<rparr>"
  let ?g = "if status = ''cleanup_unconfirmed''
            then AList.update ''code'' (js ''cleanup_unconfirmed'') (filter (\<lambda>kv. fst kv \<notin> {''context_limit_source'', ''param''}) ?e)
            else ?e"
  let ?f = "AList.update ''request_id'' (js (cp_request_id cpar)) ?g"
  let ?c' = "(snd (client_abort status (js (se_code err)) ?c))\<lparr>cl_error_delivered := True\<rparr>"
  have nd: "\<not> is_delta ?f"
    by (simp add: is_delta_def map_of_update DELTA_TYPES_def) (simp add: terminal_event_def)
  have "fst (client_abort status (js (se_code err)) ?c) = status" using assms(4) by (simp add: client_abort_def Let_def)
  then have "accept_event cpar now status ?e c = (Inr ?f, ?c')"
    using assms(2,3) terminal_event_ok [OF assms(1)]
    by (simp add: accept_event_def accept_kind_def accept_terminal_def terminal_event_fields Let_def case_prod_beta)
  moreover have "cl_error ?c' \<noteq> None" "cl_closed ?c'" "cl_next_sequence ?c' = q + 1" "cl_previous_sequence ?c' = Some q"
    using assms(4) by (simp_all add: client_abort_def client_finish_def Let_def)
  moreover have "accounted cpar ?c' (fs @ [?f])"
    using assms(4,5) nd
    by (auto simp: accounted_def client_abort_def client_finish_def Let_def seen_def split: option.splits)
  ultimately show thesis using that by blast
qed

section \<open>The invariant of a session\<close>

fun nums :: "int \<Rightarrow> event list \<Rightarrow> event list" where
  "nums q [] = []"
| "nums q (e # es) = numbered q e # nums (q + 1) es"

lemma number_batch_admitted:
  "admits cpar a es = Some a' \<Longrightarrow> es \<noteq> [] \<or> \<not> ad_closed a \<Longrightarrow>
   number_batch q es = (nums q es, q + int (length es), ad_closed a')"
proof (induction es arbitrary: a q)
  case (Cons e es)
  obtain a1 where a1: "admit cpar a e = Some a1" "admits cpar a1 es = Some a'" using Cons.prems(1) by (auto split: option.splits)
  show ?case
  proof (cases "map_of e ''type'' = Some (js ''completed'')")
    case True
    then have "ad_closed a1" using a1(1) is_delta_not(3) [of e] by (auto simp: admit_def split: if_splits)
    then have "es = []" using a1(2) by (cases es) (auto simp: admit_def)
    then show ?thesis using True a1 \<open>ad_closed a1\<close> by simp
  next
    case False
    then have "\<not> ad_closed a1" using a1(1) by (auto simp: admit_def split: if_splits option.splits)
    then show ?thesis using False Cons.IH [OF a1(2)] by simp
  qed
qed simp

definition flowing :: "stream_params \<Rightarrow> client_params \<Rightarrow> session \<Rightarrow> bool" where
  "flowing par cpar s \<longleftrightarrow>
     (\<exists>es a. ss_inbox s = nums (cl_next_sequence (ss_client s)) es
        \<and> admits cpar (seen (ss_client s) (ss_read s)) es = Some a
        \<and> rd_sequence (ss_reader s) = cl_next_sequence (ss_client s) + int (length es)
        \<and> rd_returned (ss_reader s) = ad_closed a
        \<and> (\<not> ad_closed a \<longrightarrow>
             rd_pending (ss_reader s) = (if rd_sequence (ss_reader s) = 0 then None else Some (rd_sequence (ss_reader s) - 1)))
        \<and> (eb_error (pd_buffer (ss_producer s)) = None \<longrightarrow> prod_inv par cpar a (ss_producer s)))"

definition failing :: "session \<Rightarrow> bool" where
  "failing s \<longleftrightarrow>
     (\<exists>err. ss_inbox s = [terminal_event (cl_next_sequence (ss_client s)) err] \<and> error_ok err \<and> \<not> cl_closed (ss_client s))"

definition session_inv :: "stream_params \<Rightarrow> client_params \<Rightarrow> session \<Rightarrow> bool" where
  "session_inv par cpar s \<longleftrightarrow>
     (\<forall>err. eb_error (pd_buffer (ss_producer s)) = Some err \<longrightarrow> error_ok err)
     \<and> 0 \<le> cl_next_sequence (ss_client s)
     \<and> cl_previous_sequence (ss_client s) =
         (if cl_next_sequence (ss_client s) = 0 then None else Some (cl_next_sequence (ss_client s) - 1))
     \<and> accounted cpar (ss_client s) (ss_read s)
     \<and> (if cl_error (ss_client s) = None then flowing par cpar s \<or> failing s
        else ss_inbox s = [] \<and> cl_closed (ss_client s))"

lemma buf_put_error_same: "eb_error (snd (buf_put e b)) = eb_error b"
  by (auto simp: buf_put_def buf_merge_def buf_append_def Let_def split: option.splits sum.splits if_splits bool.splits)

lemma put_events_error_same: "eb_error (snd (put_events es b)) = eb_error b"
proof (induction es arbitrary: b)
  case (Cons e es)
  show ?case
    using Cons.IH [of "snd (buf_put e b)"] buf_put_error_same [of e b]
    by (cases "buf_put e b") (auto split: sum.splits)
qed simp

lemma produce_choice_error_same: "eb_error (pd_buffer (snd (produce_choice par ch p))) = eb_error (pd_buffer p)"
proof -
  have "eb_error b = eb_error (pd_buffer p)" if "put_events es (pd_buffer p) = (r, b)" for es r b
    using put_events_error_same [of es "pd_buffer p"] that by simp
  then show ?thesis
    by (auto simp: produce_choice_def Let_def split: sum.splits prod.splits)
qed

lemma produce_choices_error_same: "eb_error (pd_buffer (snd (produce_choices par chs p))) = eb_error (pd_buffer p)"
proof (induction chs arbitrary: p)
  case (Cons ch chs)
  show ?case
    using Cons.IH [of "snd (produce_choice par ch p)"] produce_choice_error_same [of par ch p]
    by (cases "produce_choice par ch p") (auto split: sum.splits)
qed simp

lemma produce_output_error_same: "produce_output par out p = (r, p') \<Longrightarrow> eb_error (pd_buffer p') = eb_error (pd_buffer p)"
  using produce_choices_error_same [of par "eo_outputs out" p]
    produce_choices_error_same [of par "eo_outputs out" "p\<lparr>pd_prompt_tokens := Some (int (length (the (eo_prompt_token_ids out))))\<rparr>"]
  by (auto simp: produce_output_def Let_def split: option.splits if_splits)

lemma produce_end_error_same:
  assumes "produce_end confirmed p = (r, p')"
  shows "eb_error (pd_buffer p') = eb_error (pd_buffer p)"
proof -
  have "eb_error b = eb_error (pd_buffer p)" if "put_events es (pd_buffer p) = (q, b)" for es q b
    using put_events_error_same [of es "pd_buffer p"] that by simp
  then show ?thesis
    using assms
    by (auto simp: produce_end_def split: option.splits if_splits prod.splits sum.splits simp del: put_events.simps)
qed

lemma buf_fail_error:
  assumes "buf_fail code source param b = (Inr (), b')" "\<And>err. eb_error b = Some err \<Longrightarrow> error_ok err"
  shows "\<exists>err. eb_error b' = Some err \<and> error_ok err"
  using assms new_stream_error_ok by (auto simp: buf_fail_def split: sum.splits option.splits)

lemma produce_failed_error:
  assumes "produce_failed x p = (Inr (), p')" "\<And>err. eb_error (pd_buffer p) = Some err \<Longrightarrow> error_ok err"
  shows "\<exists>err. eb_error (pd_buffer p') = Some err \<and> error_ok err"
proof -
  obtain code source where "buf_fail code source None (pd_buffer p) = (Inr (), pd_buffer p')"
    using assms(1) by (auto simp: produce_failed_def Let_def split: prod.splits)
  then show ?thesis using assms(2) by (rule buf_fail_error)
qed

text \<open>Recording a failure of the producer never raises.\<close>

lemma buf_fail_total:
  "fst (buf_fail code (if code = ''context_length_exceeded'' then Some ''completion_budget'' else None) None b) = Inr ()"
  by (cases "eb_error b") (simp_all add: buf_fail_def new_stream_error_def CONTEXT_LIMIT_SOURCES_def)

lemma produce_failed_records: "fst (produce_failed x p) = Inr ()"
  unfolding produce_failed_def Let_def case_prod_beta fst_conv by (rule buf_fail_total)

lemma classify_accepted:
  assumes "classify_engine_error x = (code, source)"
  shows "(code = ''context_length_exceeded'') = (source = Some ''prompt'') \<and> (source = None \<or> source = Some ''prompt'')"
  using assms unfolding classify_engine_error_def by (simp split: if_splits) (elim conjE, hypsubst, simp)+

lemma engine_failed_records: "fst (engine_failed x p) = Inr ()"
proof -
  obtain code source where c: "classify_engine_error x = (code, source)" by fastforce
  have "fst (buf_fail code source None b) = Inr ()" for b
    using classify_accepted [OF c] by (cases "eb_error b") (auto simp: buf_fail_def new_stream_error_def CONTEXT_LIMIT_SOURCES_def)
  then show ?thesis by (simp add: engine_failed_def c case_prod_beta)
qed

lemma buf_pop_keeps_done: "buf_pop b = Some (e, b') \<Longrightarrow> eb_done b' = eb_done b"
  by (auto simp: buf_pop_def Let_def split: list.splits)

lemma drain_loop_keeps_done: "drain_loop k b = (es, b') \<Longrightarrow> eb_done b' = eb_done b"
proof (induction k arbitrary: b es)
  case (Suc k)
  then show ?case by (cases "buf_pop b") (auto dest: buf_pop_keeps_done split: prod.splits)
qed simp

lemma drain_loop_empties: "drain_loop k b = (es, b') \<Longrightarrow> length (eb_events b) \<le> k \<Longrightarrow> eb_events b' = []"
proof (induction k arbitrary: b es)
  case (Suc k)
  show ?case
  proof (cases "eb_events b")
    case Nil
    then show ?thesis using Suc.prems(1) by (simp add: buf_pop_def)
  next
    case (Cons x xs)
    then obtain e b1 where p: "buf_pop b = Some (e, b1)" "eb_events b1 = xs" by (simp add: buf_pop_def Let_def)
    then obtain fs where "drain_loop k b1 = (fs, b')" using Suc.prems(1) by (auto split: prod.splits)
    then show ?thesis using Suc.IH p(2) Cons Suc.prems(2) by simp
  qed
qed simp

text \<open>A turn of the reader hands over everything that is buffered, numbered in order.\<close>

lemma next_batch_all:
  assumes "eb_error b = None" "buf_inv b" "eb_events b \<noteq> []" "\<not> rd_returned r" "rd_pending r = None"
    and "admits cpar a (map en_event (eb_events b)) = Some a'"
  obtains b' where "buf_inv b'" "eb_error b' = None" "eb_events b' = []" "eb_done b' = eb_done b"
    "next_batch b r =
       (nums (rd_sequence r) (map en_event (eb_events b)), b',
        r\<lparr>rd_sequence := rd_sequence r + int (length (eb_events b)), rd_completed := ad_closed a', rd_returned := ad_closed a',
          rd_pending := Some (rd_sequence r + int (length (eb_events b)) - 1)\<rparr>)"
proof -
  obtain e b1 where p: "buf_pop b = Some (e, b1)" "eb_error b1 = None"
    using assms(1,3) by (cases "eb_events b") (auto simp: buf_pop_def Let_def)
  note inv1 = buf_pop_inv [OF p(1) assms(2)]
  obtain es b' where d: "drain_loop (length (eb_events b1)) b1 = (es, b')" by fastforce
  note inv = drain_loop_trace [OF d inv1(1)] and emp = drain_loop_empties [OF d]
  have all: "map en_event (eb_events b) = e # es" using inv1(2) inv emp by simp
  have "length (eb_events b) = length (e # es)" using arg_cong [OF all, of length] by simp
  moreover have "number_batch (rd_sequence r) (e # es)
      = (nums (rd_sequence r) (e # es), rd_sequence r + int (length (e # es)), ad_closed a')"
    using assms(6) all by (intro number_batch_admitted [of cpar a]) simp_all
  ultimately have "next_batch b r =
       (nums (rd_sequence r) (map en_event (eb_events b)), b',
        r\<lparr>rd_sequence := rd_sequence r + int (length (eb_events b)), rd_completed := ad_closed a', rd_returned := ad_closed a',
          rd_pending := Some (rd_sequence r + int (length (eb_events b)) - 1)\<rparr>)"
    using assms(1,4,5) p d all
    by (simp add: next_batch_def buf_get_def buf_drain_def del: number_batch.simps nums.simps)
  then show thesis
    using that [of b'] inv emp p(2) buf_pop_keeps_done [OF p(1)] drain_loop_keeps_done [OF d] by simp
qed

lemma session_inv_start: "new_limits L0 = Inr L \<Longrightarrow> session_inv par cpar (new_session par L)"
proof -
  assume L: "new_limits L0 = Inr L"
  have inv: "buf_inv (new_buffer L)" using stream_run_inv [OF stream_run.start [OF L]] by simp
  let ?s = "new_session par L"
  have "flowing par cpar ?s" unfolding flowing_def
    by (rule exI [of _ "[]"], rule exI [of _ "seen new_client []"])
      (simp add: new_session_def new_client_def new_reader_def seen_def new_producer_def new_buffer_def prod_inv_def sent_def
        sum_list_replicate inv [unfolded new_buffer_def])
  then show ?thesis
    by (simp add: session_inv_def new_session_def new_client_def new_producer_def new_buffer_def accounted_def)
qed

text \<open>A step of the producer that leaves the session flowing.\<close>

lemma session_inv_producer:
  assumes "session_inv par cpar s"
    and "\<And>err. eb_error (pd_buffer p) = Some err \<Longrightarrow> error_ok err"
    and "\<And>a. eb_error (pd_buffer p) = None \<Longrightarrow>
      eb_error (pd_buffer (ss_producer s)) = None \<and> (prod_inv par cpar a (ss_producer s) \<longrightarrow> prod_inv par cpar a p)"
  shows "session_inv par cpar (s\<lparr>ss_producer := p\<rparr>)"
proof -
  have "flowing par cpar s \<Longrightarrow> flowing par cpar (s\<lparr>ss_producer := p\<rparr>)"
    using assms(3) unfolding flowing_def by fastforce
  then show ?thesis using assms(1,2) by (auto simp: session_inv_def failing_def split: if_splits)
qed

lemma session_inv_failed:
  assumes "session_inv par cpar s" "\<exists>err. eb_error (pd_buffer p) = Some err \<and> error_ok err"
  shows "session_inv par cpar (s\<lparr>ss_producer := p\<rparr>)"
  using assms(2) by (intro session_inv_producer [OF assms(1)]) auto

lemma fetch_acknowledged:
  assumes "session_inv par cpar s" "ss_inbox s = []" "\<not> cl_closed (ss_client s)"
  obtains r where "fetch_batch s =
      (case next_batch (pd_buffer (ss_producer s)) r of
         (batch, b, r') \<Rightarrow>
           (if batch = [] \<and> rd_returned r' then Inl (StreamError ''incomplete_stream'') else Inr batch,
            s\<lparr>ss_producer := (ss_producer s)\<lparr>pd_buffer := b\<rparr>, ss_reader := r', ss_inbox := batch\<rparr>))"
    "rd_pending r = None" "\<not> rd_returned r" "rd_sequence r = cl_next_sequence (ss_client s)"
    "eb_error (pd_buffer (ss_producer s)) = None \<longrightarrow> prod_inv par cpar (seen (ss_client s) (ss_read s)) (ss_producer s)"
proof -
  have err: "cl_error (ss_client s) = None" using assms by (auto simp: session_inv_def split: if_splits)
  have "\<not> failing s" using assms(2) by (simp add: failing_def)
  with assms err have "flowing par cpar s" by (simp add: session_inv_def)
  then obtain es a where f: "ss_inbox s = nums (cl_next_sequence (ss_client s)) es"
    "admits cpar (seen (ss_client s) (ss_read s)) es = Some a"
    "rd_sequence (ss_reader s) = cl_next_sequence (ss_client s) + int (length es)" "rd_returned (ss_reader s) = ad_closed a"
    "\<not> ad_closed a \<longrightarrow> rd_pending (ss_reader s) = (if rd_sequence (ss_reader s) = 0 then None else Some (rd_sequence (ss_reader s) - 1))"
    "eb_error (pd_buffer (ss_producer s)) = None \<longrightarrow> prod_inv par cpar a (ss_producer s)"
    unfolding flowing_def by (elim exE conjE) (rule that)
  have es: "es = []" using f(1) assms(2) by (cases es) auto
  then have a: "a = seen (ss_client s) (ss_read s)" "\<not> ad_closed a" using f(2) assms(3) by (auto simp: seen_def)
  let ?r = "(ss_reader s)\<lparr>rd_pending := None\<rparr>"
  have prev: "cl_previous_sequence (ss_client s) = rd_pending (ss_reader s)"
    using assms(1) f(3,5) es a(2) by (simp add: session_inv_def)
  have "(case cl_previous_sequence (ss_client s) of None \<Rightarrow> (Inr True, ss_reader s)
      | Some q \<Rightarrow> acknowledge_stream q (ss_reader s)) = (Inr True, ?r)"
    using prev f(4) a(2) by (cases "rd_pending (ss_reader s)") (simp_all add: acknowledge_stream_def)
  then have "fetch_batch s =
      (case next_batch (pd_buffer (ss_producer s)) ?r of
         (batch, b, r') \<Rightarrow>
           (if batch = [] \<and> rd_returned r' then Inl (StreamError ''incomplete_stream'') else Inr batch,
            s\<lparr>ss_producer := (ss_producer s)\<lparr>pd_buffer := b\<rparr>, ss_reader := r', ss_inbox := batch\<rparr>))"
    by (simp add: fetch_batch_def)
  then show thesis using that [of ?r] f(3,4,6) a es by simp
qed

lemma session_inv_fetch:
  assumes "session_inv par cpar s" "ss_inbox s = []" "\<not> cl_closed (ss_client s)" "fetch_batch s = (Inr batch, s')" "batch \<noteq> []"
  shows "session_inv par cpar s'"
proof -
  let ?b = "pd_buffer (ss_producer s)" and ?c = "ss_client s"
  obtain r where r: "fetch_batch s =
      (case next_batch ?b r of
         (batch, b, r') \<Rightarrow>
           (if batch = [] \<and> rd_returned r' then Inl (StreamError ''incomplete_stream'') else Inr batch,
            s\<lparr>ss_producer := (ss_producer s)\<lparr>pd_buffer := b\<rparr>, ss_reader := r', ss_inbox := batch\<rparr>))"
    "rd_pending r = None" "\<not> rd_returned r" "rd_sequence r = cl_next_sequence ?c"
    "eb_error ?b = None \<longrightarrow> prod_inv par cpar (seen ?c (ss_read s)) (ss_producer s)"
    by (rule fetch_acknowledged [OF assms(1-3)])
  have cerr: "cl_error ?c = None" using assms(1-3) by (auto simp: session_inv_def split: if_splits)
  show ?thesis
  proof (cases "eb_error ?b")
    case (Some err)
    then have "next_batch ?b r = ([terminal_event (cl_next_sequence ?c) err], ?b, r\<lparr>rd_returned := True\<rparr>)"
      using r(2-4) by (simp add: next_batch_def buf_get_def)
    then have s': "s' = s\<lparr>ss_reader := r\<lparr>rd_returned := True\<rparr>, ss_inbox := [terminal_event (cl_next_sequence ?c) err]\<rparr>"
      using assms(4) r(1) by auto
    moreover have "error_ok err" using assms(1) Some by (simp add: session_inv_def)
    then have "failing s'" using assms(3) s' by (auto simp: failing_def)
    ultimately show ?thesis using assms(1) cerr by (simp add: session_inv_def)
  next
    case None
    with r(5) have inv: "prod_inv par cpar (seen ?c (ss_read s)) (ss_producer s)" by simp
    have ne: "eb_events ?b \<noteq> []"
    proof
      assume "eb_events ?b = []"
      then have "fst (next_batch ?b r) = []" using None r(2,3) by (simp add: next_batch_def buf_get_def buf_pop_def)
      then show False using assms(4,5) r(1) by (auto split: prod.splits if_splits)
    qed
    have bi: "buf_inv ?b" and adm: "admits cpar (seen ?c (ss_read s)) (map en_event (eb_events ?b)) = Some (sent (ss_producer s))"
      using inv by (simp_all add: prod_inv_def)
    obtain b' where b': "buf_inv b'" "eb_error b' = None" "eb_events b' = []" "eb_done b' = eb_done ?b"
      "next_batch ?b r =
       (nums (rd_sequence r) (map en_event (eb_events ?b)), b',
        r\<lparr>rd_sequence := rd_sequence r + int (length (eb_events ?b)), rd_completed := ad_closed (sent (ss_producer s)),
          rd_returned := ad_closed (sent (ss_producer s)),
          rd_pending := Some (rd_sequence r + int (length (eb_events ?b)) - 1)\<rparr>)"
      by (rule next_batch_all [OF None bi ne r(3,2) adm])
    let ?p = "(ss_producer s)\<lparr>pd_buffer := b'\<rparr>"
    have "prod_inv par cpar (sent (ss_producer s)) ?p" using inv b' by (simp add: prod_inv_def sent_def)
    moreover have "cl_next_sequence ?c + int (length (eb_events ?b)) \<noteq> 0"
    proof -
      have "0 < int (length (eb_events ?b))" "0 \<le> cl_next_sequence ?c" using ne assms(1) by (simp_all add: session_inv_def)
      then show ?thesis by linarith
    qed
    ultimately have "flowing par cpar s'"
      unfolding flowing_def using assms(4) r(1,4) b' adm
      by (intro exI [of _ "map en_event (eb_events ?b)"] exI [of _ "sent (ss_producer s)"]) auto
    moreover have "ss_client s' = ?c" "ss_read s' = ss_read s" "eb_error (pd_buffer (ss_producer s')) = None"
      using assms(4) r(1) b' by auto
    ultimately show ?thesis using assms(1) cerr by (simp add: session_inv_def)
  qed
qed

lemma session_inv_accept:
  assumes "session_inv par cpar s" "ss_inbox s = e # rest"
  shows "\<exists>f c. accept_event cpar now status e (ss_client s) = (Inr f, c)
    \<and> session_inv par cpar (s\<lparr>ss_inbox := rest, ss_client := c, ss_read := ss_read s @ [f]\<rparr>)"
proof -
  let ?c = "ss_client s"
  have cerr: "cl_error ?c = None" and acc: "accounted cpar ?c (ss_read s)" and nxt: "0 \<le> cl_next_sequence ?c"
    and errs: "\<forall>err. eb_error (pd_buffer (ss_producer s)) = Some err \<longrightarrow> error_ok err"
    using assms by (auto simp: session_inv_def split: if_splits)
  from assms(1) cerr consider "flowing par cpar s" | "failing s" by (auto simp: session_inv_def)
  then show ?thesis
  proof cases
    case 1
    then obtain es a where f: "ss_inbox s = nums (cl_next_sequence ?c) es" "admits cpar (seen ?c (ss_read s)) es = Some a"
      "rd_sequence (ss_reader s) = cl_next_sequence ?c + int (length es)" "rd_returned (ss_reader s) = ad_closed a"
      "\<not> ad_closed a \<longrightarrow> rd_pending (ss_reader s) = (if rd_sequence (ss_reader s) = 0 then None else Some (rd_sequence (ss_reader s) - 1))"
      "eb_error (pd_buffer (ss_producer s)) = None \<longrightarrow> prod_inv par cpar a (ss_producer s)"
      unfolding flowing_def by (elim exE conjE) (rule that)
    obtain e0 es' where es: "es = e0 # es'" "e = numbered (cl_next_sequence ?c) e0" "rest = nums (cl_next_sequence ?c + 1) es'"
      using f(1) assms(2) by (cases es) auto
    obtain a1 where a1: "admit cpar (seen ?c (ss_read s)) e0 = Some a1" "admits cpar a1 es' = Some a"
      using f(2) es(1) by (auto split: option.splits)
    obtain g c where g: "accept_event cpar now status (numbered (cl_next_sequence ?c) e0) ?c = (Inr g, c)"
      "seen c (ss_read s @ [g]) = a1" "accounted cpar c (ss_read s @ [g])" "cl_error c = None"
      "cl_next_sequence c = cl_next_sequence ?c + 1" "cl_previous_sequence c = Some (cl_next_sequence ?c)"
      by (rule accept_admitted [OF a1(1) cerr refl acc])
    let ?s = "s\<lparr>ss_inbox := rest, ss_client := c, ss_read := ss_read s @ [g]\<rparr>"
    have "flowing par cpar ?s"
      unfolding flowing_def using f(3-6) es a1(2) g by (intro exI [of _ es'] exI [of _ a]) simp
    then have "session_inv par cpar ?s" using errs g nxt by (simp add: session_inv_def)
    then show ?thesis using g(1) es(2) by blast
  next
    case 2
    then obtain err where err: "ss_inbox s = [terminal_event (cl_next_sequence ?c) err]" "error_ok err" "\<not> cl_closed ?c"
      by (auto simp: failing_def)
    obtain g c where g: "accept_event cpar now status (terminal_event (cl_next_sequence ?c) err) ?c = (Inr g, c)"
      "cl_error c \<noteq> None" "cl_closed c" "accounted cpar c (ss_read s @ [g])"
      "cl_next_sequence c = cl_next_sequence ?c + 1" "cl_previous_sequence c = Some (cl_next_sequence ?c)"
      by (rule accept_terminal_event [OF err(2) cerr refl err(3) acc])
    then have "session_inv par cpar (s\<lparr>ss_inbox := rest, ss_client := c, ss_read := ss_read s @ [g]\<rparr>)"
      using errs nxt err(1) assms(2) by (auto simp: session_inv_def)
    then show ?thesis using g(1) err(1) assms(2) by auto
  qed
qed

lemma session_run_inv: "session_run par cpar s \<Longrightarrow> linked par cpar \<Longrightarrow> session_inv par cpar s"
proof (induction rule: session_run.induct)
  case (start L0 L)
  then show ?case by (simp add: session_inv_start)
next
  case (engine_step s out p)
  have same: "eb_error (pd_buffer p) = eb_error (pd_buffer (ss_producer s))"
    by (rule produce_output_error_same [OF engine_step.hyps(4)])
  show ?case
    using engine_step.IH [OF engine_step.prems] same produce_output_inv [OF engine_step.hyps(4) engine_step.prems _ engine_step.hyps(2,3)]
    by (intro session_inv_producer) (auto simp: session_inv_def)
next
  case (engine_end s confirmed p)
  have same: "eb_error (pd_buffer p) = eb_error (pd_buffer (ss_producer s))"
    by (rule produce_end_error_same [OF engine_end.hyps(3)])
  show ?case
    using engine_end.IH [OF engine_end.prems] same produce_end_inv [OF engine_end.hyps(3) engine_end.prems _ engine_end.hyps(2)]
    by (intro session_inv_producer) (auto simp: session_inv_def)
next
  case (crash_output s out x p p')
  note inv = crash_output.IH [OF crash_output.prems]
  have "\<exists>err. eb_error (pd_buffer p') = Some err \<and> error_ok err"
    by (rule produce_failed_error [OF crash_output.hyps(4)])
      (use inv produce_output_error_same [OF crash_output.hyps(3)] in \<open>simp add: session_inv_def\<close>)
  then show ?case by (rule session_inv_failed [OF inv])
next
  case (crash_close s confirmed x p p')
  note inv = crash_close.IH [OF crash_close.prems]
  have "\<exists>err. eb_error (pd_buffer p') = Some err \<and> error_ok err"
    by (rule produce_failed_error [OF crash_close.hyps(4)])
      (use inv produce_end_error_same [OF crash_close.hyps(3)] in \<open>simp add: session_inv_def\<close>)
  then show ?case by (rule session_inv_failed [OF inv])
next
  case (crash_engine s x p)
  note inv = crash_engine.IH [OF crash_engine.prems]
  obtain code source where "buf_fail code source None (pd_buffer (ss_producer s)) = (Inr (), pd_buffer p)"
    using crash_engine.hyps(3) by (auto simp: engine_failed_def split: prod.splits)
  then have "\<exists>err. eb_error (pd_buffer p) = Some err \<and> error_ok err"
    by (rule buf_fail_error) (use inv in \<open>simp add: session_inv_def\<close>)
  then show ?case by (rule session_inv_failed [OF inv])
next
  case (stop s code source param b)
  note inv = stop.IH [OF stop.prems]
  have "\<exists>err. eb_error b = Some err \<and> error_ok err"
    by (rule buf_fail_error [OF stop.hyps(2)]) (use inv in \<open>simp add: session_inv_def\<close>)
  then show ?case by (intro session_inv_failed [OF inv]) simp
next
  case (fetch s batch s')
  then show ?case using session_inv_fetch by blast
next
  case (accept s e rest now status f c)
  from session_inv_accept [OF accept.IH [OF accept.prems] accept.hyps(2), of now status] accept.hyps(3) show ?case by auto
qed

text \<open>The worker's reader does not return before the client has the end of the stream.\<close>

lemma not_incomplete:
  assumes "rd_pending r = None" "\<not> rd_returned r" "\<not> cl_closed c"
    and "eb_error (pd_buffer p) = None \<longrightarrow> prod_inv par cpar (seen c fs) p"
  shows "case next_batch (pd_buffer p) r of (batch, b, r') \<Rightarrow> \<not> (batch = [] \<and> rd_returned r')"
proof (cases "eb_error (pd_buffer p)")
  case (Some err)
  then show ?thesis using assms(1,2) by (simp add: next_batch_def buf_get_def)
next
  case None
  then have inv: "buf_inv (pd_buffer p)" "admits cpar (seen c fs) (map en_event (eb_events (pd_buffer p))) = Some (sent p)"
    "eb_done (pd_buffer p) \<longrightarrow> pd_ended p"
    using assms(4) by (simp_all add: prod_inv_def)
  show ?thesis
  proof (cases "eb_events (pd_buffer p)")
    case Nil
    then have "\<not> eb_done (pd_buffer p)" using inv(2,3) assms(3) by (auto simp: sent_def seen_def)
    then show ?thesis using Nil None assms(1,2) by (simp add: next_batch_def buf_get_def buf_pop_def)
  next
    case (Cons x xs)
    then have ne: "eb_events (pd_buffer p) \<noteq> []" by simp
    show ?thesis by (rule next_batch_all [OF None inv(1) ne assms(2,1) inv(2)]) (simp add: Cons)
  qed
qed

section \<open>Properties of a session\<close>

text \<open>
  C10. The client accepts whatever a worker sends. In every state of a text stream, however the engine's
  outputs, failures, stops, merging of deltas, batching and reads interleave, the next event in the
  client's inbox passes all its checks, terminal errors included, and a fetch for an empty inbox neither
  has its acknowledgement refused nor finds the stream cut off. The engine is assumed to report distinct positive ranks.
\<close>

theorem client_accepts_every_event:
  assumes "session_run par cpar s" "linked par cpar"
  shows "(\<forall>e rest. ss_inbox s = e # rest \<longrightarrow> (\<exists>f c. accept_event cpar now status e (ss_client s) = (Inr f, c)))
    \<and> (ss_inbox s = [] \<and> \<not> cl_closed (ss_client s) \<longrightarrow> (\<exists>batch s'. fetch_batch s = (Inr batch, s')))"
proof -
  note inv = session_run_inv [OF assms]
  have "\<exists>f c. accept_event cpar now status e (ss_client s) = (Inr f, c)" if "ss_inbox s = e # rest" for e rest
    using session_inv_accept [OF inv that] by blast
  moreover have "\<exists>batch s'. fetch_batch s = (Inr batch, s')" if e: "ss_inbox s = []" "\<not> cl_closed (ss_client s)"
  proof (rule fetch_acknowledged [OF inv e])
    fix r
    assume r: "fetch_batch s =
      (case next_batch (pd_buffer (ss_producer s)) r of
         (batch, b, r') \<Rightarrow>
           (if batch = [] \<and> rd_returned r' then Inl (StreamError ''incomplete_stream'') else Inr batch,
            s\<lparr>ss_producer := (ss_producer s)\<lparr>pd_buffer := b\<rparr>, ss_reader := r', ss_inbox := batch\<rparr>))"
      "rd_pending r = None" "\<not> rd_returned r"
      "eb_error (pd_buffer (ss_producer s)) = None \<longrightarrow> prod_inv par cpar (seen (ss_client s) (ss_read s)) (ss_producer s)"
    then have "case next_batch (pd_buffer (ss_producer s)) r of (batch, b, r') \<Rightarrow> \<not> (batch = [] \<and> rd_returned r')"
      using e(2) by (intro not_incomplete)
    then show ?thesis using r(1) by (auto split: prod.splits)
  qed
  ultimately show ?thesis by blast
qed

text \<open>
  C15. A completed stream is accounted for. When the client of a text stream has closed without an error,
  every choice has finished, the usage it keeps reports as completion tokens exactly the token ids of the
  deltas it has read, and exactly one request record was pushed, with the counts of that usage.
\<close>

theorem completed_stream_accounted:
  assumes "session_run par cpar s" "linked par cpar" "cl_closed (ss_client s)" "cl_error (ss_client s) = None"
  shows "\<exists>u. cl_usage (ss_client s) = Some u \<and> length (cl_finished (ss_client s)) = sp_n par
    \<and> map_of u ''completion_tokens'' = Some (JInt (sum_list (map tokens_of (filter is_delta (ss_read s)))))
    \<and> cl_records (ss_client s) = [(map_of u ''prompt_tokens'', map_of u ''completion_tokens'')]"
proof -
  have "accounted cpar (ss_client s) (ss_read s)" using session_run_inv [OF assms(1,2)] by (simp add: session_inv_def)
  then show ?thesis
    using assms(2-4) by (auto simp: accounted_def seen_def linked_def split: option.splits)
qed


section \<open>A session that completes\<close>

definition demo_params :: stream_params where
  "demo_params = \<lparr>sp_n = 1, sp_max_tokens = 16, sp_max_tokens_omitted = False, sp_logprobs = Some 1, sp_max_model_len = 64\<rparr>"

definition demo_client :: client_params where
  "demo_client = \<lparr>cp_n = 1, cp_logprobs = Some 1, cp_chat = False, cp_request_id = ''r''\<rparr>"

definition demo_position :: "int \<Rightarrow> position" where
  "demo_position t = [(t, \<lparr>lp_logprob = Finite (- 1 / 2) 4, lp_decoded_token = None, lp_rank = Some 1\<rparr>)]"

definition demo_output :: engine_output where
  "demo_output = \<lparr>eo_prompt_token_ids = Some [1, 2],
     eo_outputs = [\<lparr>co_index = 0, co_text = [72, 105], co_token_ids = [7, 8], co_finish_reason = Some ''stop'',
                    co_logprobs = Some [demo_position 7, demo_position 8]\<rparr>]\<rparr>"

definition demo_room :: stream_limits where
  "demo_room = demo_limits\<lparr>lm_max_buffer_bytes := 1000, lm_max_event_bytes := 500\<rparr>"

definition demo_ended :: session where
  "demo_ended = (new_session demo_params demo_room)
     \<lparr>ss_producer := snd (produce_end True (snd (produce_output demo_params demo_output (new_producer demo_params demo_room))))\<rparr>"

definition demo_fetched :: session where
  "demo_fetched = snd (fetch_batch demo_ended)"

definition accept_next :: "client_params \<Rightarrow> session \<Rightarrow> session" where
  "accept_next cpar s =
     (case ss_inbox s of
        [] \<Rightarrow> s
      | e # rest \<Rightarrow>
          (case accept_event cpar 5 ''aborted'' e (ss_client s) of
             (Inl x, c) \<Rightarrow> s
           | (Inr f, c) \<Rightarrow> s\<lparr>ss_inbox := rest, ss_client := c, ss_read := ss_read s @ [f]\<rparr>))"

definition demo_done :: session where
  "demo_done = ((accept_next demo_client) ^^ 4) demo_fetched"

lemma accept_next_run: "session_run par cpar s \<Longrightarrow> session_run par cpar (accept_next cpar s)"
proof (cases "ss_inbox s")
  case (Cons e rest)
  assume s: "session_run par cpar s"
  obtain r c where r: "accept_event cpar 5 ''aborted'' e (ss_client s) = (r, c)" by fastforce
  show ?thesis
  proof (cases r)
    case (Inr f)
    then show ?thesis using session_run.accept [OF s Cons] r Cons by (simp add: accept_next_def)
  qed (use s Cons r in \<open>simp add: accept_next_def\<close>)
qed (simp add: accept_next_def)

lemma demo_linked: "linked demo_params demo_client"
  by (simp add: linked_def demo_params_def demo_client_def)

lemma demo_ended_run: "session_run demo_params demo_client demo_ended"
proof -
  let ?s = "new_session demo_params demo_room" and ?p = "new_producer demo_params demo_room"
  let ?q = "snd (produce_output demo_params demo_output ?p)"
  have "new_limits demo_room = Inr demo_room" by code_simp
  then have 0: "session_run demo_params demo_client ?s" by (rule session_run.start)
  have "fst (produce_output demo_params demo_output ?p) = Inr ()" by code_simp
  then have 1: "produce_output demo_params demo_output (ss_producer ?s) = (Inr (), ?q)"
    by (metis new_session_def prod.collapse session.select_convs(1))
  have "engine_ok demo_params demo_output"
    by (simp add: engine_ok_def demo_params_def demo_output_def ranks_ok_def demo_position_def in_top_def)
  moreover have "\<not> pd_ended (ss_producer ?s)" by (simp add: new_session_def new_producer_def)
  ultimately have 2: "session_run demo_params demo_client (?s\<lparr>ss_producer := ?q\<rparr>)" using 0 1 by (intro session_run.engine_step)
  have "fst (produce_end True ?q) = Inr ()" by code_simp
  then have 3: "produce_end True (ss_producer (?s\<lparr>ss_producer := ?q\<rparr>)) = (Inr (), snd (produce_end True ?q))"
    by (metis prod.collapse session.select_convs(1) session.surjective session.update_convs(1))
  have "\<not> pd_ended ?q" by code_simp
  then have "session_run demo_params demo_client ((?s\<lparr>ss_producer := ?q\<rparr>)\<lparr>ss_producer := snd (produce_end True ?q)\<rparr>)"
    using session_run.engine_end [OF 2 _ 3] by simp
  then show ?thesis by (simp add: demo_ended_def)
qed

lemma demo_fetched_run: "session_run demo_params demo_client demo_fetched"
proof -
  have n: "length (ss_inbox demo_fetched) = 4" by code_simp
  have "case fst (fetch_batch demo_ended) of Inl x \<Rightarrow> False | Inr batch \<Rightarrow> batch \<noteq> []" by code_simp
  then obtain batch where "fetch_batch demo_ended = (Inr batch, demo_fetched)" "batch \<noteq> []"
    by (cases "fetch_batch demo_ended") (auto simp: demo_fetched_def split: sum.splits)
  then show ?thesis
    by (intro session_run.fetch [OF demo_ended_run]) (simp_all add: demo_ended_def new_session_def new_client_def)
qed

lemma demo_done_run: "session_run demo_params demo_client demo_done"
proof -
  have "session_run demo_params demo_client (((accept_next demo_client) ^^ n) demo_fetched)" for n
    by (induction n) (simp_all add: demo_fetched_run accept_next_run)
  then show ?thesis by (simp add: demo_done_def)
qed

lemma demo_done_end:
  "let s = demo_done; c = ss_client s
   in sum_list (map tokens_of (filter is_delta (ss_read s))) = 2 \<and> cl_closed c \<and> cl_error c = None"
  by code_simp

theorem client_accepts_every_event_witness:
  "length (ss_inbox demo_fetched) = 4
   \<and> (\<exists>f c. accept_event demo_client 5 ''aborted'' (hd (ss_inbox demo_fetched)) (ss_client demo_fetched) = (Inr f, c))"
proof -
  have n: "length (ss_inbox demo_fetched) = 4" by code_simp
  then have "ss_inbox demo_fetched = hd (ss_inbox demo_fetched) # tl (ss_inbox demo_fetched)"
    by (cases "ss_inbox demo_fetched") simp_all
  with client_accepts_every_event [OF demo_fetched_run demo_linked] n show ?thesis by blast
qed

theorem completed_stream_accounted_witness:
  "sum_list (map tokens_of (filter is_delta (ss_read demo_done))) = 2
   \<and> (\<exists>u. cl_usage (ss_client demo_done) = Some u \<and> map_of u ''completion_tokens'' = Some (JInt 2)
        \<and> cl_records (ss_client demo_done) = [(map_of u ''prompt_tokens'', Some (JInt 2))])"
proof -
  have t: "sum_list (map tokens_of (filter is_delta (ss_read demo_done))) = 2"
    and "cl_closed (ss_client demo_done)" "cl_error (ss_client demo_done) = None"
    using demo_done_end by (simp_all add: Let_def)
  then obtain u where "cl_usage (ss_client demo_done) = Some u"
    "map_of u ''completion_tokens'' = Some (JInt (sum_list (map tokens_of (filter is_delta (ss_read demo_done)))))"
    "cl_records (ss_client demo_done) = [(map_of u ''prompt_tokens'', map_of u ''completion_tokens'')]"
    using completed_stream_accounted [OF demo_done_run demo_linked] by blast
  then show ?thesis using t by simp
qed


end
