(* ===== verification/Chat_Prompt.thy ===== *)
theory Chat_Prompt
  imports Streaming
begin

text \<open>
  Chat prompts before they are rendered (\<open>inference/server/chat.py\<close>): the table of chat models and the
  mapping of reasoning efforts, the checks on a chat prompt, and the guard that rejects text which spells
  one of the model's control tokens, with the probe of the chat template that finds these tokens.

  A prompt is made of JSON values (object keys are Latin-1 strings). The tokenizer and the rendered probe
  are arguments: decoding a token, the added tokens and the token ids of the renders.
\<close>

section \<open>Chat models\<close>

definition REASONING_EFFORTS :: "string list" where
  "REASONING_EFFORTS = [''none'', ''minimal'', ''low'', ''medium'', ''high'', ''xhigh'', ''max'']"

record chat_model =
  cm_reasoning_parser :: "string option"
  cm_tool_call_parser :: "string option"
  cm_thinking_optional :: bool
  cm_reasoning_efforts :: "(string, string) dict"
  cm_recognized_efforts :: "string list"

definition chat_model_of :: "string option \<Rightarrow> string option \<Rightarrow> bool \<Rightarrow> (string, string) dict \<Rightarrow> chat_model" where
  "chat_model_of r t opt efforts = \<lparr>cm_reasoning_parser = r, cm_tool_call_parser = t, cm_thinking_optional = opt,
     cm_reasoning_efforts = efforts, cm_recognized_efforts = []\<rparr>"

definition QWEN3_5 :: chat_model where
  "QWEN3_5 = chat_model_of (Some ''qwen3'') (Some ''qwen3_coder'') True
     [(''minimal'', ''low''), (''high'', ''xhigh''), (''max'', ''xhigh'')]"

definition QWEN3 :: chat_model where
  "QWEN3 = chat_model_of (Some ''qwen3'') (Some ''hermes'') True []"

definition DEEPSEEK_V4 :: chat_model where
  "DEEPSEEK_V4 = chat_model_of (Some ''deepseek_v4'') (Some ''deepseek_v4'') True []"

definition GLM5_NEXT :: chat_model where
  "GLM5_NEXT = chat_model_of (Some ''glm47'') (Some ''glm47'') False
     [(''minimal'', ''low''), (''medium'', ''high''), (''xhigh'', ''max'')]"

definition CHAT_MODELS :: "(string, chat_model) dict" where
  "CHAT_MODELS =
     [(''Qwen3ForCausalLM'', QWEN3), (''Qwen3MoeForCausalLM'', QWEN3),
      (''Qwen3_5ForCausalLM'', QWEN3_5), (''Qwen3_5ForConditionalGeneration'', QWEN3_5),
      (''Qwen3_5MoeForCausalLM'', QWEN3_5), (''Qwen3_5MoeForConditionalGeneration'', QWEN3_5),
      (''Qwen4ExpForCausalLM'', QWEN3_5), (''Qwen4ExpForConditionalGeneration'', QWEN3_5),
      (''GlmMoeDsaForCausalLM'', chat_model_of (Some ''glm47'') (Some ''glm47'') True
         [(''minimal'', ''low''), (''low'', ''high''), (''medium'', ''high''), (''xhigh'', ''max'')]),
      (''Glm4MoeForCausalLM'', chat_model_of (Some ''glm47'') (Some ''glm47'') True []),
      (''Glm5NextForCausalLM'', GLM5_NEXT), (''Glm5NextForConditionalGeneration'', GLM5_NEXT),
      (''DeepseekV4ForCausalLM'', DEEPSEEK_V4), (''DeepseekV4ForConditionalGeneration'', DEEPSEEK_V4),
      (''GptOssForCausalLM'', chat_model_of (Some ''openai_gptoss'') (Some ''openai'') False
         [(''minimal'', ''low''), (''xhigh'', ''high''), (''max'', ''high'')]),
      (''MiniMaxM2ForCausalLM'', chat_model_of (Some ''minimax_m2'') (Some ''minimax_m2'') False []),
      (''AfmoeForCausalLM'', chat_model_of None (Some ''hermes'') True []),
      (''NemotronHForCausalLM'', chat_model_of (Some ''nemotron_v3'') (Some ''qwen3_coder'') True [])]"

definition resolve_chat_model :: "string \<Rightarrow> string option \<Rightarrow> string option \<Rightarrow> chat_model option" where
  "resolve_chat_model architecture reasoning_parser tool_call_parser =
     (case map_of CHAT_MODELS architecture of
        None \<Rightarrow>
          if reasoning_parser = None \<and> tool_call_parser = None then None
          else Some (chat_model_of reasoning_parser tool_call_parser (reasoning_parser = None) [])
      | Some m \<Rightarrow>
          let m1 = (if reasoning_parser \<noteq> None then m\<lparr>cm_reasoning_parser := reasoning_parser\<rparr> else m)
          in Some (if tool_call_parser \<noteq> None then m1\<lparr>cm_tool_call_parser := tool_call_parser\<rparr> else m1))"

text \<open>The mapping loop: a level that the table maps and the template does not know is mapped again.\<close>

partial_function (option) effort_loop :: "chat_model \<Rightarrow> string \<Rightarrow> string option" where
  "effort_loop m e =
     (case map_of (cm_reasoning_efforts m) e of
        Some e' \<Rightarrow> if e \<in> set (cm_recognized_efforts m) then Some e else effort_loop m e'
      | None \<Rightarrow> Some e)"

declare effort_loop.simps [code]

text \<open>A refusal on the model's side names the offending field; other exceptions pass through.\<close>

datatype chat_error = Chat_Error string "string option" | Chat_Exn exn

text \<open>The result of the method: not returning is \<open>None\<close>, and an absent effort stays absent.\<close>

definition template_reasoning_effort :: "chat_model \<Rightarrow> string option \<Rightarrow> (chat_error + string option) option" where
  "template_reasoning_effort m effort =
     (case effort of
        None \<Rightarrow> Some (Inr None)
      | Some e \<Rightarrow>
          if e = ''none'' \<and> \<not> cm_thinking_optional m
          then Some (Inl (Chat_Error ''invalid_chat_request'' (Some ''reasoning_effort'')))
          else map_option (\<lambda>r. Inr (Some r)) (effort_loop m e))"

text \<open>
  The levels that a template knows, from the prompts rendered for each level (\<open>None\<close> for a level that
  fails to render) and without one: those that differ from the default, or a single one that equals it.
\<close>

definition recognized_efforts :: "'r \<Rightarrow> (string, 'r option) dict \<Rightarrow> string list" where
  "recognized_efforts dflt renders =
     (let at_default = map fst (filter (\<lambda>(e, r). r = Some dflt) renders)
      in map fst (filter (\<lambda>(e, r). r \<noteq> None \<and> (r \<noteq> Some dflt \<or> at_default = [e])) renders))"

text \<open>Without the render that names no level the table keeps mapping every level.\<close>

definition probe_reasoning_efforts :: "'r option \<Rightarrow> (string, 'r option) dict \<Rightarrow> chat_model \<Rightarrow> chat_model" where
  "probe_reasoning_efforts dflt renders m =
     (case dflt of
        None \<Rightarrow> m
      | Some d \<Rightarrow> m\<lparr>cm_recognized_efforts := recognized_efforts d renders\<rparr>)"

section \<open>Checks on a prompt\<close>

definition MAX_CHAT_BYTES :: int where "MAX_CHAT_BYTES = 8 * 1024 * 1024"
definition MAX_CHAT_MESSAGES :: nat where "MAX_CHAT_MESSAGES = 2048"
definition MAX_CHAT_TOOLS :: nat where "MAX_CHAT_TOOLS = 128"

definition CHAT_ROLES :: "string list" where
  "CHAT_ROLES = [''system'', ''developer'', ''user'', ''assistant'', ''tool'']"

definition TEXT_PART_TYPES :: "string list" where
  "TEXT_PART_TYPES = [''text'', ''input_text'', ''output_text'', ''refusal'', ''thinking'']"

record chat_prompt =
  ch_messages :: jv
  ch_tools :: jv
  ch_tool_choice :: jv
  ch_parallel_tool_calls :: jv
  ch_reasoning_effort :: jv

text \<open>
  The UTF-8 length of the serialised prompt, with the separators \<open>", "\<close> and \<open>": "\<close> and only quotes,
  backslashes and control characters escaped. A lone surrogate has no UTF-8 encoding, which raises.
\<close>

definition utf8_len :: "int \<Rightarrow> int" where
  "utf8_len cp =
     (if cp = 34 \<or> cp = 92 \<or> cp \<in> {8, 9, 10, 12, 13} then 2
      else if cp < 32 then 6
      else if cp < 128 then 1
      else if cp < 2048 then 2
      else if cp < 65536 then 3
      else 4)"

definition str_len :: "int list \<Rightarrow> int" where
  "str_len s = 2 + sum_list (map utf8_len s)"

fun ulen :: "jv \<Rightarrow> int"
and ulens :: "jv list \<Rightarrow> int"
and ufields :: "(string \<times> jv) list \<Rightarrow> int" where
  "ulen JNull = 4"
| "ulen (JBool b) = (if b then 4 else 5)"
| "ulen (JInt i) = int_len i"
| "ulen (JFloat x n) = int n"
| "ulen (JStr s) = str_len s"
| "ulen (JList xs) = 2 + ulens xs + 2 * commas xs"
| "ulen (JDict kvs) = 2 + ufields kvs + 2 * commas kvs"
| "ulens [] = 0"
| "ulens (x # xs) = ulen x + ulens xs"
| "ufields [] = 0"
| "ufields ((k, v) # rest) = str_len (map of_char k) + 2 + ulen v + ufields rest"

definition surrogate :: "int \<Rightarrow> bool" where
  "surrogate cp \<longleftrightarrow> 55296 \<le> cp \<and> cp \<le> 57343"

text \<open>All strings of a value, keys included.\<close>

fun strings_of :: "jv \<Rightarrow> int list list"
and strings_list :: "jv list \<Rightarrow> int list list"
and strings_items :: "(string \<times> jv) list \<Rightarrow> int list list" where
  "strings_of (JStr s) = [s]"
| "strings_of (JList xs) = strings_list xs"
| "strings_of (JDict kvs) = strings_items kvs"
| "strings_of _ = []"
| "strings_list [] = []"
| "strings_list (x # xs) = strings_of x @ strings_list xs"
| "strings_items [] = []"
| "strings_items ((k, v) # rest) = map of_char k # strings_of v @ strings_items rest"

definition prompt_value :: "chat_prompt \<Rightarrow> jv" where
  "prompt_value p = JList [ch_messages p, ch_tools p, ch_tool_choice p, ch_parallel_tool_calls p, ch_reasoning_effort p]"

definition is_jdict :: "jv \<Rightarrow> bool" where
  "is_jdict v = (case v of JDict _ \<Rightarrow> True | _ \<Rightarrow> False)"

text \<open>Membership in a frozenset hashes the value, which raises for lists and dicts.\<close>

definition is_hashable :: "jv \<Rightarrow> bool" where
  "is_hashable v = (case v of JList _ \<Rightarrow> False | JDict _ \<Rightarrow> False | _ \<Rightarrow> True)"

definition in_frozenset :: "jv \<Rightarrow> string list \<Rightarrow> bool res" where
  "in_frozenset v xs = (if is_hashable v then Inr (v \<in> set (map js xs)) else Inl TypeError)"

definition jget :: "(string \<times> jv) list \<Rightarrow> string \<Rightarrow> jv" where
  "jget d k = dict_get d k JNull"

definition check_message :: "jv \<Rightarrow> unit res" where
  "check_message v =
     (case v of
        JDict m \<Rightarrow>
          (case in_frozenset (jget m ''role'') CHAT_ROLES of
             Inl x \<Rightarrow> Inl x
           | Inr known \<Rightarrow> if known then Inr () else Inl ValueError)
      | _ \<Rightarrow> Inl ValueError)"

fun check_messages :: "jv list \<Rightarrow> unit res" where
  "check_messages [] = Inr ()"
| "check_messages (m # ms) = (case check_message m of Inl x \<Rightarrow> Inl x | Inr _ \<Rightarrow> check_messages ms)"

definition messages_check :: "jv \<Rightarrow> unit res" where
  "messages_check v =
     (case v of
        JList ms \<Rightarrow> if ms = [] \<or> MAX_CHAT_MESSAGES < length ms then Inl ValueError else check_messages ms
      | _ \<Rightarrow> Inl ValueError)"

definition tools_ok :: "jv \<Rightarrow> bool" where
  "tools_ok v =
     (case v of
        JNull \<Rightarrow> True
      | JList ts \<Rightarrow> ts \<noteq> [] \<and> length ts \<le> MAX_CHAT_TOOLS \<and> list_all is_jdict ts
      | _ \<Rightarrow> False)"

definition choice_ok :: "jv \<Rightarrow> bool" where
  "choice_ok v \<longleftrightarrow> v = JNull \<or> v \<in> set (map js [''none'', ''auto'', ''required'']) \<or> is_jdict v"

definition parallel_ok :: "jv \<Rightarrow> bool" where
  "parallel_ok v = (case v of JNull \<Rightarrow> True | JBool _ \<Rightarrow> True | _ \<Rightarrow> False)"

definition effort_check :: "jv \<Rightarrow> unit res" where
  "effort_check v =
     (if v = JNull then Inr ()
      else (case in_frozenset v REASONING_EFFORTS of
              Inl x \<Rightarrow> Inl x
            | Inr known \<Rightarrow> if known then Inr () else Inl ValueError))"

definition validate_chat_prompt :: "chat_prompt \<Rightarrow> chat_prompt res" where
  "validate_chat_prompt p =
     (if list_ex (list_ex surrogate) (strings_of (prompt_value p)) then Inl ValueError
      else if MAX_CHAT_BYTES < ulen (prompt_value p) then Inl ValueError
      else (case messages_check (ch_messages p) of
              Inl x \<Rightarrow> Inl x
            | Inr _ \<Rightarrow>
                if \<not> tools_ok (ch_tools p) then Inl ValueError
                else if \<not> choice_ok (ch_tool_choice p) then Inl ValueError
                else if \<not> parallel_ok (ch_parallel_tool_calls p) then Inl ValueError
                else (case effort_check (ch_reasoning_effort p) of Inl x \<Rightarrow> Inl x | Inr _ \<Rightarrow> Inr p)))"

text \<open>Whether every part of a message's content is text.\<close>

fun check_parts :: "jv list \<Rightarrow> bool res" where
  "check_parts [] = Inr True"
| "check_parts (p # ps) =
     (case p of
        JStr _ \<Rightarrow> check_parts ps
      | JDict d \<Rightarrow>
          (case in_frozenset (jget d ''type'') TEXT_PART_TYPES of
             Inl x \<Rightarrow> Inl x
           | Inr known \<Rightarrow> if known then check_parts ps else Inr False)
      | _ \<Rightarrow> Inr False)"

definition check_content :: "jv \<Rightarrow> bool res" where
  "check_content msg =
     (case msg of
        JDict m \<Rightarrow>
          (case jget m ''content'' of
             JNull \<Rightarrow> Inr True
           | JStr _ \<Rightarrow> Inr True
           | JList parts \<Rightarrow> check_parts parts
           | _ \<Rightarrow> Inr False)
      | _ \<Rightarrow> Inl AttributeError)"

fun message_list :: "jv \<Rightarrow> jv list" where
  "message_list (JList ms) = ms"
| "message_list _ = []"

text \<open>Decimal digits of a message's index in the name of the field.\<close>

fun show_nat :: "nat \<Rightarrow> string" where
  "show_nat n = (if n < 10 then [char_of (48 + n)] else show_nat (n div 10) @ [char_of (48 + n mod 10)])"

declare show_nat.simps [simp del]

fun check_contents :: "nat \<Rightarrow> jv list \<Rightarrow> chat_error + unit" where
  "check_contents i [] = Inr ()"
| "check_contents i (m # ms) =
     (case check_content m of
        Inl x \<Rightarrow> Inl (Chat_Exn x)
      | Inr True \<Rightarrow> check_contents (i + 1) ms
      | Inr False \<Rightarrow> Inl (Chat_Error ''invalid_chat_request'' (Some (''messages['' @ show_nat i @ ''].content''))))"

definition check_chat_input :: "chat_prompt \<Rightarrow> jv option \<Rightarrow> chat_error + unit" where
  "check_chat_input p structured =
     (if structured \<noteq> None \<and> ch_tools p \<notin> {JNull, JList []} \<and> (ch_tool_choice p = js ''required'' \<or> is_jdict (ch_tool_choice p))
      then Inl (Chat_Error ''invalid_chat_request'' (Some ''structured_outputs''))
      else check_contents 0 (message_list (ch_messages p)))"

section \<open>Control tokens\<close>

text \<open>
  A tokenizer: its added tokens by id with their text and whether they are special, the added vocabulary by
  text, all special tokens, and decoding of one id.
\<close>

record tokenizer =
  tk_decoder :: "(int, int list \<times> bool) dict"
  tk_vocab :: "(int list, int) dict"
  tk_special :: "int list list"
  tk_decode :: "int \<Rightarrow> int list"

definition added_tokens :: "tokenizer \<Rightarrow> (int, int list \<times> bool) dict" where
  "added_tokens tk =
     fold (\<lambda>(text, i) d. if i \<in> set (keys d) then d else d @ [(i, (text, False))]) (tk_vocab tk) (tk_decoder tk)"

text \<open>\<open>text.find(sub, start)\<close>.\<close>

definition occurs_at :: "int list \<Rightarrow> int list \<Rightarrow> nat \<Rightarrow> bool" where
  "occurs_at text sub i \<longleftrightarrow> i + length sub \<le> length text \<and> take (length sub) (drop i text) = sub"

definition find_from :: "int list \<Rightarrow> int list \<Rightarrow> nat \<Rightarrow> nat option" where
  "find_from text sub start = find (occurs_at text sub) [start..<Suc (length text)]"

definition PROBE_MESSAGES :: "(string \<times> int list) list" where
  "PROBE_MESSAGES = map (\<lambda>(r, t). (r, map of_char t))
     [(''system'', ''ProbeSystemText''), (''user'', ''ProbeUserText''), (''assistant'', ''ProbeAssistantText''),
      (''user'', ''ProbeLastUserText'')]"

fun find_spans :: "int list \<Rightarrow> nat \<Rightarrow> int list list \<Rightarrow> (nat \<times> nat) list res" where
  "find_spans text from [] = Inr []"
| "find_spans text from (sub # subs) =
     (case find_from text sub from of
        None \<Rightarrow> Inl ValueError
      | Some i \<Rightarrow>
          (case find_spans text (i + length sub) subs of
             Inl x \<Rightarrow> Inl x
           | Inr spans \<Rightarrow> Inr ((i, i + length sub) # spans)))"

definition user_openers :: "(nat \<times> nat) list \<Rightarrow> (nat \<times> nat) list" where
  "user_openers spans =
     map (\<lambda>i. (snd (spans ! (i - 1)), fst (spans ! i)))
       (filter (\<lambda>i. fst (PROBE_MESSAGES ! i) = ''user'') [0..<length PROBE_MESSAGES])"

text \<open>The tokens of a render with the stretch of text that each stands for.\<close>

fun place_tokens :: "tokenizer \<Rightarrow> nat \<Rightarrow> int list \<Rightarrow> (int \<times> nat \<times> nat) list" where
  "place_tokens tk from [] = []"
| "place_tokens tk from (i # ids) =
     (i, from, from + length (tk_decode tk i)) # place_tokens tk (from + length (tk_decode tk i)) ids"

definition in_text :: "(nat \<times> nat) list \<Rightarrow> nat \<times> nat \<Rightarrow> bool" where
  "in_text spans r = list_ex (\<lambda>(s, e). s < snd r \<and> fst r < e) spans"

definition template_tokens :: "tokenizer \<Rightarrow> (nat \<times> nat) list \<Rightarrow> int list \<Rightarrow> (int \<times> nat \<times> nat) list" where
  "template_tokens tk spans ids =
     filter (\<lambda>(i, r). i \<in> set (keys (added_tokens tk)) \<and> \<not> in_text spans r) (place_tokens tk 0 ids)"

definition opens_turn :: "tokenizer \<Rightarrow> (nat \<times> nat) list \<Rightarrow> int \<times> nat \<times> nat \<Rightarrow> bool" where
  "opens_turn tk spans tok =
     (case tok of
        (i, s, e) \<Rightarrow>
          (case map_of (added_tokens tk) i of
             Some (text, special) \<Rightarrow> \<not> special \<and> list_ex (\<lambda>(after, before). after \<le> s \<and> e \<le> before) (user_openers spans)
           | None \<Rightarrow> False))"

fun structural_tokens :: "tokenizer \<Rightarrow> int list list \<Rightarrow> (int list \<times> bool) res" where
  "structural_tokens tk [] = Inr ([], False)"
| "structural_tokens tk (ids # renders) =
     (case find_spans (concat (map (tk_decode tk) ids)) 0 (map snd PROBE_MESSAGES) of
        Inl x \<Rightarrow> Inl x
      | Inr spans \<Rightarrow>
          (case structural_tokens tk renders of
             Inl x \<Rightarrow> Inl x
           | Inr (found, plain) \<Rightarrow>
               let toks = template_tokens tk spans ids
               in Inr (map fst toks @ found, list_ex (opens_turn tk spans) toks \<or> plain)))"

section \<open>The guard\<close>

text \<open>The guard's tokens; \<open>None\<close> for the renders is a failed probe.\<close>

definition new_guard :: "int list list \<Rightarrow> int list list" where
  "new_guard tokens = filter (\<lambda>t. t \<noteq> []) (remdups tokens)"

definition guard_from_tokenizer :: "tokenizer \<Rightarrow> int list list option \<Rightarrow> int list list res" where
  "guard_from_tokenizer tk renders =
     (let added = added_tokens tk;
          base = tk_special tk @ map fst (filter snd (map snd added))
      in (case renders of
            None \<Rightarrow> Inr (new_guard (base @ map (fst \<circ> snd) added))
          | Some rs \<Rightarrow>
              (case structural_tokens tk rs of
                 Inl x \<Rightarrow> Inl x
               | Inr (ids, plain) \<Rightarrow>
                   Inr (new_guard (base @ map (\<lambda>i. fst (the (map_of added i))) ids
                                   @ (if plain then map (fst \<circ> snd) added else []))))))"

definition spells :: "int list list \<Rightarrow> int list \<Rightarrow> bool" where
  "spells tokens s = list_ex (\<lambda>t. find_from s t 0 \<noteq> None) tokens"

fun contains_token :: "int list list \<Rightarrow> jv \<Rightarrow> bool"
and any_contains :: "int list list \<Rightarrow> jv list \<Rightarrow> bool"
and items_contain :: "int list list \<Rightarrow> (string \<times> jv) list \<Rightarrow> bool" where
  "contains_token g (JStr s) = spells g s"
| "contains_token g (JDict kvs) = items_contain g kvs"
| "contains_token g (JList xs) = any_contains g xs"
| "contains_token g _ = False"
| "any_contains g [] = False"
| "any_contains g (x # xs) = (contains_token g x \<or> any_contains g xs)"
| "items_contain g [] = False"
| "items_contain g ((k, v) # rest) = (spells g (map of_char k) \<or> contains_token g v \<or> items_contain g rest)"

fun guard_messages :: "int list list \<Rightarrow> nat \<Rightarrow> jv list \<Rightarrow> chat_error + unit" where
  "guard_messages g i [] = Inr ()"
| "guard_messages g i (m # ms) =
     (if contains_token g m then Inl (Chat_Error ''invalid_message_content'' (Some (''messages['' @ show_nat i @ '']'')))
      else guard_messages g (i + 1) ms)"

definition guard_check :: "int list list \<Rightarrow> chat_prompt \<Rightarrow> chat_error + unit" where
  "guard_check g p =
     (if g = [] then Inr ()
      else (case guard_messages g 0 (message_list (ch_messages p)) of
              Inl x \<Rightarrow> Inl x
            | Inr _ \<Rightarrow>
                if ch_tools p \<noteq> JNull \<and> contains_token g (ch_tools p)
                then Inl (Chat_Error ''invalid_message_content'' (Some ''tools''))
                else if is_jdict (ch_tool_choice p) \<and> contains_token g (ch_tool_choice p)
                then Inl (Chat_Error ''invalid_message_content'' (Some ''tool_choice''))
                else Inr ()))"

section \<open>The mapping of efforts ends\<close>

text \<open>Following a table from a level leaves the table within the given number of steps.\<close>

fun leaves_table :: "nat \<Rightarrow> (string, string) dict \<Rightarrow> string \<Rightarrow> bool" where
  "leaves_table n d e =
     (case map_of d e of
        None \<Rightarrow> True
      | Some e' \<Rightarrow> (case n of 0 \<Rightarrow> False | Suc m \<Rightarrow> leaves_table m d e'))"

declare leaves_table.simps [simp del]

lemma effort_loop_ends:
  "leaves_table n (cm_reasoning_efforts m) e \<Longrightarrow>
   \<exists>e'. effort_loop m e = Some e' \<and> (e' \<in> set (cm_recognized_efforts m) \<or> map_of (cm_reasoning_efforts m) e' = None)"
proof (induction n arbitrary: e)
  case 0
  then show ?case
    by (subst effort_loop.simps) (auto simp: leaves_table.simps [of 0] split: option.splits)
next
  case (Suc n)
  show ?case
  proof (cases "map_of (cm_reasoning_efforts m) e")
    case None
    then show ?thesis by (subst effort_loop.simps) simp
  next
    case (Some e')
    then have "leaves_table n (cm_reasoning_efforts m) e'"
      using Suc.prems by (simp add: leaves_table.simps [of "Suc n"])
    from Suc.IH [OF this] Some show ?thesis by (subst effort_loop.simps) auto
  qed
qed

lemma table_leaves:
  assumes "list_all (\<lambda>(a, b). leaves_table n d b) d"
  shows "leaves_table (Suc n) d e"
proof (cases "map_of d e")
  case (Some b)
  then have "(e, b) \<in> set d" by (rule map_of_SomeD)
  with assms Some show ?thesis by (auto simp: leaves_table.simps [of "Suc n"] list_all_iff)
qed (simp add: leaves_table.simps)

lemma chat_models_leave: "list_all (\<lambda>(a, m). list_all (\<lambda>(x, y). leaves_table 2 (cm_reasoning_efforts m) y) (cm_reasoning_efforts m)) CHAT_MODELS"
  by code_simp

lemma resolved_efforts:
  "resolve_chat_model a r t = Some m \<Longrightarrow> cm_reasoning_efforts m = [] \<or> (\<exists>m0. (a, m0) \<in> set CHAT_MODELS \<and> cm_reasoning_efforts m = cm_reasoning_efforts m0)"
  by (auto simp: resolve_chat_model_def chat_model_of_def Let_def dest: map_of_SomeD split: option.splits if_splits)

text \<open>
  Mapping a reasoning effort always ends. For every architecture and every configured parsers, and
  whatever levels a checkpoint's template turns out to know, the loop that maps a requested level returns,
  with a level that the template knows or that the table does not map.
\<close>

theorem effort_mapping_ends:
  assumes "resolve_chat_model architecture reasoning_parser tool_call_parser = Some m"
  shows "\<exists>e'. effort_loop (m\<lparr>cm_recognized_efforts := known\<rparr>) e = Some e' \<and> (e' \<in> set known \<or> map_of (cm_reasoning_efforts m) e' = None)"
proof -
  have "list_all (\<lambda>(x, y). leaves_table 2 (cm_reasoning_efforts m) y) (cm_reasoning_efforts m)"
    using resolved_efforts [OF assms] chat_models_leave by (fastforce simp: list_all_iff)
  then have "leaves_table (Suc 2) (cm_reasoning_efforts m) e" by (rule table_leaves)
  then have "leaves_table (Suc 2) (cm_reasoning_efforts (m\<lparr>cm_recognized_efforts := known\<rparr>)) e" by simp
  from effort_loop_ends [OF this] show ?thesis by simp
qed

theorem effort_mapping_ends_witness:
  "\<exists>m. resolve_chat_model ''GlmMoeDsaForCausalLM'' None None = Some m
     \<and> effort_loop (m\<lparr>cm_recognized_efforts := [''high'']\<rparr>) ''minimal'' = Some ''high''"
proof -
  let ?m = "chat_model_of (Some ''glm47'') (Some ''glm47'') True
         [(''minimal'', ''low''), (''low'', ''high''), (''medium'', ''high''), (''xhigh'', ''max'')]"
  have m: "resolve_chat_model ''GlmMoeDsaForCausalLM'' None None = Some ?m" by code_simp
  from effort_mapping_ends [OF m, of "[''high'']" "''minimal''"]
  obtain e where e: "effort_loop (?m\<lparr>cm_recognized_efforts := [''high'']\<rparr>) ''minimal'' = Some e" by blast
  have "effort_loop (?m\<lparr>cm_recognized_efforts := [''high'']\<rparr>) ''minimal'' = Some ''high''"
    by (subst effort_loop.simps, simp add: chat_model_of_def, subst effort_loop.simps, simp, subst effort_loop.simps, simp)
  with m show ?thesis by blast
qed

section \<open>What the guard rejects\<close>

text \<open>
  A token of a render is written by the template when it is an added token and its stretch of the text does
  not meet the probe's own text. The last condition below is the one for which every added token is blocked.
\<close>

definition token_start :: "tokenizer \<Rightarrow> int list \<Rightarrow> nat \<Rightarrow> nat" where
  "token_start tk ids k = length (concat (map (tk_decode tk) (take k ids)))"

definition template_writes :: "tokenizer \<Rightarrow> int list \<Rightarrow> nat \<Rightarrow> bool" where
  "template_writes tk ids k \<longleftrightarrow>
     k < length ids \<and> ids ! k \<in> set (keys (added_tokens tk))
     \<and> (\<exists>spans. find_spans (concat (map (tk_decode tk) ids)) 0 (map snd PROBE_MESSAGES) = Inr spans
          \<and> (\<forall>(s, e) \<in> set spans. token_start tk ids (Suc k) \<le> s \<or> e \<le> token_start tk ids k))"

definition plain_opener :: "tokenizer \<Rightarrow> int list \<Rightarrow> nat \<Rightarrow> bool" where
  "plain_opener tk ids k \<longleftrightarrow>
     (\<exists>spans. find_spans (concat (map (tk_decode tk) ids)) 0 (map snd PROBE_MESSAGES) = Inr spans
        \<and> opens_turn tk spans (ids ! k, token_start tk ids k, token_start tk ids (Suc k)))"

definition control_token :: "tokenizer \<Rightarrow> int list list option \<Rightarrow> int list \<Rightarrow> bool" where
  "control_token tk renders t \<longleftrightarrow>
     t \<noteq> []
     \<and> (t \<in> set (tk_special tk)
        \<or> (\<exists>i. (i, (t, True)) \<in> set (added_tokens tk))
        \<or> (\<exists>rs. renders = Some rs
             \<and> (\<exists>ids \<in> set rs. \<exists>k. template_writes tk ids k \<and> t = fst (the (map_of (added_tokens tk) (ids ! k)))))
        \<or> ((renders = None \<or> (\<exists>rs. renders = Some rs \<and> (\<exists>ids \<in> set rs. \<exists>k. template_writes tk ids k \<and> plain_opener tk ids k)))
           \<and> (\<exists>i b. (i, (t, b)) \<in> set (added_tokens tk))))"

definition guarded_strings :: "chat_prompt \<Rightarrow> int list list" where
  "guarded_strings p =
     strings_list (message_list (ch_messages p)) @ strings_of (ch_tools p)
     @ (if is_jdict (ch_tool_choice p) then strings_of (ch_tool_choice p) else [])"

lemma find_from_infix: "(find_from s t 0 \<noteq> None) = (\<exists>u v. s = u @ t @ v)"
proof
  assume "find_from s t 0 \<noteq> None"
  then obtain i where "occurs_at s t i"
    by (auto simp: find_from_def find_None_iff)
  then have "s = take i s @ t @ drop (i + length t) s"
    by (metis add.commute append_take_drop_id drop_drop occurs_at_def)
  then show "\<exists>u v. s = u @ t @ v" by (intro exI)
next
  assume "\<exists>u v. s = u @ t @ v"
  then obtain u v where "s = u @ t @ v" by (elim exE)
  then have "occurs_at s t (length u)" "length u \<in> set [0..<Suc (length s)]"
    by (simp_all add: occurs_at_def)
  then show "find_from s t 0 \<noteq> None" unfolding find_from_def find_None_iff by blast
qed

lemma spells_iff: "spells g s = (\<exists>t \<in> set g. \<exists>u v. s = u @ t @ v)"
  by (simp only: spells_def list_ex_iff find_from_infix)

lemma contains_strings:
  "contains_token g v = list_ex (spells g) (strings_of v)"
  "any_contains g xs = list_ex (spells g) (strings_list xs)"
  "items_contain g kvs = list_ex (spells g) (strings_items kvs)"
  by (induction g v and g xs and g kvs rule: contains_token_any_contains_items_contain.induct) auto

lemma guard_messages_ok: "(guard_messages g i ms = Inr ()) = (\<not> any_contains g ms)"
  by (induction ms arbitrary: i) auto

lemma guard_check_ok: "(guard_check g p = Inr ()) = (\<not> list_ex (spells g) (guarded_strings p))"
proof (cases "g = []")
  case True
  then show ?thesis by (simp add: guard_check_def list_ex_iff spells_def)
next
  case False
  have m: "(guard_messages g 0 ms = Inr ()) = (\<not> list_ex (spells g) (strings_list ms))" for ms
    by (simp add: guard_messages_ok contains_strings)
  show ?thesis
    using False m [of "message_list (ch_messages p)"]
    by (cases "guard_messages g 0 (message_list (ch_messages p))")
      (auto simp: guard_check_def guarded_strings_def contains_strings)
qed

lemma below_Suc: "{f k |k. k < Suc n} = insert (f 0) {f (Suc k) |k. k < n}"
proof -
  have "{f k |k. k < Suc n} = f ` {..<Suc n}" by (auto simp del: lessThan_Suc)
  also have "\<dots> = insert (f 0) ((\<lambda>k. f (Suc k)) ` {..<n})" by (simp add: lessThan_Suc_eq_insert_0 image_image del: lessThan_Suc)
  finally show ?thesis by auto
qed

lemma place_tokens_set:
  "set (place_tokens tk n0 ids) =
     {(ids ! k, n0 + token_start tk ids k, n0 + token_start tk ids (Suc k)) |k. k < length ids}"
proof (induction ids arbitrary: n0)
  case (Cons i ids)
  let ?f = "\<lambda>k. ((i # ids) ! k, n0 + token_start tk (i # ids) k, n0 + token_start tk (i # ids) (Suc k))"
  have "{?f k |k. k < Suc (length ids)} = insert (?f 0) {?f (Suc k) |k. k < length ids}"
    by (rule below_Suc)
  moreover have "?f 0 = (i, n0, n0 + length (tk_decode tk i))" by (simp add: token_start_def)
  moreover have "?f (Suc k) = (ids ! k, n0 + length (tk_decode tk i) + token_start tk ids k,
      n0 + length (tk_decode tk i) + token_start tk ids (Suc k))" for k
    by (simp add: token_start_def)
  ultimately show ?case by (simp only: place_tokens.simps Cons.IH list.set length_Cons)
qed simp

lemma template_tokens_set:
  assumes "find_spans (concat (map (tk_decode tk) ids)) 0 (map snd PROBE_MESSAGES) = Inr spans"
  shows "set (template_tokens tk spans ids) =
    {(ids ! k, token_start tk ids k, token_start tk ids (Suc k)) |k. template_writes tk ids k}"
proof -
  let ?tok = "\<lambda>k. (ids ! k, token_start tk ids k, token_start tk ids (Suc k))"
  have "set (template_tokens tk spans ids) = {?tok k |k. k < length ids \<and> ids ! k \<in> set (keys (added_tokens tk))
      \<and> \<not> in_text spans (token_start tk ids k, token_start tk ids (Suc k))}"
    unfolding template_tokens_def set_filter place_tokens_set by fastforce
  moreover have "(\<not> in_text spans (token_start tk ids k, token_start tk ids (Suc k)))
      = (\<forall>(s, e) \<in> set spans. token_start tk ids (Suc k) \<le> s \<or> e \<le> token_start tk ids k)" for k
    by (fastforce simp: in_text_def list_ex_iff)
  ultimately show ?thesis by (simp add: template_writes_def assms)
qed

lemma structural_tokens_set:
  assumes "structural_tokens tk rs = Inr (found, plain)"
  shows "set found = {ids ! k |ids k. ids \<in> set rs \<and> template_writes tk ids k}
    \<and> plain = (\<exists>ids \<in> set rs. \<exists>k. template_writes tk ids k \<and> plain_opener tk ids k)"
  using assms
proof (induction rs arbitrary: found plain)
  case (Cons ids rs)
  then obtain spans found' plain' where
    spans: "find_spans (concat (map (tk_decode tk) ids)) 0 (map snd PROBE_MESSAGES) = Inr spans"
    and rest: "structural_tokens tk rs = Inr (found', plain')"
    and found: "found = map fst (template_tokens tk spans ids) @ found'"
    and plain: "plain = (list_ex (opens_turn tk spans) (template_tokens tk spans ids) \<or> plain')"
    by (auto simp: Let_def split: sum.splits)
  note IH = Cons.IH [OF rest]
  have "set found = {ids ! k |k. template_writes tk ids k} \<union> set found'"
    by (force simp: found template_tokens_set [OF spans])
  moreover have "plain = ((\<exists>k. template_writes tk ids k \<and> plain_opener tk ids k) \<or> plain')"
    by (auto simp: plain list_ex_iff template_tokens_set [OF spans] plain_opener_def spans)
  ultimately show ?case using IH by auto
qed simp

lemma added_texts:
  "set (map (fst \<circ> snd) d) = {t. \<exists>i b. (i, (t, b)) \<in> set d}"
  "set (map fst (filter snd (map snd d))) = {t. \<exists>i. (i, (t, True)) \<in> set d}"
  by force+

lemma guard_from_tokenizer_set:
  assumes "guard_from_tokenizer tk renders = Inr g"
  shows "set g = {t. control_token tk renders t}"
proof (cases renders)
  case None
  with assms have "g = new_guard (tk_special tk @ map fst (filter snd (map snd (added_tokens tk)))
      @ map (fst \<circ> snd) (added_tokens tk))"
    by (simp add: guard_from_tokenizer_def Let_def)
  then have "set g = {t. t \<noteq> [] \<and> t \<in> set (tk_special tk) \<union> {t. \<exists>i. (i, (t, True)) \<in> set (added_tokens tk)}
      \<union> {t. \<exists>i b. (i, (t, b)) \<in> set (added_tokens tk)}}"
    by (simp only: new_guard_def set_filter set_remdups set_append added_texts) blast
  then show ?thesis by (simp add: control_token_def None Collect_conj_eq Un_def)
next
  case (Some rs)
  let ?text = "\<lambda>i. fst (the (map_of (added_tokens tk) i))"
  from Some assms obtain found plain where s: "structural_tokens tk rs = Inr (found, plain)"
    and g: "g = new_guard (tk_special tk @ map fst (filter snd (map snd (added_tokens tk)))
         @ map ?text found @ (if plain then map (fst \<circ> snd) (added_tokens tk) else []))"
    by (auto simp: guard_from_tokenizer_def Let_def split: sum.splits)
  note st = structural_tokens_set [OF s]
  have found: "set (map ?text found) = {t. \<exists>ids \<in> set rs. \<exists>k. template_writes tk ids k \<and> t = ?text (ids ! k)}"
    using st by auto
  have "set (if plain then map (fst \<circ> snd) (added_tokens tk) else []) = {t. plain \<and> (\<exists>i b. (i, (t, b)) \<in> set (added_tokens tk))}"
    using added_texts(1) [of "added_tokens tk"] by (cases plain) simp_all
  then have "t \<in> set g \<longleftrightarrow> t \<noteq> [] \<and> (t \<in> set (tk_special tk) \<or> (\<exists>i. (i, (t, True)) \<in> set (added_tokens tk))
      \<or> (\<exists>ids \<in> set rs. \<exists>k. template_writes tk ids k \<and> t = ?text (ids ! k))
      \<or> (plain \<and> (\<exists>i b. (i, (t, b)) \<in> set (added_tokens tk))))" for t
    unfolding g new_guard_def set_filter set_remdups set_append added_texts(2) found by (simp add: conj_commute)
  then show ?thesis by (simp add: set_eq_iff control_token_def Some st)
qed

text \<open>
  C17. The guard lets a prompt pass exactly when it spells no control token. No string of its messages,
  tools and named tool choice, keys of objects included, contains a special token, an added token that the
  template writes outside the probe's text under some setting, or, when the probe failed or a user turn
  opens with an added token that is not special, any added token.
\<close>

theorem guard_rejects_exactly:
  assumes "guard_from_tokenizer tk renders = Inr g"
  shows "(guard_check g p = Inr ())
    = (\<nexists>s t u v. s \<in> set (guarded_strings p) \<and> control_token tk renders t \<and> s = u @ t @ v)"
  using guard_from_tokenizer_set [OF assms]
  by (simp add: guard_check_ok list_ex_iff spells_iff) blast

definition demo_tokenizer :: tokenizer where
  "demo_tokenizer = \<lparr>tk_decoder = [(100, (map of_char ''<s>'', True)), (101, (map of_char ''<u>'', False))],
     tk_vocab = [(map of_char ''<t>'', 102)], tk_special = [map of_char ''<s>''],
     tk_decode = (\<lambda>i. if i = 100 then map of_char ''<s>'' else if i = 101 then map of_char ''<u>''
       else if i = 102 then map of_char ''<t>'' else if i < 4 then snd (PROBE_MESSAGES ! nat i) else [])\<rparr>"

definition demo_render :: "int list" where
  "demo_render = [100, 0, 100, 1, 100, 2, 100, 3, 101]"

definition demo_prompt :: "string \<Rightarrow> chat_prompt" where
  "demo_prompt key = \<lparr>ch_messages = JList [JDict [(''role'', js ''user''), (''content'', js ''a<t>b''), (key, JNull)]],
     ch_tools = JNull, ch_tool_choice = js ''auto'', ch_parallel_tool_calls = JNull, ch_reasoning_effort = JNull\<rparr>"

text \<open>The template writes \<open><u>\<close> and never \<open><t>\<close>: the first is rejected, here in a key, and the second passes.\<close>

theorem guard_rejects_exactly_witness:
  "(\<exists>s t u v. s \<in> set (guarded_strings (demo_prompt ''x<u>'')) \<and> control_token demo_tokenizer (Some [demo_render]) t \<and> s = u @ t @ v)
   \<and> (\<nexists>s t u v. s \<in> set (guarded_strings (demo_prompt ''name'')) \<and> control_token demo_tokenizer (Some [demo_render]) t \<and> s = u @ t @ v)"
proof -
  let ?g = "[map of_char ''<s>'', map of_char ''<u>''] :: int list list"
  have g: "guard_from_tokenizer demo_tokenizer (Some [demo_render]) = Inr ?g" by code_simp
  have "guard_check ?g (demo_prompt ''x<u>'') \<noteq> Inr ()" "guard_check ?g (demo_prompt ''name'') = Inr ()"
    by code_simp+
  then show ?thesis unfolding guard_rejects_exactly [OF g] by blast
qed

end
