(* ===== verification/Stream_Request.thy ===== *)
theory Stream_Request
  imports Chat_Prompt
begin

text \<open>
  Validation of a streaming request (\<open>validate_request\<close> and \<open>schema_depth\<close> of
  \<open>inference/server/streaming.py\<close>). The scheduler validates what a client sends, and the worker validates
  what it gets from the scheduler once more.

  A sampling parameter is a JSON value, or a mapping from token ids as validation itself makes it of
  \<open>logit_bias\<close>; numbers are finite. Each parameter has a function from its value (\<open>None\<close> when absent) to
  the value it has after validation.
\<close>

section \<open>Parameters\<close>

datatype pval = PJson jv | PMap "(int \<times> jv) list"

type_synonym params = "(string, pval) dict"

definition SUPPORTED :: "string list" where
  "SUPPORTED = [''temperature'', ''top_p'', ''frequency_penalty'', ''presence_penalty'', ''max_tokens'', ''stop'',
     ''n'', ''seed'', ''logit_bias'', ''structured_outputs'', ''thinking_token_budget'', ''logprobs'']"

definition DEFAULT_MAX_TOKENS :: int where "DEFAULT_MAX_TOKENS = 4096"
definition MAX_SCHEMA_BYTES :: int where "MAX_SCHEMA_BYTES = 64 * 1024"
definition MAX_SCHEMA_DEPTH :: nat where "MAX_SCHEMA_DEPTH = 64"

section \<open>Nesting of a schema\<close>

text \<open>The parts of an object or array, \<open>None\<close> for a scalar.\<close>

fun children :: "jv \<Rightarrow> jv list option" where
  "children (JDict kvs) = Some (map snd kvs)"
| "children (JList xs) = Some xs"
| "children _ = None"

fun nodes :: "jv \<Rightarrow> nat"
and nodes_list :: "jv list \<Rightarrow> nat"
and nodes_items :: "(string \<times> jv) list \<Rightarrow> nat" where
  "nodes (JList xs) = Suc (nodes_list xs)"
| "nodes (JDict kvs) = Suc (nodes_items kvs)"
| "nodes _ = 1"
| "nodes_list [] = 0"
| "nodes_list (x # xs) = nodes x + nodes_list xs"
| "nodes_items [] = 0"
| "nodes_items ((k, v) # rest) = nodes v + nodes_items rest"

lemma nodes_list_sum: "nodes_list xs = sum_list (map nodes xs)"
  by (induction xs) auto

lemma nodes_items_sum: "nodes_items kvs = sum_list (map nodes (map snd kvs))"
  by (induction kvs) auto

lemma nodes_children: "children v = Some cs \<Longrightarrow> nodes v = Suc (sum_list (map nodes cs))"
  by (cases v) (auto simp: nodes_list_sum nodes_items_sum)

lemma nodes_pos [simp]: "0 < nodes v"
  by (cases v) auto

text \<open>The work list with its end first: the last of the parts is looked at next.\<close>

function depth_loop :: "nat \<Rightarrow> (jv \<times> nat) list \<Rightarrow> nat" where
  "depth_loop deepest [] = deepest"
| "depth_loop deepest ((v, d) # rest) =
     (if MAX_SCHEMA_DEPTH < deepest then deepest
      else (case children v of
              None \<Rightarrow> depth_loop deepest rest
            | Some cs \<Rightarrow> depth_loop (max deepest d) (rev (map (\<lambda>c. (c, d + 1)) cs) @ rest)))"
  by pat_completeness auto
termination
  by (relation "measure (\<lambda>(deepest, pending). sum_list (map (nodes \<circ> fst) pending))")
    (auto simp: nodes_children comp_def simp flip: rev_map)

definition schema_depth :: "jv \<Rightarrow> nat" where
  "schema_depth v = depth_loop 0 [(v, 1)]"

section \<open>The checks\<close>

definition utf8_bytes :: "int list \<Rightarrow> int" where
  "utf8_bytes s = sum_list (map (\<lambda>cp. if cp < 128 then 1 else if cp < 2048 then 2 else if cp < 65536 then 3 else 4) s)"

definition int_field :: "int \<Rightarrow> pval option \<Rightarrow> pval option res" where
  "int_field upper v =
     (case v of
        None \<Rightarrow> Inr None
      | Some (PJson (JInt i)) \<Rightarrow> if 1 \<le> i \<and> i \<le> upper then Inr v else Inl ValueError
      | Some _ \<Rightarrow> Inl ValueError)"

definition n_field :: "pval option \<Rightarrow> pval option res" where
  "n_field v = int_field 8 (case v of None \<Rightarrow> Some (PJson (JInt 1)) | Some w \<Rightarrow> Some w)"

text \<open>A boolean is not a number here. \<open>math.isfinite\<close> raises for an integer that no float can hold.\<close>

fun number_of :: "jv \<Rightarrow> rat option" where
  "number_of (JInt i) = Some (of_int i)"
| "number_of (JFloat x n) = Some x"
| "number_of _ = None"

fun overflows :: "jv \<Rightarrow> bool" where
  "overflows (JInt i) = (2 ^ 1024 - 2 ^ 970 \<le> abs i)"
| "overflows _ = False"

definition number_check :: "rat \<Rightarrow> rat \<Rightarrow> jv \<Rightarrow> unit res" where
  "number_check lower upper j =
     (case number_of j of
        None \<Rightarrow> Inl ValueError
      | Some x \<Rightarrow>
          if overflows j then Inl OverflowError
          else if lower \<le> x \<and> x \<le> upper then Inr () else Inl ValueError)"

definition number_field :: "jv \<Rightarrow> rat \<Rightarrow> rat \<Rightarrow> pval option \<Rightarrow> pval option res" where
  "number_field dflt lower upper v =
     (case (case v of None \<Rightarrow> PJson dflt | Some w \<Rightarrow> w) of
        PMap _ \<Rightarrow> Inl ValueError
      | PJson j \<Rightarrow> (case number_check lower upper j of Inl x \<Rightarrow> Inl x | Inr _ \<Rightarrow> Inr (Some (PJson j))))"

definition top_p_zero :: "params \<Rightarrow> bool" where
  "top_p_zero ps = (case map_of ps ''top_p'' of Some (PJson j) \<Rightarrow> number_of j = Some 0 | _ \<Rightarrow> False)"

definition seed_field :: "pval option \<Rightarrow> pval option res" where
  "seed_field v = (case v of None \<Rightarrow> Inr None | Some (PJson (JInt i)) \<Rightarrow> Inr v | Some _ \<Rightarrow> Inl ValueError)"

text \<open>Encoding a lone surrogate raises an error that is a \<open>ValueError\<close>.\<close>

fun stop_ok :: "jv \<Rightarrow> bool" where
  "stop_ok (JStr s) \<longleftrightarrow> s \<noteq> [] \<and> \<not> list_ex surrogate s \<and> utf8_bytes s \<le> 4096"
| "stop_ok _ \<longleftrightarrow> False"

definition stop_field :: "pval option \<Rightarrow> pval option res" where
  "stop_field v =
     (case v of
        None \<Rightarrow> Inr None
      | Some (PJson JNull) \<Rightarrow> Inr v
      | Some (PJson (JStr s)) \<Rightarrow> if stop_ok (JStr s) then Inr (Some (PJson (JList [JStr s]))) else Inl ValueError
      | Some (PJson (JList xs)) \<Rightarrow>
          if 1 \<le> length xs \<and> length xs \<le> 4 \<and> list_all stop_ok xs then Inr v else Inl ValueError
      | Some _ \<Rightarrow> Inl ValueError)"

definition is_digit :: "char \<Rightarrow> bool" where
  "is_digit c \<longleftrightarrow> 48 \<le> (of_char c :: nat) \<and> (of_char c :: nat) \<le> 57"

text \<open>A key of \<open>logit_bias\<close> as an integer, where it is one or spells one.\<close>

definition token_of_key :: "string \<Rightarrow> int option" where
  "token_of_key k =
     (if 0 < length k \<and> length k \<le> 10 \<and> list_all is_digit k
      then Some (fold (\<lambda>c n. 10 * n + (of_char c - 48)) k 0) else None)"

definition bias_float :: "jv \<Rightarrow> jv" where
  "bias_float j = (case j of JInt i \<Rightarrow> JFloat (of_int i) (nat (int_len i + 2)) | _ \<Rightarrow> j)"

fun bias_loop :: "(int option \<times> jv) list \<Rightarrow> (int \<times> jv) list \<Rightarrow> (int \<times> jv) list res" where
  "bias_loop [] biases = Inr biases"
| "bias_loop ((key, bias) # rest) biases =
     (case key of
        None \<Rightarrow> Inl ValueError
      | Some token \<Rightarrow>
          if token < 0 \<or> 2 ^ 31 \<le> token \<or> token \<in> set (keys biases) then Inl ValueError
          else (case number_check (- 100) 100 bias of
                  Inl x \<Rightarrow> Inl x
                | Inr _ \<Rightarrow> bias_loop rest (biases @ [(token, bias_float bias)])))"

definition bias_items :: "(int option \<times> jv) list \<Rightarrow> pval option res" where
  "bias_items kvs =
     (if 300 < length kvs then Inl ValueError
      else (case bias_loop kvs [] of Inl x \<Rightarrow> Inl x | Inr biases \<Rightarrow> Inr (Some (PMap biases))))"

definition bias_field :: "pval option \<Rightarrow> pval option res" where
  "bias_field v =
     (case v of
        None \<Rightarrow> Inr None
      | Some (PMap m) \<Rightarrow> bias_items (map (\<lambda>(t, b). (Some t, b)) m)
      | Some (PJson j) \<Rightarrow>
          (case j of
             JNull \<Rightarrow> Inr v
           | JDict kvs \<Rightarrow> bias_items (map (\<lambda>(k, b). (token_of_key k, b)) kvs)
           | _ \<Rightarrow> Inl ValueError))"

definition schema_ok :: "jv \<Rightarrow> bool" where
  "schema_ok j \<longleftrightarrow> schema_depth j \<le> MAX_SCHEMA_DEPTH \<and> jlen j \<le> MAX_SCHEMA_BYTES"

definition outputs_ok :: "(string \<times> jv) list \<Rightarrow> bool" where
  "outputs_ok d =
     (case d of
        [(k, j)] \<Rightarrow> (k = ''json'' \<and> is_jdict j \<and> schema_ok j) \<or> (k = ''json_object'' \<and> j = JBool True)
      | _ \<Rightarrow> False)"

definition structured_field :: "pval option \<Rightarrow> pval option res" where
  "structured_field v =
     (case v of
        None \<Rightarrow> Inr None
      | Some (PJson JNull) \<Rightarrow> Inr v
      | Some (PJson (JDict d)) \<Rightarrow> if outputs_ok d then Inr v else Inl ValueError
      | Some _ \<Rightarrow> Inl ValueError)"

definition budget_ceiling :: "bool \<Rightarrow> params \<Rightarrow> int" where
  "budget_ceiling chat ps =
     (case map_of ps ''max_tokens'' of
        Some (PJson (JInt i)) \<Rightarrow> i
      | _ \<Rightarrow> if chat then 131072 else DEFAULT_MAX_TOKENS)"

definition budget_ok :: "bool \<Rightarrow> params \<Rightarrow> bool" where
  "budget_ok chat ps =
     (case map_of ps ''thinking_token_budget'' of
        None \<Rightarrow> True
      | Some (PJson JNull) \<Rightarrow> True
      | Some (PJson (JInt i)) \<Rightarrow> 1 \<le> i \<and> i \<le> budget_ceiling chat ps
      | Some _ \<Rightarrow> False)"

definition logprobs_field :: "pval option \<Rightarrow> pval option res" where
  "logprobs_field v =
     (case v of
        None \<Rightarrow> Inr None
      | Some (PJson JNull) \<Rightarrow> Inr v
      | Some (PJson (JInt i)) \<Rightarrow> if 0 \<le> i \<and> i \<le> 20 then Inr v else Inl ValueError
      | Some _ \<Rightarrow> Inl ValueError)"

section \<open>A request\<close>

type_synonym field = "string \<times> (pval option \<Rightarrow> pval option res)"

fun run_fields :: "field list \<Rightarrow> params \<Rightarrow> params res" where
  "run_fields [] ps = Inr ps"
| "run_fields ((k, f) # fs) ps =
     (case f (map_of ps k) of
        Inl x \<Rightarrow> Inl x
      | Inr None \<Rightarrow> run_fields fs ps
      | Inr (Some v) \<Rightarrow> run_fields fs (AList.update k v ps))"

definition number_fields :: "field list" where
  "number_fields =
     [(''max_tokens'', int_field 131072), (''n'', n_field),
      (''temperature'', number_field (JFloat 1 3) 0 2), (''top_p'', number_field (JFloat 1 3) 0 1),
      (''frequency_penalty'', number_field (JFloat 0 3) (- 2) 2), (''presence_penalty'', number_field (JFloat 0 3) (- 2) 2)]"

definition later_fields :: "field list" where
  "later_fields =
     [(''seed'', seed_field), (''stop'', stop_field), (''logit_bias'', bias_field), (''structured_outputs'', structured_field)]"

definition validate_params :: "bool \<Rightarrow> params \<Rightarrow> params res" where
  "validate_params chat ps =
     (if \<not> set (keys ps) \<subseteq> set SUPPORTED then Inl ValueError
      else (case run_fields number_fields ps of
              Inl x \<Rightarrow> Inl x
            | Inr ps1 \<Rightarrow>
                if top_p_zero ps1 then Inl ValueError
                else (case run_fields later_fields ps1 of
                        Inl x \<Rightarrow> Inl x
                      | Inr ps2 \<Rightarrow>
                          if budget_ok chat ps2 then run_fields [(''logprobs'', logprobs_field)] ps2
                          else Inl ValueError)))"

datatype stream_prompt = TextPrompt "int list" | TokenPrompt "jv list" | ChatMessages chat_prompt | OtherPrompt

fun token_ok :: "jv \<Rightarrow> bool" where
  "token_ok (JInt i) \<longleftrightarrow> 0 \<le> i \<and> i < 2 ^ 31"
| "token_ok _ \<longleftrightarrow> False"

fun is_chat :: "stream_prompt \<Rightarrow> bool" where
  "is_chat (ChatMessages p) = True"
| "is_chat _ = False"

definition validate_prompt :: "stream_prompt \<Rightarrow> stream_prompt res" where
  "validate_prompt p =
     (case p of
        TextPrompt s \<Rightarrow> if s \<noteq> [] \<and> \<not> list_ex surrogate s \<and> utf8_bytes s \<le> 1024 * 1024 then Inr p else Inl ValueError
      | TokenPrompt ts \<Rightarrow> if 0 < length ts \<and> length ts \<le> 131072 \<and> list_all token_ok ts then Inr p else Inl ValueError
      | ChatMessages c \<Rightarrow> (case validate_chat_prompt c of Inl x \<Rightarrow> Inl x | Inr c' \<Rightarrow> Inr (ChatMessages c'))
      | OtherPrompt \<Rightarrow> Inl ValueError)"

definition validate_request :: "stream_prompt \<Rightarrow> params \<Rightarrow> (stream_prompt \<times> params) res" where
  "validate_request p ps =
     (case validate_prompt p of
        Inl x \<Rightarrow> Inl x
      | Inr p' \<Rightarrow> (case validate_params (is_chat p') ps of Inl x \<Rightarrow> Inl x | Inr ps' \<Rightarrow> Inr (p', ps')))"

section \<open>The depth of a schema\<close>

fun nesting :: "jv \<Rightarrow> nat"
and nesting_list :: "jv list \<Rightarrow> nat"
and nesting_items :: "(string \<times> jv) list \<Rightarrow> nat" where
  "nesting (JList xs) = Suc (nesting_list xs)"
| "nesting (JDict kvs) = Suc (nesting_items kvs)"
| "nesting _ = 0"
| "nesting_list [] = 0"
| "nesting_list (x # xs) = max (nesting x) (nesting_list xs)"
| "nesting_items [] = 0"
| "nesting_items ((k, v) # rest) = max (nesting v) (nesting_items rest)"

text \<open>The depth that the entries of a work list reach.\<close>

definition reach :: "jv \<times> nat \<Rightarrow> nat" where
  "reach p = (if nesting (fst p) = 0 then 0 else snd p + nesting (fst p) - 1)"

definition reach_all :: "(jv \<times> nat) list \<Rightarrow> nat" where
  "reach_all ps = foldr (\<lambda>p m. max (reach p) m) ps 0"

lemma reach_all_simps [simp]: "reach_all [] = 0" "reach_all (p # ps) = max (reach p) (reach_all ps)"
  by (simp_all add: reach_all_def)

lemma reach_all_append [simp]: "reach_all (ps @ qs) = max (reach_all ps) (reach_all qs)"
  by (induction ps) (simp_all add: max.assoc)

lemma reach_all_rev [simp]: "reach_all (rev ps) = reach_all ps"
  by (induction ps) (simp_all add: max.commute)

lemma nesting_items_list: "nesting_items kvs = nesting_list (map snd kvs)"
  by (induction kvs) auto

lemma nesting_children:
  "nesting v = (case children v of None \<Rightarrow> 0 | Some cs \<Rightarrow> Suc (nesting_list cs))"
  by (cases v) (auto simp: nesting_items_list)

lemma reach_children:
  "max d (reach_all (map (\<lambda>c. (c, d + 1)) cs)) = d + nesting_list cs"
  by (induction cs) (auto simp: reach_def max_def split: if_splits)

lemma depth_loop_reach:
  "min (Suc MAX_SCHEMA_DEPTH) (depth_loop deepest pending) = min (Suc MAX_SCHEMA_DEPTH) (max deepest (reach_all pending))
   \<and> depth_loop deepest pending \<le> max deepest (reach_all pending)"
proof (induction deepest pending rule: depth_loop.induct)
  case (2 deepest v d rest)
  show ?case
  proof (cases "MAX_SCHEMA_DEPTH < deepest")
    case False
    show ?thesis
    proof (cases "children v")
      case None
      then show ?thesis using 2 False by (simp add: reach_def nesting_children)
    next
      case (Some cs)
      have "reach (v, d) = d + nesting_list cs" using Some by (simp add: reach_def nesting_children)
      then have "max (max deepest d) (reach_all (rev (map (\<lambda>c. (c, d + 1)) cs) @ rest)) = max deepest (reach_all ((v, d) # rest))"
        using reach_children [of d cs] by simp
      then show ?thesis using 2(2) [OF False Some] False Some by simp
    qed
  qed (simp add: max_def min_def)
qed simp

text \<open>
  The depth check of a schema is exact. The loop over a work list, which stops as soon as it has seen
  a nesting beyond the limit, returns the number of objects and arrays that nest at the deepest point
  when this is within the limit, and otherwise a number beyond the limit.
\<close>

theorem schema_depth_exact:
  "min (Suc MAX_SCHEMA_DEPTH) (schema_depth v) = min (Suc MAX_SCHEMA_DEPTH) (nesting v) \<and> schema_depth v \<le> nesting v"
  using depth_loop_reach [of 0 "[(v, 1)]"] by (simp add: schema_depth_def reach_def split: if_splits)

section \<open>Validating twice\<close>

text \<open>A field settles when a value that it has returned is one it returns unchanged, and it drops no value.\<close>

definition settles :: "(pval option \<Rightarrow> pval option res) \<Rightarrow> bool" where
  "settles f \<longleftrightarrow> (\<forall>v w. f v = Inr w \<longrightarrow> f w = Inr w \<and> (w = None \<longrightarrow> v = None))"

definition settled :: "field list \<Rightarrow> params \<Rightarrow> bool" where
  "settled fs ps \<longleftrightarrow> (\<forall>(k, f) \<in> set fs. f (map_of ps k) = Inr (map_of ps k))"

lemma run_fields_other: "run_fields fs ps = Inr ps' \<Longrightarrow> k \<notin> set (keys fs) \<Longrightarrow> map_of ps' k = map_of ps k"
  by (induction fs ps rule: run_fields.induct) (auto simp: map_of_update split: sum.splits option.splits)

lemma run_fields_keys: "run_fields fs ps = Inr ps' \<Longrightarrow> set (keys ps') \<subseteq> set (keys ps) \<union> set (keys fs)"
proof (induction fs ps rule: run_fields.induct)
  case (2 k f fs ps)
  then show ?case using set_keys_update [of k _ ps] by (auto split: sum.splits option.splits)
qed simp

lemma run_fields_settled:
  assumes "run_fields fs ps = Inr ps'" "distinct (keys fs)" "\<forall>(k, f) \<in> set fs. settles f"
  shows "settled fs ps'"
  using assms
proof (induction fs ps rule: run_fields.induct)
  case (2 k f fs ps)
  from 2(3) obtain w where w: "f (map_of ps k) = Inr w" by (auto split: sum.splits)
  with 2(5) have f: "f w = Inr w" and keep: "w = None \<Longrightarrow> map_of ps k = None"
    by (auto simp: settles_def)
  have k: "k \<notin> set (keys fs)" using 2(4) by simp
  have "map_of ps' k = w"
    using 2(3) w keep run_fields_other [OF _ k] by (cases w) (auto simp: map_of_update)
  moreover have "settled fs ps'"
    using 2(1,2) [OF w] 2(3-5) w by (cases w) auto
  ultimately show ?case using f by (simp add: settled_def)
qed (simp add: settled_def)

lemma run_fields_again: "settled fs ps \<Longrightarrow> run_fields fs ps = Inr ps"
  by (induction fs ps rule: run_fields.induct) (auto simp: settled_def update_same split: option.splits)

lemma settled_other:
  "settled fs ps \<Longrightarrow> (\<And>k. k \<in> set (keys fs) \<Longrightarrow> map_of ps' k = map_of ps k) \<Longrightarrow> settled fs ps'"
  by (force simp: settled_def)

lemma int_field_settles: "settles (int_field m)"
  by (auto simp: settles_def int_field_def split: option.splits pval.splits jv.splits if_splits)

lemma n_field_settles: "settles n_field"
  by (auto simp: settles_def n_field_def int_field_def split: option.splits pval.splits jv.splits if_splits)

lemma number_field_settles: "settles (number_field dflt lower upper)"
  by (auto simp: settles_def number_field_def split: option.splits pval.splits sum.splits)

lemma seed_field_settles: "settles seed_field"
  by (auto simp: settles_def seed_field_def split: option.splits pval.splits jv.splits)

lemma stop_field_settles: "settles stop_field"
  by (auto simp: settles_def stop_field_def split: option.splits pval.splits jv.splits if_splits)

lemma structured_field_settles: "settles structured_field"
  by (auto simp: settles_def structured_field_def split: option.splits pval.splits jv.splits if_splits)

lemma logprobs_field_settles: "settles logprobs_field"
  by (auto simp: settles_def logprobs_field_def split: option.splits pval.splits jv.splits if_splits)

definition bias_entry :: "int \<times> jv \<Rightarrow> bool" where
  "bias_entry p = (case p of (t, b) \<Rightarrow> 0 \<le> t \<and> t < 2 ^ 31 \<and> number_check (- 100) 100 b = Inr () \<and> bias_float b = b)"

lemma bias_float_check:
  "number_check lower upper b = Inr () \<Longrightarrow> number_check lower upper (bias_float b) = Inr () \<and> bias_float (bias_float b) = bias_float b"
  by (cases b) (auto simp: number_check_def bias_float_def split: if_splits)

lemma bias_loop_entries:
  "bias_loop kvs acc = Inr m \<Longrightarrow> distinct (keys acc) \<Longrightarrow> list_all bias_entry acc \<Longrightarrow>
   distinct (keys m) \<and> list_all bias_entry m \<and> length m = length acc + length kvs"
proof (induction kvs acc rule: bias_loop.induct)
  case (2 key bias rest biases)
  from 2(2) obtain token where key: "key = Some token" "0 \<le> token" "token < 2 ^ 31" "token \<notin> set (keys biases)"
      "number_check (- 100) 100 bias = Inr ()" "bias_loop rest (biases @ [(token, bias_float bias)]) = Inr m"
    by (auto split: option.splits if_splits sum.splits)
  then show ?case using 2(1) [of token "()"] 2(3,4) bias_float_check [OF key(5)] by (auto simp: bias_entry_def not_less)
qed simp

lemma bias_loop_again:
  "distinct (keys (acc @ m)) \<Longrightarrow> list_all bias_entry m \<Longrightarrow> bias_loop (map (\<lambda>(t, b). (Some t, b)) m) acc = Inr (acc @ m)"
  by (induction m arbitrary: acc) (auto simp: bias_entry_def)

lemma bias_items_again: "bias_items kvs = Inr w \<Longrightarrow> w \<noteq> None \<and> bias_field w = Inr w"
  using bias_loop_entries [of kvs "[]"] bias_loop_again [of "[]"]
  by (auto simp: bias_items_def bias_field_def split: if_splits sum.splits)

lemma bias_field_settles: "settles bias_field"
proof -
  have "bias_field w = Inr w \<and> (w = None \<longrightarrow> v = None)" if "bias_field v = Inr w" for v w
  proof (cases "v = w")
    case False
    with that obtain kvs where "bias_items kvs = Inr w"
      by (auto simp: bias_field_def split: option.splits pval.splits jv.splits)
    then show ?thesis using bias_items_again by blast
  qed (use that in simp)
  then show ?thesis by (simp add: settles_def)
qed

lemmas fields_settle = int_field_settles n_field_settles number_field_settles seed_field_settles stop_field_settles
  structured_field_settles bias_field_settles logprobs_field_settles

lemma field_names: "distinct (keys (number_fields @ later_fields @ [(''logprobs'', logprobs_field)]))"
  by (simp add: number_fields_def later_fields_def)

lemma other_names:
  "''top_p'' \<notin> set (keys later_fields)" "''max_tokens'' \<notin> set (keys later_fields)"
  "''thinking_token_budget'' \<notin> set (keys (number_fields @ later_fields))"
  by (simp_all add: number_fields_def later_fields_def)

lemma supported_names:
  "set (keys number_fields) \<subseteq> set SUPPORTED" "set (keys later_fields) \<subseteq> set SUPPORTED"
  "set (keys [(''logprobs'', logprobs_field)]) \<subseteq> set SUPPORTED"
  by (simp_all add: number_fields_def later_fields_def SUPPORTED_def)

lemma keys_within: "K \<subseteq> A \<union> B \<Longrightarrow> A \<subseteq> S \<Longrightarrow> B \<subseteq> S \<Longrightarrow> K \<subseteq> S"
  by blast

text \<open>A group of fields with different names that all settle: what it has returned, it returns unchanged.\<close>

locale settling_fields =
  fixes fs :: "field list"
  assumes names: "distinct (keys fs)"
    and settle: "(k, f) \<in> set fs \<Longrightarrow> settles f"
begin

lemma settled_after:
  assumes "run_fields fs ps = Inr ps'"
  shows "settled fs ps'"
  using run_fields_settled [OF assms names] settle by blast

lemma settled_later:
  assumes "run_fields fs ps = Inr ps1" "\<And>k. k \<in> set (keys fs) \<Longrightarrow> map_of ps' k = map_of ps1 k"
  shows "settled fs ps' \<and> run_fields fs ps' = Inr ps'"
  using settled_other [OF settled_after [OF assms(1)] assms(2)] run_fields_again by blast

end

interpretation number: settling_fields number_fields
  by unfold_locales (auto simp: number_fields_def fields_settle)

interpretation later: settling_fields later_fields
  by unfold_locales (auto simp: later_fields_def fields_settle)

interpretation final: settling_fields "[(''logprobs'', logprobs_field)]"
  by unfold_locales (auto simp: fields_settle)

lemma validate_params_settled:
  assumes "validate_params chat ps = Inr ps'"
  shows "set (keys ps') \<subseteq> set SUPPORTED \<and> settled number_fields ps' \<and> \<not> top_p_zero ps' \<and> settled later_fields ps'
    \<and> budget_ok chat ps' \<and> settled [(''logprobs'', logprobs_field)] ps'"
proof -
  let ?last = "[(''logprobs'', logprobs_field)]"
  from assms obtain ps1 ps2 where sup: "set (keys ps) \<subseteq> set SUPPORTED"
    and one: "run_fields number_fields ps = Inr ps1" and top: "\<not> top_p_zero ps1"
    and two: "run_fields later_fields ps1 = Inr ps2" and bud: "budget_ok chat ps2"
    and three: "run_fields ?last ps2 = Inr ps'"
    unfolding validate_params_def by (simp split: if_splits sum.splits del: run_fields.simps)
  have d: "k \<in> set (keys number_fields) \<Longrightarrow> k \<notin> set (keys later_fields) \<and> k \<notin> set (keys ?last)"
    "k \<in> set (keys later_fields) \<Longrightarrow> k \<notin> set (keys ?last)" for k
    using field_names by (auto simp: image_iff)
  have s2: "map_of ps' k = map_of ps2 k" if "k \<noteq> ''logprobs''" for k
    using run_fields_other [OF three, of k] that by simp
  have s1: "map_of ps' k = map_of ps1 k" if "k \<notin> set (keys later_fields)" "k \<noteq> ''logprobs''" for k
    using run_fields_other [OF two that(1)] s2 [OF that(2)] by simp
  have "settled number_fields ps'"
    using number.settled_later [OF one, of ps'] d(1) s1 by auto
  moreover have "settled later_fields ps'"
    using later.settled_later [OF two, of ps'] d(2) s2 by auto
  moreover have "settled ?last ps'" by (rule final.settled_after [OF three])
  moreover have "\<not> top_p_zero ps'" using top s1 other_names(1) by (simp add: top_p_zero_def)
  moreover have ceil: "budget_ceiling chat ps' = budget_ceiling chat ps2" using s2 by (simp add: budget_ceiling_def)
  have "budget_ok chat ps'" using bud unfolding budget_ok_def ceil by (simp add: s2)
  moreover have "set (keys ps') \<subseteq> set SUPPORTED"
  proof -
    have "set (keys ps1) \<subseteq> set SUPPORTED" using run_fields_keys [OF one] sup supported_names(1) by (rule keys_within)
    with run_fields_keys [OF two] have "set (keys ps2) \<subseteq> set SUPPORTED" using supported_names(2) by (rule keys_within)
    with run_fields_keys [OF three] show ?thesis using supported_names(3) by (rule keys_within)
  qed
  ultimately show ?thesis by simp
qed

lemma validate_params_again:
  assumes "validate_params chat ps = Inr ps'"
  shows "validate_params chat ps' = Inr ps'"
  using validate_params_settled [OF assms]
  by (simp only: validate_params_def run_fields_again simp_thms if_True if_False sum.case)

lemma validate_prompt_same: "validate_prompt p = Inr p' \<Longrightarrow> p' = p"
  by (auto simp: validate_prompt_def validate_chat_prompt_def split: stream_prompt.splits if_splits sum.splits)

lemma settled_n:
  assumes "settled number_fields ps"
  shows "\<exists>n. map_of ps ''n'' = Some (PJson (JInt n)) \<and> 1 \<le> n \<and> n \<le> 8"
proof -
  have "n_field (map_of ps ''n'') = Inr (map_of ps ''n'')"
    using assms by (simp add: settled_def number_fields_def)
  then show ?thesis
    by (auto simp: n_field_def int_field_def split: option.splits pval.splits jv.splits if_splits)
qed

lemma settled_top_p:
  assumes "settled number_fields ps" "\<not> top_p_zero ps"
  shows "\<exists>j x. map_of ps ''top_p'' = Some (PJson j) \<and> number_of j = Some x \<and> 0 < x \<and> x \<le> 1"
proof -
  have "number_field (JFloat 1 3) 0 1 (map_of ps ''top_p'') = Inr (map_of ps ''top_p'')"
    using assms by (simp add: settled_def number_fields_def)
  then obtain j where j: "map_of ps ''top_p'' = Some (PJson j)" "number_check 0 1 j = Inr ()"
    by (auto simp: number_field_def split: option.splits pval.splits sum.splits)
  with assms(2) show ?thesis
    by (auto simp: top_p_zero_def number_check_def split: option.splits if_splits)
qed

text \<open>
  C19. What the scheduler accepts, the worker accepts unchanged. Validating an accepted request again
  returns the same prompt and the same parameters, token ids of \<open>logit_bias\<close> and defaults included; in
  these the number of choices is between 1 and 8 and \<open>top_p\<close> is above 0 and at most 1.
\<close>

theorem accepted_request_stable:
  assumes "validate_request p ps = Inr (p', ps')"
  shows "validate_request p' ps' = Inr (p', ps') \<and> p' = p
    \<and> (\<exists>n. map_of ps' ''n'' = Some (PJson (JInt n)) \<and> 1 \<le> n \<and> n \<le> 8)
    \<and> (\<exists>j x. map_of ps' ''top_p'' = Some (PJson j) \<and> number_of j = Some x \<and> 0 < x \<and> x \<le> 1)"
proof -
  from assms have p: "validate_prompt p = Inr p'" and ps: "validate_params (is_chat p') ps = Inr ps'"
    by (auto simp: validate_request_def split: sum.splits)
  note same = validate_prompt_same [OF p] and set = validate_params_settled [OF ps]
  have "validate_request p' ps' = Inr (p', ps')"
    using p same validate_params_again [OF ps] by (simp add: validate_request_def)
  with same set show ?thesis using settled_n settled_top_p by blast
qed

definition demo_params :: params where
  "demo_params = [(''stop'', PJson (js ''END'')), (''logit_bias'', PJson (JDict [(''07'', JInt 5)])), (''max_tokens'', PJson (JInt 64)),
     (''thinking_token_budget'', PJson (JInt 32)), (''structured_outputs'', PJson (JDict [(''json'', JDict [(''type'', js ''object'')])]))]"

definition demo_accepted :: params where
  "demo_accepted = [(''stop'', PJson (JList [js ''END''])), (''logit_bias'', PMap [(7, JFloat 5 3)]), (''max_tokens'', PJson (JInt 64)),
     (''thinking_token_budget'', PJson (JInt 32)), (''structured_outputs'', PJson (JDict [(''json'', JDict [(''type'', js ''object'')])])),
     (''n'', PJson (JInt 1)), (''temperature'', PJson (JFloat 1 3)), (''top_p'', PJson (JFloat 1 3)),
     (''frequency_penalty'', PJson (JFloat 0 3)), (''presence_penalty'', PJson (JFloat 0 3))]"

theorem accepted_request_stable_witness:
  "validate_request (TextPrompt [72, 105]) demo_params = Inr (TextPrompt [72, 105], demo_accepted)
   \<and> validate_request (TextPrompt [72, 105]) demo_accepted = Inr (TextPrompt [72, 105], demo_accepted)"
proof -
  have "validate_request (TextPrompt [72, 105]) demo_params = Inr (TextPrompt [72, 105], demo_accepted)" by code_simp
  with accepted_request_stable [OF this] show ?thesis by blast
qed

text \<open>An integer that no float can hold is not refused as an invalid value: \<open>math.isfinite\<close> raises.\<close>

lemma huge_temperature_overflows:
  "validate_request (TextPrompt [72]) [(''temperature'', PJson (JInt (2 ^ 1024)))] = Inl OverflowError"
  by code_simp

end
