(* ===== verification/Chat_Output.thy ===== *)
theory Chat_Output
  imports Streaming "HOL-Library.Sublist"
begin

text \<open>
  Chat output (\<open>ChatOutput\<close> of \<open>inference/server/chat.py\<close>): the deltas of the engine become content,
  reasoning and tool-call events of a choice. Deltas that the parser holds back wait with their tokens and
  logprobs until the content that repeats their text is released.

  The parsers are vLLM's. What \<open>parse_delta\<close> returns for a delta, and into how many content tokens its
  reasoner splits it, are part of the delta here; splitting may not be implemented (\<open>None\<close>).
\<close>

section \<open>Deltas and messages\<close>

record tool_call =
  tc_index :: int
  tc_id :: "int list option"
  tc_function :: "(int list option \<times> int list option) option"

record parsed_message =
  pm_reasoning :: "int list option"
  pm_content :: "int list option"
  pm_tool_calls :: "tool_call list"

record chat_delta =
  cd_text :: "int list"
  cd_token_ids :: "int list"
  cd_finished :: bool
  cd_logprobs :: "jv list option"
  cd_message :: "parsed_message option"
  cd_split :: "nat option"

type_synonym held = "int list \<times> int list \<times> jv list"

record chat_choice =
  cc_token_ids :: "int list"
  cc_called_tools :: bool
  cc_held :: "held list"

record chat_output =
  co_has_parser :: bool
  co_parallel_tool_calls :: "bool option"
  co_named_tool :: bool
  co_choices :: "chat_choice list"

definition new_chat_output :: "bool \<Rightarrow> bool option \<Rightarrow> bool \<Rightarrow> nat \<Rightarrow> chat_output" where
  "new_chat_output has_parser par named n =
     \<lparr>co_has_parser = has_parser, co_parallel_tool_calls = par, co_named_tool = named,
      co_choices = replicate n \<lparr>cc_token_ids = [], cc_called_tools = False, cc_held = []\<rparr>\<rparr>"

section \<open>Content events\<close>

definition ends_with :: "int list \<Rightarrow> int list \<Rightarrow> bool" where
  "ends_with s t \<longleftrightarrow> length t \<le> length s \<and> drop (length s - length t) s = t"

text \<open>The held deltas, latest first, whose text the content repeats before the delta's text.\<close>

fun release :: "int list \<Rightarrow> held list \<Rightarrow> held list" where
  "release before [] = []"
| "release before (h # hs) =
     (if ends_with before (fst h) then h # release (take (length before - length (fst h)) before) hs else [])"

definition released :: "int list \<Rightarrow> int list \<Rightarrow> held list \<Rightarrow> held list" where
  "released content text held =
     (if ends_with content text then rev (release (take (length content - length text) content) (rev held)) else [])"

definition content_event :: "int \<Rightarrow> int list \<Rightarrow> chat_delta \<Rightarrow> chat_choice \<Rightarrow> event" where
  "content_event index content d c =
     [(''type'', js ''content_delta''), (''choice_index'', JInt index), (''text'', JStr content)]
     @ (case cd_logprobs d of
          None \<Rightarrow> []
        | Some lps \<Rightarrow>
            (let rel = released content (cd_text d) (cc_held c)
             in [(''token_ids'', JList (map JInt (concat (map (fst \<circ> snd) rel) @ cd_token_ids d))),
                 (''logprobs'', JList (concat (map (snd \<circ> snd) rel) @ lps))]))"

definition reasoning_event :: "int \<Rightarrow> chat_delta \<Rightarrow> bool \<Rightarrow> event" where
  "reasoning_event index d other =
     [(''type'', js ''reasoning_delta''), (''choice_index'', JInt index),
      (''token_count'', JInt (int (length (cd_token_ids d))
         - (if other then (case cd_split d of None \<Rightarrow> 0 | Some k \<Rightarrow> int k) else 0)))]"

definition tool_event :: "int \<Rightarrow> tool_call \<Rightarrow> event" where
  "tool_event index call =
     [(''type'', js ''tool_call_delta''), (''choice_index'', JInt index), (''index'', JInt (tc_index call))]
     @ (case tc_id call of None \<Rightarrow> [] | Some i \<Rightarrow> [(''id'', JStr i)])
     @ (case tc_function call of Some (Some name, _) \<Rightarrow> [(''name'', JStr name)] | _ \<Rightarrow> [])
     @ [(''arguments'', JStr (case tc_function call of Some (_, Some a) \<Rightarrow> a | _ \<Rightarrow> []))]"

text \<open>A string that is absent or empty counts as absent.\<close>

definition present :: "int list option \<Rightarrow> bool" where
  "present s = (case s of None \<Rightarrow> False | Some t \<Rightarrow> t \<noteq> [])"

definition kept_calls :: "chat_output \<Rightarrow> parsed_message \<Rightarrow> tool_call list" where
  "kept_calls co m = filter (\<lambda>call. co_parallel_tool_calls co \<noteq> Some False \<or> tc_index call = 0) (pm_tool_calls m)"

definition parse_events :: "chat_output \<Rightarrow> int \<Rightarrow> chat_delta \<Rightarrow> chat_choice \<Rightarrow> event list \<times> chat_choice" where
  "parse_events co index d c =
     (if \<not> co_has_parser co then (if cd_text d = [] then [] else [content_event index (cd_text d) d c], c)
      else (case cd_message d of
              None \<Rightarrow> ([], c)
            | Some m \<Rightarrow>
                let calls = kept_calls co m
                in ((if present (pm_reasoning m) then [reasoning_event index d (present (pm_content m) \<or> calls \<noteq> [])] else [])
                    @ (if present (pm_content m) then [content_event index (the (pm_content m)) d c] else [])
                    @ map (tool_event index) calls,
                    if calls = [] then c else c\<lparr>cc_called_tools := True\<rparr>)))"

definition hold :: "chat_delta \<Rightarrow> event list \<Rightarrow> chat_choice \<Rightarrow> chat_choice" where
  "hold d evs c =
     (case cd_logprobs d of
        None \<Rightarrow> c
      | Some lps \<Rightarrow>
          if evs \<noteq> [] then c\<lparr>cc_held := []\<rparr>
          else if \<not> cd_finished d then c\<lparr>cc_held := cc_held c @ [(cd_text d, cd_token_ids d, lps)]\<rparr>
          else c)"

definition choice_deltas :: "chat_output \<Rightarrow> int \<Rightarrow> chat_delta \<Rightarrow> chat_choice \<Rightarrow> event list \<times> chat_choice" where
  "choice_deltas co index d c =
     (case parse_events co index d (c\<lparr>cc_token_ids := cc_token_ids c @ cd_token_ids d\<rparr>) of
        (evs, c') \<Rightarrow> (evs, hold d evs c'))"

text \<open>An index out of range raises (indices are not negative).\<close>

definition chat_events :: "nat \<Rightarrow> chat_delta \<Rightarrow> (chat_output, event list) op" where
  "chat_events index d co =
     (if length (co_choices co) \<le> index then (Inl IndexError, co)
      else (case choice_deltas co (int index) d (co_choices co ! index) of
              (evs, c) \<Rightarrow> (Inr evs, co\<lparr>co_choices := (co_choices co)[index := c]\<rparr>)))"

text \<open>As other servers do, a named tool choice finishes with \<open>stop\<close>.\<close>

definition finish_reason :: "nat \<Rightarrow> string \<Rightarrow> chat_output \<Rightarrow> string" where
  "finish_reason index reason co =
     (if reason = ''stop'' \<and> cc_called_tools (co_choices co ! index) \<and> \<not> co_named_tool co then ''tool_calls'' else reason)"

definition reasoning_tokens :: "(int list \<Rightarrow> nat) \<Rightarrow> chat_output \<Rightarrow> nat" where
  "reasoning_tokens cnt co =
     (if co_has_parser co then sum_list (map (\<lambda>c. cnt (cc_token_ids c)) (co_choices co)) else 0)"

section \<open>Runs\<close>

text \<open>The events of a sequence of deltas of all choices.\<close>

fun chat_run :: "(nat \<times> chat_delta) list \<Rightarrow> chat_output \<Rightarrow> event list \<times> chat_output" where
  "chat_run [] co = ([], co)"
| "chat_run ((i, d) # ds) co =
     (case chat_events i d co of
        (Inl _, co') \<Rightarrow> chat_run ds co'
      | (Inr evs, co') \<Rightarrow> (case chat_run ds co' of (evs', co'') \<Rightarrow> (evs @ evs', co'')))"

text \<open>The tokens of an event with the logprobs at their positions.\<close>

definition event_list :: "event \<Rightarrow> string \<Rightarrow> jv list" where
  "event_list e k = (case map_of e k of Some (JList xs) \<Rightarrow> xs | _ \<Rightarrow> [])"

definition event_pairs :: "event \<Rightarrow> (jv \<times> jv) list" where
  "event_pairs e = zip (event_list e ''token_ids'') (event_list e ''logprobs'')"

definition pairs_of :: "nat \<Rightarrow> event list \<Rightarrow> (jv \<times> jv) list" where
  "pairs_of i evs = concat (map event_pairs (filter (\<lambda>e. map_of e ''choice_index'' = Some (JInt (int i))) evs))"

definition delta_pairs :: "chat_delta \<Rightarrow> (jv \<times> jv) list" where
  "delta_pairs d = zip (map JInt (cd_token_ids d)) (case cd_logprobs d of None \<Rightarrow> [] | Some lps \<Rightarrow> lps)"

definition engine_pairs :: "nat \<Rightarrow> (nat \<times> chat_delta) list \<Rightarrow> (jv \<times> jv) list" where
  "engine_pairs i ds = concat (map (delta_pairs \<circ> snd) (filter (\<lambda>(j, d). j = i) ds))"

text \<open>The engine gives one logprobs entry per token, where it gives logprobs.\<close>

definition chat_delta_ok :: "chat_delta \<Rightarrow> bool" where
  "chat_delta_ok d = (case cd_logprobs d of None \<Rightarrow> True | Some lps \<Rightarrow> length lps = length (cd_token_ids d))"

section \<open>Tokens keep their logprobs\<close>

definition held_pairs :: "held \<Rightarrow> (jv \<times> jv) list" where
  "held_pairs h = zip (map JInt (fst (snd h))) (snd (snd h))"

definition held_ok :: "chat_choice \<Rightarrow> bool" where
  "held_ok c \<longleftrightarrow> list_all (\<lambda>h. length (fst (snd h)) = length (snd (snd h))) (cc_held c)"

definition waiting :: "chat_choice \<Rightarrow> (jv \<times> jv) list" where
  "waiting c = concat (map held_pairs (cc_held c))"

lemma release_prefix: "\<exists>ys. hs = release before hs @ ys"
  by (induction before hs rule: release.induct) auto

lemma released_suffix: "\<exists>xs. held = xs @ released content text held"
proof -
  obtain ys where "rev held = release (take (length content - length text) content) (rev held) @ ys"
    using release_prefix by blast
  then have "held = rev ys @ rev (release (take (length content - length text) content) (rev held))"
    by (metis rev_append rev_rev_ident)
  then show ?thesis unfolding released_def by (cases "ends_with content text") auto
qed

lemma released_subseq: "subseq (concat (map f (released content text held))) (concat (map f held))"
proof -
  obtain xs where xs: "held = xs @ released content text held" using released_suffix by blast
  have "concat (map f held) = concat (map f xs) @ concat (map f (released content text held))"
    by (subst xs) simp
  then show ?thesis by (simp add: list_emb_append2)
qed

lemma released_ok: "held_ok c \<Longrightarrow> list_all (\<lambda>h. length (fst (snd h)) = length (snd (snd h))) (released content text (cc_held c))"
proof -
  assume ok: "held_ok c"
  obtain xs where xs: "cc_held c = xs @ released content text (cc_held c)" using released_suffix by blast
  have "list_all (\<lambda>h. length (fst (snd h)) = length (snd (snd h))) (xs @ released content text (cc_held c))"
    unfolding xs [symmetric] using ok by (simp add: held_ok_def)
  then show ?thesis by simp
qed

lemma zip_held:
  "list_all (\<lambda>h. length (fst (snd h)) = length (snd (snd h))) hs \<Longrightarrow>
   length (concat (map (fst \<circ> snd) hs)) = length (concat (map (snd \<circ> snd) hs))
   \<and> zip (map JInt (concat (map (fst \<circ> snd) hs))) (concat (map (snd \<circ> snd) hs)) = concat (map held_pairs hs)"
  by (induction hs) (auto simp: held_pairs_def)

definition balanced :: "event \<Rightarrow> bool" where
  "balanced e \<longleftrightarrow> length (event_list e ''token_ids'') = length (event_list e ''logprobs'')"

lemmas event_defs = content_event_def reasoning_event_def tool_event_def event_list_def

lemma reasoning_event_pairs: "event_pairs (reasoning_event i d other) = []" "balanced (reasoning_event i d other)"
  by (simp_all add: event_pairs_def balanced_def event_defs)

lemma tool_event_pairs: "event_pairs (tool_event i call) = []" "balanced (tool_event i call)"
  by (simp_all add: event_pairs_def balanced_def event_defs split: option.splits)

lemma event_index:
  "map_of (reasoning_event i d other) ''choice_index'' = Some (JInt i)"
  "map_of (tool_event i call) ''choice_index'' = Some (JInt i)"
  "map_of (content_event i content d c) ''choice_index'' = Some (JInt i)"
  by (simp_all add: event_defs)

lemma content_event_plain: "cd_logprobs d = None \<Longrightarrow> event_pairs (content_event i content d c) = [] \<and> balanced (content_event i content d c)"
  by (simp add: event_pairs_def balanced_def event_defs)

lemma content_event_pairs:
  assumes "cd_logprobs d = Some lps" "chat_delta_ok d" "held_ok c"
  shows "event_pairs (content_event i content d c)
      = concat (map held_pairs (released content (cd_text d) (cc_held c))) @ delta_pairs d
    \<and> balanced (content_event i content d c)"
  using zip_held [OF released_ok [OF assms(3)], of content "cd_text d"] assms(1,2)
  by (simp add: event_pairs_def balanced_def event_defs Let_def delta_pairs_def chat_delta_ok_def)

lemma parse_events_index:
  "parse_events co i d c = (evs, c') \<Longrightarrow> e \<in> set evs \<Longrightarrow> map_of e ''choice_index'' = Some (JInt i)"
  by (auto simp: parse_events_def Let_def event_index split: if_splits option.splits)

lemma parse_events_held: "parse_events co i d c = (evs, c') \<Longrightarrow> cc_held c' = cc_held c"
  by (auto simp: parse_events_def Let_def split: if_splits option.splits)

text \<open>Among the events of a delta at most one carries tokens, the content event.\<close>

lemma parse_events_pairs:
  assumes "parse_events co i d c = (evs, c')"
  shows "concat (map event_pairs evs) = [] \<or> (\<exists>content. concat (map event_pairs evs) = event_pairs (content_event i content d c))"
proof (cases "co_has_parser co")
  case False
  with assms show ?thesis by (auto simp: parse_events_def split: if_splits)
next
  case True
  have none: "concat (map event_pairs (map (tool_event i) calls)) = []" for calls
    by (induction calls) (simp_all add: tool_event_pairs)
  have quiet: "concat (map event_pairs (if b then [reasoning_event i d other] else [])) = []" for b other
    by (simp add: reasoning_event_pairs)
  show ?thesis
  proof (cases "cd_message d")
    case None
    with assms True show ?thesis by (simp add: parse_events_def)
  next
    case (Some m)
    with assms True have "concat (map event_pairs evs)
        = concat (map event_pairs (if present (pm_content m) then [content_event i (the (pm_content m)) d c] else []))"
      by (auto simp only: parse_events_def Let_def option.case not_True_eq_False if_False prod.inject map_append concat_append
          none quiet append_Nil append_Nil2)
    then show ?thesis by (cases "present (pm_content m)") auto
  qed
qed

lemma parse_events_balanced:
  assumes "parse_events co i d c = (evs, c')" "e \<in> set evs" "chat_delta_ok d" "held_ok c"
  shows "balanced e"
proof -
  have "balanced (content_event i content d c)" for content
    using content_event_plain content_event_pairs [OF _ assms(3,4)] by (cases "cd_logprobs d") auto
  then show ?thesis
    using assms(1,2) by (auto simp: parse_events_def Let_def reasoning_event_pairs tool_event_pairs split: if_splits option.splits)
qed

lemma choice_deltas_step:
  assumes "choice_deltas co i d c = (evs, c')" "chat_delta_ok d" "held_ok c"
  shows "held_ok c' \<and> subseq (concat (map event_pairs evs) @ waiting c') (waiting c @ delta_pairs d)"
proof -
  let ?c = "c\<lparr>cc_token_ids := cc_token_ids c @ cd_token_ids d\<rparr>"
  from assms(1) obtain c1 where parse: "parse_events co i d ?c = (evs, c1)" and c': "c' = hold d evs c1"
    by (auto simp: choice_deltas_def split: prod.splits)
  have h1: "cc_held c1 = cc_held c" using parse_events_held [OF parse] by simp
  have ok: "held_ok ?c" using assms(3) by (simp add: held_ok_def)
  show ?thesis
  proof (cases "cd_logprobs d")
    case None
    then have "concat (map event_pairs evs) = []"
      using parse_events_pairs [OF parse] content_event_plain by fastforce
    with None h1 show ?thesis
      using assms(3) by (simp add: c' hold_def held_ok_def waiting_def delta_pairs_def del: concat_eq_Nil_conv)
  next
    case (Some lps)
    let ?emitted = "concat (map event_pairs evs)"
    have emitted: "subseq ?emitted (waiting c @ delta_pairs d)"
    proof (cases "?emitted = []")
      case False
      then obtain content where "?emitted = event_pairs (content_event i content d ?c)"
        using parse_events_pairs [OF parse] by blast
      with content_event_pairs [OF Some assms(2) ok, of i content]
      have "?emitted = concat (map held_pairs (released content (cd_text d) (cc_held c))) @ delta_pairs d" by simp
      then show ?thesis by (simp add: waiting_def released_subseq)
    qed (simp del: concat_eq_Nil_conv)
    have new: "waiting c1 @ held_pairs (cd_text d, cd_token_ids d, lps) = waiting c @ delta_pairs d"
      using h1 Some by (simp add: waiting_def held_pairs_def delta_pairs_def)
    show ?thesis
    proof (cases "evs = []")
      case False
      with Some emitted show ?thesis by (simp add: c' hold_def held_ok_def waiting_def)
    next
      case True
      show ?thesis
      proof (cases "cd_finished d")
        case False
        then have "waiting c' = waiting c @ delta_pairs d" "held_ok c'"
          using True Some new assms(2,3) h1 by (simp_all add: c' hold_def held_ok_def waiting_def chat_delta_ok_def)
        then show ?thesis by (simp add: True)
      next
        case finished: True
        then have "cc_held c' = cc_held c" using True Some h1 by (simp add: c' hold_def)
        then show ?thesis using assms(3) True by (simp add: waiting_def held_ok_def subseq_rev_drop_many)
      qed
    qed
  qed
qed

text \<open>One delta of some choice, seen from choice \<open>i\<close>.\<close>

lemma pairs_of_same: "list_all (\<lambda>e. map_of e ''choice_index'' = Some (JInt (int i))) evs \<Longrightarrow> pairs_of i evs = concat (map event_pairs evs)"
  by (simp add: pairs_of_def list_all_iff cong: filter_cong)

lemma pairs_of_other: "j \<noteq> i \<Longrightarrow> list_all (\<lambda>e. map_of e ''choice_index'' = Some (JInt (int j))) evs \<Longrightarrow> pairs_of i evs = []"
  by (simp add: pairs_of_def list_all_iff cong: filter_cong)

lemma pairs_of_append: "pairs_of i (xs @ ys) = pairs_of i xs @ pairs_of i ys"
  by (simp add: pairs_of_def)

definition waiting_at :: "nat \<Rightarrow> chat_output \<Rightarrow> (jv \<times> jv) list" where
  "waiting_at i co = (if i < length (co_choices co) then waiting (co_choices co ! i) else [])"

lemma chat_events_step:
  assumes "chat_events j d co = (Inr evs, co')" "chat_delta_ok d" "list_all held_ok (co_choices co)"
  shows "list_all held_ok (co_choices co') \<and> list_all balanced evs
    \<and> subseq (pairs_of i evs @ waiting_at i co') (waiting_at i co @ (if j = i then delta_pairs d else []))"
proof -
  from assms(1) obtain c where j: "j < length (co_choices co)"
    and step: "choice_deltas co (int j) d (co_choices co ! j) = (evs, c)" and co': "co' = co\<lparr>co_choices := (co_choices co)[j := c]\<rparr>"
    by (auto simp: chat_events_def not_le split: if_splits prod.splits)
  from step obtain c1 where parse:
    "parse_events co (int j) d ((co_choices co ! j)\<lparr>cc_token_ids := cc_token_ids (co_choices co ! j) @ cd_token_ids d\<rparr>) = (evs, c1)"
    by (auto simp: choice_deltas_def split: prod.splits)
  have ok: "held_ok (co_choices co ! j)" using assms(3) j by (simp add: list_all_length)
  note one = choice_deltas_step [OF step assms(2) ok]
  have idx: "list_all (\<lambda>e. map_of e ''choice_index'' = Some (JInt (int j))) evs"
    using parse_events_index [OF parse] by (simp add: list_all_iff)
  have "list_all balanced evs"
    using parse_events_balanced [OF parse _ assms(2)] ok by (simp add: list_all_iff held_ok_def)
  moreover have "list_all held_ok (co_choices co')"
    using assms(3) one by (auto simp: co' list_all_iff dest: set_update_subset_insert [THEN subsetD])
  moreover have "subseq (pairs_of i evs @ waiting_at i co') (waiting_at i co @ (if j = i then delta_pairs d else []))"
  proof (cases "j = i")
    case True
    with one j idx show ?thesis by (simp add: pairs_of_same waiting_at_def co')
  next
    case False
    with idx show ?thesis by (simp add: pairs_of_other waiting_at_def co')
  qed
  ultimately show ?thesis by simp
qed

lemma chat_run_pairs:
  "chat_run ds co = (evs, co') \<Longrightarrow> list_all (chat_delta_ok \<circ> snd) ds \<Longrightarrow> list_all held_ok (co_choices co) \<Longrightarrow>
   list_all (\<lambda>(j, d). j < length (co_choices co)) ds \<Longrightarrow>
   list_all balanced evs \<and> subseq (pairs_of i evs @ waiting_at i co') (waiting_at i co @ engine_pairs i ds)"
proof (induction ds co arbitrary: evs rule: chat_run.induct)
  case (1 co)
  then show ?case by (simp add: pairs_of_def engine_pairs_def)
next
  case (2 j d ds co)
  obtain ev1 co1 where step: "chat_events j d co = (Inr ev1, co1)"
    using 2(6) by (cases "choice_deltas co (int j) d (co_choices co ! j)") (simp add: chat_events_def not_le)
  obtain ev2 where rest: "chat_run ds co1 = (ev2, co')" and evs: "evs = ev1 @ ev2"
    using 2(3) step by (auto split: prod.splits)
  have len: "length (co_choices co1) = length (co_choices co)"
    using step by (auto simp: chat_events_def split: if_splits prod.splits)
  note one = chat_events_step [OF step, of i] and d = 2(4)
  have "list_all balanced ev2 \<and> subseq (pairs_of i ev2 @ waiting_at i co') (waiting_at i co1 @ engine_pairs i ds)"
    using 2(2) [OF step [symmetric] refl rest] 2(4,5,6) one len by simp
  moreover from this have "subseq (pairs_of i ev1 @ pairs_of i ev2 @ waiting_at i co') ((pairs_of i ev1 @ waiting_at i co1) @ engine_pairs i ds)"
    by (simp add: subseq_append')
  moreover have "subseq ((pairs_of i ev1 @ waiting_at i co1) @ engine_pairs i ds)
      ((waiting_at i co @ (if j = i then delta_pairs d else [])) @ engine_pairs i ds)"
    using one 2(4,5) by (simp only: subseq_append) simp
  moreover have "(if j = i then delta_pairs d else []) @ engine_pairs i ds = engine_pairs i ((j, d) # ds)"
    by (simp add: engine_pairs_def)
  ultimately show ?case using one 2(4,5) evs by (auto simp: pairs_of_append intro: subseq_order.trans)
qed

text \<open>
  C18. Content tokens keep their logprobs. However the parsers of the choices hold deltas back, release
  or discard them, the tokens that a choice's content events report, each with the logprobs entry at its
  position, are among the tokens that the engine delivered for the choice with theirs, in that order and
  none more than once; and every event has as many entries as tokens.
\<close>

theorem content_tokens_keep_logprobs:
  assumes "chat_run ds (new_chat_output has_parser par named n) = (evs, co)"
    and "list_all (chat_delta_ok \<circ> snd) ds" "list_all (\<lambda>(j, d). j < n) ds"
  shows "subseq (pairs_of i evs) (engine_pairs i ds)
    \<and> list_all (\<lambda>e. length (event_list e ''token_ids'') = length (event_list e ''logprobs'')) evs"
proof -
  let ?co = "new_chat_output has_parser par named n"
  have "list_all held_ok (co_choices ?co)" "waiting_at i ?co = []"
    by (simp_all add: new_chat_output_def held_ok_def waiting_at_def waiting_def list_all_iff)
  moreover have "length (co_choices ?co) = n" by (simp add: new_chat_output_def)
  ultimately have "list_all balanced evs \<and> subseq (pairs_of i evs @ waiting_at i co) (engine_pairs i ds)"
    using chat_run_pairs [OF assms(1,2), of i] assms(3) by simp
  moreover from this have "subseq (pairs_of i evs) (engine_pairs i ds)"
    by (blast intro: subseq_order.trans [OF subseq_rev_drop_many [OF subseq_order.refl]])
  ultimately show ?thesis by (simp add: balanced_def list_all_iff)
qed

section \<open>A held delta that is released\<close>

definition demo_delta :: "string \<Rightarrow> int \<Rightarrow> parsed_message option \<Rightarrow> chat_delta" where
  "demo_delta s t m = \<lparr>cd_text = map of_char s, cd_token_ids = [t], cd_finished = False, cd_logprobs = Some [JInt (- t)],
     cd_message = m, cd_split = None\<rparr>"

definition demo_content :: "string \<Rightarrow> parsed_message option" where
  "demo_content s = Some \<lparr>pm_reasoning = None, pm_content = Some (map of_char s), pm_tool_calls = []\<rparr>"

definition demo_deltas :: "(nat \<times> chat_delta) list" where
  "demo_deltas = [(0, demo_delta ''x'' 1 None), (1, demo_delta ''q'' 9 (demo_content ''q'')), (0, demo_delta ''<'' 2 None),
     (0, demo_delta ''b'' 3 (demo_content ''<b''))]"

text \<open>The parser takes the first delta for markup and gives the second one back with the third.\<close>

theorem content_tokens_keep_logprobs_witness:
  "pairs_of 0 (fst (chat_run demo_deltas (new_chat_output True None False 2))) = [(JInt 2, JInt (- 2)), (JInt 3, JInt (- 3))]
   \<and> subseq [(JInt 2, JInt (- 2)), (JInt 3, JInt (- 3))] [(JInt 1, JInt (- 1)), (JInt 2, JInt (- 2)), (JInt 3, JInt (- 3))]"
proof -
  let ?r = "chat_run demo_deltas (new_chat_output True None False 2)"
  have "list_all (chat_delta_ok \<circ> snd) demo_deltas" "list_all (\<lambda>(j, d). j < 2) demo_deltas"
    "pairs_of 0 (fst ?r) = [(JInt 2, JInt (- 2)), (JInt 3, JInt (- 3))]"
    "engine_pairs 0 demo_deltas = [(JInt 1, JInt (- 1)), (JInt 2, JInt (- 2)), (JInt 3, JInt (- 3))]"
    by code_simp+
  with content_tokens_keep_logprobs [of demo_deltas True None False 2 "fst ?r" "snd ?r" 0] show ?thesis by simp
qed

end
