(* ===== verification/Chat_Session.thy ===== *)
theory Chat_Session
  imports Stream_Session Chat_Output
begin

text \<open>
  Chat streams: the branch of the producer (\<open>EngineStream.produce\<close> of \<open>inference/server/streaming.py\<close>) that
  hands the engine's outputs to \<open>ChatOutput\<close> and puts its events, and the checks of the client on them.

  What the parser makes of an output is an argument, as in the theory on chat output; a parser that raises
  is a failure of the producer.
\<close>

section \<open>The producer of a chat stream\<close>

record chat_stream =
  ct_producer :: producer
  ct_chat :: chat_output

definition new_chat_stream :: "stream_params \<Rightarrow> stream_limits \<Rightarrow> bool \<Rightarrow> bool option \<Rightarrow> bool \<Rightarrow> chat_stream" where
  "new_chat_stream par L has_parser prl named =
     \<lparr>ct_producer = new_producer par L, ct_chat = new_chat_output has_parser prl named (sp_n par)\<rparr>"

type_synonym parsed = "parsed_message option \<times> nat option"

definition chat_delta_of :: "choice_output \<Rightarrow> jv list option \<Rightarrow> parsed \<Rightarrow> chat_delta" where
  "chat_delta_of ch lps parsed =
     \<lparr>cd_text = co_text ch, cd_token_ids = co_token_ids ch, cd_finished = (co_finish_reason ch \<noteq> None),
      cd_logprobs = lps, cd_message = fst parsed, cd_split = snd parsed\<rparr>"

text \<open>The events of one choice of an output, the finish event included, and the chat state after them.\<close>

definition chat_choice_events :: "choice_output \<Rightarrow> jv list option \<Rightarrow> parsed \<Rightarrow> (chat_output, event list) op" where
  "chat_choice_events ch lps parsed co =
     (case chat_events (nat (co_index ch)) (chat_delta_of ch lps parsed) co of
        (Inl x, co') \<Rightarrow> (Inl x, co')
      | (Inr evs, co') \<Rightarrow>
          (Inr (evs @ (case co_finish_reason ch of
                         None \<Rightarrow> []
                       | Some r \<Rightarrow> [finish_event (co_index ch) (finish_reason (nat (co_index ch)) r co')])), co'))"

definition produce_chat_choice :: "stream_params \<Rightarrow> choice_output \<Rightarrow> parsed \<Rightarrow> (chat_stream, unit) op" where
  "produce_chat_choice par ch parsed s =
     (let i = co_index ch; p = ct_producer s in
      if \<not> (0 \<le> i \<and> i < int (length (pd_counts p))) \<or> i \<in> set (pd_finished p)
      then (Inl (StreamError ''invalid_engine_output''), s)
      else
        let cnt = pd_counts p ! nat i + int (length (co_token_ids ch));
            p1 = p\<lparr>pd_counts := (pd_counts p)[nat i := cnt]\<rparr>;
            s1 = s\<lparr>ct_producer := p1\<rparr>
        in if sp_max_tokens par < cnt then (Inl (StreamError ''invalid_engine_output''), s1)
           else if (case co_finish_reason ch of None \<Rightarrow> False | Some r \<Rightarrow> r \<notin> {''stop'', ''length''})
           then (Inl (StreamError ''engine_aborted''), s1)
           else (case choice_logprobs par ch of
                   Inl x \<Rightarrow> (Inl x, s1)
                 | Inr lps \<Rightarrow>
                     (case chat_choice_events ch lps parsed (ct_chat s1) of
                        (Inl x, co) \<Rightarrow> (Inl x, s1\<lparr>ct_chat := co\<rparr>)
                      | (Inr evs, co) \<Rightarrow>
                          (case put_events evs (pd_buffer p1) of
                             (Inl x, b) \<Rightarrow> (Inl x, \<lparr>ct_producer = p1\<lparr>pd_buffer := b\<rparr>, ct_chat = co\<rparr>)
                           | (Inr _, b) \<Rightarrow>
                               (Inr (), \<lparr>ct_producer = p1\<lparr>pd_buffer := b,
                                  pd_finished := (if co_finish_reason ch = None then pd_finished p1 else i # pd_finished p1)\<rparr>,
                                  ct_chat = co\<rparr>)))))"

text \<open>The usage of a chat stream also reports the reasoning tokens that the parsers count.\<close>

definition chat_usage_event :: "int \<Rightarrow> int \<Rightarrow> nat \<Rightarrow> event" where
  "chat_usage_event pt ct reasoning = usage_event pt ct @ [(''reasoning_tokens'', JInt (min (int reasoning) ct))]"

definition produce_chat_end :: "(int list \<Rightarrow> nat) \<Rightarrow> bool \<Rightarrow> (chat_stream, unit) op" where
  "produce_chat_end cnt confirmed s =
     (let p = ct_producer s in
      case pd_prompt_tokens p of
        None \<Rightarrow> (Inl (StreamError ''incomplete_engine_output''), s)
      | Some pt \<Rightarrow>
          if length (pd_finished p) \<noteq> length (pd_counts p) then (Inl (StreamError ''incomplete_engine_output''), s)
          else if \<not> confirmed then (Inl (StreamError ''cleanup_unconfirmed''), s)
          else (case eb_error (pd_buffer p) of
                  Some err \<Rightarrow> (Inl (StreamError (se_code err)), s)
                | None \<Rightarrow>
                    (case put_events [chat_usage_event pt (sum_list (pd_counts p)) (reasoning_tokens cnt (ct_chat s)), completed_event]
                            (pd_buffer p) of
                       (Inl x, b) \<Rightarrow> (Inl x, s\<lparr>ct_producer := p\<lparr>pd_buffer := b\<rparr>\<rparr>)
                     | (Inr _, b) \<Rightarrow> (Inr (), s\<lparr>ct_producer := p\<lparr>pd_buffer := b\<lparr>eb_done := True\<rparr>, pd_ended := True\<rparr>\<rparr>))))"

section \<open>Reachable streams\<close>

text \<open>
  What is relied on: the engine's ranks as for text streams, and of the parser that the indices of tool
  calls are not negative and that a delta is split into no more content tokens than it has tokens. Between
  two outputs the reader may have changed the buffer in any way.
\<close>

definition ranks_given :: "stream_params \<Rightarrow> choice_output \<Rightarrow> bool" where
  "ranks_given par ch \<longleftrightarrow>
     (case sp_logprobs par of
        None \<Rightarrow> True
      | Some k \<Rightarrow> 0 \<le> k \<and> (case co_logprobs ch of None \<Rightarrow> True | Some ps \<Rightarrow> list_all (ranks_ok k) ps))"

definition parsed_ok :: "choice_output \<Rightarrow> parsed \<Rightarrow> bool" where
  "parsed_ok ch parsed \<longleftrightarrow>
     (case fst parsed of None \<Rightarrow> True | Some m \<Rightarrow> list_all (\<lambda>call. 0 \<le> tc_index call) (pm_tool_calls m))
     \<and> (case snd parsed of None \<Rightarrow> True | Some k \<Rightarrow> k \<le> length (co_token_ids ch))"

inductive chat_reachable :: "stream_params \<Rightarrow> chat_stream \<Rightarrow> bool" for par where
  new: "chat_reachable par (new_chat_stream par L has_parser prl named)"
| choice: "chat_reachable par s \<Longrightarrow> ranks_given par ch \<Longrightarrow> parsed_ok ch parsed \<Longrightarrow>
    produce_chat_choice par ch parsed s = (Inr (), s') \<Longrightarrow> chat_reachable par s'"
| prompt: "chat_reachable par s \<Longrightarrow> chat_reachable par (s\<lparr>ct_producer := (ct_producer s)\<lparr>pd_prompt_tokens := Some (int n)\<rparr>\<rparr>)"
| read: "chat_reachable par s \<Longrightarrow> chat_reachable par (s\<lparr>ct_producer := (ct_producer s)\<lparr>pd_buffer := b\<rparr>\<rparr>)"

section \<open>Single events\<close>

text \<open>The client's checks on the events of a chat stream.\<close>

definition chat_linked :: "stream_params \<Rightarrow> client_params \<Rightarrow> bool" where
  "chat_linked par cpar \<longleftrightarrow> cp_n cpar = sp_n par \<and> cp_logprobs cpar = sp_logprobs par \<and> cp_chat cpar"

definition pairs_valid :: "stream_params \<Rightarrow> (jv \<times> jv) list \<Rightarrow> bool" where
  "pairs_valid par ps \<longleftrightarrow> (case sp_logprobs par of None \<Rightarrow> True | Some k \<Rightarrow> list_all (\<lambda>(t, v). valid_top v t k) ps)"

lemma pairs_valid_append: "pairs_valid par (xs @ ys) \<longleftrightarrow> pairs_valid par xs \<and> pairs_valid par ys"
  by (simp add: pairs_valid_def split: option.split)

lemma pairs_valid_subseq: "subseq xs ys \<Longrightarrow> pairs_valid par ys \<Longrightarrow> pairs_valid par xs"
  using list_emb_set [of "(=)" xs ys] by (fastforce simp: pairs_valid_def list_all_iff split: option.splits)

lemma parse_event_kinds:
  assumes "parse_events co i d c = (evs, c')" "e \<in> set evs"
  shows "(\<exists>other. e = reasoning_event i d other) \<or> (\<exists>content. e = content_event i content d c)
    \<or> (\<exists>call m. e = tool_event i call \<and> cd_message d = Some m \<and> call \<in> set (pm_tool_calls m))"
  using assms by (auto simp: parse_events_def Let_def kept_calls_def split: if_splits option.splits)

lemma reasoning_event_ok:
  assumes "\<And>k. cd_split d = Some k \<Longrightarrow> k \<le> length (cd_token_ids d)"
  shows "valid_delta_fields (reasoning_event i d other) True \<and> logprobs_ok cpar (reasoning_event i d other)"
proof -
  have "is_nat_int (map_of (reasoning_event i d other) ''token_count'')"
    using assms by (auto simp: is_nat_int_def reasoning_event_def split: option.splits)
  then show ?thesis
    by (simp add: valid_delta_fields_def logprobs_ok_def wants_logprobs_def) (simp add: reasoning_event_def js_def)
qed

lemma tool_event_fields:
  "map_of (tool_event i call) ''type'' = Some (js ''tool_call_delta'')"
  "map_of (tool_event i call) ''index'' = Some (JInt (tc_index call))"
  "is_str (map_of (tool_event i call) ''arguments'')"
  "''logprobs'' \<notin> set (keys (tool_event i call))"
  by (auto simp: tool_event_def is_str_def split: option.splits)

lemma tool_event_strings: "list_all (\<lambda>k. k \<in> set (keys (tool_event i call)) \<longrightarrow> is_str (map_of (tool_event i call) k)) [''id'', ''name'']"
  by (auto simp: tool_event_def is_str_def split: option.splits)

lemma js_kinds:
  "js ''tool_call_delta'' \<noteq> js ''choice_finished''" "js ''tool_call_delta'' \<noteq> js ''delta''"
  "js ''tool_call_delta'' \<noteq> js ''content_delta''" "js ''tool_call_delta'' \<noteq> js ''reasoning_delta''"
  "js ''content_delta'' \<noteq> js ''choice_finished''" "js ''content_delta'' \<noteq> js ''delta''"
  by (simp_all add: js_def)

lemma tool_event_ok:
  assumes "0 \<le> tc_index call"
  shows "valid_delta_fields (tool_event i call) True \<and> logprobs_ok cpar (tool_event i call)"
proof -
  have "is_nat_int (map_of (tool_event i call) ''index'')" using assms by (simp add: is_nat_int_def tool_event_fields)
  then show ?thesis
    using tool_event_fields [of i call] tool_event_strings [of i call]
    by (simp add: valid_delta_fields_def logprobs_ok_def wants_logprobs_def js_kinds del: set_map)
qed

lemma content_event_fields:
  "map_of (content_event i content d c) ''type'' = Some (js ''content_delta'')"
  "map_of (content_event i content d c) ''text'' = Some (JStr content)"
  "''logprobs'' \<in> set (keys (content_event i content d c)) \<longleftrightarrow> cd_logprobs d \<noteq> None"
  by (cases "cd_logprobs d"; simp add: content_event_def Let_def)+

lemma content_event_lists:
  assumes "cd_logprobs d = Some lps"
  shows "map_of (content_event i content d c) ''token_ids'' = Some (JList (event_list (content_event i content d c) ''token_ids''))"
    "map_of (content_event i content d c) ''logprobs'' = Some (JList (event_list (content_event i content d c) ''logprobs''))"
  using assms by (simp_all add: content_event_def event_list_def Let_def)

lemma zip_swapped:
  "length xs = length ys \<Longrightarrow> list_all (\<lambda>(v, t). P v t) (zip ys xs) = list_all (\<lambda>(t, v). P v t) (zip xs ys)"
  by (induction xs ys rule: list_induct2) auto

lemma content_event_ok:
  assumes link: "chat_linked par cpar" and lps: "(cd_logprobs d = None) = (sp_logprobs par = None)"
    and d: "chat_delta_ok d" "held_ok c" and valid: "pairs_valid par (waiting c @ delta_pairs d)"
  shows "valid_delta_fields (content_event i content d c) True \<and> logprobs_ok cpar (content_event i content d c)"
proof
  let ?e = "content_event i content d c"
  show "valid_delta_fields ?e True"
    using content_event_fields [of i content d c] by (simp add: valid_delta_fields_def is_str_def js_kinds)
  show "logprobs_ok cpar ?e"
  proof (cases "cd_logprobs d")
    case None
    with link lps show ?thesis
      using content_event_fields [of i content d c] by (simp add: logprobs_ok_def wants_logprobs_def chat_linked_def del: set_map)
  next
    case (Some l)
    with lps obtain k where k: "sp_logprobs par = Some k" by auto
    note pairs = content_event_pairs [OF Some d, of i content]
    have "pairs_valid par (event_pairs ?e)"
      using valid released_subseq [of held_pairs content "cd_text d" "cc_held c"]
      unfolding pairs [THEN conjunct1] pairs_valid_append waiting_def by (blast intro: pairs_valid_subseq)
    then have "list_all (\<lambda>(t, v). valid_top v t k) (zip (event_list ?e ''token_ids'') (event_list ?e ''logprobs''))"
      using k by (simp add: pairs_valid_def event_pairs_def)
    moreover have same: "length (event_list ?e ''token_ids'') = length (event_list ?e ''logprobs'')"
      using pairs by (simp add: balanced_def)
    ultimately have "list_all (\<lambda>(v, t). valid_top v t k) (zip (event_list ?e ''logprobs'') (event_list ?e ''token_ids''))"
      by (simp only: zip_swapped [OF same])
    then have "valid_delta_logprobs ?e k"
      unfolding valid_delta_logprobs_def content_event_lists [OF Some, of i content c] by (simp add: same)
    then show ?thesis
      using link k Some content_event_fields [of i content d c]
      by (simp add: logprobs_ok_def wants_logprobs_def chat_linked_def del: set_map)
  qed
qed

section \<open>The invariant of a chat stream\<close>

definition choice_inv :: "stream_params \<Rightarrow> chat_choice \<Rightarrow> bool" where
  "choice_inv par c \<longleftrightarrow> held_ok c \<and> pairs_valid par (waiting c)"

definition chat_inv :: "stream_params \<Rightarrow> chat_stream \<Rightarrow> bool" where
  "chat_inv par s \<longleftrightarrow>
     length (co_choices (ct_chat s)) = sp_n par \<and> length (pd_counts (ct_producer s)) = sp_n par
     \<and> list_all (choice_inv par) (co_choices (ct_chat s)) \<and> list_all (\<lambda>n. 0 \<le> n) (pd_counts (ct_producer s))
     \<and> (case pd_prompt_tokens (ct_producer s) of None \<Rightarrow> True | Some n \<Rightarrow> 0 \<le> n)"

lemma choice_logprobs_pairs:
  assumes "choice_logprobs par ch = Inr lps" "ranks_given par ch"
  shows "(lps = None) = (sp_logprobs par = None) \<and> chat_delta_ok (chat_delta_of ch lps parsed)
    \<and> pairs_valid par (delta_pairs (chat_delta_of ch lps parsed))"
proof (cases "sp_logprobs par")
  case None
  then have "lps = None" using assms(1) by (simp add: choice_logprobs_def)
  then show ?thesis using None by (simp add: chat_delta_ok_def pairs_valid_def chat_delta_of_def)
next
  case (Some k)
  then obtain es where es: "delta_logprobs (co_token_ids ch) (co_logprobs ch) k = Inr es" "lps = Some es"
    using assms(1) by (auto simp: choice_logprobs_def split: sum.splits)
  then obtain ps where ps: "co_logprobs ch = Some ps" "length ps = length (co_token_ids ch)"
    "logprob_entries (co_token_ids ch) ps k = Inr es"
    by (auto simp: delta_logprobs_def split: option.splits if_splits)
  have "length es = length (co_token_ids ch) \<and> list_all (\<lambda>(v, t). valid_top v t k) (zip es (map JInt (co_token_ids ch)))"
    using logprob_entries_valid [OF ps(3,2)] assms(2) Some ps(1) by (simp add: ranks_given_def)
  then show ?thesis
    using Some es(2) zip_swapped [of "map JInt (co_token_ids ch)" es "\<lambda>v t. valid_top v t k"]
    by (simp add: chat_delta_ok_def pairs_valid_def delta_pairs_def chat_delta_of_def)
qed

lemma chat_events_inv:
  assumes "chat_events j d co = (Inr evs, co')" "chat_delta_ok d" "pairs_valid par (delta_pairs d)"
    and "list_all (choice_inv par) (co_choices co)"
  shows "list_all (choice_inv par) (co_choices co') \<and> length (co_choices co') = length (co_choices co)"
proof -
  from assms(1) obtain c where j: "j < length (co_choices co)"
    and step: "choice_deltas co (int j) d (co_choices co ! j) = (evs, c)" and co': "co' = co\<lparr>co_choices := (co_choices co)[j := c]\<rparr>"
    by (auto simp: chat_events_def not_le split: if_splits prod.splits)
  have old: "held_ok (co_choices co ! j)" "pairs_valid par (waiting (co_choices co ! j))"
    using assms(4) j by (simp_all add: list_all_length choice_inv_def)
  have one: "held_ok c" "subseq (concat (map event_pairs evs) @ waiting c) (waiting (co_choices co ! j) @ delta_pairs d)"
    using choice_deltas_step [OF step assms(2) old(1)] by simp_all
  have "pairs_valid par (concat (map event_pairs evs) @ waiting c)"
    using pairs_valid_subseq [OF one(2)] old(2) assms(3) by (simp add: pairs_valid_append)
  then have "choice_inv par c" using one(1) by (simp add: choice_inv_def pairs_valid_append)
  then show ?thesis using assms(4) by (auto simp: co' list_all_iff dest: set_update_subset_insert [THEN subsetD])
qed

lemma chat_events_checked:
  assumes "chat_events j d co = (Inr evs, co')" "e \<in> set evs" "chat_linked par cpar"
    and "(cd_logprobs d = None) = (sp_logprobs par = None)" "chat_delta_ok d" "pairs_valid par (delta_pairs d)"
    and "list_all (choice_inv par) (co_choices co)"
    and "\<And>k. cd_split d = Some k \<Longrightarrow> k \<le> length (cd_token_ids d)"
    and "\<And>m call. cd_message d = Some m \<Longrightarrow> call \<in> set (pm_tool_calls m) \<Longrightarrow> 0 \<le> tc_index call"
  shows "map_of e ''choice_index'' = Some (JInt (int j)) \<and> valid_delta_fields e True \<and> logprobs_ok cpar e
    \<and> map_of e ''type'' \<noteq> Some (js ''choice_finished'')"
proof -
  from assms(1) obtain c where j: "j < length (co_choices co)"
    and step: "choice_deltas co (int j) d (co_choices co ! j) = (evs, c)"
    by (auto simp: chat_events_def not_le split: if_splits prod.splits)
  let ?c = "(co_choices co ! j)\<lparr>cc_token_ids := cc_token_ids (co_choices co ! j) @ cd_token_ids d\<rparr>"
  from step obtain c1 where parse: "parse_events co (int j) d ?c = (evs, c1)"
    by (auto simp: choice_deltas_def split: prod.splits)
  have "choice_inv par (co_choices co ! j)" using assms(7) j by (simp add: list_all_length)
  then have ok: "held_ok ?c" "pairs_valid par (waiting ?c @ delta_pairs d)"
    using assms(6) by (simp_all add: choice_inv_def held_ok_def waiting_def pairs_valid_append)
  consider (reasoning) other where "e = reasoning_event (int j) d other" | (content) content where "e = content_event (int j) content d ?c"
    | (tool) call m where "e = tool_event (int j) call" "cd_message d = Some m" "call \<in> set (pm_tool_calls m)"
    using parse_event_kinds [OF parse assms(2)] by blast
  then have "valid_delta_fields e True \<and> logprobs_ok cpar e \<and> map_of e ''type'' \<noteq> Some (js ''choice_finished'')"
  proof cases
    case reasoning
    then show ?thesis using reasoning_event_ok [OF assms(8)] by (simp add: reasoning_event_def js_def)
  next
    case content
    then show ?thesis using content_event_ok [OF assms(3-5) ok] content_event_fields(1) js_kinds(5) by simp
  next
    case tool
    then show ?thesis using tool_event_ok assms(9) tool_event_fields(1) js_kinds(1) by simp
  qed
  then show ?thesis using parse_events_index [OF parse assms(2)] by simp
qed

lemma chat_choice_parts:
  assumes "produce_chat_choice par ch parsed s = (Inr (), s')"
  shows "0 \<le> co_index ch \<and> co_index ch < int (length (pd_counts (ct_producer s))) \<and> co_index ch \<notin> set (pd_finished (ct_producer s))
    \<and> (\<forall>r. co_finish_reason ch = Some r \<longrightarrow> r \<in> {''stop'', ''length''})
    \<and> (\<exists>lps evs. choice_logprobs par ch = Inr lps \<and> chat_choice_events ch lps parsed (ct_chat s) = (Inr evs, ct_chat s'))
    \<and> pd_counts (ct_producer s') = (pd_counts (ct_producer s))[nat (co_index ch) :=
         pd_counts (ct_producer s) ! nat (co_index ch) + int (length (co_token_ids ch))]
    \<and> pd_prompt_tokens (ct_producer s') = pd_prompt_tokens (ct_producer s)"
proof -
  let ?p = "ct_producer s" and ?i = "co_index ch"
  have i: "0 \<le> ?i" "?i < int (length (pd_counts ?p))" "?i \<notin> set (pd_finished ?p)"
    and fr: "\<And>r. co_finish_reason ch = Some r \<Longrightarrow> r \<in> {''stop'', ''length''}"
    using assms by (auto simp: produce_chat_choice_def Let_def split: if_splits option.splits)
  obtain lps where lps: "choice_logprobs par ch = Inr lps"
    using assms by (auto simp: produce_chat_choice_def Let_def split: if_splits sum.splits)
  obtain evs co where evs: "chat_choice_events ch lps parsed (ct_chat s) = (Inr evs, co)"
    using assms lps by (cases "chat_choice_events ch lps parsed (ct_chat s)")
      (auto simp: produce_chat_choice_def Let_def split: if_splits sum.splits)
  obtain b where "put_events evs (pd_buffer ?p) = (Inr (), b)"
    using assms lps evs by (cases "put_events evs (pd_buffer ?p)")
      (auto simp: produce_chat_choice_def Let_def split: if_splits sum.splits)
  then show ?thesis
    using assms i fr lps evs by (auto simp: produce_chat_choice_def Let_def split: if_splits)
qed

lemma chat_choice_events_parts:
  assumes "chat_choice_events ch lps parsed co = (Inr evs, co')"
  shows "\<exists>ds. chat_events (nat (co_index ch)) (chat_delta_of ch lps parsed) co = (Inr ds, co')
    \<and> evs = ds @ (case co_finish_reason ch of
                   None \<Rightarrow> []
                 | Some r \<Rightarrow> [finish_event (co_index ch) (finish_reason (nat (co_index ch)) r co')])"
  using assms by (auto simp: chat_choice_events_def split: prod.splits sum.splits)

lemma chat_inv_choice:
  assumes "chat_inv par s" "ranks_given par ch" "produce_chat_choice par ch parsed s = (Inr (), s')"
  shows "chat_inv par s'"
proof -
  note parts = chat_choice_parts [OF assms(3)]
  obtain lps evs where lps: "choice_logprobs par ch = Inr lps" and evs: "chat_choice_events ch lps parsed (ct_chat s) = (Inr evs, ct_chat s')"
    using parts by blast
  obtain ds where ds: "chat_events (nat (co_index ch)) (chat_delta_of ch lps parsed) (ct_chat s) = (Inr ds, ct_chat s')"
    using chat_choice_events_parts [OF evs] by blast
  have d: "chat_delta_ok (chat_delta_of ch lps parsed)" "pairs_valid par (delta_pairs (chat_delta_of ch lps parsed))"
    using choice_logprobs_pairs [OF lps assms(2)] by simp_all
  have "list_all (choice_inv par) (co_choices (ct_chat s')) \<and> length (co_choices (ct_chat s')) = length (co_choices (ct_chat s))"
    using chat_events_inv [OF ds d] assms(1) by (simp add: chat_inv_def)
  moreover have "list_all (\<lambda>n. 0 \<le> n) (pd_counts (ct_producer s'))"
    using parts assms(1) by (auto simp: chat_inv_def list_all_length nth_list_update)
  ultimately show ?thesis using parts assms(1) by (simp add: chat_inv_def)
qed

lemma chat_reachable_inv: "chat_reachable par s \<Longrightarrow> chat_inv par s"
proof (induction rule: chat_reachable.induct)
  case (new L has_parser prl named)
  then show ?case
    by (simp add: chat_inv_def new_chat_stream_def new_producer_def new_chat_output_def choice_inv_def held_ok_def waiting_def
        pairs_valid_def list_all_iff split: option.split)
next
  case (choice s ch parsed s')
  then show ?case using chat_inv_choice by blast
qed (simp_all add: chat_inv_def)

lemma finish_event_accepted:
  assumes "chat_linked par cpar" "0 \<le> i" "i < int (sp_n par)" "i \<notin> set (cl_finished c)" "cl_usage c = None"
    and "r \<in> {''stop'', ''length'', ''tool_calls''}"
  shows "fst (accept_choice cpar now (finish_event i r) c) = Inr (finish_event i r)"
proof -
  have f: "map_of (finish_event i r) ''type'' = Some (js ''choice_finished'')"
    "map_of (finish_event i r) ''choice_index'' = Some (JInt i)" "map_of (finish_event i r) ''finish_reason'' = Some (js r)"
    "''logprobs'' \<notin> set (keys (finish_event i r))"
    by (simp_all add: finish_event_def)
  have "js ''choice_finished'' \<notin> {js ''delta'', js ''content_delta''}" by (simp add: js_def)
  then have "logprobs_ok cpar (finish_event i r)" using f(1,4) by (simp add: logprobs_ok_def wants_logprobs_def)
  moreover have "choice_index_ok cpar (cl_finished c) (cl_usage c \<noteq> None) (finish_event i r) = Some i"
    using f assms by (simp add: choice_index_ok_def valid_delta_fields_def chat_linked_def)
  moreover have "Some (js r) \<in> set (map (\<lambda>s. Some (js s)) FINISH_REASONS)"
    using assms(6) by (auto simp: FINISH_REASONS_def)
  ultimately show ?thesis using f by (simp add: accept_choice_def)
qed

lemma delta_accepted:
  assumes "chat_linked par cpar" "map_of e ''choice_index'' = Some (JInt i)" "valid_delta_fields e True" "logprobs_ok cpar e"
    and "map_of e ''type'' \<noteq> Some (js ''choice_finished'')"
    and "0 \<le> i" "i < int (sp_n par)" "i \<notin> set (cl_finished c)" "cl_usage c = None"
  shows "fst (accept_choice cpar now e c) = Inr e"
proof -
  have "choice_index_ok cpar (cl_finished c) (cl_usage c \<noteq> None) e = Some i"
    using assms by (simp add: choice_index_ok_def chat_linked_def)
  then show ?thesis using assms(4,5) by (simp add: accept_choice_def)
qed

lemma chat_usage_ok: "0 \<le> pt \<Longrightarrow> 0 \<le> ct \<Longrightarrow> usage_ok (chat_usage_event pt ct r)"
  by (simp add: usage_ok_def chat_usage_event_def usage_event_def is_nat_int_def)

lemma sum_list_nonneg_int: "list_all (\<lambda>n. 0 \<le> n) xs \<Longrightarrow> 0 \<le> sum_list (xs :: int list)"
  by (induction xs) auto

text \<open>
  C11. A chat client accepts what a chat stream puts. In every reachable chat stream, with or without
  logprobs and however the parser held deltas back, each event that an output of the engine puts passes
  the checks of a client that has seen the same choices finish, and so does the usage of the stream.
\<close>

theorem chat_client_accepts:
  assumes "chat_reachable par s" "chat_linked par cpar" "ranks_given par ch" "parsed_ok ch parsed"
    and "produce_chat_choice par ch parsed s = (Inr (), s')"
    and "cl_finished c = pd_finished (ct_producer s)" "cl_usage c = None"
  shows "\<exists>lps evs. choice_logprobs par ch = Inr lps \<and> chat_choice_events ch lps parsed (ct_chat s) = (Inr evs, ct_chat s')
    \<and> list_all (\<lambda>e. fst (accept_choice cpar now e c) = Inr e) evs
    \<and> (\<forall>pt r. pd_prompt_tokens (ct_producer s') = Some pt \<longrightarrow>
         usage_ok (chat_usage_event pt (sum_list (pd_counts (ct_producer s'))) r))"
proof -
  note inv = chat_reachable_inv [OF assms(1)] and parts = chat_choice_parts [OF assms(5)]
  obtain lps evs where lps: "choice_logprobs par ch = Inr lps" and evs: "chat_choice_events ch lps parsed (ct_chat s) = (Inr evs, ct_chat s')"
    using parts by blast
  let ?d = "chat_delta_of ch lps parsed" and ?i = "co_index ch"
  obtain ds where ds: "chat_events (nat ?i) ?d (ct_chat s) = (Inr ds, ct_chat s')"
    and all: "evs = ds @ (case co_finish_reason ch of None \<Rightarrow> [] | Some r \<Rightarrow> [finish_event ?i (finish_reason (nat ?i) r (ct_chat s'))])"
    using chat_choice_events_parts [OF evs] by blast
  note d = choice_logprobs_pairs [OF lps assms(3), of parsed]
  have i: "0 \<le> ?i" "?i < int (sp_n par)" "?i \<notin> set (cl_finished c)" using parts inv assms(6) by (simp_all add: chat_inv_def)
  have "fst (accept_choice cpar now e c) = Inr e" if "e \<in> set ds" for e
  proof -
    have "map_of e ''choice_index'' = Some (JInt (int (nat ?i))) \<and> valid_delta_fields e True \<and> logprobs_ok cpar e
        \<and> map_of e ''type'' \<noteq> Some (js ''choice_finished'')"
      by (rule chat_events_checked [OF ds that assms(2)])
        (use d inv assms(4) in \<open>auto simp: chat_inv_def chat_delta_of_def parsed_ok_def list_all_iff\<close>)
    then show ?thesis using delta_accepted [OF assms(2) _ _ _ _ i assms(7)] i(1) by simp
  qed
  moreover have "fst (accept_choice cpar now (finish_event ?i (finish_reason (nat ?i) r (ct_chat s'))) c)
      = Inr (finish_event ?i (finish_reason (nat ?i) r (ct_chat s')))" if "co_finish_reason ch = Some r" for r
  proof -
    have "finish_reason (nat ?i) r (ct_chat s') \<in> {''stop'', ''length'', ''tool_calls''}"
      using parts that by (auto simp: finish_reason_def)
    then show ?thesis by (rule finish_event_accepted [OF assms(2) i assms(7)])
  qed
  ultimately have "list_all (\<lambda>e. fst (accept_choice cpar now e c) = Inr e) evs"
    by (auto simp: all list_all_iff split: option.splits)
  moreover have "chat_inv par s'" by (rule chat_inv_choice [OF inv assms(3,5)])
  then have "usage_ok (chat_usage_event pt (sum_list (pd_counts (ct_producer s'))) r)"
    if "pd_prompt_tokens (ct_producer s') = Some pt" for pt r
    using that by (intro chat_usage_ok sum_list_nonneg_int) (simp_all add: chat_inv_def)
  ultimately show ?thesis using lps evs by blast
qed

section \<open>A chat stream of one output\<close>

definition demo_choice :: choice_output where
  "demo_choice = \<lparr>co_index = 0, co_text = [104, 105], co_token_ids = [7], co_finish_reason = Some ''stop'',
     co_logprobs = Some [[(7, \<lparr>lp_logprob = Finite (- 1) 4, lp_decoded_token = Some [104, 105], lp_rank = Some 1\<rparr>)]]\<rparr>"

definition demo_parsed :: parsed where
  "demo_parsed = (Some \<lparr>pm_reasoning = None, pm_content = Some [104, 105],
     pm_tool_calls = [\<lparr>tc_index = 0, tc_id = Some [49], tc_function = Some (Some [102], None)\<rparr>]\<rparr>, None)"

definition demo_chat :: chat_stream where
  "demo_chat = new_chat_stream demo_params demo_room True None False"

definition demo_chat_client :: client_params where
  "demo_chat_client = \<lparr>cp_n = 1, cp_logprobs = Some 1, cp_chat = True, cp_request_id = ''r''\<rparr>"

text \<open>The output has content and a tool call, so the choice finishes with \<open>tool_calls\<close>.\<close>

theorem chat_client_accepts_witness:
  "\<exists>lps evs. choice_logprobs demo_params demo_choice = Inr lps
     \<and> fst (chat_choice_events demo_choice lps demo_parsed (ct_chat demo_chat)) = Inr evs
     \<and> length evs = 3 \<and> list_all (\<lambda>e. fst (accept_choice demo_chat_client 0 e new_client) = Inr e) evs
     \<and> map_of (last evs) ''finish_reason'' = Some (js ''tool_calls'')"
proof -
  let ?r = "produce_chat_choice demo_params demo_choice demo_parsed demo_chat"
  have ok: "fst ?r = Inr ()" by code_simp
  then have r: "?r = (Inr (), snd ?r)" by (cases ?r) simp
  have reach: "chat_reachable demo_params demo_chat" unfolding demo_chat_def by (rule chat_reachable.new)
  have hyps: "chat_linked demo_params demo_chat_client" "parsed_ok demo_choice demo_parsed" "ranks_given demo_params demo_choice"
    by (simp_all add: chat_linked_def demo_params_def demo_chat_client_def parsed_ok_def demo_parsed_def demo_choice_def
        ranks_given_def ranks_ok_def in_top_def)
  have fin: "cl_finished new_client = pd_finished (ct_producer demo_chat)" "cl_usage new_client = None"
    by (simp_all add: new_client_def demo_chat_def new_chat_stream_def new_producer_def)
  from chat_client_accepts [OF reach hyps(1,3,2) r fin, of 0]
  obtain lps evs where e: "choice_logprobs demo_params demo_choice = Inr lps"
    "chat_choice_events demo_choice lps demo_parsed (ct_chat demo_chat) = (Inr evs, ct_chat (snd ?r))"
    "list_all (\<lambda>e. fst (accept_choice demo_chat_client 0 e new_client) = Inr e) evs"
    by blast
  let ?f = "\<lambda>l. case fst (chat_choice_events demo_choice (case l of Inr x \<Rightarrow> x | Inl _ \<Rightarrow> None) demo_parsed (ct_chat demo_chat)) of
      Inr es \<Rightarrow> length es = 3 \<and> map_of (last es) ''finish_reason'' = Some (js ''tool_calls'') | Inl _ \<Rightarrow> False"
  have "?f (choice_logprobs demo_params demo_choice)" by code_simp
  then have "length evs = 3 \<and> map_of (last evs) ''finish_reason'' = Some (js ''tool_calls'')"
    unfolding e(1) by (simp add: e(2))
  with e show ?thesis by (intro exI [of _ lps] exI [of _ evs]) simp
qed

end
