(* ===== verification/Demuxer.thy ===== *)
theory Demuxer
  imports Prelude
begin

text \<open>
  The consumer of a worker's results (\<open>inference/semi_persistence/demuxer.py\<close>): one thread that applies
  each result to its instance, settles the count of pending commands and calls the listeners, while
  senders and waiters run in other threads.

  A block under a lock is one step, so handling a result is three steps. The instance is a state with the
  function that applies a result to it, also when it raises (the source logs the exception and goes on). Log messages are not modelled.
  A listener is its identity; the calls made to listeners are recorded. The worker behind the queues
  answers commands in the order it gets them, with any outcome.
\<close>

section \<open>The demuxer\<close>

record 'i result =
  rs_cmd :: string
  rs_elapsed :: rat
  rs_error :: "string option"
  rs_info :: 'i

type_synonym ('s, 'i) apply_cb = "string \<Rightarrow> 'i \<Rightarrow> 's \<Rightarrow> 's"









section \<open>Handling a result\<close>






section \<open>Senders, worker, consumer and waiters\<close>








text \<open>The instance after a sequence of results, and the first error among them.\<close>

definition apply_all :: "('s, 'i) apply_cb \<Rightarrow> 'i result list \<Rightarrow> 's \<Rightarrow> 's" where
  "apply_all app rs inst = fold (\<lambda>r st. if rs_error r = None then app (rs_cmd r) (rs_info r) st else st) rs inst"


section \<open>The invariant\<close>




lemma apply_all_Nil [simp]: "apply_all app [] inst = inst"
  by (simp add: apply_all_def)

lemma apply_all_append [simp]: "apply_all app (rs @ ss) inst = apply_all app ss (apply_all app rs inst)"
  by (simp add: apply_all_def)





section \<open>A failed and a successful command\<close>





end
