(* ===== verification/Balance_Stamp.thy ===== *)
theory Balance_Stamp
  imports Batch_Split
begin

text \<open>
  The balance metadata that a client stamps on a request (\<open>common/balance_metadata.py\<close>): the explicit
  switch and the prompt-group ids of ZoRRo rollouts, and their copy into the context of a remote job. What
  the server reads of it is \<open>balance_meta_of\<close> of the batch data plane. Tensors are dense; the number of
  rollouts is an integer or absent.
\<close>

section \<open>Stamping\<close>

definition LEGACY_BALANCE_KEYS :: "string list" where
  "LEGACY_BALANCE_KEYS = [''load_balancer'', ''zorro_load_balancer'', ''zorro_train_load_balancer'']"


text \<open>A rollout block is a run of rows that all equal its first row.\<close>

definition block_shares :: "tensor \<Rightarrow> nat \<Rightarrow> nat \<Rightarrow> bool" where
  "block_shares t start width = list_all (\<lambda>i. t_row t i = t_row t start) [start..<start + width]"

definition blocks_share :: "tensor \<Rightarrow> nat \<Rightarrow> nat \<Rightarrow> bool" where
  "blocks_share t rows width = list_all (\<lambda>b. block_shares t (b * width) width) [0..<rows div width]"

fun tensor2 :: "pyval \<Rightarrow> tensor option" where
  "tensor2 (VTensor d t) = (if t_ndim t = 2 then Some t else None)"
| "tensor2 _ = None"

definition arange_div :: "nat \<Rightarrow> nat \<Rightarrow> tensor" where
  "arange_div rows width = \<lparr>t_shape = [rows], t_data = map (\<lambda>i. of_nat (i div width)) [0..<rows]\<rparr>"

definition rollout_prompt_group_ids :: "pyval \<Rightarrow> pyval \<Rightarrow> int option \<Rightarrow> pyval option" where
  "rollout_prompt_group_ids input_ids prompts rollout_n =
     (case (rollout_n, tensor2 input_ids) of
        (Some n, Some ids) \<Rightarrow>
          let rows = hd (t_shape ids) in
          if n < 1 \<or> int rows mod n \<noteq> 0 then None
          else (case tensor2 prompts of
                  None \<Rightarrow> None
                | Some p \<Rightarrow>
                    if hd (t_shape p) \<noteq> rows \<or> \<not> blocks_share p rows (nat n) then None
                    else Some (VTensor DInt64 (arange_div rows (nat n))))
      | _ \<Rightarrow> None)"

definition assert_contiguous_rollout_blocks :: "pyval \<Rightarrow> int \<Rightarrow> unit res" where
  "assert_contiguous_rollout_blocks prompts n =
     (case tensor2 prompts of
        None \<Rightarrow> Inl ValueError
      | Some p \<Rightarrow>
          let rows = hd (t_shape p) in
          if n < 1 \<or> int rows mod n \<noteq> 0 then Inr ()
          else if blocks_share p rows (nat n) then Inr () else Inl ValueError)"

definition drop_keys :: "string list \<Rightarrow> bag \<Rightarrow> bag" where
  "drop_keys ks m = fold AList.delete ks m"

definition stamp_balance_meta :: "bool \<Rightarrow> bool \<Rightarrow> pyval \<Rightarrow> int option \<Rightarrow> bag \<Rightarrow> bag" where
  "stamp_balance_meta balance zorro prompts rollout_n meta =
     (let m = AList.update ''balance_batch'' (VBool balance) (AList.delete ''prompt_group_ids'' (drop_keys LEGACY_BALANCE_KEYS meta))
      in if \<not> balance \<or> \<not> zorro then m
         else (case rollout_prompt_group_ids prompts prompts rollout_n of
                 None \<Rightarrow> m
               | Some ids \<Rightarrow> AList.update ''prompt_group_ids'' ids m))"

definition prompt_rows_for_balance :: "pyval \<Rightarrow> pyval \<Rightarrow> int option \<Rightarrow> pyval" where
  "prompt_rows_for_balance prompts input_ids max_prompt_len =
     (case tensor2 prompts of
        Some _ \<Rightarrow> prompts
      | None \<Rightarrow>
          (case (input_ids, max_prompt_len) of
             (VTensor d t, Some n) \<Rightarrow>
               if t_ndim t = 2
               then VTensor d (slice1 0 (if 0 \<le> n then min (nat n) (t_shape t ! 1) else nat (int (t_shape t ! 1) + n)) t)
               else prompts
           | _ \<Rightarrow> prompts))"

definition stamp_client_balance :: "bool \<Rightarrow> bool \<Rightarrow> int option \<Rightarrow> pyval \<Rightarrow> pyval \<Rightarrow> int option \<Rightarrow> bag \<Rightarrow> bag" where
  "stamp_client_balance balance zorro rollout_n prompts input_ids max_prompt_len meta =
     stamp_balance_meta balance zorro
       (if balance \<and> zorro then prompt_rows_for_balance prompts input_ids max_prompt_len else prompts) rollout_n meta"

section \<open>The copy into a remote context\<close>






section \<open>Lemmas\<close>

lemma map_of_drop_keys: "map_of (drop_keys ks m) k = (if k \<in> set ks then None else map_of m k)"
  by (induction ks arbitrary: m) (auto simp: drop_keys_def map_of_delete)


lemma block_of_row: "blocks_share t rows w \<Longrightarrow> i < rows div w * w \<Longrightarrow> t_row t i = t_row t (i div w * w)"
proof -
  assume b: "blocks_share t rows w" and i: "i < rows div w * w"
  then have w: "0 < w" by (cases w) auto
  have "i div w < rows div w" using i w by (simp add: less_mult_imp_div_less)
  then have "block_shares t (i div w * w) w" using b by (simp add: blocks_share_def list_all_iff)
  moreover have "i \<in> set [i div w * w..<i div w * w + w]"
    using dividend_less_div_times [OF w, of i] by (simp add: add.commute)
  ultimately show ?thesis by (simp add: block_shares_def list_all_iff)
qed

lemma block_card:
  assumes "0 < w" "n div w * w = n" "i < n"
  shows "card {j. j < n \<and> j div w = i div w} = w"
proof -
  have "{j. j < n \<and> j div w = i div w} = {i div w * w..<i div w * w + w}" (is "?l = ?r")
  proof (intro set_eqI iffI)
    fix j assume "j \<in> ?l"
    then have j: "j div w = i div w" by simp
    show "j \<in> ?r"
      using assms(1) div_times_less_eq_dividend [of j w] dividend_less_div_times [of w j] j by simp
  next
    fix j assume j: "j \<in> ?r"
    have "j div w = i div w" using assms(1) j by (intro div_nat_eqI) (simp_all add: mult.commute)
    moreover have "i div w < n div w" using assms by (metis less_mult_imp_div_less)
    then have "i div w * w + w \<le> n" using assms(2) by (metis Suc_leI add.commute mult_Suc mult_le_mono1)
    ultimately show "j \<in> ?l" using j by simp
  qed
  then show ?thesis by simp
qed

text \<open>Stamped ids are the block numbers, and equal ids stand for equal prompt rows.\<close>

lemma group_ids_spec:
  assumes "rollout_prompt_group_ids x x n = Some v" "tensor2 x = Some p"
  shows "\<exists>w. n = Some (int w) \<and> 0 < w \<and> v = VTensor DInt64 (arange_div (hd (t_shape p)) w)
    \<and> hd (t_shape p) mod w = 0 \<and> blocks_share p (hd (t_shape p)) w"
proof -
  obtain k where k: "n = Some k" using assms(1) by (cases n) (simp_all add: rollout_prompt_group_ids_def)
  have c: "1 \<le> k" "int (hd (t_shape p)) mod k = 0" "blocks_share p (hd (t_shape p)) (nat k)"
    "v = VTensor DInt64 (arange_div (hd (t_shape p)) (nat k))"
    using assms k by (auto simp: rollout_prompt_group_ids_def Let_def not_less split: if_splits)
  then have "int (hd (t_shape p) mod nat k) = 0" by (simp add: zmod_int)
  with c k show ?thesis by (intro exI [of _ "nat k"]) simp
qed






text \<open>
  A tensor of ids names the prompt rows: one id per row, the same id only for the same prompt, and each id
  on as many rows as there are rollouts.
\<close>

definition names_prompts :: "pyval \<Rightarrow> int option \<Rightarrow> pyval \<Rightarrow> bool" where
  "names_prompts prompts rollout_n v \<longleftrightarrow>
     (\<exists>p t w. tensor2 prompts = Some p \<and> v = VTensor DInt64 t \<and> rollout_n = Some (int w) \<and> 0 < w
       \<and> length (t_data t) = hd (t_shape p)
       \<and> (\<forall>i<hd (t_shape p). \<forall>j<hd (t_shape p). t_data t ! i = t_data t ! j \<longrightarrow> t_row p i = t_row p j)
       \<and> (\<forall>i<hd (t_shape p). card {j. j < hd (t_shape p) \<and> t_data t ! j = t_data t ! i} = w))"

lemma arange_names_prompts:
  assumes p: "tensor2 prompts = Some p" and w: "0 < w" "hd (t_shape p) mod w = 0" "blocks_share p (hd (t_shape p)) w"
  shows "names_prompts prompts (Some (int w)) (VTensor DInt64 (arange_div (hd (t_shape p)) w))"
proof -
  let ?n = "hd (t_shape p)" and ?t = "arange_div (hd (t_shape p)) w"
  have eq: "t_data ?t ! i = t_data ?t ! j \<longleftrightarrow> i div w = j div w" if "i < ?n" "j < ?n" for i j
    using that by (simp add: arange_div_def)
  have full: "?n div w * w = ?n" using w(2) by (simp add: mod_0_imp_dvd)
  have rows: "t_row p i = t_row p j" if "i < ?n" "j < ?n" "t_data ?t ! i = t_data ?t ! j" for i j
    using that eq block_of_row [OF w(3), of i] block_of_row [OF w(3), of j] full by simp
  have cards: "card {j. j < ?n \<and> t_data ?t ! j = t_data ?t ! i} = w" if i: "i < ?n" for i
    using block_card [OF w(1) full i] eq i by (simp cong: conj_cong)
  show ?thesis
    unfolding names_prompts_def
  proof (intro exI conjI)
    show "length (t_data ?t) = ?n" by (simp add: arange_div_def)
    show "\<forall>i<?n. \<forall>j<?n. t_data ?t ! i = t_data ?t ! j \<longrightarrow> t_row p i = t_row p j" using rows by blast
    show "\<forall>i<?n. card {j. j < ?n \<and> t_data ?t ! j = t_data ?t ! i} = w" using cards by blast
  qed (rule p refl w(1))+
qed

text \<open>
  Stamping a request. The switch is written explicitly and no legacy key is left. Group ids are on
  the request only when balancing and ZoRRo are on; then there is one id per prompt row, rows with the same
  id have the same prompt, and every id is borne by as many rows as there are rollouts.
\<close>

theorem stamped_ids_name_prompts:
  assumes "m = stamp_balance_meta balance zorro prompts rollout_n meta"
  shows "map_of m ''balance_batch'' = Some (VBool balance) \<and> (\<forall>k\<in>set LEGACY_BALANCE_KEYS. map_of m k = None)
    \<and> (\<forall>v. map_of m ''prompt_group_ids'' = Some v \<longrightarrow>
         balance \<and> zorro
         \<and> names_prompts prompts rollout_n v)"
proof -
  let ?m = "AList.update ''balance_batch'' (VBool balance) (AList.delete ''prompt_group_ids'' (drop_keys LEGACY_BALANCE_KEYS meta))"
  have m: "m = ?m \<or> (\<exists>ids. balance \<and> zorro \<and> rollout_prompt_group_ids prompts prompts rollout_n = Some ids
      \<and> m = AList.update ''prompt_group_ids'' ids ?m)"
    using assms by (auto simp: stamp_balance_meta_def Let_def split: option.splits)
  have keys: "map_of m k = map_of ?m k" if "k \<noteq> ''prompt_group_ids''" for k
    using m that by (auto simp: map_of_update)
  have 1: "map_of m ''balance_batch'' = Some (VBool balance)" using keys by (simp add: map_of_update)
  have 2: "map_of m k = None" if "k \<in> set LEGACY_BALANCE_KEYS" for k
    using keys [of k] that by (auto simp: LEGACY_BALANCE_KEYS_def map_of_update map_of_delete map_of_drop_keys)
  have "balance \<and> zorro \<and> names_prompts prompts rollout_n v"
    if v: "map_of m ''prompt_group_ids'' = Some v" for v
  proof -
    have r: "balance" "zorro" "rollout_prompt_group_ids prompts prompts rollout_n = Some v"
      using m v by (auto simp: map_of_update map_of_delete simp del: map_of_eq_Some_iff)
    obtain p where p: "tensor2 prompts = Some p"
      using r(3) by (cases "tensor2 prompts") (simp_all add: rollout_prompt_group_ids_def split: option.splits)
    obtain w where w: "rollout_n = Some (int w)" "0 < w" "v = VTensor DInt64 (arange_div (hd (t_shape p)) w)"
      "hd (t_shape p) mod w = 0" "blocks_share p (hd (t_shape p)) w"
      using group_ids_spec [OF r(3) p] by (elim exE conjE) (rule that)
    have "names_prompts prompts rollout_n v"
      unfolding w(1,3) by (rule arange_names_prompts [OF p w(2,4,5)])
    then show ?thesis using r(1,2) by simp
  qed
  then show ?thesis using 1 2 by (intro conjI ballI allI impI) simp_all
qed


section \<open>Two prompts with two rollouts each\<close>

definition demo_prompts :: pyval where
  "demo_prompts = VTensor DInt64 \<lparr>t_shape = [4, 2], t_data = [1, 2, 1, 2, 3, 4, 3, 4]\<rparr>"

definition demo_meta :: bag where
  "demo_meta = [(''load_balancer'', VBool True), (''zorro_train_enable'', VBool True), (''rollout_n'', VInt 2)]"

definition demo_stamped :: bag where
  "demo_stamped = stamp_client_balance True True (Some 2) demo_prompts VNone None demo_meta"

theorem stamped_ids_name_prompts_witness:
  "map_of demo_stamped ''prompt_group_ids'' = Some (VTensor DInt64 \<lparr>t_shape = [4], t_data = [0, 0, 1, 1]\<rparr>)
   \<and> map_of demo_stamped ''balance_batch'' = Some (VBool True) \<and> map_of demo_stamped ''load_balancer'' = None"
proof -
  have s: "demo_stamped = stamp_balance_meta True True demo_prompts (Some 2) demo_meta"
    by (simp add: demo_stamped_def stamp_client_balance_def prompt_rows_for_balance_def demo_prompts_def)
  have "map_of demo_stamped ''prompt_group_ids'' = Some (VTensor DInt64 \<lparr>t_shape = [4], t_data = [0, 0, 1, 1]\<rparr>)" by code_simp
  with stamped_ids_name_prompts [OF s] show ?thesis by (simp add: LEGACY_BALANCE_KEYS_def)
qed


end
