(* ===== verification/Action_Masks.thy ===== *)
theory Action_Masks
  imports Prelude "HOL-Library.Word"
begin

text \<open>
  Action masks: which tokens a grammar allowed where a response was sampled. The inference server replays
  the grammar and encodes the sets of tokens (\<open>inference/server/action_masks.py\<close>, and the loop of
  \<open>action_mask_replay.py\<close>); the trainer decodes, packs and re-encodes them
  (\<open>model/implementations/gpu/action_masks.py\<close>, whose normalisation makes the same checks).

  Equal sets are stored once: a position has an index into a table of sets, and a set is a slice of one
  list of token ids with a flag that says whether it lists the allowed or the denied tokens. The grammar
  matcher is a parameter: a state with the bit mask it fills and the states after accepting a token. Bit
  masks are 32-bit words, the lowest bit first. Mappings are records of the fields that are read.
\<close>

unbundle bit_operations_syntax

section \<open>Masks and their checks\<close>

record masks =
  am_seq_len :: int
  am_vocab_size :: int
  am_positions :: "int list"
  am_set_indices :: "int list"
  am_set_modes_allow :: "bool list"
  am_set_offsets :: "int list"
  am_token_ids :: "int list"

text \<open>A number as it may arrive; anything else with its truth value. A field may be missing or no sequence.\<close>

datatype mval = MInt int | MBool bool | MFloat rat | MOther bool

datatype marray = MMissing | MList "mval list" | MArray nat "mval list" | MScalar

record raw_masks =
  rm_seq_len :: mval
  rm_vocab_size :: mval
  rm_positions :: marray
  rm_set_indices :: marray
  rm_set_modes_allow :: marray
  rm_set_offsets :: marray
  rm_token_ids :: marray

datatype raw = RawNone | RawOther | RawMap raw_masks

fun require_int :: "mval \<Rightarrow> int res" where
  "require_int (MInt i) = Inr i"
| "require_int (MFloat x) = (if of_int \<lfloor>x\<rfloor> = x then Inr \<lfloor>x\<rfloor> else Inl TypeError)"
| "require_int _ = Inl TypeError"

fun mval_truth :: "mval \<Rightarrow> bool" where
  "mval_truth (MInt i) = (i \<noteq> 0)"
| "mval_truth (MBool b) = b"
| "mval_truth (MFloat x) = (x \<noteq> 0)"
| "mval_truth (MOther b) = b"

fun require_1d_array :: "marray \<Rightarrow> mval list res" where
  "require_1d_array MMissing = Inr []"
| "require_1d_array (MList xs) = Inr xs"
| "require_1d_array (MArray n xs) = (if n = 1 then Inr xs else Inl ValueError)"
| "require_1d_array MScalar = Inl TypeError"

fun require_ints :: "mval list \<Rightarrow> int list res" where
  "require_ints [] = Inr []"
| "require_ints (v # vs) =
     (case require_int v of
        Inl x \<Rightarrow> Inl x
      | Inr i \<Rightarrow> (case require_ints vs of Inl x \<Rightarrow> Inl x | Inr is \<Rightarrow> Inr (i # is)))"

definition int_array :: "marray \<Rightarrow> int list res" where
  "int_array a = (case require_1d_array a of Inl x \<Rightarrow> Inl x | Inr vs \<Rightarrow> require_ints vs)"

definition check_masks :: "masks \<Rightarrow> masks res" where
  "check_masks m =
     (if length (am_positions m) \<noteq> length (am_set_indices m) then Inl ValueError
      else if length (am_set_offsets m) \<noteq> length (am_set_modes_allow m) + 1 then Inl ValueError
      else if hd (am_set_offsets m) \<noteq> 0 then Inl ValueError
      else if last (am_set_offsets m) \<noteq> int (length (am_token_ids m)) then Inl ValueError
      else if am_positions m \<noteq> sorted_list_of_set (set (am_positions m)) then Inl ValueError
      else if am_positions m \<noteq> [] \<and> am_seq_len m \<le> last (am_positions m) then Inl ValueError
      else if list_ex (\<lambda>t. t < 0 \<or> am_vocab_size m \<le> t) (am_token_ids m) then Inl ValueError
      else Inr m)"

definition normalize_action_masks :: "raw \<Rightarrow> masks option res" where
  "normalize_action_masks v =
     (case v of
        RawNone \<Rightarrow> Inr None
      | RawOther \<Rightarrow> Inl TypeError
      | RawMap r \<Rightarrow>
          (case (require_int (rm_seq_len r), require_int (rm_vocab_size r), int_array (rm_positions r), int_array (rm_set_indices r),
                 require_1d_array (rm_set_modes_allow r), int_array (rm_set_offsets r), int_array (rm_token_ids r)) of
             (Inr n, Inr voc, Inr ps, Inr is, Inr ms, Inr os, Inr ts) \<Rightarrow>
               map_sum id Some (check_masks \<lparr>am_seq_len = n, am_vocab_size = voc, am_positions = ps, am_set_indices = is,
                 am_set_modes_allow = map mval_truth ms, am_set_offsets = os, am_token_ids = ts\<rparr>)
           | (Inl x, _) \<Rightarrow> Inl x
           | (_, Inl x, _) \<Rightarrow> Inl x
           | (_, _, Inl x, _) \<Rightarrow> Inl x
           | (_, _, _, Inl x, _) \<Rightarrow> Inl x
           | (_, _, _, _, Inl x, _) \<Rightarrow> Inl x
           | (_, _, _, _, _, Inl x, _) \<Rightarrow> Inl x
           | (_, _, _, _, _, _, Inl x) \<Rightarrow> Inl x))"

section \<open>Encoding\<close>

text \<open>A position, whether the set lists the allowed tokens, and the tokens.\<close>

type_synonym mask_entry = "int \<times> bool \<times> int list"

record encoder =
  ec_positions :: "int list"
  ec_set_indices :: "int list"
  ec_set_keys :: "(bool \<times> int list, int) dict"
  ec_set_modes_allow :: "bool list"
  ec_set_offsets :: "int list"
  ec_token_ids :: "int list"

definition new_encoder :: encoder where
  "new_encoder = \<lparr>ec_positions = [], ec_set_indices = [], ec_set_keys = [], ec_set_modes_allow = [], ec_set_offsets = [0], ec_token_ids = []\<rparr>"

definition intern_set :: "bool \<Rightarrow> int list \<Rightarrow> encoder \<Rightarrow> int \<times> encoder" where
  "intern_set mode ids e =
     (case map_of (ec_set_keys e) (mode, ids) of
        Some i \<Rightarrow> (i, e)
      | None \<Rightarrow>
          let i = int (length (ec_set_modes_allow e))
          in (i, e\<lparr>ec_set_keys := AList.update (mode, ids) i (ec_set_keys e), ec_set_modes_allow := ec_set_modes_allow e @ [mode],
                   ec_token_ids := ec_token_ids e @ ids,
                   ec_set_offsets := ec_set_offsets e @ [int (length (ec_token_ids e @ ids))]\<rparr>))"

definition add_position :: "int \<Rightarrow> int \<Rightarrow> encoder \<Rightarrow> encoder" where
  "add_position p i e = e\<lparr>ec_positions := ec_positions e @ [p], ec_set_indices := ec_set_indices e @ [i]\<rparr>"

definition encode_entry :: "int \<Rightarrow> mask_entry \<Rightarrow> encoder \<Rightarrow> encoder" where
  "encode_entry seq_len en e =
     (case en of
        (p, mode, raw_ids) \<Rightarrow>
          if seq_len \<le> p \<or> raw_ids = [] then e
          else (case intern_set mode (sort raw_ids) e of (i, e') \<Rightarrow> add_position p i e'))"

definition encoded :: "int \<Rightarrow> int \<Rightarrow> encoder \<Rightarrow> masks option res" where
  "encoded seq_len vocab_size e =
     (if ec_positions e = [] then Inr None
      else map_sum id Some (check_masks \<lparr>am_seq_len = seq_len, am_vocab_size = vocab_size, am_positions = ec_positions e,
        am_set_indices = ec_set_indices e, am_set_modes_allow = ec_set_modes_allow e, am_set_offsets = ec_set_offsets e,
        am_token_ids = ec_token_ids e\<rparr>))"

definition action_masks_from_entries :: "int \<Rightarrow> int \<Rightarrow> mask_entry list \<Rightarrow> masks option res" where
  "action_masks_from_entries seq_len vocab_size entries =
     encoded seq_len vocab_size (fold (encode_entry seq_len) (sort_key fst entries) new_encoder)"

section \<open>Bit masks\<close>

type_synonym bitmask = "32 word list"

definition unpackbits :: "bitmask \<Rightarrow> bool list" where
  "unpackbits ws = concat (map (\<lambda>w. map (bit w) [0..<32]) ws)"

definition token_ids_from_words :: "bitmask \<Rightarrow> nat \<Rightarrow> bool \<Rightarrow> int list" where
  "token_ids_from_words ws vocab_size want_allowed =
     map (\<lambda>(i, b). int i) (filter (\<lambda>(i, b). b = want_allowed) (enumerate 0 (take vocab_size (unpackbits ws))))"

definition mask_set_from_words :: "bitmask \<Rightarrow> nat \<Rightarrow> (bool \<times> int list) res" where
  "mask_set_from_words ws vocab_size =
     (let allowed = int (length (filter id (take vocab_size (unpackbits ws)))); denied = int vocab_size - allowed
      in if allowed \<le> 0 then Inl ValueError
         else if denied = 0 then Inr (False, [])
         else Inr (allowed \<le> denied, token_ids_from_words ws vocab_size (allowed \<le> denied)))"

text \<open>Bits beyond the vocabulary are cleared in the last word; without a word that raises.\<close>

definition clear_padding :: "nat \<Rightarrow> bitmask \<Rightarrow> bitmask res" where
  "clear_padding vocab_size ws =
     (if vocab_size mod 32 = 0 then Inr ws
      else if ws = [] then Inl IndexError
      else Inr (ws[length ws - 1 := last ws AND Bit_Operations.mask (vocab_size mod 32)]))"

definition entry_from_bitmask_words :: "bitmask \<Rightarrow> int \<Rightarrow> nat \<Rightarrow> mask_entry option res" where
  "entry_from_bitmask_words ws position vocab_size =
     (case clear_padding vocab_size ws of
        Inl x \<Rightarrow> Inl x
      | Inr ns \<Rightarrow>
          (case mask_set_from_words ns vocab_size of
             Inl x \<Rightarrow> Inl x
           | Inr (mode, ids) \<Rightarrow> Inr (if ids = [] then None else Some (position, mode, ids))))"

section \<open>Replaying the grammar\<close>

record 's matcher =
  gm_fill :: "'s \<Rightarrow> bitmask"
  gm_accept :: "'s \<Rightarrow> int \<Rightarrow> 's option"

text \<open>The tokens of the span with their positions; a token out of range or rejected by the grammar raises.\<close>

fun replay_loop :: "'s matcher \<Rightarrow> nat \<Rightarrow> (int \<times> int) list \<Rightarrow> 's \<Rightarrow> mask_entry list \<Rightarrow> mask_entry list res" where
  "replay_loop G vocab_size [] s es = Inr es"
| "replay_loop G vocab_size ((position, token) # rest) s es =
     (if int vocab_size \<le> token then Inl ValueError
      else (case entry_from_bitmask_words (gm_fill G s) position vocab_size of
              Inl x \<Rightarrow> Inl x
            | Inr en \<Rightarrow>
                (case gm_accept G s token of
                   None \<Rightarrow> Inl ValueError
                 | Some s' \<Rightarrow> replay_loop G vocab_size rest s' (es @ (case en of None \<Rightarrow> [] | Some x \<Rightarrow> [x])))))"

definition empty_action_masks :: "int \<Rightarrow> int \<Rightarrow> masks" where
  "empty_action_masks seq_len vocab_size =
     \<lparr>am_seq_len = seq_len, am_vocab_size = vocab_size, am_positions = [], am_set_indices = [], am_set_modes_allow = [],
      am_set_offsets = [0], am_token_ids = []\<rparr>"

definition build_action_masks :: "'s matcher \<Rightarrow> 's \<Rightarrow> nat \<Rightarrow> nat \<Rightarrow> int list \<Rightarrow> nat \<Rightarrow> nat \<Rightarrow> masks res" where
  "build_action_masks G s0 vocab_size prompt_len completion start stop =
     (let seq_len = int (prompt_len + length completion); none = empty_action_masks seq_len (int vocab_size) in
      if completion = [] \<or> stop \<le> start then Inr none
      else (case replay_loop G vocab_size (map (\<lambda>i. (int (prompt_len + i), completion ! i)) [start..<stop]) s0 [] of
              Inl x \<Rightarrow> Inl x
            | Inr es \<Rightarrow>
                (case action_masks_from_entries seq_len (int vocab_size) es of
                   Inl x \<Rightarrow> Inl x
                 | Inr m \<Rightarrow> Inr (case m of None \<Rightarrow> none | Some m' \<Rightarrow> m'))))"

section \<open>Decoding\<close>

text \<open>Python's slices and indices of a list, with negative ones from its end.\<close>

definition py_index :: "'a list \<Rightarrow> int \<Rightarrow> 'a res" where
  "py_index xs i =
     (let j = (if i < 0 then i + int (length xs) else i)
      in if 0 \<le> j \<and> j < int (length xs) then Inr (xs ! nat j) else Inl IndexError)"

definition py_bound :: "'a list \<Rightarrow> int \<Rightarrow> nat" where
  "py_bound xs i = (if i < 0 then nat (i + int (length xs)) else min (nat i) (length xs))"

definition py_slice :: "'a list \<Rightarrow> int \<Rightarrow> int \<Rightarrow> 'a list" where
  "py_slice xs a b = take (py_bound xs b - py_bound xs a) (drop (py_bound xs a) xs)"

definition interned_token_id_sets :: "masks \<Rightarrow> int list list" where
  "interned_token_id_sets m =
     map (\<lambda>(a, b). py_slice (am_token_ids m) a b) (zip (butlast (am_set_offsets m)) (tl (am_set_offsets m)))"

fun decode_entries :: "masks \<Rightarrow> (int \<times> int) list \<Rightarrow> mask_entry list res" where
  "decode_entries m [] = Inr []"
| "decode_entries m ((p, i) # rest) =
     (case (py_index (am_set_modes_allow m) i, py_index (interned_token_id_sets m) i) of
        (Inr mode, Inr ids) \<Rightarrow> (case decode_entries m rest of Inl x \<Rightarrow> Inl x | Inr es \<Rightarrow> Inr ((p, mode, ids) # es))
      | (Inl x, _) \<Rightarrow> Inl x
      | (_, Inl x) \<Rightarrow> Inl x)"

definition action_mask_entries :: "masks option \<Rightarrow> mask_entry list res" where
  "action_mask_entries v =
     (case v of
        None \<Rightarrow> Inr []
      | Some m \<Rightarrow> (case check_masks m of Inl x \<Rightarrow> Inl x | Inr m' \<Rightarrow> decode_entries m' (zip (am_positions m') (am_set_indices m'))))"

section \<open>What the encoder has stored\<close>

text \<open>
  The table of sets and the entries that an encoder stands for, and the entries that it keeps of its
  input: positions of the sequence with a set, whose tokens are sorted.
\<close>

definition offsets_of :: "int list list \<Rightarrow> int list" where
  "offsets_of xss = map (\<lambda>k. int (length (concat (take k xss)))) [0..<Suc (length xss)]"

definition stands_for :: "(bool \<times> int list) list \<Rightarrow> int list \<Rightarrow> mask_entry list \<Rightarrow> bool" where
  "stands_for sets is L \<longleftrightarrow> list_all2 (\<lambda>i en. 0 \<le> i \<and> i < int (length sets) \<and> sets ! nat i = snd en) is L"

definition encodes :: "encoder \<Rightarrow> (bool \<times> int list) list \<Rightarrow> mask_entry list \<Rightarrow> bool" where
  "encodes e sets L \<longleftrightarrow>
     ec_set_modes_allow e = map fst sets \<and> ec_token_ids e = concat (map snd sets) \<and> ec_set_offsets e = offsets_of (map snd sets)
     \<and> (\<forall>k i. map_of (ec_set_keys e) k = Some i \<longrightarrow> 0 \<le> i \<and> i < int (length sets) \<and> sets ! nat i = k)
     \<and> ec_positions e = map fst L \<and> stands_for sets (ec_set_indices e) L"

definition canonical :: "int \<Rightarrow> mask_entry list \<Rightarrow> mask_entry list" where
  "canonical seq_len es = map (\<lambda>(p, m, ids). (p, m, sort ids)) (filter (\<lambda>(p, m, ids). p < seq_len \<and> ids \<noteq> []) es)"

lemma offsets_of_append: "offsets_of (xss @ [ys]) = offsets_of xss @ [int (length (concat (xss @ [ys])))]"
  by (simp add: offsets_of_def)

lemma stands_for_more: "stands_for sets is L \<Longrightarrow> stands_for (sets @ zs) is L"
  unfolding stands_for_def by (erule list_all2_mono) (auto simp: nth_append)

lemma intern_set_encodes:
  assumes "encodes e sets L" "intern_set m ids e = (i, e')"
  shows "\<exists>sets'. encodes e' sets' L \<and> 0 \<le> i \<and> i < int (length sets') \<and> sets' ! nat i = (m, ids)"
proof (cases "map_of (ec_set_keys e) (m, ids)")
  case (Some j)
  with assms show ?thesis by (intro exI [of _ sets]) (auto simp: intern_set_def encodes_def)
next
  case None
  let ?sets = "sets @ [(m, ids)]"
  have i: "i = int (length sets)" and e': "e' = e\<lparr>ec_set_keys := AList.update (m, ids) (int (length sets)) (ec_set_keys e),
      ec_set_modes_allow := map fst ?sets, ec_token_ids := concat (map snd ?sets), ec_set_offsets := offsets_of (map snd ?sets)\<rparr>"
    using assms None by (auto simp: intern_set_def encodes_def Let_def offsets_of_append)
  have "0 \<le> j \<and> j < int (length ?sets) \<and> ?sets ! nat j = k" if "map_of (ec_set_keys e') k = Some j" for k j
  proof (cases "k = (m, ids)")
    case False
    then have "map_of (ec_set_keys e) k = Some j" using that by (simp add: e' map_of_update)
    moreover have "\<forall>k i. map_of (ec_set_keys e) k = Some i \<longrightarrow> 0 \<le> i \<and> i < int (length sets) \<and> sets ! nat i = k"
      using assms(1) unfolding encodes_def by (elim conjE)
    ultimately have "0 \<le> j" "j < int (length sets)" "sets ! nat j = k" by blast+
    then show ?thesis using nth_append [of sets "[(m, ids)]" "nat j"] by (simp add: nat_less_iff)
  qed (use that in \<open>auto simp: e' map_of_update nth_append\<close>)
  then have "encodes e' ?sets L"
    using assms(1) unfolding encodes_def by (simp add: e' stands_for_more)
  with i show ?thesis by (intro exI [of _ ?sets]) (simp add: nth_append)
qed

lemma encode_entry_encodes:
  assumes "encodes e sets L"
  shows "\<exists>sets'. encodes (encode_entry seq_len en e) sets' (L @ canonical seq_len [en])"
proof -
  obtain p m ids where en: "en = (p, m, ids)" by (cases en) auto
  show ?thesis
  proof (cases "seq_len \<le> p \<or> ids = []")
    case True
    with assms show ?thesis by (auto simp: en encode_entry_def canonical_def)
  next
    case False
    obtain i e' where ie: "intern_set m (sort ids) e = (i, e')" by fastforce
    from intern_set_encodes [OF assms ie] obtain sets' where s: "encodes e' sets' L" "0 \<le> i" "i < int (length sets')"
      "sets' ! nat i = (m, sort ids)" by blast
    have "encode_entry seq_len en e = add_position p i e'" using False ie by (auto simp: en encode_entry_def)
    moreover have "encodes (add_position p i e') sets' (L @ [(p, m, sort ids)])"
      using s by (simp add: encodes_def add_position_def stands_for_def list_all2_appendI)
    ultimately show ?thesis using False by (auto simp: en canonical_def)
  qed
qed

lemma canonical_append: "canonical seq_len (xs @ ys) = canonical seq_len xs @ canonical seq_len ys"
  by (simp add: canonical_def)

lemma encode_all_encodes:
  "encodes e sets L \<Longrightarrow> \<exists>sets'. encodes (fold (encode_entry seq_len) es e) sets' (L @ canonical seq_len es)"
proof (induction es arbitrary: e sets L)
  case (Cons en es)
  from encode_entry_encodes [OF Cons.prems] obtain sets' where
    "encodes (encode_entry seq_len en e) sets' (L @ canonical seq_len [en])" by blast
  from Cons.IH [OF this] show ?case using canonical_append [of seq_len "[en]" es] by simp
qed (auto simp: canonical_def)

lemma new_encoder_encodes: "encodes new_encoder [] []"
  by (simp add: encodes_def new_encoder_def offsets_of_def stands_for_def)

section \<open>Decoding gives back the entries\<close>

lemma concat_slice:
  assumes "k < length xss"
  shows "take (length (concat (take (Suc k) xss)) - length (concat (take k xss))) (drop (length (concat (take k xss))) (concat xss)) = xss ! k"
proof -
  have split: "concat xss = concat (take k xss) @ xss ! k @ concat (drop (Suc k) xss)"
    using assms by (metis concat.simps(2) concat_append id_take_nth_drop)
  moreover have "concat (take (Suc k) xss) = concat (take k xss) @ xss ! k"
    using assms by (simp add: take_Suc_conv_app_nth)
  ultimately show ?thesis by simp
qed

lemma concat_take_length: "length (concat (take k xss)) \<le> length (concat xss)"
  by (metis append_take_drop_id concat_append le_add1 length_append)

lemma py_slice_offsets:
  assumes "k < length xss"
  shows "py_slice (concat xss) (int (length (concat (take k xss)))) (int (length (concat (take (Suc k) xss)))) = xss ! k"
  using concat_slice [OF assms] concat_take_length [of k xss] concat_take_length [of "Suc k" xss]
  by (simp add: py_slice_def py_bound_def)

lemma zip_offsets:
  "zip (butlast (offsets_of xss)) (tl (offsets_of xss))
     = map (\<lambda>k. (int (length (concat (take k xss))), int (length (concat (take (Suc k) xss))))) [0..<length xss]"
  by (rule nth_equalityI) (simp_all add: offsets_of_def nth_butlast nth_tl nth_append del: upt_Suc)

lemma interned_sets:
  assumes "am_token_ids m = concat xss" "am_set_offsets m = offsets_of xss"
  shows "interned_token_id_sets m = xss"
proof -
  have "interned_token_id_sets m = map (\<lambda>k. xss ! k) [0..<length xss]"
    unfolding interned_token_id_sets_def assms zip_offsets by (simp add: py_slice_offsets)
  then show ?thesis by (simp add: map_nth)
qed

lemma py_index_nth: "0 \<le> i \<Longrightarrow> i < int (length xs) \<Longrightarrow> py_index xs i = Inr (xs ! nat i)"
  by (simp add: py_index_def)

lemma decode_entries_stands_for:
  assumes "am_set_modes_allow m = map fst sets" "interned_token_id_sets m = map snd sets"
  shows "stands_for sets is L \<Longrightarrow> decode_entries m (zip (map fst L) is) = Inr L"
  unfolding stands_for_def
proof (induction "is" L rule: list_all2_induct)
  case (Cons i "is" en L)
  then have "nat i < length sets" by linarith
  with Cons show ?case by (cases en) (auto simp: assms py_index_nth)
qed simp

lemma check_masks_same: "check_masks m = Inr m' \<Longrightarrow> m' = m"
  by (simp add: check_masks_def split: if_splits)

lemma encoded_decodes:
  assumes "encodes e sets L" "encoded seq_len voc e = Inr r"
  shows "action_mask_entries r = Inr L"
proof (cases "ec_positions e = []")
  case True
  with assms show ?thesis by (simp add: encoded_def encodes_def action_mask_entries_def)
next
  case False
  let ?m = "\<lparr>am_seq_len = seq_len, am_vocab_size = voc, am_positions = ec_positions e, am_set_indices = ec_set_indices e,
    am_set_modes_allow = ec_set_modes_allow e, am_set_offsets = ec_set_offsets e, am_token_ids = ec_token_ids e\<rparr>"
  from False assms(2) obtain m' where "check_masks ?m = Inr m'" "r = Some m'"
    by (cases "check_masks ?m") (auto simp: encoded_def)
  with check_masks_same have r: "r = Some ?m" "check_masks ?m = Inr ?m" by auto
  have "interned_token_id_sets ?m = map snd sets"
    by (rule interned_sets) (use assms(1) in \<open>simp_all add: encodes_def\<close>)
  then have "decode_entries ?m (zip (map fst L) (ec_set_indices e)) = Inr L"
    by (intro decode_entries_stands_for [of _ sets]) (use assms(1) in \<open>simp_all add: encodes_def\<close>)
  with r assms(1) show ?thesis by (simp add: action_mask_entries_def encodes_def)
qed

lemma masks_round_trip_entries:
  assumes "action_masks_from_entries seq_len vocab_size es = Inr r"
  shows "action_mask_entries r = Inr (canonical seq_len (sort_key fst es))"
proof -
  obtain sets where "encodes (fold (encode_entry seq_len) (sort_key fst es) new_encoder) sets ([] @ canonical seq_len (sort_key fst es))"
    using encode_all_encodes [OF new_encoder_encodes] by blast
  then show ?thesis using assms encoded_decodes by (simp add: action_masks_from_entries_def)
qed

section \<open>Bit masks\<close>

definition allows_bit :: "bitmask \<Rightarrow> nat \<Rightarrow> bool" where
  "allows_bit ws t = bit (ws ! (t div 32)) (t mod 32)"

lemma length_unpackbits [simp]: "length (unpackbits ws) = 32 * length ws"
  by (induction ws) (simp_all add: unpackbits_def)

lemma unpackbits_nth: "t < 32 * length ws \<Longrightarrow> unpackbits ws ! t = allows_bit ws t"
proof (induction ws arbitrary: t)
  case (Cons w ws)
  have u: "unpackbits (w # ws) = map (bit w) [0..<32] @ unpackbits ws" by (simp add: unpackbits_def)
  show ?case
  proof (cases "t < 32")
    case True
    then show ?thesis by (simp add: u nth_append allows_bit_def)
  next
    case False
    then have "unpackbits (w # ws) ! t = unpackbits ws ! (t - 32)" by (simp add: u nth_append)
    also have "\<dots> = allows_bit ws (t - 32)" using Cons.prems False by (intro Cons.IH) simp
    also have "\<dots> = allows_bit (w # ws) t" using False by (simp add: allows_bit_def le_div_geq le_mod_geq not_less)
    finally show ?thesis .
  qed
qed simp

lemma enumerate_filter_set:
  "set (map (\<lambda>(i, b). int i) (filter (\<lambda>(i, b). b = want) (enumerate 0 bs))) = {int i |i. i < length bs \<and> bs ! i = want}"
  by (force simp: in_set_enumerate_eq)

lemma token_ids_from_words_set:
  assumes "voc \<le> 32 * length ws"
  shows "set (token_ids_from_words ws voc want) = {int t |t. t < voc \<and> allows_bit ws t = want}"
  unfolding token_ids_from_words_def enumerate_filter_set using assms by (auto simp: unpackbits_nth)

text \<open>An entry says of every token of the vocabulary whether its bit is set; no entry says all are.\<close>

fun entry_allows :: "mask_entry option \<Rightarrow> int \<Rightarrow> bool" where
  "entry_allows None t = True"
| "entry_allows (Some (p, mode, ids)) t = ((t \<in> set ids) = mode)"

lemma all_filtered: "length (filter id bs) = length bs \<Longrightarrow> i < length bs \<Longrightarrow> bs ! i"
  using length_filter_less [OF nth_mem, of i bs id] by auto

lemma some_filtered: "length (filter id bs) \<noteq> length bs \<Longrightarrow> \<exists>i<length bs. \<not> bs ! i"
proof (rule ccontr)
  assume n: "length (filter id bs) \<noteq> length bs" and "\<not> (\<exists>i<length bs. \<not> bs ! i)"
  then have "\<forall>b\<in>set bs. id b" by (auto simp: in_set_conv_nth)
  then show False using n by (simp add: filter_True)
qed

lemma mask_set_allows:
  assumes "mask_set_from_words ws voc = Inr (mode, ids)" "voc \<le> 32 * length ws" "t < voc"
  shows "allows_bit ws t = entry_allows (if ids = [] then None else Some (p, mode, ids)) (int t)"
proof -
  let ?bs = "take voc (unpackbits ws)"
  let ?n = "length (filter id ?bs)"
  have len: "length ?bs = voc" using assms(2) by simp
  have nth: "?bs ! i = allows_bit ws i" if "i < voc" for i using that assms(2) by (simp add: unpackbits_nth)
  have pos: "0 < ?n" using assms(1) by (auto simp: mask_set_from_words_def Let_def split: if_splits)
  show ?thesis
  proof (cases "?n = voc")
    case True
    have "?bs ! t" by (rule all_filtered) (use True len assms(3) in simp_all)
    then have "allows_bit ws t" using nth assms(3) by simp
    moreover have "ids = []" using assms(1) True by (simp add: mask_set_from_words_def Let_def split: if_splits)
    ultimately show ?thesis by simp
  next
    case False
    then have ids: "set ids = {int u |u. u < voc \<and> allows_bit ws u = mode}"
      using assms(1) token_ids_from_words_set [OF assms(2)] by (auto simp: mask_set_from_words_def Let_def split: if_splits)
    have "\<exists>u<voc. allows_bit ws u = mode"
    proof (cases mode)
      case True
      obtain b where "b \<in> set (filter id ?bs)" using pos by (cases "filter id ?bs") auto
      then obtain u where "u < voc" "?bs ! u" using len by (auto simp: in_set_conv_nth)
      then show ?thesis using True nth by auto
    next
      case m: False
      obtain u where "u < voc" "\<not> ?bs ! u" using some_filtered [of ?bs] False len by auto
      then show ?thesis using m nth by auto
    qed
    then have "ids \<noteq> []" using ids by auto
    then show ?thesis using ids assms(3) by auto
  qed
qed

lemma clear_padding_bits:
  assumes "clear_padding voc ws = Inr ns" "voc \<le> 32 * length ws" "32 * length ws < voc + 32" "t < voc"
  shows "length ns = length ws \<and> allows_bit ns t = allows_bit ws t"
proof (cases "voc mod 32 = 0")
  case True
  then show ?thesis using assms(1) by (simp add: clear_padding_def)
next
  case False
  then have ne: "ws \<noteq> []" and ns: "ns = ws[length ws - 1 := last ws AND Bit_Operations.mask (voc mod 32)]"
    using assms(1) by (auto simp: clear_padding_def split: if_splits)
  have "allows_bit ns t = allows_bit ws t"
  proof (cases "t div 32 = length ws - 1")
    case True
    have "voc div 32 = k" if "voc \<le> 32 + 32 * k" "32 * k < voc" "voc mod 32 \<noteq> 0" for k
    proof -
      have "voc div 32 * 32 + voc mod 32 = voc" "voc mod 32 < 32" "0 < voc mod 32" using that(3) by simp_all
      then have "voc div 32 < k + 1" "k < voc div 32 + 1" using that(1,2) by linarith+
      then show ?thesis by simp
    qed
    then have "voc div 32 = length ws - 1" using assms(2,3) False ne by (cases "length ws") simp_all
    then have "t mod 32 < voc mod 32"
      using True assms(4) div_mult_mod_eq [of t 32] div_mult_mod_eq [of voc 32] by simp
    moreover have "ws ! (length ws - 1) = last ws" using ne by (simp add: last_conv_nth)
    ultimately show ?thesis using ne True by (simp add: ns allows_bit_def bit_and_iff bit_mask_iff)
  qed (simp add: ns allows_bit_def)
  then show ?thesis by (simp add: ns)
qed

lemma entry_from_words_allows:
  assumes "entry_from_bitmask_words ws p voc = Inr en" "voc \<le> 32 * length ws" "32 * length ws < voc + 32" "t < voc"
  shows "allows_bit ws t = entry_allows en (int t)"
proof -
  obtain ns mode ids where ns: "clear_padding voc ws = Inr ns" and ids: "mask_set_from_words ns voc = Inr (mode, ids)"
    and en: "en = (if ids = [] then None else Some (p, mode, ids))"
    using assms(1) by (auto simp: entry_from_bitmask_words_def split: sum.splits)
  note c = clear_padding_bits [OF ns assms(2-4)]
  have "allows_bit ns t = entry_allows en (int t)"
    unfolding en by (rule mask_set_allows [OF ids _ assms(4)]) (use c assms(2) in simp)
  with c show ?thesis by simp
qed

section \<open>The replay records what the grammar allows\<close>

fun state_after :: "'s matcher \<Rightarrow> 's \<Rightarrow> int list \<Rightarrow> 's option" where
  "state_after G s [] = Some s"
| "state_after G s (t # ts) = (case gm_accept G s t of None \<Rightarrow> None | Some s' \<Rightarrow> state_after G s' ts)"

text \<open>The matcher fills as many words as the vocabulary needs.\<close>

definition fills :: "'s matcher \<Rightarrow> nat \<Rightarrow> bool" where
  "fills G vocab_size \<longleftrightarrow> (\<forall>s. vocab_size \<le> 32 * length (gm_fill G s) \<and> 32 * length (gm_fill G s) < vocab_size + 32)"

definition masks_allow :: "mask_entry list \<Rightarrow> int \<Rightarrow> int \<Rightarrow> bool" where
  "masks_allow es p t = entry_allows (map_option (Pair p) (map_of es p)) t"

definition opt_list :: "'a option list \<Rightarrow> 'a list" where
  "opt_list xs = concat (map (\<lambda>x. case x of None \<Rightarrow> [] | Some y \<Rightarrow> [y]) xs)"

lemma opt_list_simps [simp]: "opt_list [] = []" "opt_list (None # xs) = opt_list xs" "opt_list (Some y # xs) = y # opt_list xs"
  by (simp_all add: opt_list_def)

lemma replay_loop_entries:
  "replay_loop G voc steps s es0 = Inr es \<Longrightarrow>
   \<exists>ens. length ens = length steps \<and> es = es0 @ opt_list ens
     \<and> (\<forall>j<length steps. \<exists>u. state_after G s (map snd (take j steps)) = Some u
          \<and> entry_from_bitmask_words (gm_fill G u) (fst (steps ! j)) voc = Inr (ens ! j))"
proof (induction G voc steps s es0 rule: replay_loop.induct)
  case (2 G voc position token rest s es0)
  from 2(2) obtain en s' where en: "entry_from_bitmask_words (gm_fill G s) position voc = Inr en"
    and s': "gm_accept G s token = Some s'" and tok: "\<not> int voc \<le> token"
    and rest: "replay_loop G voc rest s' (es0 @ (case en of None \<Rightarrow> [] | Some x \<Rightarrow> [x])) = Inr es"
    by (auto split: if_splits sum.splits option.splits)
  from 2(1) [OF tok en s' rest] obtain ens where ens: "length ens = length rest"
    "es = (es0 @ (case en of None \<Rightarrow> [] | Some x \<Rightarrow> [x])) @ opt_list ens"
    "\<forall>j<length rest. \<exists>u. state_after G s' (map snd (take j rest)) = Some u
       \<and> entry_from_bitmask_words (gm_fill G u) (fst (rest ! j)) voc = Inr (ens ! j)"
    by blast
  show ?case
  proof (intro exI [of _ "en # ens"] conjI allI impI)
    show "es = es0 @ opt_list (en # ens)" using ens(2) by (cases en) simp_all
    fix j assume j: "j < length ((position, token) # rest)"
    show "\<exists>u. state_after G s (map snd (take j ((position, token) # rest))) = Some u
       \<and> entry_from_bitmask_words (gm_fill G u) (fst (((position, token) # rest) ! j)) voc = Inr ((en # ens) ! j)"
      using en s' ens(3) j by (cases j) auto
  qed (simp add: ens(1))
qed auto

lemma entry_position: "entry_from_bitmask_words ws p voc = Inr (Some (q, mode, ids)) \<Longrightarrow> q = p \<and> ids \<noteq> []"
  by (auto simp: entry_from_bitmask_words_def split: sum.splits if_splits)

text \<open>Entries at increasing positions: the list is sorted and looking one up finds the entry of that step.\<close>

lemma opt_list_lookup:
  fixes ps :: "'p::linorder list"
  assumes "length ens = length ps" "sorted_wrt (<) ps" "\<forall>j<length ps. \<forall>q v. ens ! j = Some (q, v) \<longrightarrow> q = ps ! j"
  shows "sorted_wrt (<) (map fst (opt_list ens)) \<and> set (map fst (opt_list ens)) \<subseteq> set ps
    \<and> (\<forall>j<length ps. map_of (opt_list ens) (ps ! j) = map_option snd (ens ! j))"
  using assms
proof (induction ens ps rule: list_induct2)
  case (Cons en ens p ps)
  have sub: "\<forall>j<length ps. \<forall>q v. ens ! j = Some (q, v) \<longrightarrow> q = ps ! j"
    using Cons.prems(2) by (metis Suc_less_eq length_Cons nth_Cons_Suc)
  have IH: "sorted_wrt (<) (map fst (opt_list ens))" "set (map fst (opt_list ens)) \<subseteq> set ps"
    "\<forall>j<length ps. map_of (opt_list ens) (ps ! j) = map_option snd (ens ! j)"
    using Cons.IH Cons.prems(1) sub by simp_all
  have less: "\<forall>q\<in>set ps. p < q" using Cons.prems(1) by simp
  show ?case
  proof (cases en)
    case None
    have "p \<notin> fst ` set (opt_list ens)"
    proof
      assume "p \<in> fst ` set (opt_list ens)"
      then have "p \<in> set ps" using IH(2) by auto
      then show False using less by auto
    qed
    then have "map_of (opt_list ens) p = None" by (simp add: map_of_eq_None_iff)
    then show ?thesis using None IH by (auto simp: nth_Cons split: nat.splits)
  next
    case (Some x)
    obtain q v where x: "x = (q, v)" by fastforce
    with Some Cons.prems(2) have q: "q = p" by force
    have "ps ! j \<noteq> p" if "j < length ps" for j using less that nth_mem by blast
    then show ?thesis using Some x q IH less by (auto simp: nth_Cons split: nat.splits)
  qed
qed simp

lemma sorted_sort_key: "sorted (map fst es) \<Longrightarrow> sort_key fst es = es"
  by (rule sort_key_id_if_sorted)

lemma canonical_lookup:
  assumes "list_all (\<lambda>(p, m, ids). p < seq_len \<and> ids \<noteq> []) es"
  shows "map_of (canonical seq_len es) p = map_option (\<lambda>(m, ids). (m, sort ids)) (map_of es p)"
proof -
  have "canonical seq_len es = map (\<lambda>(p, m, ids). (p, m, sort ids)) es"
    using assms by (simp add: canonical_def list_all_iff filter_True)
  moreover have "map_of (map (\<lambda>(p, m, ids). (p, m, sort ids)) es) p = map_option (\<lambda>(m, ids). (m, sort ids)) (map_of es p)"
    by (induction es) auto
  ultimately show ?thesis by simp
qed

lemma masks_allow_canonical:
  "list_all (\<lambda>(p, m, ids). p < seq_len \<and> ids \<noteq> []) es \<Longrightarrow> masks_allow (canonical seq_len es) p t = masks_allow es p t"
  by (cases "map_of es p") (auto simp: masks_allow_def canonical_lookup)

lemma empty_masks_entries: "action_mask_entries (Some (empty_action_masks n v)) = Inr []"
  by (simp add: action_mask_entries_def check_masks_def empty_action_masks_def)

text \<open>The positions of a span with their tokens.\<close>

definition span_steps :: "nat \<Rightarrow> int list \<Rightarrow> nat \<Rightarrow> nat \<Rightarrow> (int \<times> int) list" where
  "span_steps prompt_len completion start stop = map (\<lambda>i. (int (prompt_len + i), completion ! i)) [start..<stop]"

lemma span_steps_tokens:
  assumes "stop \<le> length completion" "start \<le> i" "i \<le> stop"
  shows "map snd (take (i - start) (span_steps prompt_len completion start stop)) = take (i - start) (drop start completion)"
  using assms by (intro nth_equalityI) (auto simp: span_steps_def)

lemma span_positions_sorted: "sorted_wrt (<) (map fst (span_steps prompt_len completion start stop))"
  by (simp add: span_steps_def comp_def sorted_wrt_map sorted_wrt_upt)

text \<open>The tokens that the grammar allows at index \<open>i\<close> of the completion, after the tokens of the span before it.\<close>

definition grammar_allows :: "'s matcher \<Rightarrow> 's \<Rightarrow> int list \<Rightarrow> nat \<Rightarrow> nat \<Rightarrow> nat \<Rightarrow> bool" where
  "grammar_allows G s0 completion start i t \<longleftrightarrow>
     (\<exists>u. state_after G s0 (take (i - start) (drop start completion)) = Some u \<and> allows_bit (gm_fill G u) t)"

lemma replay_allows:
  assumes "replay_loop G voc (span_steps plen cpl start stop) s0 [] = Inr es" "fills G voc" "stop \<le> length cpl"
  shows "sorted_wrt (<) (map fst es) \<and> list_all (\<lambda>(p, m, ids). p < int (plen + stop) \<and> int (plen + start) \<le> p \<and> ids \<noteq> []) es
    \<and> (\<forall>i t. start \<le> i \<longrightarrow> i < stop \<longrightarrow> t < voc \<longrightarrow> masks_allow es (int (plen + i)) (int t) = grammar_allows G s0 cpl start i t)"
proof -
  let ?steps = "span_steps plen cpl start stop"
  from replay_loop_entries [OF assms(1)] obtain ens where ens: "length ens = length ?steps" "es = opt_list ens"
    and step: "\<And>j. j < length ?steps \<Longrightarrow> \<exists>u. state_after G s0 (map snd (take j ?steps)) = Some u
       \<and> entry_from_bitmask_words (gm_fill G u) (fst (?steps ! j)) voc = Inr (ens ! j)"
    by auto
  have len: "length ?steps = stop - start" by (simp add: span_steps_def)
  have pos: "q = map fst ?steps ! j \<and> snd v \<noteq> []" if j: "j < length ?steps" and en: "ens ! j = Some (q, v)" for j q v
  proof -
    obtain u where "entry_from_bitmask_words (gm_fill G u) (fst (?steps ! j)) voc = Inr (Some (q, v))"
      using step [OF j] en by auto
    then show ?thesis using entry_position [of _ _ _ q "fst v" "snd v"] j by simp
  qed
  have prem: "\<forall>j<length (map fst ?steps). \<forall>q v. ens ! j = Some (q, v) \<longrightarrow> q = map fst ?steps ! j"
    using pos by (simp del: split_paired_All)
  have "length ens = length (map fst ?steps)" using ens(1) by simp
  note all = opt_list_lookup [OF this span_positions_sorted prem, folded ens(2)]
  have look: "sorted_wrt (<) (map fst es)" "set (map fst es) \<subseteq> set (map fst ?steps)"
    "\<And>j. j < length ?steps \<Longrightarrow> map_of es (map fst ?steps ! j) = map_option snd (ens ! j)"
    using all by (simp_all del: set_map)
  have "snd v \<noteq> []" if "(p, v) \<in> set es" for p v
  proof -
    from that obtain j where "j < length ?steps" "ens ! j = Some (p, v)"
      using ens by (auto simp: opt_list_def in_set_conv_nth split: option.splits)
    then show ?thesis using pos by blast
  qed
  moreover have "p < int (plen + stop) \<and> int (plen + start) \<le> p" if "(p, v) \<in> set es" for p v
  proof -
    have "p \<in> set (map fst ?steps)" using look(2) that by force
    then show ?thesis by (auto simp: span_steps_def)
  qed
  ultimately have "list_all (\<lambda>(p, m, ids). p < int (plen + stop) \<and> int (plen + start) \<le> p \<and> ids \<noteq> []) es"
    by (fastforce simp: list_all_iff)
  moreover have "masks_allow es (int (plen + i)) (int t) = grammar_allows G s0 cpl start i t"
    if i: "start \<le> i" "i < stop" and t: "t < voc" for i t
  proof -
    let ?j = "i - start"
    have j: "?j < length ?steps" "map fst ?steps ! ?j = int (plen + i)" using i len by (auto simp: span_steps_def)
    from step [OF j(1)] obtain u where u: "state_after G s0 (map snd (take ?j ?steps)) = Some u"
      "entry_from_bitmask_words (gm_fill G u) (fst (?steps ! ?j)) voc = Inr (ens ! ?j)" by blast
    have "allows_bit (gm_fill G u) t = entry_allows (ens ! ?j) (int t)"
      by (rule entry_from_words_allows [OF u(2) _ _ t]) (use assms(2) in \<open>simp_all add: fills_def\<close>)
    moreover have "grammar_allows G s0 cpl start i t = allows_bit (gm_fill G u) t"
      using u(1) span_steps_tokens [OF assms(3) i(1), of plen] i(2) by (simp add: grammar_allows_def)
    moreover have "masks_allow es (int (plen + i)) (int t) = entry_allows (ens ! ?j) (int t)"
      using look(3) [OF j(1)] j(2) by (cases "ens ! ?j") (auto simp: masks_allow_def)
    ultimately show ?thesis by simp
  qed
  ultimately show ?thesis using look(1) by blast
qed

lemma encoded_vocab: "encoded seq_len voc e = Inr (Some m) \<Longrightarrow> am_vocab_size m = voc"
  by (cases "ec_positions e = []") (auto simp: encoded_def check_masks_def split: if_splits)

text \<open>
  The masks of a replayed completion: entries lie in the span, in order, and say of each of its positions
  exactly which tokens the grammar allowed there.
\<close>

lemma replay_masks_entries:
  assumes "build_action_masks G s0 voc plen cpl start stop = Inr m" "fills G voc" "stop \<le> length cpl"
  shows "\<exists>es. action_mask_entries (Some m) = Inr es \<and> am_vocab_size m = int voc
    \<and> list_all (\<lambda>(p, a, ids). int (plen + start) \<le> p \<and> p < int (plen + stop)) es
    \<and> (\<forall>i t. start \<le> i \<longrightarrow> i < stop \<longrightarrow> t < voc \<longrightarrow> masks_allow es (int (plen + i)) (int t) = grammar_allows G s0 cpl start i t)"
proof (cases "cpl = [] \<or> stop \<le> start")
  case True
  then have "m = empty_action_masks (int (plen + length cpl)) (int voc)"
    using assms(1) by (auto simp: build_action_masks_def)
  then show ?thesis
    using empty_masks_entries assms(3) True by (auto simp: empty_action_masks_def)
next
  case False
  let ?n = "int (plen + length cpl)"
  from assms(1) False obtain es r where es: "replay_loop G voc (span_steps plen cpl start stop) s0 [] = Inr es"
    and r: "action_masks_from_entries ?n (int voc) es = Inr r" and m: "m = (case r of None \<Rightarrow> empty_action_masks ?n (int voc) | Some m' \<Rightarrow> m')"
    by (auto simp: build_action_masks_def Let_def span_steps_def simp del: of_nat_add split: sum.splits)
  note rep = replay_allows [OF es assms(2,3)]
  have es_ok: "list_all (\<lambda>(p, m, ids). p < ?n \<and> ids \<noteq> []) es" using rep assms(3) by (auto simp: list_all_iff)
  have "sorted (map fst es)" using rep by (simp add: strict_sorted_iff)
  then have "action_mask_entries r = Inr (canonical ?n es)" using masks_round_trip_entries [OF r] by (simp add: sorted_sort_key)
  moreover have "action_mask_entries (Some m) = action_mask_entries r"
    using m calculation empty_masks_entries by (cases r) (auto simp: action_mask_entries_def)
  moreover have "am_vocab_size m = int voc"
    using m r encoded_vocab by (cases r) (auto simp: empty_action_masks_def action_masks_from_entries_def)
  moreover have "list_all (\<lambda>(p, a, ids). int (plen + start) \<le> p \<and> p < int (plen + stop)) (canonical ?n es)"
    using rep by (auto simp: canonical_def list_all_iff)
  ultimately show ?thesis using rep masks_allow_canonical [OF es_ok] by (intro exI [of _ "canonical ?n es"]) simp
qed

end
