(* ===== verification/Lm_Head_Masks.thy ===== *)
theory Lm_Head_Masks
  imports Action_Masks
begin

text \<open>
  The trainer's side of action masks (\<open>model/implementations/gpu/action_masks.py\<close>):
  expanding the table of sets into pairs of source position and token, and masking a tile of
  the logits. The logits at a position score the token after it, so a constraint on target position \<open>p\<close> applies at source position \<open>p - 1\<close>.

  Tensors of integers are lists; a tile is a list of rows. A masked score is \<open>Masked\<close> (minus infinity).
\<close>

section \<open>Tensor operations\<close>

definition select_index :: "'a list \<Rightarrow> int list \<Rightarrow> 'a list res" where
  "select_index xs is =
     (if list_all (\<lambda>i. 0 \<le> i \<and> i < int (length xs)) is then Inr (map (\<lambda>i. xs ! nat i) is) else Inl IndexError)"

definition interleave_by :: "'a list \<Rightarrow> int list \<Rightarrow> 'a list" where
  "interleave_by xs ns = concat (map (\<lambda>(x, n). replicate (nat n) x) (zip xs ns))"

definition cumsum :: "int list \<Rightarrow> int list" where
  "cumsum xs = map (\<lambda>k. sum_list (take (Suc k) xs)) [0..<length xs]"

text \<open>Selection with a boolean tensor.\<close>

definition select :: "'a list \<Rightarrow> bool list \<Rightarrow> 'a list" where
  "select xs bs = map fst (filter snd (zip xs bs))"

text \<open>\<open>searchsorted\<close> on an ascending tensor: how many elements are below the value.\<close>

definition searchsorted :: "int list \<Rightarrow> int \<Rightarrow> nat" where
  "searchsorted xs v = length (takeWhile (\<lambda>x. x < v) xs)"

definition slice_between :: "nat \<Rightarrow> nat \<Rightarrow> 'a list \<Rightarrow> 'a list" where
  "slice_between a b xs = take (b - a) (drop a xs)"

section \<open>Masks for the LM head\<close>

record lm_masks =
  lm_source_positions :: "int list"
  lm_set_indices :: "int list"
  lm_set_modes_allow :: "bool list"
  lm_set_offsets :: "int list"
  lm_token_ids :: "int list"
  lm_vocab_size :: int
  lm_allow_source_positions :: "int list"
  lm_allow_pair_source_positions :: "int list"
  lm_allow_pair_token_ids :: "int list"
  lm_deny_pair_source_positions :: "int list"
  lm_deny_pair_token_ids :: "int list"
  lm_localized :: bool

record lm_pairs =
  lp_allow_rows :: "int list"
  lp_allow_positions :: "int list"
  lp_allow_tokens :: "int list"
  lp_deny_positions :: "int list"
  lp_deny_tokens :: "int list"

definition no_pairs :: lm_pairs where
  "no_pairs = \<lparr>lp_allow_rows = [], lp_allow_positions = [], lp_allow_tokens = [], lp_deny_positions = [], lp_deny_tokens = []\<rparr>"

text \<open>The pairs of the sets with the given starts and lengths.\<close>

definition gather_pairs :: "int list \<Rightarrow> bool list \<Rightarrow> int list \<Rightarrow> int list \<Rightarrow> int list \<Rightarrow> lm_pairs res" where
  "gather_pairs source modes starts lens token_ids =
     (let pair_source = interleave_by source lens;
          pair_starts = interleave_by starts lens;
          group_starts = interleave_by (map2 (-) (cumsum lens) lens) lens;
          token_offsets = map2 (\<lambda>k g. int k - g) [0..<length pair_source] group_starts;
          pair_modes = interleave_by modes lens
      in (case select_index token_ids (map2 (+) pair_starts token_offsets) of
            Inl x \<Rightarrow> Inl x
          | Inr pair_tokens \<Rightarrow>
              Inr \<lparr>lp_allow_rows = select source modes,
                   lp_allow_positions = select pair_source pair_modes, lp_allow_tokens = select pair_tokens pair_modes,
                   lp_deny_positions = select pair_source (map Not pair_modes), lp_deny_tokens = select pair_tokens (map Not pair_modes)\<rparr>))"

text \<open>Lengths below zero, which only offsets that decrease give, make \<open>torch.repeat_interleave\<close> raise.\<close>

definition expand_pairs :: "int list \<Rightarrow> int list \<Rightarrow> bool list \<Rightarrow> int list \<Rightarrow> int list \<Rightarrow> lm_pairs res" where
  "expand_pairs source indices modes offsets token_ids =
     (if source = [] then Inr no_pairs
      else (case (select_index modes indices, select_index offsets indices, select_index offsets (map (\<lambda>i. i + 1) indices)) of
              (Inr position_modes, Inr starts, Inr ends) \<Rightarrow>
                let lens = map2 (-) ends starts
                in if list_ex (\<lambda>n. n < 0) lens then Inl RuntimeError
                   else gather_pairs source position_modes starts lens token_ids
            | (Inl x, _) \<Rightarrow> Inl x
            | (_, Inl x, _) \<Rightarrow> Inl x
            | (_, _, Inl x) \<Rightarrow> Inl x))"

definition action_masks_to_lm_head :: "masks option \<Rightarrow> lm_masks option res" where
  "action_masks_to_lm_head v =
     (case v of
        None \<Rightarrow> Inr None
      | Some m0 \<Rightarrow>
          (case check_masks m0 of
             Inl x \<Rightarrow> Inl x
           | Inr m \<Rightarrow>
               let kept = map (\<lambda>p. 0 \<le> p - 1) (am_positions m);
                   source = select (map (\<lambda>p. p - 1) (am_positions m)) kept;
                   indices = select (am_set_indices m) kept
               in (case expand_pairs source indices (am_set_modes_allow m) (am_set_offsets m) (am_token_ids m) of
                     Inl x \<Rightarrow> Inl x
                   | Inr q \<Rightarrow>
                       Inr (Some \<lparr>lm_source_positions = source, lm_set_indices = indices, lm_set_modes_allow = am_set_modes_allow m,
                         lm_set_offsets = am_set_offsets m, lm_token_ids = am_token_ids m, lm_vocab_size = am_vocab_size m,
                         lm_allow_source_positions = lp_allow_rows q, lm_allow_pair_source_positions = lp_allow_positions q,
                         lm_allow_pair_token_ids = lp_allow_tokens q, lm_deny_pair_source_positions = lp_deny_positions q,
                         lm_deny_pair_token_ids = lp_deny_tokens q, lm_localized = False\<rparr>))))"

section \<open>One tile\<close>

definition constrained_slice :: "int list \<Rightarrow> int \<Rightarrow> int \<Rightarrow> nat \<times> nat" where
  "constrained_slice xs token_start token_end = (searchsorted xs token_start, searchsorted xs token_end)"

definition empty_localized :: "lm_masks \<Rightarrow> lm_masks" where
  "empty_localized lm = lm\<lparr>lm_source_positions := [], lm_set_indices := [], lm_allow_source_positions := [],
     lm_allow_pair_source_positions := [], lm_allow_pair_token_ids := [], lm_deny_pair_source_positions := [],
     lm_deny_pair_token_ids := [], lm_localized := True\<rparr>"

text \<open>The part of an array of positions, and of one that goes with it, that falls into the tile.\<close>

definition localize :: "int \<Rightarrow> int \<Rightarrow> int list \<Rightarrow> 'a list \<Rightarrow> int list \<times> 'a list" where
  "localize token_start token_end positions xs =
     (case constrained_slice positions token_start token_end of
        (a, b) \<Rightarrow> (map (\<lambda>p. p - token_start) (slice_between a b positions), slice_between a b xs))"

definition slice_lm_head :: "lm_masks option \<Rightarrow> int \<Rightarrow> int \<Rightarrow> lm_masks option" where
  "slice_lm_head v token_start token_end =
     (case v of
        None \<Rightarrow> None
      | Some lm \<Rightarrow>
          if lm_localized lm \<or> lm_source_positions lm = [] then Some lm
          else (case constrained_slice (lm_source_positions lm) token_start token_end of
                  (a, b) \<Rightarrow>
                    if a = b then Some (empty_localized lm)
                    else
                      (case (localize token_start token_end (lm_source_positions lm) (lm_set_indices lm),
                             localize token_start token_end (lm_allow_source_positions lm) (lm_allow_source_positions lm),
                             localize token_start token_end (lm_allow_pair_source_positions lm) (lm_allow_pair_token_ids lm),
                             localize token_start token_end (lm_deny_pair_source_positions lm) (lm_deny_pair_token_ids lm)) of
                         ((src, idx), (arows, _), (apos, atok), (dpos, dtok)) \<Rightarrow>
                           Some (lm\<lparr>lm_source_positions := src, lm_set_indices := idx, lm_allow_source_positions := arows,
                             lm_allow_pair_source_positions := apos, lm_allow_pair_token_ids := atok,
                             lm_deny_pair_source_positions := dpos, lm_deny_pair_token_ids := dtok, lm_localized := True\<rparr>))))"

datatype score = Masked | Score rat

type_synonym tile = "score list list"

definition cell :: "tile \<Rightarrow> nat \<Rightarrow> nat \<Rightarrow> score" where
  "cell T r c = T ! r ! c"

fun write_cells :: "((nat \<times> nat) \<times> score) list \<Rightarrow> tile \<Rightarrow> tile" where
  "write_cells [] T = T"
| "write_cells (((r, c), v) # ws) T = write_cells ws (T[r := (T ! r)[c := v]])"

text \<open>Rows from a column on.\<close>

definition mask_rows :: "int list \<Rightarrow> nat \<Rightarrow> tile \<Rightarrow> tile" where
  "mask_rows rows from T = fold (\<lambda>r U. U[nat r := take from (U ! nat r) @ replicate (length (U ! nat r) - from) Masked]) rows T"

text \<open>The cells of the pairs whose token lies in the vocabulary window.\<close>

definition pair_cells :: "int list \<Rightarrow> int list \<Rightarrow> int \<Rightarrow> int \<Rightarrow> (nat \<times> nat) list" where
  "pair_cells positions tokens vocab_start vocab_end =
     map (\<lambda>(r, t). (nat r, nat (t - vocab_start))) (filter (\<lambda>(r, t). vocab_start \<le> t \<and> t < vocab_end) (zip positions tokens))"

definition apply_local :: "lm_masks \<Rightarrow> int \<Rightarrow> int \<Rightarrow> tile \<Rightarrow> tile" where
  "apply_local lm vocab_start vocab_end T =
     (let invalid = max vocab_start (lm_vocab_size lm);
          T1 = (if invalid < vocab_end then mask_rows (lm_source_positions lm) (nat (invalid - vocab_start)) T else T);
          cells = pair_cells (lm_allow_pair_source_positions lm) (lm_allow_pair_token_ids lm) vocab_start vocab_end;
          values = map (\<lambda>(r, c). cell T1 r c) cells;
          T2 = write_cells (zip cells values) (mask_rows (lm_allow_source_positions lm) 0 T1);
          denied = pair_cells (lm_deny_pair_source_positions lm) (lm_deny_pair_token_ids lm) vocab_start vocab_end
      in write_cells (map (\<lambda>rc. (rc, Masked)) denied) T2)"

definition apply_lm_head :: "lm_masks option \<Rightarrow> int \<Rightarrow> int \<Rightarrow> int \<Rightarrow> tile \<Rightarrow> tile" where
  "apply_lm_head v token_start vocab_start vocab_end T =
     (case v of
        None \<Rightarrow> T
      | Some lm \<Rightarrow>
          if lm_source_positions lm = [] then T
          else if lm_localized lm then apply_local lm vocab_start vocab_end T
          else (case slice_lm_head (Some lm) token_start (token_start + int (length T)) of
                  None \<Rightarrow> T
                | Some l \<Rightarrow> if lm_source_positions l = [] then T else apply_local l vocab_start vocab_end T))"

section \<open>Expanded pairs\<close>

text \<open>The pairs of the entries with a given mode, and the lists that masks for the LM head hold of entries.\<close>

definition mode_pairs :: "bool \<Rightarrow> mask_entry list \<Rightarrow> (int \<times> int) list" where
  "mode_pairs b S = concat (map (\<lambda>(p, m, ids). if m = b then map (Pair p) ids else []) S)"

definition represents :: "lm_masks \<Rightarrow> mask_entry list \<Rightarrow> int \<Rightarrow> bool" where
  "represents lm S voc \<longleftrightarrow>
     lm_source_positions lm = map fst S \<and> lm_vocab_size lm = voc
     \<and> lm_allow_source_positions lm = map fst (filter (\<lambda>(p, m, ids). m) S)
     \<and> lm_allow_pair_source_positions lm = map fst (mode_pairs True S) \<and> lm_allow_pair_token_ids lm = map snd (mode_pairs True S)
     \<and> lm_deny_pair_source_positions lm = map fst (mode_pairs False S) \<and> lm_deny_pair_token_ids lm = map snd (mode_pairs False S)"

lemma mode_pairs_simps [simp]:
  "mode_pairs b [] = []" "mode_pairs b ((p, m, ids) # S) = (if m = b then map (Pair p) ids else []) @ mode_pairs b S"
  by (simp_all add: mode_pairs_def)

lemma select_append: "length xs = length bs \<Longrightarrow> select (xs @ ys) (bs @ cs) = select xs bs @ select ys cs"
  by (simp add: select_def)

lemma select_all [simp]: "length xs = n \<Longrightarrow> select xs (replicate n b) = (if b then xs else [])"
  by (induction xs arbitrary: n) (auto simp: select_def)

lemma interleave_by_Cons [simp]:
  "interleave_by [] ns = []" "interleave_by (x # xs) (n # ns) = replicate (nat n) x @ interleave_by xs ns"
  by (simp_all add: interleave_by_def)

lemma length_interleave_by:
  "length xs = length ns \<Longrightarrow> length (interleave_by xs ns) = sum_list (map nat ns)"
  by (induction xs ns rule: list_induct2) (simp_all add: interleave_by_def)

fun prefix_sums :: "int \<Rightarrow> int list \<Rightarrow> int list" where
  "prefix_sums b [] = []"
| "prefix_sums b (n # ns) = b # prefix_sums (b + n) ns"

lemma length_prefix_sums [simp]: "length (prefix_sums b ns) = length ns"
  by (induction ns arbitrary: b) simp_all

lemma prefix_sums_nth: "k < length ns \<Longrightarrow> prefix_sums b ns ! k = b + sum_list (take k ns)"
  by (induction ns arbitrary: b k) (auto simp: nth_Cons' take_Cons')

lemma cumsum_minus: "map2 (-) (cumsum ns) ns = prefix_sums 0 ns"
  by (rule nth_equalityI) (simp_all add: cumsum_def prefix_sums_nth take_Suc_conv_app_nth)

lemma map2_append: "length xs = length ys \<Longrightarrow> map2 f (xs @ zs) (ys @ ws) = map2 f xs ys @ map2 f zs ws"
  by simp

lemma token_offsets:
  "list_all (\<lambda>n. 0 \<le> n) ns \<Longrightarrow>
   map2 (\<lambda>k g. int k - g) [b..<b + sum_list (map nat ns)] (interleave_by (prefix_sums (int b) ns) ns)
     = concat (map (\<lambda>n. map int [0..<nat n]) ns)"
proof (induction ns arbitrary: b)
  case (Cons n ns)
  have n: "0 \<le> n" using Cons.prems by simp
  have split: "[b..<b + sum_list (map nat (n # ns))] = [b..<b + nat n] @ [b + nat n..<b + nat n + sum_list (map nat ns)]"
    using upt_add_eq_append [of b "b + nat n" "sum_list (map nat ns)"] by (simp add: add.assoc)
  have "map2 (\<lambda>k g. int k - g) [b..<b + nat n] (replicate (nat n) (int b)) = map int [0..<nat n]"
    by (rule nth_equalityI) simp_all
  moreover have "int b + n = int (b + nat n)" using n by simp
  then have "map2 (\<lambda>k g. int k - g) [b + nat n..<b + nat n + sum_list (map nat ns)]
      (interleave_by (prefix_sums (int b + n) ns) ns) = concat (map (\<lambda>n. map int [0..<nat n]) ns)"
    using Cons.IH [of "b + nat n"] Cons.prems by simp
  ultimately show ?case unfolding split by (simp add: map2_append)
qed simp

lemma token_indices:
  "length starts = length ns \<Longrightarrow>
   map2 (+) (interleave_by starts ns) (concat (map (\<lambda>n. map int [0..<nat n]) ns))
     = concat (map (\<lambda>(st, n). map (\<lambda>k. st + int k) [0..<nat n]) (zip starts ns))"
proof (induction starts ns rule: list_induct2)
  case (Cons st starts n ns)
  have "map2 (+) (replicate (nat n) st) (map int [0..<nat n]) = map (\<lambda>k. st + int k) [0..<nat n]"
    by (rule nth_equalityI) simp_all
  then show ?case using Cons.IH by (simp add: map2_append)
qed simp

text \<open>A start from which the list of tokens continues with a set.\<close>

definition starts_at :: "int list \<Rightarrow> int \<Rightarrow> int list \<Rightarrow> bool" where
  "starts_at token_ids st ids \<longleftrightarrow> 0 \<le> st \<and> nat st + length ids \<le> length token_ids \<and> take (length ids) (drop (nat st) token_ids) = ids"

lemma select_index_sets:
  assumes "list_all2 (starts_at token_ids) starts sets"
  shows "select_index token_ids (concat (map (\<lambda>(st, n). map (\<lambda>k. st + int k) [0..<nat n]) (zip starts (map (int \<circ> length) sets))))
    = Inr (concat sets)"
  using assms
proof (induction starts sets rule: list_all2_induct)
  case (Cons st starts ids sets)
  have st: "0 \<le> st" "nat st + length ids \<le> length token_ids" "take (length ids) (drop (nat st) token_ids) = ids"
    using Cons.hyps(1) by (simp_all add: starts_at_def)
  have "token_ids ! nat (st + int k) = ids ! k" if "k < length ids" for k
    using st that nth_take [of k "length ids" "drop (nat st) token_ids"] by (simp add: nat_add_distrib)
  then have "map (\<lambda>i. token_ids ! nat i) (map (\<lambda>k. st + int k) [0..<length ids]) = ids"
    by (intro nth_equalityI) simp_all
  moreover have "list_all (\<lambda>i. 0 \<le> i \<and> i < int (length token_ids)) (map (\<lambda>k. st + int k) [0..<length ids])"
    using st by (auto simp: list_all_iff)
  ultimately show ?case using Cons.IH by (auto simp: select_index_def split: if_splits)
qed (simp add: select_index_def)

lemma pair_lists:
  fixes S :: "mask_entry list"
  defines "P \<equiv> interleave_by (map fst S) (map (\<lambda>en. int (length (snd (snd en)))) S)"
    and "M \<equiv> interleave_by (map (\<lambda>en. fst (snd en)) S) (map (\<lambda>en. int (length (snd (snd en)))) S)"
    and "Q \<equiv> concat (map (\<lambda>en. snd (snd en)) S)"
  shows "length P = length M \<and> length Q = length M
    \<and> select P M = map fst (mode_pairs True S) \<and> select Q M = map snd (mode_pairs True S)
    \<and> select P (map Not M) = map fst (mode_pairs False S) \<and> select Q (map Not M) = map snd (mode_pairs False S)"
  unfolding P_def M_def Q_def
proof (induction S)
  case (Cons en S)
  obtain p m ids where en: "en = (p, m, ids)" by (cases en) auto
  show ?case using Cons.IH by (cases m) (simp_all add: en select_append comp_def map_replicate_const)
qed (simp add: select_def)

lemma select_modes: "select (map fst S) (map (\<lambda>en. fst (snd en)) S) = map fst (filter (\<lambda>(p, m, ids). m) S)"
  by (induction S) (auto simp: select_def)

lemma gather_pairs_spec:
  fixes S :: "mask_entry list"
  assumes "list_all2 (starts_at token_ids) starts (map (\<lambda>en. snd (snd en)) S)"
  shows "gather_pairs (map fst S) (map (\<lambda>en. fst (snd en)) S) starts (map (\<lambda>en. int (length (snd (snd en)))) S) token_ids
    = Inr \<lparr>lp_allow_rows = map fst (filter (\<lambda>(p, m, ids). m) S), lp_allow_positions = map fst (mode_pairs True S),
           lp_allow_tokens = map snd (mode_pairs True S), lp_deny_positions = map fst (mode_pairs False S),
           lp_deny_tokens = map snd (mode_pairs False S)\<rparr>"
proof -
  let ?ns = "map (\<lambda>en. int (length (snd (snd en)))) S" and ?sets = "map (\<lambda>en. snd (snd en)) S"
  have len: "length starts = length ?ns" using list_all2_lengthD [OF assms] by simp
  have n: "length (interleave_by (map fst S) ?ns) = sum_list (map nat ?ns)" by (rule length_interleave_by) simp
  have "map2 (\<lambda>k g. int k - g) [0..<length (interleave_by (map fst S) ?ns)] (interleave_by (map2 (-) (cumsum ?ns) ?ns) ?ns)
      = concat (map (\<lambda>n. map int [0..<nat n]) ?ns)"
    using token_offsets [of ?ns 0] unfolding n cumsum_minus by (simp add: list_all_iff)
  moreover have "select_index token_ids (concat (map (\<lambda>(st, n). map (\<lambda>k. st + int k) [0..<nat n]) (zip starts ?ns))) = Inr (concat ?sets)"
    using select_index_sets [OF assms] by (simp add: comp_def)
  ultimately show ?thesis
    using pair_lists [of S] by (simp only: gather_pairs_def Let_def token_indices [OF len] sum.case select_modes)
qed

section \<open>Masks of an encoder\<close>

text \<open>Masks that stand for entries, as an encoder makes them.\<close>

definition well_encoded :: "masks \<Rightarrow> (bool \<times> int list) list \<Rightarrow> mask_entry list \<Rightarrow> bool" where
  "well_encoded m sets L \<longleftrightarrow>
     am_set_modes_allow m = map fst sets \<and> am_token_ids m = concat (map snd sets) \<and> am_set_offsets m = offsets_of (map snd sets)
     \<and> am_positions m = map fst L \<and> stands_for sets (am_set_indices m) L \<and> check_masks m = Inr m"

text \<open>Constraints at source positions.\<close>

definition source_entries :: "mask_entry list \<Rightarrow> mask_entry list" where
  "source_entries L = map (\<lambda>(p, v). (p - 1, v)) (filter (\<lambda>(p, v). 0 \<le> p - 1) L)"

lemma offsets_of_nth: "k \<le> length xss \<Longrightarrow> offsets_of xss ! k = int (length (concat (take k xss)))"
  by (simp add: offsets_of_def nth_append del: upt_Suc)

lemma length_offsets_of [simp]: "length (offsets_of xss) = Suc (length xss)"
  by (simp add: offsets_of_def)

lemma starts_at_offsets:
  assumes "k < length xss"
  shows "starts_at (concat xss) (offsets_of xss ! k) (xss ! k) \<and> offsets_of xss ! Suc k - offsets_of xss ! k = int (length (xss ! k))"
proof -
  let ?a = "length (concat (take k xss))" and ?b = "length (concat (take (Suc k) xss))"
  have b: "?b = ?a + length (xss ! k)" using assms by (simp add: take_Suc_conv_app_nth)
  have "take (length (xss ! k)) (drop ?a (concat xss)) = xss ! k" using concat_slice [OF assms] b by simp
  moreover have "?b \<le> length (concat xss)" by (rule concat_take_length)
  ultimately show ?thesis using assms b by (simp add: starts_at_def offsets_of_nth)
qed

lemma kept_entries:
  assumes "stands_for sets is L"
  shows "select (map (\<lambda>p. p - 1) (map fst L)) (map (\<lambda>p. 0 \<le> p - 1) (map fst L)) = map fst (source_entries L)
    \<and> stands_for sets (select is (map (\<lambda>p. 0 \<le> p - 1) (map fst L))) (source_entries L)"
  using assms unfolding stands_for_def
proof (induction "is" L rule: list_all2_induct)
  case (Cons i "is" en L)
  then show ?case by (cases en) (auto simp: select_def source_entries_def)
qed (simp add: select_def source_entries_def)

lemma stands_for_parts:
  assumes "stands_for sets is S"
  shows "map (\<lambda>i. map fst sets ! nat i) is = map (\<lambda>en. fst (snd en)) S
    \<and> map2 (-) (map (\<lambda>i. offsets_of (map snd sets) ! nat i) (map (\<lambda>i. i + 1) is)) (map (\<lambda>i. offsets_of (map snd sets) ! nat i) is)
      = map (\<lambda>en. int (length (snd (snd en)))) S
    \<and> list_all2 (starts_at (concat (map snd sets))) (map (\<lambda>i. offsets_of (map snd sets) ! nat i) is) (map (\<lambda>en. snd (snd en)) S)
    \<and> list_all (\<lambda>i. 0 \<le> i \<and> i < int (length sets)) is"
  using assms unfolding stands_for_def
proof (induction "is" S rule: list_all2_induct)
  case (Cons i "is" en S)
  then have i: "nat i < length (map snd sets)" "nat (i + 1) = Suc (nat i)" by auto
  note st = starts_at_offsets [OF i(1)]
  show ?case using Cons st i by (cases en) (auto simp: nat_add_distrib)
qed simp

lemma expand_pairs_spec:
  assumes "stands_for sets is S"
  shows "expand_pairs (map fst S) is (map fst sets) (offsets_of (map snd sets)) (concat (map snd sets))
    = Inr \<lparr>lp_allow_rows = map fst (filter (\<lambda>(p, m, ids). m) S), lp_allow_positions = map fst (mode_pairs True S),
           lp_allow_tokens = map snd (mode_pairs True S), lp_deny_positions = map fst (mode_pairs False S),
           lp_deny_tokens = map snd (mode_pairs False S)\<rparr>"
proof (cases "S = []")
  case False
  note parts = stands_for_parts [OF assms]
  have ok: "list_all (\<lambda>i. 0 \<le> i \<and> i < int (length sets)) is" using parts by simp
  let ?f = "\<lambda>xs. map (\<lambda>i. xs ! nat i)"
  have sel: "select_index (map fst sets) is = Inr (map (\<lambda>en. fst (snd en)) S)"
    "select_index (offsets_of (map snd sets)) is = Inr (?f (offsets_of (map snd sets)) is)"
    "select_index (offsets_of (map snd sets)) (map (\<lambda>i. i + 1) is) = Inr (?f (offsets_of (map snd sets)) (map (\<lambda>i. i + 1) is))"
    using ok parts by (auto simp: select_index_def list_all_iff)
  have pos: "\<not> list_ex (\<lambda>n. n < 0) (map (\<lambda>en. int (length (snd (snd en)))) S)" by (simp add: list_ex_iff)
  show ?thesis
    using False parts pos gather_pairs_spec [of "concat (map snd sets)" "?f (offsets_of (map snd sets)) is" S]
    by (simp only: expand_pairs_def sel prod.case sum.case Let_def map_is_Nil_conv if_False simp_thms)
qed (simp add: expand_pairs_def no_pairs_def)

lemma to_lm_head_represents:
  assumes "well_encoded m sets L"
  shows "\<exists>lm. action_masks_to_lm_head (Some m) = Inr (Some lm) \<and> represents lm (source_entries L) (am_vocab_size m) \<and> \<not> lm_localized lm"
proof -
  have fields: "am_set_modes_allow m = map fst sets" "am_token_ids m = concat (map snd sets)" "am_set_offsets m = offsets_of (map snd sets)"
    "am_positions m = map fst L" "stands_for sets (am_set_indices m) L" "check_masks m = Inr m"
    using assms by (simp_all add: well_encoded_def)
  note kept = kept_entries [OF fields(5)]
  note pairs = expand_pairs_spec [OF kept [THEN conjunct2]]
  show ?thesis
    unfolding action_masks_to_lm_head_def
    by (simp only: option.case fields(6) sum.case Let_def fields(1-4) kept pairs option.inject sum.inject ex_simps simp_thms)
      (simp add: represents_def)
qed

section \<open>Slices of sorted arrays\<close>

lemma slice_filter:
  assumes "sorted (map fst qs)" "a \<le> b"
  shows "slice_between (searchsorted (map fst qs) a) (searchsorted (map fst qs) b) qs = filter (\<lambda>(p, x). a \<le> p \<and> p < b) qs"
  using assms(1)
proof (induction qs)
  case (Cons q qs)
  obtain p x where q: "q = (p, x)" by fastforce
  have sorted: "sorted (map fst qs)" and le: "\<And>r. r \<in> set qs \<Longrightarrow> p \<le> fst r" using Cons.prems q by auto
  show ?case
  proof (cases "p < a")
    case True
    then show ?thesis using Cons.IH [OF sorted] assms(2) q by (simp add: searchsorted_def slice_between_def)
  next
    case False
    have none: "searchsorted (map fst qs) a = 0"
      using False le [of "hd qs"] by (cases qs) (auto simp: searchsorted_def)
    show ?thesis
    proof (cases "p < b")
      case True
      then show ?thesis using Cons.IH [OF sorted] False none q by (simp add: searchsorted_def slice_between_def)
    next
      case beyond: False
      have "filter (\<lambda>(p, x). a \<le> p \<and> p < b) qs = []" using beyond le by (fastforce simp: filter_empty_conv)
      then show ?thesis using False beyond q by (simp add: searchsorted_def slice_between_def)
    qed
  qed
qed (simp add: searchsorted_def slice_between_def)

lemma slice_between_map: "slice_between a b (map f xs) = map f (slice_between a b xs)"
  by (simp add: slice_between_def take_map drop_map)

lemma localize_filter:
  assumes "sorted (map fst qs)" "a \<le> b"
  shows "localize a b (map fst qs) (map snd qs)
    = (map (\<lambda>p. p - a) (map fst (filter (\<lambda>(p, x). a \<le> p \<and> p < b) qs)), map snd (filter (\<lambda>(p, x). a \<le> p \<and> p < b) qs))"
  by (simp add: localize_def constrained_slice_def slice_between_map slice_filter [OF assms])

text \<open>The entries of a tile, with positions relative to it.\<close>

definition tile_entries :: "int \<Rightarrow> int \<Rightarrow> mask_entry list \<Rightarrow> mask_entry list" where
  "tile_entries a b S = map (\<lambda>(p, v). (p - a, v)) (filter (\<lambda>(p, v). a \<le> p \<and> p < b) S)"

lemma mode_pairs_tile:
  "mode_pairs b (tile_entries a z S) = map (\<lambda>(p, t). (p - a, t)) (filter (\<lambda>(p, t). a \<le> p \<and> p < z) (mode_pairs b S))"
proof (induction S)
  case (Cons en S)
  obtain p m ids where en: "en = (p, m, ids)" by (cases en) auto
  have "filter (\<lambda>(p, t). a \<le> p \<and> p < z) (map (Pair p) ids) = (if a \<le> p \<and> p < z then map (Pair p) ids else [])"
    by (induction ids) auto
  then show ?case using Cons.IH by (simp add: en tile_entries_def comp_def)
qed (simp add: tile_entries_def)

lemma mode_pairs_sorted: "sorted (map fst S) \<Longrightarrow> sorted (map fst (mode_pairs b S))"
proof (induction S)
  case (Cons en S)
  obtain p m ids where en: "en = (p, m, ids)" by (cases en) auto
  have "\<forall>q\<in>set (mode_pairs b S). p \<le> fst q" using Cons.prems by (auto simp: en mode_pairs_def split: if_splits)
  then show ?case using Cons by (auto simp: en sorted_append comp_def map_replicate_const)
qed simp

lemma localize_positions:
  assumes "sorted ps" "a \<le> b"
  shows "fst (localize a b ps xs) = map (\<lambda>p. p - a) (filter (\<lambda>p. a \<le> p \<and> p < b) ps)"
proof -
  have "slice_between (searchsorted ps a) (searchsorted ps b) ps
      = map fst (slice_between (searchsorted ps a) (searchsorted ps b) (map (\<lambda>p. (p, p)) ps))"
    by (simp add: slice_between_map comp_def)
  also have "\<dots> = filter (\<lambda>p. a \<le> p \<and> p < b) ps"
    using slice_filter [of "map (\<lambda>p. (p, p)) ps" a b] assms by (simp add: comp_def filter_map)
  finally show ?thesis by (simp add: localize_def constrained_slice_def)
qed

lemma tile_positions:
  "map (\<lambda>p. p - a) (filter (\<lambda>p. a \<le> p \<and> p < b) (map fst S)) = map fst (tile_entries a b S)"
  "filter (\<lambda>(p, m, ids). m) (tile_entries a b S) = tile_entries a b (filter (\<lambda>(p, m, ids). m) S)"
  by (induction S) (auto simp: tile_entries_def)

lemma slice_represents:
  assumes rep: "represents lm S voc" and "sorted (map fst S)" "a \<le> b" "\<not> lm_localized lm" "S \<noteq> []"
  shows "\<exists>l. slice_lm_head (Some lm) a b = Some l \<and> represents l (tile_entries a b S) voc"
proof (cases "searchsorted (lm_source_positions lm) a = searchsorted (lm_source_positions lm) b")
  case True
  then have "filter (\<lambda>(p, v). a \<le> p \<and> p < b) S = []"
    using slice_filter [OF assms(2,3)] rep by (simp add: represents_def slice_between_def)
  then have "tile_entries a b S = []" by (simp add: tile_entries_def)
  then show ?thesis using True rep assms(4,5) by (simp add: slice_lm_head_def constrained_slice_def represents_def empty_localized_def)
next
  case False
  note r = rep [unfolded represents_def]
  let ?A = "filter (\<lambda>(p, m, ids). m) S"
  let ?pairs = "\<lambda>m. localize a b (map fst (mode_pairs m S)) (map snd (mode_pairs m S))"
  have sA: "sorted (map fst ?A)" using assms(2) by (rule sorted_filter)
  have p: "fst (?pairs m) = map fst (mode_pairs m (tile_entries a b S)) \<and> snd (?pairs m) = map snd (mode_pairs m (tile_entries a b S))" for m
    unfolding mode_pairs_tile localize_filter [OF mode_pairs_sorted [OF assms(2)] assms(3)] by (auto simp: case_prod_beta)
  have src: "fst (localize a b (map fst S) xs) = map fst (tile_entries a b S)" for xs :: "int list"
    by (simp add: localize_positions [OF assms(2,3)] tile_positions)
  have arows: "fst (localize a b (map fst ?A) xs) = map fst (filter (\<lambda>(p, m, ids). m) (tile_entries a b S))" for xs :: "int list"
    by (simp add: localize_positions [OF sA assms(3)] tile_positions)
  have "map fst S \<noteq> []" using assms(5) by simp
  then show ?thesis
    using False r assms(4) p [of True] p [of False] src [of "lm_set_indices lm"] arows [of "map fst ?A"]
    by (auto simp: slice_lm_head_def represents_def constrained_slice_def split: prod.splits)
qed

section \<open>Masking a tile\<close>

definition tile_dims :: "tile \<Rightarrow> nat \<Rightarrow> nat \<Rightarrow> bool" where
  "tile_dims T rows width \<longleftrightarrow> length T = rows \<and> (\<forall>r<rows. length (T ! r) = width)"

lemma mask_rows_cell:
  assumes "tile_dims T rows width" "list_all (\<lambda>p. 0 \<le> p \<and> p < int rows) ps"
  shows "tile_dims (mask_rows ps k T) rows width
    \<and> (\<forall>r<rows. \<forall>c<width. cell (mask_rows ps k T) r c = (if int r \<in> set ps \<and> k \<le> c then Masked else cell T r c))"
  using assms
proof (induction ps arbitrary: T)
  case (Cons p ps)
  let ?T = "T[nat p := take k (T ! nat p) @ replicate (length (T ! nat p) - k) Masked]"
  have p: "nat p < rows" "0 \<le> p" using Cons.prems(2) by auto
  have dims: "tile_dims ?T rows width" using Cons.prems(1) p by (auto simp: tile_dims_def nth_list_update)
  have cell: "cell ?T r c = (if r = nat p \<and> k \<le> c then Masked else cell T r c)" if "r < rows" "c < width" for r c
    using that p Cons.prems(1) by (auto simp: cell_def tile_dims_def nth_list_update nth_append)
  have "mask_rows (p # ps) k T = mask_rows ps k ?T" by (simp add: mask_rows_def)
  then show ?case using Cons.IH [OF dims] Cons.prems(2) cell p by (auto simp: nat_eq_iff)
qed (simp add: mask_rows_def)

lemma write_cells_cell:
  assumes "tile_dims T rows width" "list_all (\<lambda>((r, c), v). r < rows \<and> c < width \<and> v = f r c) ws"
  shows "tile_dims (write_cells ws T) rows width
    \<and> (\<forall>r<rows. \<forall>c<width. cell (write_cells ws T) r c = (if (r, c) \<in> fst ` set ws then f r c else cell T r c))"
  using assms
proof (induction ws arbitrary: T)
  case (Cons w ws)
  obtain a b v where w: "w = ((a, b), v)" by (cases w) auto
  let ?T = "T[a := (T ! a)[b := v]]"
  have ab: "a < rows" "b < width" "v = f a b" using Cons.prems(2) by (auto simp: w)
  have dims: "tile_dims ?T rows width" using Cons.prems(1) ab by (auto simp: tile_dims_def nth_list_update)
  have cell: "cell ?T r c = (if (r, c) = (a, b) then f r c else cell T r c)" if "r < rows" "c < width" for r c
    using that ab Cons.prems(1) by (auto simp: cell_def tile_dims_def nth_list_update)
  have IH: "tile_dims (write_cells ws ?T) rows width"
    "\<forall>r<rows. \<forall>c<width. cell (write_cells ws ?T) r c = (if (r, c) \<in> fst ` set ws then f r c else cell ?T r c)"
    using Cons.IH [OF dims] Cons.prems(2) by simp_all
  show ?case using IH cell by (auto simp: w)
qed simp

lemma mode_pairs_iff:
  assumes "distinct (map fst S)"
  shows "(p, t) \<in> set (mode_pairs b S) \<longleftrightarrow> (\<exists>ids. map_of S p = Some (b, ids) \<and> t \<in> set ids)"
proof -
  have "(p, t) \<in> set (mode_pairs b S) \<longleftrightarrow> (\<exists>ids. (p, b, ids) \<in> set S \<and> t \<in> set ids)"
    by (fastforce simp: mode_pairs_def split: if_splits)
  then show ?thesis using assms by (simp add: map_of_eq_Some_iff)
qed

lemma pair_cells_iff:
  assumes "\<And>p t. (p, t) \<in> set ps \<Longrightarrow> 0 \<le> p"
  shows "(r, c) \<in> set (pair_cells (map fst ps) (map snd ps) vs ve) \<longleftrightarrow> (int r, vs + int c) \<in> set ps \<and> vs + int c < ve"
proof -
  have "zip (map fst ps) (map snd ps) = ps" by (simp add: zip_map_fst_snd)
  then show ?thesis using assms by (force simp: pair_cells_def image_iff)
qed

lemma zip_map_self: "zip xs (map f xs) = map (\<lambda>x. (x, f x)) xs"
  by (induction xs) auto

lemma allow_rows_iff:
  assumes "distinct (map fst S)"
  shows "p \<in> set (map fst (filter (\<lambda>(p, m, ids). m) S)) \<longleftrightarrow> (\<exists>ids. map_of S p = Some (True, ids))"
  using map_of_eq_Some_iff [OF assms] by force

text \<open>What the constraints make of a score.\<close>

definition constrain :: "mask_entry list \<Rightarrow> int \<Rightarrow> int \<Rightarrow> int \<Rightarrow> score \<Rightarrow> score" where
  "constrain S voc p t x =
     (case map_of S p of
        None \<Rightarrow> x
      | Some (m, ids) \<Rightarrow> if t < voc \<and> (t \<in> set ids) = m then x else Masked)"

lemma apply_local_exact:
  assumes rep: "represents lm S voc" and dims: "tile_dims T rows width" and width: "int width = ve - vs"
    and S: "distinct (map fst S)" "list_all (\<lambda>(p, m, ids). 0 \<le> p \<and> p < int rows \<and> (\<forall>t\<in>set ids. t < voc)) S"
    and rc: "r < rows" "c < width"
  shows "cell (apply_local lm vs ve T) r c = constrain S voc (int r) (vs + int c) (cell T r c)"
proof -
  note r = rep [unfolded represents_def]
  let ?inv = "max vs voc"
  define T1 where "T1 = (if ?inv < ve then mask_rows (map fst S) (nat (?inv - vs)) T else T)"
  let ?pc = "\<lambda>b. pair_cells (map fst (mode_pairs b S)) (map snd (mode_pairs b S)) vs ve"
  let ?arows = "map fst (filter (\<lambda>(p, m, ids). m) S)"
  define M where "M = mask_rows ?arows 0 T1"
  define T2 where "T2 = write_cells (zip (?pc True) (map (\<lambda>(r, c). cell T1 r c) (?pc True))) M"
  have res: "apply_local lm vs ve T = write_cells (map (\<lambda>rc. (rc, Masked)) (?pc False)) T2"
    using r by (simp add: apply_local_def Let_def T1_def T2_def M_def)
  have pos: "0 \<le> p \<and> p < int rows" if "p \<in> fst ` set S" for p using that S(2) by (auto simp: list_all_iff)
  have rows_ok: "list_all (\<lambda>p. 0 \<le> p \<and> p < int rows) (map fst S)" "list_all (\<lambda>p. 0 \<le> p \<and> p < int rows) ?arows"
    using pos by (auto simp: list_all_iff)
  have pair_pos: "p \<in> fst ` set S" if "(p, t) \<in> set (mode_pairs b S)" for p t b
    using that by (force simp: mode_pairs_def split: if_splits)
  have pc: "(a, b) \<in> set (?pc m) \<longleftrightarrow> (\<exists>ids. map_of S (int a) = Some (m, ids) \<and> vs + int b \<in> set ids) \<and> vs + int b < ve" for a b m
    using pair_cells_iff [of "mode_pairs m S"] pair_pos pos mode_pairs_iff [OF S(1)] by blast
  have in_tile: "a < rows \<and> b < width" if "(a, b) \<in> set (?pc m)" for a b m
  proof -
    have "int a \<in> fst ` set S" using that pc by (metis map_of_SomeD image_eqI fst_conv)
    then show ?thesis using that pc pos width by fastforce
  qed
  have d1: "tile_dims T1 rows width" and c1: "cell T1 r c = (if int r \<in> fst ` set S \<and> voc \<le> vs + int c then Masked else cell T r c)"
    if "r < rows" "c < width" for r c
    using mask_rows_cell [OF dims rows_ok(1), of "nat (?inv - vs)"] dims that width unfolding T1_def by auto
  have dM: "tile_dims M rows width" and cM: "cell M r c = (if int r \<in> set ?arows then Masked else cell T1 r c)" if "r < rows" "c < width" for r c
    using mask_rows_cell [OF d1 [OF rc] rows_ok(2), of 0] that unfolding M_def by auto
  have w2: "list_all (\<lambda>((a, b), v). a < rows \<and> b < width \<and> v = cell T1 a b) (zip (?pc True) (map (\<lambda>(r, c). cell T1 r c) (?pc True)))"
    using in_tile by (auto simp: list_all_iff zip_map_self)
  have d2: "tile_dims T2 rows width" and c2: "cell T2 r c = (if (r, c) \<in> set (?pc True) then cell T1 r c else cell M r c)"
    using write_cells_cell [OF dM [OF rc] w2] rc unfolding T2_def by (auto simp: zip_map_self image_image)
  have w3: "list_all (\<lambda>((a, b), v). a < rows \<and> b < width \<and> v = Masked) (map (\<lambda>rc. (rc, Masked)) (?pc False))"
    using in_tile by (auto simp: list_all_iff)
  have "cell (apply_local lm vs ve T) r c = (if (r, c) \<in> set (?pc False) then Masked else cell T2 r c)"
    using write_cells_cell [OF d2 w3] rc unfolding res by (auto simp: image_image)
  also have "\<dots> = constrain S voc (int r) (vs + int c) (cell T r c)"
  proof (cases "map_of S (int r)")
    case None
    then have "int r \<notin> fst ` set S" by (simp add: map_of_eq_None_iff)
    then show ?thesis
      using None c1 [OF rc] cM [OF rc] c2 pc allow_rows_iff [OF S(1), of "int r"] by (simp add: constrain_def del: set_map)
  next
    case (Some v)
    obtain m ids where v: "v = (m, ids)" by fastforce
    have "int r \<in> fst ` set S" using Some by (metis image_eqI fst_conv map_of_SomeD)
    moreover have "\<forall>t\<in>set ids. t < voc" using map_of_SomeD [OF Some] S(2) v by (auto simp: list_all_iff)
    moreover have "vs + int c < ve" using rc(2) width by linarith
    ultimately show ?thesis
      using Some v c1 [OF rc] cM [OF rc] c2 pc allow_rows_iff [OF S(1), of "int r"]
      by (cases m) (auto simp: constrain_def simp del: set_map)
  qed
  finally show ?thesis .
qed

section \<open>Masked logits\<close>

lemma well_encoded_bounds:
  assumes "well_encoded m sets L"
  shows "sorted_wrt (<) (map fst L) \<and> list_all (\<lambda>(p, b, ids). \<forall>t\<in>set ids. 0 \<le> t \<and> t < am_vocab_size m) L"
proof -
  have c: "am_positions m = map fst L" "am_token_ids m = concat (map snd sets)" "stands_for sets (am_set_indices m) L" "check_masks m = Inr m"
    using assms by (simp_all add: well_encoded_def)
  have pos: "am_positions m = sorted_list_of_set (set (am_positions m))"
    and tok: "\<not> list_ex (\<lambda>t. t < 0 \<or> am_vocab_size m \<le> t) (am_token_ids m)"
    using c(4) by (auto simp: check_masks_def split: if_splits)
  have "sorted_wrt (<) (sorted_list_of_set (set (am_positions m)))" by (rule strict_sorted_list_of_set)
  then have "sorted_wrt (<) (map fst L)" using pos c(1) by simp
  moreover have "0 \<le> t \<and> t < am_vocab_size m" if "(p, b, ids) \<in> set L" "t \<in> set ids" for p b ids t
  proof -
    obtain k where k: "k < length L" "L ! k = (p, b, ids)" using \<open>(p, b, ids) \<in> set L\<close> by (auto simp: in_set_conv_nth)
    let ?i = "am_set_indices m ! k"
    have "0 \<le> ?i \<and> ?i < int (length sets) \<and> sets ! nat ?i = snd (L ! k)"
      using c(3) k(1) by (simp add: stands_for_def list_all2_conv_all_nth)
    then have "(b, ids) \<in> set sets" using k(2) nth_mem [of "nat ?i" sets] by (simp add: nat_less_iff)
    then have "t \<in> set (am_token_ids m)" using c(2) \<open>t \<in> set ids\<close> by force
    then show ?thesis using tok by (auto simp: list_ex_iff)
  qed
  ultimately show ?thesis by (fastforce simp: list_all_iff)
qed

lemma map_of_tile: "map_of (tile_entries a b S) q = (if a \<le> q + a \<and> q + a < b then map_of S (q + a) else None)"
  by (induction S) (auto simp: tile_entries_def)

lemma map_of_source: "map_of (source_entries L) q = (if 0 \<le> q then map_of L (q + 1) else None)"
  by (induction L) (auto simp: source_entries_def)

lemma source_sorted: "sorted_wrt (<) (map fst L) \<Longrightarrow> sorted_wrt (<) (map fst (source_entries L))"
  by (induction L) (auto simp: source_entries_def)

lemma tile_bounds:
  assumes "sorted_wrt (<) (map fst S)" "list_all (\<lambda>(p, b, ids). \<forall>t\<in>set ids. t < voc) S"
  shows "distinct (map fst (tile_entries a (a + int rows) S))
    \<and> list_all (\<lambda>(p, m, ids). 0 \<le> p \<and> p < int rows \<and> (\<forall>t\<in>set ids. t < voc)) (tile_entries a (a + int rows) S)"
proof -
  have "sorted_wrt (<) (map fst (tile_entries a b S))" for b
    using assms(1) by (induction S) (auto simp: tile_entries_def)
  then have "distinct (map fst (tile_entries a (a + int rows) S))" using strict_sorted_iff by blast
  moreover have "list_all (\<lambda>(p, m, ids). 0 \<le> p \<and> p < int rows \<and> (\<forall>t\<in>set ids. t < voc)) (tile_entries a (a + int rows) S)"
    using assms(2) by (auto simp: tile_entries_def list_all_iff)
  ultimately show ?thesis by simp
qed

lemma apply_represented:
  assumes rep: "represents lm S voc" "\<not> lm_localized lm" and sorted: "sorted_wrt (<) (map fst S)"
    and toks: "list_all (\<lambda>(p, b, ids). \<forall>t\<in>set ids. t < voc) S"
    and dims: "tile_dims T rows width" and width: "int width = ve - vs" and rc: "r < rows" "c < width"
  shows "cell (apply_lm_head (Some lm) ts vs ve T) r c = constrain S voc (ts + int r) (vs + int c) (cell T r c)"
proof -
  have len: "length T = rows" using dims by (simp add: tile_dims_def)
  let ?U = "tile_entries ts (ts + int rows) S"
  have look: "constrain ?U voc (int r) t x = constrain S voc (ts + int r) t x" for t x
    using rc(1) by (simp add: constrain_def map_of_tile add.commute)
  have "cell (apply_lm_head (Some lm) ts vs ve T) r c = constrain ?U voc (int r) (vs + int c) (cell T r c)"
  proof (cases "S = []")
    case True
    then show ?thesis using rep(1) by (simp add: apply_lm_head_def represents_def constrain_def tile_entries_def)
  next
    case False
    have "sorted (map fst S)" using sorted strict_sorted_iff by blast
    then obtain l where l: "slice_lm_head (Some lm) ts (ts + int rows) = Some l" "represents l ?U voc"
      using slice_represents [OF rep(1) _ _ rep(2) False, of ts "ts + int rows"] by auto
    have ap: "apply_lm_head (Some lm) ts vs ve T = (if lm_source_positions l = [] then T else apply_local l vs ve T)"
      using rep False l(1) len by (simp add: apply_lm_head_def represents_def)
    show ?thesis
    proof (cases "?U = []")
      case True
      then show ?thesis using ap l(2) by (simp add: represents_def constrain_def)
    next
      case U: False
      then have "apply_lm_head (Some lm) ts vs ve T = apply_local l vs ve T" using ap l(2) by (simp add: represents_def)
      then show ?thesis
        using apply_local_exact [OF l(2) dims width _ _ rc] tile_bounds [OF sorted toks, of ts rows] by simp
    qed
  qed
  then show ?thesis by (simp only: look)
qed

text \<open>The masks for the LM head of well encoded masks, and what they make of a tile.\<close>

lemma to_lm_head_sound:
  assumes "well_encoded m sets L"
  shows "\<exists>lm. action_masks_to_lm_head (Some m) = Inr (Some lm) \<and> represents lm (source_entries L) (am_vocab_size m) \<and> \<not> lm_localized lm
    \<and> sorted_wrt (<) (map fst (source_entries L)) \<and> list_all (\<lambda>(p, b, ids). \<forall>t\<in>set ids. t < am_vocab_size m) (source_entries L)"
proof -
  note b = well_encoded_bounds [OF assms]
  have "list_all (\<lambda>(p, b, ids). \<forall>t\<in>set ids. t < am_vocab_size m) (source_entries L)"
    using b by (auto simp: source_entries_def list_all_iff)
  then show ?thesis using to_lm_head_represents [OF assms] b source_sorted by blast
qed

lemma constrain_source: "0 \<le> q \<Longrightarrow> constrain (source_entries L) voc q t x = constrain L voc (q + 1) t x"
  by (simp add: constrain_def map_of_source)

lemma apply_lm_head_exact:
  assumes "well_encoded m sets L" "tile_dims T rows width" "int width = ve - vs" "r < rows" "c < width" "0 \<le> ts"
  shows "\<exists>lm. action_masks_to_lm_head (Some m) = Inr lm
    \<and> cell (apply_lm_head lm ts vs ve T) r c = constrain L (am_vocab_size m) (ts + int r + 1) (vs + int c) (cell T r c)"
proof -
  obtain lm where "action_masks_to_lm_head (Some m) = Inr (Some lm)"
    "cell (apply_lm_head (Some lm) ts vs ve T) r c = constrain (source_entries L) (am_vocab_size m) (ts + int r) (vs + int c) (cell T r c)"
    using to_lm_head_sound [OF assms(1)] apply_represented [OF _ _ _ _ assms(2-5)] by blast
  then show ?thesis using assms(6) by (intro exI [of _ "Some lm"]) (simp add: constrain_source)
qed

lemma well_encoded_entries:
  assumes "well_encoded m sets L"
  shows "action_mask_entries (Some m) = Inr L \<and> interned_token_id_sets m = map snd sets"
proof -
  have sets: "interned_token_id_sets m = map snd sets"
    by (rule interned_sets) (use assms in \<open>simp_all add: well_encoded_def\<close>)
  then have "decode_entries m (zip (map fst L) (am_set_indices m)) = Inr L"
    by (intro decode_entries_stands_for [of _ sets]) (use assms in \<open>simp_all add: well_encoded_def\<close>)
  then show ?thesis using assms sets by (simp add: action_mask_entries_def well_encoded_def)
qed

lemma encoded_well:
  assumes "encodes e sets L" "encoded seq_len voc e = Inr (Some m)"
  shows "well_encoded m sets L"
proof -
  let ?m = "\<lparr>am_seq_len = seq_len, am_vocab_size = voc, am_positions = ec_positions e, am_set_indices = ec_set_indices e,
    am_set_modes_allow = ec_set_modes_allow e, am_set_offsets = ec_set_offsets e, am_token_ids = ec_token_ids e\<rparr>"
  have "check_masks ?m = Inr m"
    using assms(2) by (cases "check_masks ?m") (auto simp: encoded_def split: if_splits)
  moreover from this have "m = ?m" by (rule check_masks_same)
  ultimately have "check_masks ?m = Inr ?m" "m = ?m" by simp_all
  then show ?thesis using assms(1) by (simp add: encodes_def well_encoded_def)
qed

lemma empty_well: "well_encoded (empty_action_masks n v) [] []"
  by (simp add: well_encoded_def empty_action_masks_def offsets_of_def stands_for_def check_masks_def)

text \<open>The masks of a replay are well encoded.\<close>

lemma replay_well_encoded:
  assumes "build_action_masks G s0 voc plen cpl start stop = Inr m"
  shows "\<exists>sets L. well_encoded m sets L \<and> action_mask_entries (Some m) = Inr L"
proof -
  have "\<exists>sets L. well_encoded m sets L"
  proof (cases "m = empty_action_masks (int (plen + length cpl)) (int voc)")
    case False
    with assms obtain es where "action_masks_from_entries (int (plen + length cpl)) (int voc) es = Inr (Some m)"
      by (auto simp: build_action_masks_def Let_def simp del: of_nat_add split: if_splits sum.splits option.splits)
    then show ?thesis
      using encode_all_encodes [OF new_encoder_encodes] encoded_well unfolding action_masks_from_entries_def by blast
  qed (use empty_well in blast)
  then obtain sets L where w: "well_encoded m sets L" by blast
  then show ?thesis using well_encoded_entries by blast
qed

lemma if_not_swap: "(if \<not> P then x else y) = (if P then y else x)"
  by simp

lemma constrain_allows:
  "t < voc \<Longrightarrow> constrain L voc p t x = (if masks_allow L p t then x else Masked)"
  by (cases "map_of L p") (auto simp: constrain_def masks_allow_def)

text \<open>
  C7. Training masks exactly what the grammar forbade. Take the masks that the inference server recorded
  for a completion and any tile of the trainer's logits. At the position that scores a token of the replayed
  span, the scores of exactly those tokens of the vocabulary become minus infinity that the grammar did not
  allow after the tokens before it; at every other position all scores are kept. This goes through the bit
  masks, the shared table of sets, its expansion to pairs and the slice of the tile.
\<close>

theorem training_masks_grammar:
  assumes "build_action_masks G s0 voc plen cpl start stop = Inr m" "fills G voc" "stop \<le> length cpl"
    and "tile_dims T rows width" "int width = ve - vs" "r < rows" "c < width" "0 \<le> ts" "0 \<le> vs" "vs + int c < int voc"
  shows "\<exists>lm. action_masks_to_lm_head (Some m) = Inr lm
    \<and> cell (apply_lm_head lm ts vs ve T) r c =
        (if \<exists>i. start \<le> i \<and> i < stop \<and> int (plen + i) = ts + int r + 1 \<and> \<not> grammar_allows G s0 cpl start i (nat (vs + int c))
         then Masked else cell T r c)"
proof -
  obtain sets L where w: "well_encoded m sets L" "action_mask_entries (Some m) = Inr L"
    using replay_well_encoded [OF assms(1)] by blast
  have L: "am_vocab_size m = int voc" "list_all (\<lambda>(p, a, ids). int (plen + start) \<le> p \<and> p < int (plen + stop)) L"
    "\<And>i t. start \<le> i \<Longrightarrow> i < stop \<Longrightarrow> t < voc \<Longrightarrow> masks_allow L (int (plen + i)) (int t) = grammar_allows G s0 cpl start i t"
    using replay_masks_entries [OF assms(1-3)] w(2) by auto
  let ?p = "ts + int r + 1" and ?t = "nat (vs + int c)"
  have t: "?t < voc" "int ?t = vs + int c" using assms(9,10) by simp_all
  obtain lm where lm: "action_masks_to_lm_head (Some m) = Inr lm"
    "cell (apply_lm_head lm ts vs ve T) r c = constrain L (am_vocab_size m) ?p (vs + int c) (cell T r c)"
    using apply_lm_head_exact [OF w(1) assms(4-8)] by blast
  have allow: "masks_allow L ?p (vs + int c) = (\<not> (\<exists>i. start \<le> i \<and> i < stop \<and> int (plen + i) = ?p \<and> \<not> grammar_allows G s0 cpl start i ?t))"
  proof (cases "\<exists>i. start \<le> i \<and> i < stop \<and> int (plen + i) = ?p")
    case True
    then obtain i where i: "start \<le> i" "i < stop" "int (plen + i) = ?p" by blast
    have "j = i" if "int (plen + j) = ?p" for j using that i(3) by simp
    then have "(\<exists>j. start \<le> j \<and> j < stop \<and> int (plen + j) = ?p \<and> \<not> grammar_allows G s0 cpl start j ?t)
        = (\<not> grammar_allows G s0 cpl start i ?t)"
      using i by blast
    moreover have "masks_allow L ?p (vs + int c) = grammar_allows G s0 cpl start i ?t"
      using L(3) [OF i(1,2) t(1)] unfolding i(3) t(2) .
    ultimately show ?thesis by simp
  next
    case False
    have "?p \<notin> fst ` set L"
    proof
      assume "?p \<in> fst ` set L"
      then have "int (plen + start) \<le> ?p" "?p < int (plen + stop)" using L(2) by (auto simp: list_all_iff)
      then have "start \<le> nat (?p - int plen) \<and> nat (?p - int plen) < stop \<and> int (plen + nat (?p - int plen)) = ?p" by auto
      then show False using False by blast
    qed
    then have "map_of L ?p = None" by (simp add: map_of_eq_None_iff)
    then show ?thesis using False by (auto simp: masks_allow_def)
  qed
  have "constrain L (int voc) ?p (vs + int c) (cell T r c)
      = (if \<exists>i. start \<le> i \<and> i < stop \<and> int (plen + i) = ?p \<and> \<not> grammar_allows G s0 cpl start i ?t then Masked else cell T r c)"
    unfolding constrain_allows [OF assms(10)] allow if_not_swap ..
  then show ?thesis using lm L(1) by (intro exI [of _ lm] conjI) (simp_all only:)
qed

text \<open>A vocabulary of three tokens of which token 1 is denied: the first token of the completion, at position 1.\<close>

theorem training_masks_grammar_witness:
  "\<exists>m lm. build_action_masks \<lparr>gm_fill = \<lambda>_. [5], gm_accept = \<lambda>s _. Some s\<rparr> () 3 1 [0] 0 1 = Inr m
    \<and> action_masks_to_lm_head (Some m) = Inr lm
    \<and> cell (apply_lm_head lm 0 0 3 [[Score 7, Score 8, Score 9]]) 0 1 = Masked"
proof -
  let ?G = "\<lparr>gm_fill = \<lambda>_. [5], gm_accept = \<lambda>s _. Some s\<rparr> :: unit matcher"
  let ?m = "\<lparr>am_seq_len = 2, am_vocab_size = 3, am_positions = [1], am_set_indices = [0], am_set_modes_allow = [False],
    am_set_offsets = [0, 1], am_token_ids = [1]\<rparr>"
  have m: "build_action_masks ?G () 3 1 [0] 0 1 = Inr ?m" by code_simp
  have "fills ?G 3" "tile_dims [[Score 7, Score 8, Score 9]] 1 3" by (simp_all add: fills_def tile_dims_def)
  note t = training_masks_grammar [OF m this(1) _ this(2), of 3 0 0 1 0]
  have "\<not> grammar_allows ?G () [0] 0 0 1"
    by (simp add: grammar_allows_def allows_bit_def)
  then show ?thesis using t m by auto
qed

end
