(* ===== verification/Mask_Packing.thy ===== *)
theory Mask_Packing
  imports Lm_Head_Masks
begin

text \<open>
  How the trainer moves action masks between coordinates (\<open>model/implementations/gpu/action_masks.py\<close>): the
  masks of several rows are packed for one model call, or those of a window of every row for one rank of
  sequence parallelism; constraints at ignored labels are dropped; and masks follow the columns that
  \<open>logits_to_keep\<close> selects.

  Entries that share a set share one tuple of token ids, and the trainer's encoder looks a set up by the
  identity of that tuple before it sorts and hashes it. An entry here carries that identity: the row it
  comes from and the place of its set in the row's table.
\<close>

section \<open>Encoding with shared tuples\<close>

type_synonym 'o tagged = "'o \<times> mask_entry"

type_synonym 'o objects = "('o \<times> bool, int) dict"

definition encode_tagged :: "'o tagged \<Rightarrow> encoder \<times> 'o objects \<Rightarrow> encoder \<times> 'o objects" where
  "encode_tagged te st =
     (case (te, st) of
        ((ob, p, mode, raw_ids), (e, objects)) \<Rightarrow>
          (case map_of objects (ob, mode) of
             Some i \<Rightarrow> (add_position p i e, objects)
           | None \<Rightarrow>
               if raw_ids = [] then (e, objects)
               else (case intern_set mode (sort raw_ids) e of
                       (i, e') \<Rightarrow> (add_position p i e', AList.update (ob, mode) i objects))))"

definition masks_from_tagged :: "int \<Rightarrow> int \<Rightarrow> 'o tagged list \<Rightarrow> masks option res" where
  "masks_from_tagged seq_len vocab_size tes =
     encoded seq_len vocab_size (fst (fold encode_tagged (sort_key (\<lambda>te. fst (snd te)) tes) (new_encoder, [])))"

text \<open>The entries of checked masks with their tuples.\<close>

definition tagged_entries :: "'r \<Rightarrow> masks \<Rightarrow> ('r \<times> int) tagged list res" where
  "tagged_entries k m =
     (case action_mask_entries (Some m) of
        Inl x \<Rightarrow> Inl x
      | Inr es \<Rightarrow> Inr (zip (map (\<lambda>i. (k, i mod int (length (am_set_modes_allow m)))) (am_set_indices m)) es))"

section \<open>Packing\<close>

definition row_entries :: "nat \<Rightarrow> masks \<Rightarrow> int \<Rightarrow> int \<Rightarrow> (nat \<times> int) tagged list res" where
  "row_entries k m len offset =
     (case tagged_entries k m of
        Inl x \<Rightarrow> Inl x
      | Inr tes \<Rightarrow> Inr (map (\<lambda>(ob, p, v). (ob, p + offset, v)) (filter (\<lambda>(ob, p, v). p < len) tes)))"

definition window_entries :: "nat \<Rightarrow> masks \<Rightarrow> int list \<Rightarrow> int \<Rightarrow> (nat \<times> int) tagged list res" where
  "window_entries k m piece offset =
     (if piece = [] then Inr []
      else if last piece + 1 - hd piece \<noteq> int (length piece) then Inl ValueError
      else (case tagged_entries k m of
              Inl x \<Rightarrow> Inl x
            | Inr tes \<Rightarrow>
                Inr (map (\<lambda>(ob, p, v). (ob, offset + (p - 1 - hd piece) + 1, v))
                       (filter (\<lambda>(ob, p, v). 0 \<le> p - 1 - hd piece \<and> p - 1 - hd piece < int (length piece)) tes))))"

text \<open>
  The loop over the rows, with what a row adds and how wide it is: the offset, the vocabulary size of the
  masks so far and the entries.
\<close>

fun pack_rows_loop :: "(nat \<Rightarrow> masks \<Rightarrow> 'a \<Rightarrow> int \<Rightarrow> (nat \<times> int) tagged list res) \<Rightarrow> ('a \<Rightarrow> int) \<Rightarrow> nat \<Rightarrow> (masks option \<times> 'a) list
    \<Rightarrow> int \<Rightarrow> int option \<Rightarrow> (nat \<times> int) tagged list \<Rightarrow> (int \<times> int option \<times> (nat \<times> int) tagged list) res" where
  "pack_rows_loop add width k [] offset voc tes = Inr (offset, voc, tes)"
| "pack_rows_loop add width k ((None, a) # rows) offset voc tes = pack_rows_loop add width (Suc k) rows (offset + width a) voc tes"
| "pack_rows_loop add width k ((Some m0, a) # rows) offset voc tes =
     (case check_masks m0 of
        Inl x \<Rightarrow> Inl x
      | Inr m \<Rightarrow>
          if voc \<noteq> None \<and> voc \<noteq> Some (am_vocab_size m) then Inl ValueError
          else (case add k m a offset of
                  Inl x \<Rightarrow> Inl x
                | Inr new \<Rightarrow> pack_rows_loop add width (Suc k) rows (offset + width a) (Some (am_vocab_size m)) (tes @ new)))"

definition pack_row_action_masks :: "masks option list \<Rightarrow> int list \<Rightarrow> masks option res" where
  "pack_row_action_masks row_masks lens =
     (if length row_masks \<noteq> length lens then Inl ValueError
      else (case pack_rows_loop row_entries id 0 (zip row_masks lens) 0 None [] of
              Inl x \<Rightarrow> Inl x
            | Inr (offset, None, tes) \<Rightarrow> Inr None
            | Inr (offset, Some voc, tes) \<Rightarrow> masks_from_tagged offset voc tes))"

definition pack_window_row_action_masks :: "masks option list \<Rightarrow> int list list \<Rightarrow> masks option res" where
  "pack_window_row_action_masks row_masks pieces =
     (case pack_rows_loop window_entries (\<lambda>piece. int (length piece)) 0 (zip row_masks pieces) 0 None [] of
        Inl x \<Rightarrow> Inl x
      | Inr (offset, voc, tes) \<Rightarrow>
          if length row_masks \<noteq> length pieces then Inl ValueError
          else (case voc of None \<Rightarrow> Inr None | Some n \<Rightarrow> masks_from_tagged (offset + 1) n tes))"

text \<open>Position ids are a matrix, or anything else, which raises.\<close>

definition pack_sp_row_action_masks :: "masks option list \<Rightarrow> int list list option \<Rightarrow> masks option res" where
  "pack_sp_row_action_masks row_masks position_ids =
     (case position_ids of
        None \<Rightarrow> Inl ValueError
      | Some ids \<Rightarrow> if length row_masks \<noteq> length ids then Inl ValueError else pack_window_row_action_masks row_masks ids)"

section \<open>Ignored labels and targets\<close>

definition lm_arrays :: "lm_masks \<Rightarrow> int list list" where
  "lm_arrays lm = [lm_source_positions lm, lm_allow_source_positions lm, lm_allow_pair_source_positions lm, lm_deny_pair_source_positions lm]"

definition filter_lm_head :: "lm_masks option \<Rightarrow> bool list \<Rightarrow> lm_masks option res" where
  "filter_lm_head v keep =
     (case v of
        None \<Rightarrow> Inr None
      | Some lm \<Rightarrow>
          if lm_source_positions lm = [] then Inr (Some lm)
          else if int (length keep) \<le> Max (set (concat (lm_arrays lm))) then Inl ValueError
          else (case (select_index keep (lm_source_positions lm), select_index keep (lm_allow_source_positions lm),
                      select_index keep (lm_allow_pair_source_positions lm), select_index keep (lm_deny_pair_source_positions lm)) of
                  (Inr kept, Inr allow_kept, Inr pair_kept, Inr deny_kept) \<Rightarrow>
                    Inr (Some (lm\<lparr>lm_source_positions := select (lm_source_positions lm) kept,
                      lm_set_indices := select (lm_set_indices lm) kept,
                      lm_allow_source_positions := select (lm_allow_source_positions lm) allow_kept,
                      lm_allow_pair_source_positions := select (lm_allow_pair_source_positions lm) pair_kept,
                      lm_allow_pair_token_ids := select (lm_allow_pair_token_ids lm) pair_kept,
                      lm_deny_pair_source_positions := select (lm_deny_pair_source_positions lm) deny_kept,
                      lm_deny_pair_token_ids := select (lm_deny_pair_token_ids lm) deny_kept\<rparr>))
                | _ \<Rightarrow> Inl IndexError))"

text \<open>Scores are finite unless masked. The first constrained row whose target is masked is reported.\<close>

definition constrained_rows :: "lm_masks \<Rightarrow> int \<Rightarrow> int \<Rightarrow> int list" where
  "constrained_rows lm token_start rows =
     (if lm_localized lm then lm_source_positions lm
      else (case constrained_slice (lm_source_positions lm) token_start (token_start + rows) of
              (a, b) \<Rightarrow> map (\<lambda>p. p - token_start) (slice_between a b (lm_source_positions lm))))"

definition validate_action_mask_targets :: "lm_masks option \<Rightarrow> int \<Rightarrow> score list \<Rightarrow> unit res" where
  "validate_action_mask_targets v token_start target_logits =
     (case v of
        None \<Rightarrow> Inr ()
      | Some lm \<Rightarrow>
          if lm_source_positions lm = [] then Inr ()
          else (case select_index target_logits (constrained_rows lm token_start (int (length target_logits))) of
                  Inl x \<Rightarrow> Inl x
                | Inr targets \<Rightarrow> if list_ex (\<lambda>x. x = Masked) targets then Inl ValueError else Inr ()))"

section \<open>Selected columns\<close>

text \<open>What may be given for the columns: a number, a one-dimensional sequence, a tensor of other rank, or anything else.\<close>

datatype keep_columns = KeepInt int | KeepBool bool | KeepSeq "mval list" | KeepTensor nat "mval list" | KeepOther

fun resolve_columns :: "mval list \<Rightarrow> int \<Rightarrow> int list res" where
  "resolve_columns [] n = Inr []"
| "resolve_columns (v # vs) n =
     (case require_int v of
        Inl x \<Rightarrow> Inl x
      | Inr c0 \<Rightarrow>
          let c = (if c0 < 0 then c0 + n else c0)
          in if c < 0 \<or> n \<le> c then Inl ValueError
             else (case resolve_columns vs n of Inl x \<Rightarrow> Inl x | Inr cs \<Rightarrow> Inr (c # cs)))"

fun logits_to_keep_columns :: "keep_columns \<Rightarrow> int \<Rightarrow> int list option res" where
  "logits_to_keep_columns (KeepBool b) n = Inl TypeError"
| "logits_to_keep_columns (KeepInt k) n = Inr (if k \<le> 0 \<or> n \<le> k then None else Some [n - k..n - 1])"
| "logits_to_keep_columns (KeepTensor d vs) n = (if d \<noteq> 1 then Inl ValueError else map_sum id Some (resolve_columns vs n))"
| "logits_to_keep_columns (KeepSeq vs) n = map_sum id Some (resolve_columns vs n)"
| "logits_to_keep_columns KeepOther n = Inl TypeError"

definition selected_at :: "int list \<Rightarrow> int \<Rightarrow> nat list" where
  "selected_at columns col = filter (\<lambda>j. columns ! j = col) [0..<length columns]"

text \<open>The entries at the kept columns; a source position beyond the batch raises.\<close>

fun column_entries :: "int \<Rightarrow> int \<Rightarrow> int list \<Rightarrow> 'o tagged list \<Rightarrow> 'o tagged list res" where
  "column_entries batch n columns [] = Inr []"
| "column_entries batch n columns ((ob, p, v) # tes) =
     (if p - 1 < 0 then column_entries batch n columns tes
      else if batch * n \<le> p - 1 then Inl ValueError
      else (case column_entries batch n columns tes of
              Inl x \<Rightarrow> Inl x
            | Inr rest \<Rightarrow>
                Inr (map (\<lambda>j. (ob, (p - 1) div n * int (length columns) + int j + 1, v)) (selected_at columns ((p - 1) mod n)) @ rest)))"

definition slice_for_logits_to_keep :: "masks option \<Rightarrow> int \<Rightarrow> int \<Rightarrow> keep_columns \<Rightarrow> masks option res" where
  "slice_for_logits_to_keep v batch n keep =
     (case v of
        None \<Rightarrow> Inr None
      | Some m0 \<Rightarrow>
          (case check_masks m0 of
             Inl x \<Rightarrow> Inl x
           | Inr m \<Rightarrow>
               (case logits_to_keep_columns keep n of
                  Inl x \<Rightarrow> Inl x
                | Inr None \<Rightarrow> Inr (Some m)
                | Inr (Some columns) \<Rightarrow>
                    if columns = [0..n - 1] then Inr (Some m)
                    else (case tagged_entries () m of
                            Inl x \<Rightarrow> Inl x
                          | Inr tes \<Rightarrow>
                              (case column_entries batch n columns tes of
                                 Inl x \<Rightarrow> Inl x
                               | Inr new \<Rightarrow> masks_from_tagged (batch * int (length columns) + 1) (am_vocab_size m) new)))))"

section \<open>The lookup by identity changes nothing\<close>

text \<open>Entries whose tuples have the given contents, and cached indices that agree with the table of sets.\<close>

definition tagged_by :: "('o \<Rightarrow> int list) \<Rightarrow> 'o tagged list \<Rightarrow> bool" where
  "tagged_by content tes \<longleftrightarrow> list_all (\<lambda>(ob, p, mode, ids). ids = content ob) tes"

definition cache_agrees :: "('o \<Rightarrow> int list) \<Rightarrow> encoder \<times> 'o objects \<Rightarrow> bool" where
  "cache_agrees content st \<longleftrightarrow>
     (\<forall>ob mode i. map_of (snd st) (ob, mode) = Some i \<longrightarrow>
        content ob \<noteq> [] \<and> map_of (ec_set_keys (fst st)) (mode, sort (content ob)) = Some i)"

lemma intern_set_keys:
  assumes "intern_set mode ids e = (i, e')"
  shows "map_of (ec_set_keys e') (mode, ids) = Some i" "map_of (ec_set_keys e) k = Some j \<Longrightarrow> map_of (ec_set_keys e') k = Some j"
proof -
  show "map_of (ec_set_keys e') (mode, ids) = Some i"
    using assms by (cases "map_of (ec_set_keys e) (mode, ids)") (auto simp: intern_set_def Let_def map_of_update)
  show "map_of (ec_set_keys e') k = Some j" if "map_of (ec_set_keys e) k = Some j"
    using that assms by (cases "map_of (ec_set_keys e) (mode, ids)") (auto simp: intern_set_def Let_def map_of_update)
qed

lemma add_position_keys [simp]: "ec_set_keys (add_position p i e) = ec_set_keys e"
  by (simp add: add_position_def)

lemma encode_tagged_step:
  assumes "cache_agrees content (e, objects)" "ids = content ob" "p < seq_len"
  shows "fst (encode_tagged (ob, p, mode, ids) (e, objects)) = encode_entry seq_len (p, mode, ids) e
    \<and> cache_agrees content (encode_tagged (ob, p, mode, ids) (e, objects))"
proof (cases "map_of objects (ob, mode)")
  case (Some i)
  then have "ids \<noteq> []" "map_of (ec_set_keys e) (mode, sort ids) = Some i" using assms by (auto simp: cache_agrees_def)
  then show ?thesis using Some assms by (simp add: encode_tagged_def encode_entry_def intern_set_def cache_agrees_def)
next
  case None
  obtain i e' where ie: "intern_set mode (sort ids) e = (i, e')" by fastforce
  note keys = intern_set_keys [OF ie]
  have agrees: "content o' \<noteq> [] \<and> map_of (ec_set_keys e') (mode', sort (content o')) = Some j"
    if "map_of (AList.update (ob, mode) i objects) (o', mode') = Some j" "ids \<noteq> []" for o' mode' j
    using that assms(1,2) keys by (auto simp: cache_agrees_def map_of_update split: if_splits)
  show ?thesis
    using None ie assms agrees by (auto simp: encode_tagged_def encode_entry_def cache_agrees_def)
qed

lemma encode_tagged_all:
  assumes "cache_agrees content st" "tagged_by content tes" "list_all (\<lambda>te. fst (snd te) < seq_len) tes"
  shows "fst (fold encode_tagged tes st) = fold (encode_entry seq_len) (map snd tes) (fst st)"
  using assms
proof (induction tes arbitrary: st)
  case (Cons te tes)
  obtain ob p mode ids e objects where te: "te = (ob, p, mode, ids)" and st: "st = (e, objects)" by (cases te, cases st) auto
  have "fst (encode_tagged te st) = encode_entry seq_len (p, mode, ids) e \<and> cache_agrees content (encode_tagged te st)"
    unfolding te st by (rule encode_tagged_step) (use Cons.prems in \<open>auto simp: te st tagged_by_def\<close>)
  then show ?case using Cons.IH [of "encode_tagged te st"] Cons.prems by (simp add: te st tagged_by_def)
qed simp

text \<open>The trainer's encoder is the server's on entries within the sequence.\<close>

lemma map_insort_key: "map f (insort_key (\<lambda>x. g (f x)) y xs) = insort_key g (f y) (map f xs)"
  by (induction xs) simp_all

lemma map_sort_key: "map f (sort_key (\<lambda>x. g (f x)) xs) = sort_key g (map f xs)"
  by (induction xs) (simp_all add: map_insort_key)

lemma masks_from_tagged_same:
  assumes "tagged_by content tes" "list_all (\<lambda>te. fst (snd te) < seq_len) tes"
  shows "masks_from_tagged seq_len voc tes = action_masks_from_entries seq_len voc (map snd tes)"
proof -
  let ?s = "sort_key (\<lambda>te. fst (snd te)) tes"
  have "map snd ?s = sort_key fst (map snd tes)" using map_sort_key [of snd fst tes] by simp
  moreover have "tagged_by content ?s" "list_all (\<lambda>te. fst (snd te) < seq_len) ?s"
    using assms by (auto simp: tagged_by_def list_all_iff)
  moreover have "cache_agrees content (new_encoder, [])" by (simp add: cache_agrees_def)
  ultimately show ?thesis
    using encode_tagged_all [of content "(new_encoder, [])" ?s seq_len] by (simp add: masks_from_tagged_def action_masks_from_entries_def)
qed

section \<open>Packed entries\<close>

text \<open>Masks as the server makes them, and the entries that masks hold.\<close>

definition server_masks :: "masks option \<Rightarrow> bool" where
  "server_masks v \<longleftrightarrow>
     v = None \<or> (\<exists>n voc. v = Some (empty_action_masks n voc)) \<or> (\<exists>n voc es. action_masks_from_entries n voc es = Inr v)"

definition opt_entries :: "masks option \<Rightarrow> mask_entry list" where
  "opt_entries v = (case action_mask_entries v of Inl _ \<Rightarrow> [] | Inr L \<Rightarrow> L)"

lemma sort_Nil_iff: "sort xs = [] \<longleftrightarrow> xs = []"
  by (metis length_0_conv length_sort)

lemma server_masks_well:
  assumes "server_masks (Some m)"
  shows "\<exists>sets. well_encoded m sets (opt_entries (Some m)) \<and> list_all (\<lambda>(p, b, ids). ids \<noteq> []) (opt_entries (Some m))"
proof -
  have "\<exists>sets L. well_encoded m sets L \<and> list_all (\<lambda>(p, b, ids). ids \<noteq> []) L"
  proof (cases "\<exists>n voc. m = empty_action_masks n voc")
    case True
    then show ?thesis using empty_well by fastforce
  next
    case False
    then obtain n voc es where es: "action_masks_from_entries n voc es = Inr (Some m)" using assms by (auto simp: server_masks_def)
    have "list_all (\<lambda>(p, b, ids). ids \<noteq> []) ([] @ canonical n (sort_key fst es))"
      by (auto simp: canonical_def list_all_iff sort_Nil_iff)
    then show ?thesis
      using encode_all_encodes [OF new_encoder_encodes] encoded_well es unfolding action_masks_from_entries_def by blast
  qed
  then show ?thesis using well_encoded_entries unfolding opt_entries_def by fastforce
qed

text \<open>Entries with the tuples of one row.\<close>

definition row_tagged :: "'r \<Rightarrow> masks \<Rightarrow> ('r \<times> int) tagged list \<Rightarrow> bool" where
  "row_tagged k m tes \<longleftrightarrow> list_all (\<lambda>((k', i), p, mode, ids). k' = k \<and> ids = interned_token_id_sets m ! nat i) tes"

lemma zip_stands_for:
  assumes "stands_for sets is L"
  shows "map snd (zip (map f is) L) = L"
  using assms by (simp add: stands_for_def list_all2_lengthD)

lemma stands_for_tagged:
  assumes "stands_for sets is L"
  shows "list_all (\<lambda>((k', i), p, mode, ids). k' = k \<and> ids = map snd sets ! nat i) (zip (map (\<lambda>i. (k, i mod int (length sets))) is) L)"
  using assms unfolding stands_for_def
proof (induction "is" L rule: list_all2_induct)
  case (Cons i "is" en L)
  then have "i mod int (length sets) = i" "nat i < length sets" by auto
  then show ?case using Cons by (cases en) auto
qed simp

lemma tagged_entries_spec:
  assumes "server_masks (Some m)"
  shows "\<exists>tes. tagged_entries k m = Inr tes \<and> map snd tes = opt_entries (Some m) \<and> row_tagged k m tes"
proof -
  obtain sets where w: "well_encoded m sets (opt_entries (Some m))" using server_masks_well [OF assms] by blast
  note e = well_encoded_entries [OF w]
  have st: "stands_for sets (am_set_indices m) (opt_entries (Some m))" and n: "am_set_modes_allow m = map fst sets"
    using w by (simp_all add: well_encoded_def)
  show ?thesis
    using stands_for_tagged [OF st, of k] zip_stands_for [OF st] e n by (simp add: tagged_entries_def row_tagged_def)
qed

definition window_of :: "int \<Rightarrow> int list \<Rightarrow> mask_entry list \<Rightarrow> mask_entry list" where
  "window_of offset piece L =
     map (\<lambda>(p, v). (offset + (p - 1 - hd piece) + 1, v))
       (filter (\<lambda>(p, v). 0 \<le> p - 1 - hd piece \<and> p - 1 - hd piece < int (length piece)) L)"

lemma map_snd_moved:
  "map snd (map (\<lambda>(ob, p, v). (ob, f p, v)) (filter (\<lambda>(ob, p, v). P p) tes))
     = map (\<lambda>(p, v). (f p, v)) (filter (\<lambda>(p, v). P p) (map snd tes))"
  by (induction tes) auto

lemma row_tagged_moved:
  "row_tagged k m tes \<Longrightarrow> row_tagged k m (map (\<lambda>(ob, p, v). (ob, f p, v)) (filter (\<lambda>(ob, p, v). P p) tes))"
  by (auto simp: row_tagged_def list_all_iff)

lemma window_entries_spec:
  assumes "server_masks (Some m)" "window_entries k m piece offset = Inr tes"
  shows "map snd tes = window_of offset piece (opt_entries (Some m)) \<and> row_tagged k m tes"
proof (cases "piece = []")
  case False
  obtain us where us: "tagged_entries k m = Inr us" "map snd us = opt_entries (Some m)" "row_tagged k m us"
    using tagged_entries_spec [OF assms(1), of k] by blast
  let ?f = "\<lambda>p. offset + (p - 1 - hd piece) + 1" and ?P = "\<lambda>p. 0 \<le> p - 1 - hd piece \<and> p - 1 - hd piece < int (length piece)"
  have tes: "tes = map (\<lambda>(ob, p, v). (ob, ?f p, v)) (filter (\<lambda>(ob, p, v). ?P p) us)"
    using assms(2) False us(1) by (simp add: window_entries_def split: if_splits)
  show ?thesis
    unfolding tes map_snd_moved [of ?f ?P us] us(2) window_of_def using row_tagged_moved [OF us(3), of ?f ?P] by blast
qed (use assms(2) in \<open>auto simp: window_entries_def window_of_def row_tagged_def filter_empty_conv\<close>)

fun window_rows :: "int \<Rightarrow> (masks option \<times> int list) list \<Rightarrow> mask_entry list" where
  "window_rows offset [] = []"
| "window_rows offset ((v, piece) # rows) = window_of offset piece (opt_entries v) @ window_rows (offset + int (length piece)) rows"

lemma opt_entries_None [simp]: "opt_entries None = []"
  by (simp add: opt_entries_def action_mask_entries_def)

lemma window_of_Nil [simp]: "window_of offset piece [] = []"
  by (simp add: window_of_def)

lemma window_of_bounds: "(p, v) \<in> set (window_of offset piece L) \<Longrightarrow> offset < p \<and> p \<le> offset + int (length piece)"
  by (auto simp: window_of_def)

lemma window_rows_above: "(p, v) \<in> set (window_rows offset rows) \<Longrightarrow> offset < p"
proof (induction offset rows rule: window_rows.induct)
  case (2 offset v' piece rows)
  then show ?case using window_of_bounds [of p v offset piece "opt_entries v'"] by fastforce
qed simp

lemma window_rows_below: "(p, v) \<in> set (window_rows offset rows) \<Longrightarrow> p \<le> offset + sum_list (map (\<lambda>a. int (length (snd a))) rows)"
proof (induction offset rows rule: window_rows.induct)
  case (2 offset v' piece rows)
  have "0 \<le> sum_list (map (\<lambda>a. int (length (snd a))) rows)" by (rule sum_list_nonneg) auto
  then show ?case using 2 window_of_bounds [of p v offset piece "opt_entries v'"] by auto
qed simp

lemma sorted_wrt_moved:
  "sorted_wrt (<) (map fst L) \<Longrightarrow> sorted_wrt (<) (map fst (map (\<lambda>(p, v). (p + d, v)) (filter (\<lambda>(p, v). P p) L)))" for d :: int
  by (induction L) auto

lemma window_rows_sorted:
  assumes "list_all (\<lambda>(v, piece). server_masks v) rows"
  shows "sorted_wrt (<) (map fst (window_rows offset rows))"
  using assms
proof (induction offset rows rule: window_rows.induct)
  case (2 offset v piece rows)
  have "sorted_wrt (<) (map fst (opt_entries v))"
  proof (cases v)
    case (Some m)
    then show ?thesis using 2(2) server_masks_well well_encoded_bounds by fastforce
  qed simp
  then have "sorted_wrt (<) (map fst (window_of offset piece (opt_entries v)))"
    using sorted_wrt_moved [of "opt_entries v" "offset - hd piece"] by (simp add: window_of_def algebra_simps)
  moreover have "fst x < fst y" if "x \<in> set (window_of offset piece (opt_entries v))" "y \<in> set (window_rows (offset + int (length piece)) rows)" for x y
    using that window_of_bounds [of "fst x" "snd x"] window_rows_above [of "fst y" "snd y"] by fastforce
  ultimately show ?case using 2 by (auto simp: sorted_wrt_append)
qed simp

lemma window_of_lookup:
  assumes "j < length piece"
  shows "map_of (window_of offset piece L) (offset + int j + 1) = map_of L (hd piece + int j + 1)"
  using assms by (induction L) (auto simp: window_of_def)

lemma window_rows_lookup:
  assumes "k < length rows" "j < length (snd (rows ! k))"
  shows "map_of (window_rows offset rows) (offset + sum_list (map (\<lambda>a. int (length (snd a))) (take k rows)) + int j + 1)
    = map_of (opt_entries (fst (rows ! k))) (hd (snd (rows ! k)) + int j + 1)"
  using assms
proof (induction rows arbitrary: k offset)
  case (Cons row rows)
  obtain v piece where row: "row = (v, piece)" by fastforce
  show ?case
  proof (cases k)
    case 0
    let ?q = "offset + int j + 1"
    have "?q \<notin> fst ` set (window_rows (offset + int (length piece)) rows)"
      using window_rows_above [of ?q _ "offset + int (length piece)" rows] Cons.prems 0 by (auto simp: row)
    then have "map_of (window_rows (offset + int (length piece)) rows) ?q = None" by (simp add: map_of_eq_None_iff)
    then show ?thesis using Cons.prems 0 by (simp add: row map_add_def window_of_lookup split: option.split)
  next
    case (Suc i)
    let ?o = "offset + int (length piece)"
    let ?q = "?o + sum_list (map (\<lambda>a. int (length (snd a))) (take i rows)) + int j + 1"
    have "0 \<le> sum_list (map (\<lambda>a. int (length (snd a))) (take i rows))" by (rule sum_list_nonneg) auto
    then have "?q \<notin> fst ` set (window_of offset piece (opt_entries v))"
      using window_of_bounds [of ?q _ offset piece "opt_entries v"] by auto
    then have "map_of (window_of offset piece (opt_entries v)) ?q = None" by (simp add: map_of_eq_None_iff)
    moreover have "map_of (window_rows ?o rows) ?q = map_of (opt_entries (fst (rows ! i))) (hd (snd (rows ! i)) + int j + 1)"
      using Cons.IH [of i ?o] Cons.prems Suc by simp
    ultimately show ?thesis by (simp add: row Suc map_add_def add.assoc)
  qed
qed simp

text \<open>What the loop over the rows has gathered: their windows, under one vocabulary size.\<close>

definition row_content :: "(masks option \<times> 'a) list \<Rightarrow> nat \<times> int \<Rightarrow> int list" where
  "row_content rows ob = (case fst (rows ! fst ob) of None \<Rightarrow> [] | Some m \<Rightarrow> interned_token_id_sets m ! nat (snd ob))"

lemma row_tagged_content:
  "row_tagged k m tes \<Longrightarrow> fst (rows ! k) = Some m \<Longrightarrow> tagged_by (row_content rows) tes"
  by (auto simp: row_tagged_def tagged_by_def row_content_def list_all_iff)

lemma pack_rows_loop_windows:
  assumes "pack_rows_loop window_entries (\<lambda>piece. int (length piece)) k rows offset voc tes = Inr (offset', voc', tes')"
    and "list_all (\<lambda>(v, piece). server_masks v) rows" "rows = drop k all"
  shows "offset' = offset + sum_list (map (\<lambda>a. int (length (snd a))) rows)
    \<and> (\<exists>new. tes' = tes @ new \<and> map snd new = window_rows offset rows \<and> tagged_by (row_content all) new)
    \<and> (voc \<noteq> None \<longrightarrow> voc' = voc) \<and> (\<forall>m piece. (Some m, piece) \<in> set rows \<longrightarrow> voc' = Some (am_vocab_size m))"
  using assms
proof (induction rows arbitrary: k offset voc tes)
  case Nil
  then show ?case by (simp add: tagged_by_def)
next
  case (Cons row rows)
  obtain v piece where row: "row = (v, piece)" by fastforce
  have rest: "rows = drop (Suc k) all" and at: "all ! k = row"
    using Cons.prems(3) by (metis drop_Suc list.sel(3) tl_drop, metis Cons_nth_drop_Suc drop_eq_Nil list.distinct(1) list.inject not_le)
  show ?case
  proof (cases v)
    case None
    then have "pack_rows_loop window_entries (\<lambda>piece. int (length piece)) (Suc k) rows (offset + int (length piece)) voc tes = Inr (offset', voc', tes')"
      using Cons.prems(1) by (simp add: row)
    from Cons.IH [OF this _ rest] show ?thesis using Cons.prems(2) by (simp add: row None)
  next
    case (Some m)
    have sm: "server_masks (Some m)" using Cons.prems(2) by (simp add: row Some)
    obtain new where new: "window_entries k m piece offset = Inr new" "voc = None \<or> voc = Some (am_vocab_size m)"
      and loop: "pack_rows_loop window_entries (\<lambda>piece. int (length piece)) (Suc k) rows (offset + int (length piece)) (Some (am_vocab_size m)) (tes @ new)
        = Inr (offset', voc', tes')"
      using Cons.prems(1) check_masks_same [of m] by (auto simp: row Some split: sum.splits if_splits)
    note w = window_entries_spec [OF sm new(1)]
    have "tagged_by (row_content all) new" by (rule row_tagged_content [of k m]) (use w at row Some in simp_all)
    then show ?thesis using Cons.IH [OF loop _ rest] Cons.prems(2) w new(2) by (auto simp: row Some tagged_by_def)
  qed
qed

section \<open>Packed rows are masked as their own rows\<close>

lemma constrain_canonical:
  "list_all (\<lambda>(p, m, ids). p < seq_len \<and> ids \<noteq> []) es \<Longrightarrow> constrain (canonical seq_len es) voc p t x = constrain es voc p t x"
  by (cases "map_of es p") (auto simp: constrain_def canonical_lookup)

text \<open>Encoded entries constrain a tile as the entries say.\<close>

lemma from_entries_masks:
  assumes "action_masks_from_entries seq_len voc es = Inr v" "list_all (\<lambda>(p, m, ids). p < seq_len \<and> ids \<noteq> []) es"
    and tile: "tile_dims T rows width" "int width = ve - vs" "r < rows" "c < width" "0 \<le> ts"
  shows "\<exists>lm. action_masks_to_lm_head v = Inr lm
    \<and> cell (apply_lm_head lm ts vs ve T) r c = constrain (sort_key fst es) voc (ts + int r + 1) (vs + int c) (cell T r c)"
proof -
  let ?es = "sort_key fst es"
  have ok: "list_all (\<lambda>(p, m, ids). p < seq_len \<and> ids \<noteq> []) ?es" using assms(2) by (simp add: list_all_iff)
  let ?e = "fold (encode_entry seq_len) ?es new_encoder"
  obtain sets where enc: "encodes ?e sets (canonical seq_len ?es)"
    using encode_all_encodes [OF new_encoder_encodes] by fastforce
  have v: "encoded seq_len voc ?e = Inr v" using assms(1) by (simp add: action_masks_from_entries_def)
  show ?thesis
  proof (cases v)
    case None
    then have "ec_positions ?e = []" using v by (auto simp: encoded_def check_masks_def split: if_splits)
    then have "canonical seq_len ?es = []" using enc by (simp add: encodes_def)
    then have "constrain ?es voc p t x = x" for p t x using constrain_canonical [OF ok, of voc p t x] by (simp add: constrain_def)
    then show ?thesis using None by (simp add: action_masks_to_lm_head_def apply_lm_head_def)
  next
    case (Some m)
    have w: "well_encoded m sets (canonical seq_len ?es)" using encoded_well [OF enc] v Some by simp
    have "am_vocab_size m = voc" using encoded_vocab v Some by simp
    then show ?thesis using apply_lm_head_exact [OF w tile] Some constrain_canonical [OF ok] by simp
  qed
qed

lemma own_masks:
  assumes "server_masks v" "\<forall>m. v = Some m \<longrightarrow> am_vocab_size m = voc"
    and tile: "tile_dims T rows width" "int width = ve - vs" "r < rows" "c < width" "0 \<le> ts"
  shows "\<exists>lm. action_masks_to_lm_head v = Inr lm
    \<and> cell (apply_lm_head lm ts vs ve T) r c = constrain (opt_entries v) voc (ts + int r + 1) (vs + int c) (cell T r c)"
proof (cases v)
  case None
  then show ?thesis by (simp add: action_masks_to_lm_head_def apply_lm_head_def constrain_def)
next
  case (Some m)
  then obtain sets where "well_encoded m sets (opt_entries v)" using server_masks_well assms(1) by blast
  from apply_lm_head_exact [OF this tile] show ?thesis using Some assms(2) by simp
qed

lemma window_rows_ok:
  assumes "list_all (\<lambda>(v, piece). server_masks v) rows"
  shows "list_all (\<lambda>(p, m, ids). p < offset + sum_list (map (\<lambda>a. int (length (snd a))) rows) + 1 \<and> ids \<noteq> []) (window_rows offset rows)"
proof -
  have "ids \<noteq> []" if "(p, m, ids) \<in> set (window_rows offset rows)" for p m ids
    using assms that
  proof (induction offset rows rule: window_rows.induct)
    case (2 offset v piece rows)
    have "list_all (\<lambda>(p, b, ids). ids \<noteq> []) (opt_entries v)" using 2(2) server_masks_well by (cases v) auto
    then show ?case using 2 by (auto simp: window_of_def list_all_iff)
  qed simp
  then show ?thesis using window_rows_below [of _ _ offset rows] by (fastforce simp: list_all_iff)
qed

text \<open>Packing succeeds with the encoded windows of the rows, or without a mask on any row.\<close>

lemma pack_window_entries:
  assumes "pack_window_row_action_masks row_masks pieces = Inr v" "list_all server_masks row_masks"
  shows "length row_masks = length pieces \<and>
    ((v = None \<and> list_all (\<lambda>u. u = None) row_masks) \<or>
     (\<exists>n voc. action_masks_from_entries n voc (window_rows 0 (zip row_masks pieces)) = Inr v \<and> (\<forall>m. Some m \<in> set row_masks \<longrightarrow> am_vocab_size m = voc)
        \<and> list_all (\<lambda>(p, m, ids). p < n \<and> ids \<noteq> []) (window_rows 0 (zip row_masks pieces))))"
proof -
  let ?rows = "zip row_masks pieces"
  have sm: "list_all (\<lambda>(v, piece). server_masks v) ?rows" using assms(2) by (auto simp: list_all_iff dest: set_zip_leftD)
  obtain offset voc tes where loop: "pack_rows_loop window_entries (\<lambda>piece. int (length piece)) 0 ?rows 0 None [] = Inr (offset, voc, tes)"
    and len: "length row_masks = length pieces"
    and res: "(case voc of None \<Rightarrow> Inr None | Some n \<Rightarrow> masks_from_tagged (offset + 1) n tes) = Inr v"
    using assms(1) by (auto simp: pack_window_row_action_masks_def split: sum.splits if_splits)
  note P = pack_rows_loop_windows [OF loop sm drop_0 [symmetric]]
  have row: "\<exists>piece. (u, piece) \<in> set ?rows" if "u \<in> set row_masks" for u
    using that len by (metis in_set_impl_in_set_zip1)
  show ?thesis
  proof (cases voc)
    case None
    have "u = None" if "u \<in> set row_masks" for u using row [OF that] P None by (cases u) auto
    then show ?thesis using None res len by (auto simp: list_all_iff)
  next
    case (Some n)
    note ok = window_rows_ok [OF sm, of 0]
    have off: "offset + 1 = 0 + sum_list (map (\<lambda>a. int (length (snd a))) ?rows) + 1" using P by simp
    obtain new where new: "tes = new" "map snd new = window_rows 0 ?rows" "tagged_by (row_content ?rows) new" using P by auto
    have "list_all (\<lambda>te. fst (snd te) < offset + 1) tes"
    proof -
      have "list_all (\<lambda>en. fst en < offset + 1) (map snd tes)" unfolding new off using ok by (auto simp: list_all_iff new(2))
      then show ?thesis by (simp add: list_all_iff)
    qed
    then have "masks_from_tagged (offset + 1) n tes = action_masks_from_entries (offset + 1) n (window_rows 0 ?rows)"
      using masks_from_tagged_same [OF new(3)] new by simp
    moreover have "am_vocab_size m = n" if "Some m \<in> set row_masks" for m using row [OF that] P Some by auto
    moreover have "list_all (\<lambda>(p, m, ids). p < offset + 1 \<and> ids \<noteq> []) (window_rows 0 ?rows)" using ok off by (simp only:)
    ultimately show ?thesis
      using len res Some by (intro conjI disjI2 exI [of _ "offset + 1"] exI [of _ n] allI impI) simp_all
  qed
qed

text \<open>
  C8. Packing a window of every row leaves each token its own constraints. Pack masks of the server with the
  contiguous pieces of the rows' positions that a rank of sequence parallelism holds. The scores at the
  position of the packed call that holds position \<open>j\<close> of the piece of row \<open>k\<close> are masked exactly as those
  of a call on that row alone at the position's place in the full sequence. This covers rows split in the
  middle, empty pieces, rows without masks, and the token after the end of a piece.
\<close>

theorem packed_window_masks_as_row:
  assumes "pack_window_row_action_masks row_masks pieces = Inr v" "list_all server_masks row_masks"
    and "k < length pieces" "j < length (pieces ! k)" "0 \<le> hd (pieces ! k)" "0 \<le> ts"
    and "ts + int r = sum_list (map (\<lambda>piece. int (length piece)) (take k pieces)) + int j"
    and "tile_dims T rows width" "int width = ve - vs" "r < rows" "c < width"
  shows "\<exists>lm own. action_masks_to_lm_head v = Inr lm \<and> action_masks_to_lm_head (row_masks ! k) = Inr own
    \<and> cell (apply_lm_head lm ts vs ve T) r c = cell (apply_lm_head own (hd (pieces ! k) + int j) vs ve [T ! r]) 0 c"
proof -
  let ?rows = "zip row_masks pieces" and ?own = "row_masks ! k" and ?s = "hd (pieces ! k) + int j"
  have tile: "tile_dims [T ! r] 1 width" using assms(8,10) by (simp add: tile_dims_def)
  have same: "cell [T ! r] 0 c = cell T r c" by (simp add: cell_def)
  note P = pack_window_entries [OF assms(1,2)]
  have len: "length row_masks = length pieces" and sm: "list_all (\<lambda>(v, piece). server_masks v) ?rows"
    using P assms(2) by (auto simp: list_all_iff dest: set_zip_leftD)
  have own: "server_masks ?own" using assms(2,3) len by (simp add: list_all_length)
  show ?thesis
  proof (cases "v = None \<and> list_all (\<lambda>u. u = None) row_masks")
    case True
    then have "?own = None" using assms(3) len by (simp add: list_all_length)
    then show ?thesis using True same by (simp add: action_masks_to_lm_head_def apply_lm_head_def)
  next
    case False
    then obtain n voc where es: "action_masks_from_entries n voc (window_rows 0 ?rows) = Inr v"
      "\<forall>m. Some m \<in> set row_masks \<longrightarrow> am_vocab_size m = voc" "list_all (\<lambda>(p, m, ids). p < n \<and> ids \<noteq> []) (window_rows 0 ?rows)"
      using P by blast
    have sorted: "sort_key fst (window_rows 0 ?rows) = window_rows 0 ?rows"
      using window_rows_sorted [OF sm, of 0] by (intro sorted_sort_key) (simp add: strict_sorted_iff)
    have "map (\<lambda>a. int (length (snd a))) (take k ?rows) = map (\<lambda>piece. int (length piece)) (take k pieces)"
      using len by (intro nth_equalityI) (simp_all add: nth_zip)
    then have "map_of (window_rows 0 ?rows) (ts + int r + 1) = map_of (opt_entries ?own) (?s + 1)"
      using window_rows_lookup [of k ?rows j 0] assms(3,4,7) len by simp
    then have look: "constrain (window_rows 0 ?rows) voc (ts + int r + 1) t x = constrain (opt_entries ?own) voc (?s + int 0 + 1) t x" for t x
      by (simp add: constrain_def)
    have voc: "\<forall>m. ?own = Some m \<longrightarrow> am_vocab_size m = voc" using es(2) assms(3) len by (metis nth_mem)
    obtain lm where "action_masks_to_lm_head v = Inr lm"
      "cell (apply_lm_head lm ts vs ve T) r c = constrain (window_rows 0 ?rows) voc (ts + int r + 1) (vs + int c) (cell T r c)"
      using from_entries_masks [OF es(1,3) assms(8-11,6)] unfolding sorted by blast
    moreover have "0 \<le> ?s" using assms(5) by simp
    then obtain om where "action_masks_to_lm_head ?own = Inr om"
      "cell (apply_lm_head om ?s vs ve [T ! r]) 0 c = constrain (opt_entries ?own) voc (?s + int 0 + 1) (vs + int c) (cell T r c)"
      using own_masks [OF own voc tile assms(9) zero_less_one assms(11)] unfolding same by blast
    ultimately show ?thesis unfolding look by (intro exI [of _ lm] exI [of _ om]) simp
  qed
qed

text \<open>Two rows, the first without masks; token 1 is denied at target position 2 of the second, whose piece starts at 1.\<close>

theorem packed_window_masks_as_row_witness:
  "\<exists>m v lm own. action_masks_from_entries 4 3 [(2, False, [1])] = Inr m \<and> pack_window_row_action_masks [None, m] [[0], [1, 2]] = Inr v
    \<and> action_masks_to_lm_head v = Inr lm \<and> action_masks_to_lm_head m = Inr own
    \<and> cell (apply_lm_head lm 0 0 3 [[Score 1, Score 2, Score 3], [Score 4, Score 5, Score 6], [Score 7, Score 8, Score 9]]) 1 1
      = cell (apply_lm_head own 1 0 3 [[Score 4, Score 5, Score 6]]) 0 1"
proof -
  let ?m = "\<lambda>n p. \<lparr>am_seq_len = n, am_vocab_size = 3, am_positions = [p], am_set_indices = [0], am_set_modes_allow = [False],
    am_set_offsets = [0, 1], am_token_ids = [1]\<rparr>"
  let ?T = "[[Score 1, Score 2, Score 3], [Score 4, Score 5, Score 6], [Score 7, Score 8, Score 9]]"
  have m: "action_masks_from_entries 4 3 [(2, False, [1])] = Inr (Some (?m 4 2))" by code_simp
  have p: "pack_window_row_action_masks [None, Some (?m 4 2)] [[0], [1, 2]] = Inr (Some (?m 4 2))" by code_simp
  have s: "list_all server_masks [None, Some (?m 4 2)]" using m by (auto simp: server_masks_def)
  have "tile_dims ?T 3 3" by (auto simp: tile_dims_def less_Suc_eq numeral_3_eq_3)
  then show ?thesis
    using packed_window_masks_as_row [OF p s, of 1 0 0 1 ?T 3 3 3 0 1] m p by auto
qed

section \<open>Ignored labels\<close>

lemma select_kept: "select (map f qs) (map (\<lambda>q. K (g q)) qs) = map f (filter (\<lambda>q. K (g q)) qs)"
  by (induction qs) (auto simp: select_def)

lemma mode_pairs_filter: "mode_pairs b (filter (\<lambda>q. K (fst q)) S) = filter (\<lambda>q. K (fst q)) (mode_pairs b S)"
proof (induction S)
  case (Cons en S)
  obtain p m ids where en: "en = (p, m, ids)" by (cases en) auto
  have "filter (\<lambda>q. K (fst q)) (map (Pair p) ids) = (if K p then map (Pair p) ids else [])" by (induction ids) auto
  then show ?case using Cons.IH by (simp add: en)
qed simp

lemma mode_pairs_positions: "fst ` set (mode_pairs b S) \<subseteq> fst ` set S"
  by (force simp: mode_pairs_def split: if_splits)

lemma filter_represents:
  assumes rep: "represents lm S voc" and pos: "list_all (\<lambda>(p, v). 0 \<le> p) S" and res: "filter_lm_head (Some lm) keep = Inr v"
  shows "\<exists>l. v = Some l \<and> represents l (filter (\<lambda>q. keep ! nat (fst q)) S) voc \<and> lm_localized l = lm_localized lm"
proof (cases "S = []")
  case True
  then show ?thesis using rep res by (auto simp: filter_lm_head_def represents_def)
next
  case False
  note r = rep [unfolded represents_def]
  let ?all = "set (concat (lm_arrays lm))" and ?A = "filter (\<lambda>(p, m, ids). m) S"
  have nonempty: "lm_source_positions lm \<noteq> []" using r False by simp
  have all: "?all = fst ` set S" using r mode_pairs_positions [of _ S] by (auto simp: lm_arrays_def image_subset_iff)
  have "\<not> int (length keep) \<le> Max ?all" using res nonempty by (auto simp: filter_lm_head_def)
  then have "p < int (length keep)" if "p \<in> ?all" for p using Max_ge [OF finite_set that] by linarith
  then have bound: "0 \<le> p \<and> p < int (length keep)" if "p \<in> fst ` set S" for p
    using that pos unfolding all by (force simp: list_all_iff)
  have sel: "select_index keep (map fst qs) = Inr (map (\<lambda>q. keep ! nat (fst q)) qs)" if "fst ` set qs \<subseteq> fst ` set S"
    for qs :: "(int \<times> 'b) list"
    using that bound by (auto simp: select_index_def list_all_iff)
  have "fst ` set ?A \<subseteq> fst ` set S" by auto
  note sels = sel [of S] sel [OF this] sel [OF mode_pairs_positions [of True]] sel [OF mode_pairs_positions [of False]]
  have kept: "filter (\<lambda>(p, m, ids). m) (filter (\<lambda>q. keep ! nat (fst q)) S) = filter (\<lambda>q. keep ! nat (fst q)) ?A"
    by (induction S) auto
  let ?K = "\<lambda>p. keep ! nat p"
  have "represents (the v) (filter (\<lambda>q. keep ! nat (fst q)) S) voc \<and> lm_localized (the v) = lm_localized lm \<and> v \<noteq> None"
    using res nonempty \<open>\<not> int (length keep) \<le> Max ?all\<close> r sels
    by (auto simp: filter_lm_head_def represents_def kept select_kept [where K = ?K and g = fst] mode_pairs_filter [of _ ?K]
          simp del: filter_filter)
  then show ?thesis by auto
qed

lemma source_entries_pos: "list_all (\<lambda>(p, v). 0 \<le> p) (source_entries L)"
  by (auto simp: source_entries_def list_all_iff)

lemma map_of_filter_key: "map_of (filter (\<lambda>q. K (fst q)) S) q = (if K q then map_of S q else None)"
  by (induction S) auto

lemma sorted_wrt_filter_keys: "sorted_wrt (<) (map fst S) \<Longrightarrow> sorted_wrt (<) (map fst (filter (\<lambda>q. K (fst q)) S))" for S :: "(int \<times> 'b) list"
  by (induction S) auto

text \<open>
  Dropping the constraints at ignored labels touches nothing else. Where masks for the LM head are
  filtered by the labels to keep, scores at an ignored position are those of the model, so that its
  substitute target is never rejected, and at every other position they are masked as without the filter.
\<close>

theorem ignored_positions_unmasked:
  assumes "server_masks v" "action_masks_to_lm_head v = Inr lm" "filter_lm_head lm keep = Inr kept"
    and "tile_dims T rows width" "int width = ve - vs" "r < rows" "c < width" "0 \<le> ts"
  shows "cell (apply_lm_head kept ts vs ve T) r c
    = (if lm = None \<or> keep ! nat (ts + int r) then cell (apply_lm_head lm ts vs ve T) r c else cell T r c)"
proof (cases v)
  case None
  then show ?thesis using assms(2,3) by (simp add: action_masks_to_lm_head_def filter_lm_head_def)
next
  case (Some m)
  then obtain sets where w: "well_encoded m sets (opt_entries v)" using server_masks_well assms(1) by blast
  let ?S = "source_entries (opt_entries v)" and ?voc = "am_vocab_size m"
  let ?K = "filter (\<lambda>q. keep ! nat (fst q)) ?S"
  obtain l where l: "lm = Some l" "represents l ?S ?voc" "\<not> lm_localized l" "sorted_wrt (<) (map fst ?S)"
    "list_all (\<lambda>(p, b, ids). \<forall>t\<in>set ids. t < ?voc) ?S"
    using to_lm_head_sound [OF w] assms(2) Some by auto
  obtain f where f: "kept = Some f" "represents f ?K ?voc" "\<not> lm_localized f"
    using filter_represents [OF l(2) source_entries_pos] assms(3) l(1,3) by blast
  have "sorted_wrt (<) (map fst ?K)" using l(4) by (rule sorted_wrt_filter_keys)
  moreover have "list_all (\<lambda>(p, b, ids). \<forall>t\<in>set ids. t < ?voc) ?K" using l(5) by (simp add: list_all_iff)
  ultimately have "cell (apply_lm_head kept ts vs ve T) r c = constrain ?K ?voc (ts + int r) (vs + int c) (cell T r c)"
    unfolding f(1) by (intro apply_represented [OF f(2,3) _ _ assms(4-7)])
  moreover have "cell (apply_lm_head lm ts vs ve T) r c = constrain ?S ?voc (ts + int r) (vs + int c) (cell T r c)"
    unfolding l(1) by (intro apply_represented [OF l(2-5) assms(4-7)])
  ultimately show ?thesis using l(1) by (simp add: constrain_def map_of_filter_key [of "\<lambda>p. keep ! nat p"])
qed

theorem ignored_positions_unmasked_witness:
  "\<exists>m lm kept. action_masks_from_entries 4 3 [(1, True, [1]), (2, False, [1])] = Inr m \<and> action_masks_to_lm_head m = Inr lm
    \<and> filter_lm_head lm [False, True] = Inr kept
    \<and> cell (apply_lm_head kept 0 0 3 [[Score 1, Score 2, Score 3], [Score 4, Score 5, Score 6]]) 0 0 = Score 1
    \<and> cell (apply_lm_head lm 0 0 3 [[Score 1, Score 2, Score 3], [Score 4, Score 5, Score 6]]) 0 0 = Masked"
proof -
  let ?T = "[[Score 1, Score 2, Score 3], [Score 4, Score 5, Score 6]]"
  let ?m = "\<lparr>am_seq_len = 4, am_vocab_size = 3, am_positions = [1, 2], am_set_indices = [0, 1], am_set_modes_allow = [True, False],
    am_set_offsets = [0, 1, 2], am_token_ids = [1, 1]\<rparr>"
  let ?lm = "\<lambda>s i a ap ids. \<lparr>lm_source_positions = s, lm_set_indices = i, lm_set_modes_allow = [True, False], lm_set_offsets = [0, 1, 2],
    lm_token_ids = [1, 1], lm_vocab_size = 3, lm_allow_source_positions = a, lm_allow_pair_source_positions = ap,
    lm_allow_pair_token_ids = ids, lm_deny_pair_source_positions = [1], lm_deny_pair_token_ids = [1], lm_localized = False\<rparr>"
  have m: "action_masks_from_entries 4 3 [(1, True, [1]), (2, False, [1])] = Inr (Some ?m)" by code_simp
  have lm: "action_masks_to_lm_head (Some ?m) = Inr (Some (?lm [0, 1] [0, 1] [0] [0] [1]))" by code_simp
  have f: "filter_lm_head (Some (?lm [0, 1] [0, 1] [0] [0] [1])) [False, True] = Inr (Some (?lm [1] [1] [] [] []))" by code_simp
  have s: "server_masks (Some ?m)" using m by (auto simp: server_masks_def)
  have "tile_dims ?T 2 3" by (auto simp: tile_dims_def less_Suc_eq numeral_2_eq_2)
  then have "cell (apply_lm_head (Some (?lm [1] [1] [] [] [])) 0 0 3 ?T) 0 0 = Score 1"
    using ignored_positions_unmasked [OF s lm f, of ?T 2 3 3 0 0 0 0] by (simp add: cell_def)
  moreover have "cell (apply_lm_head (Some (?lm [0, 1] [0, 1] [0] [0] [1])) 0 0 3 ?T) 0 0 = Masked" by code_simp
  ultimately show ?thesis using m lm f by blast
qed

text \<open>The check of the targets raises exactly when a constrained position of the tile has a masked target.\<close>

lemma validate_exact:
  assumes rep: "represents lm S voc" "\<not> lm_localized lm" and sorted: "sorted (map fst S)"
  shows "validate_action_mask_targets (Some lm) ts xs
    = (if \<exists>r<length xs. ts + int r \<in> fst ` set S \<and> xs ! r = Masked then Inl ValueError else Inr ())"
proof -
  let ?rows = "constrained_rows lm ts (int (length xs))"
  have src: "lm_source_positions lm = map fst S" using rep(1) by (simp add: represents_def)
  have rows: "?rows = map (\<lambda>p. p - ts) (filter (\<lambda>p. ts \<le> p \<and> p < ts + int (length xs)) (map fst S))"
    using localize_positions [OF sorted, of ts "ts + int (length xs)" "map fst S"] rep(2)
    by (simp add: constrained_rows_def src localize_def constrained_slice_def)
  have sel: "select_index xs ?rows = Inr (map (\<lambda>i. xs ! nat i) ?rows)"
    by (auto simp: select_index_def rows list_all_iff)
  have "list_ex (\<lambda>x. x = Masked) (map (\<lambda>i. xs ! nat i) ?rows) \<longleftrightarrow> (\<exists>r<length xs. ts + int r \<in> fst ` set S \<and> xs ! r = Masked)"
  proof
    assume "list_ex (\<lambda>x. x = Masked) (map (\<lambda>i. xs ! nat i) ?rows)"
    then obtain p where p: "p \<in> set (map fst S)" "ts \<le> p" "p < ts + int (length xs)" "xs ! nat (p - ts) = Masked"
      unfolding rows list_ex_iff set_map set_filter by blast
    then have "nat (p - ts) < length xs" "ts + int (nat (p - ts)) = p" by simp_all
    then show "\<exists>r<length xs. ts + int r \<in> fst ` set S \<and> xs ! r = Masked"
      using p(1,4) by (intro exI [of _ "nat (p - ts)"]) simp
  next
    assume "\<exists>r<length xs. ts + int r \<in> fst ` set S \<and> xs ! r = Masked"
    then obtain r where r: "r < length xs" "ts + int r \<in> fst ` set S" "xs ! r = Masked" by blast
    then have "int r \<in> set ?rows" by (auto simp: rows image_iff intro!: bexI [of _ "ts + int r"])
    then show "list_ex (\<lambda>x. x = Masked) (map (\<lambda>i. xs ! nat i) ?rows)" using r(3) by (force simp: list_ex_iff)
  qed
  then show ?thesis using sel src by (cases "S = []") (simp_all add: validate_action_mask_targets_def)
qed

section \<open>Kept columns\<close>

definition column_block :: "int \<Rightarrow> int list \<Rightarrow> mask_entry \<Rightarrow> mask_entry list" where
  "column_block n columns en =
     (case en of
        (p, v) \<Rightarrow>
          if p - 1 < 0 then []
          else map (\<lambda>j. ((p - 1) div n * int (length columns) + int j + 1, v)) (selected_at columns ((p - 1) mod n)))"

lemma column_entries_spec:
  assumes "column_entries batch n columns tes = Inr new" "tagged_by content tes"
  shows "map snd new = concat (map (column_block n columns) (map snd tes)) \<and> tagged_by content new
    \<and> list_all (\<lambda>te. fst (snd te) - 1 < 0 \<or> fst (snd te) - 1 < batch * n) tes"
  using assms
proof (induction tes arbitrary: new)
  case (Cons te tes)
  obtain ob p v where te: "te = (ob, p, v)" by (cases te) auto
  have tags: "tagged_by content tes" "snd v = content ob" using Cons.prems(2) by (auto simp: tagged_by_def te split: prod.splits)
  show ?case
  proof (cases "p - 1 < 0")
    case True
    then show ?thesis using Cons.IH [of new] Cons.prems(1) tags by (simp add: te column_block_def)
  next
    case False
    let ?b = "map (\<lambda>j. (ob, (p - 1) div n * int (length columns) + int j + 1, v)) (selected_at columns ((p - 1) mod n))"
    obtain rest where rest: "column_entries batch n columns tes = Inr rest" "new = ?b @ rest" "p - 1 < batch * n"
      using Cons.prems(1) False by (auto simp: te split: sum.splits if_splits)
    have "tagged_by content ?b" using tags(2) by (cases v) (auto simp: tagged_by_def list_all_iff)
    then show ?thesis
      using Cons.IH [OF rest(1) tags(1)] rest(2,3) False by (simp add: te column_block_def tagged_by_def comp_def)
  qed
qed (simp add: tagged_by_def)

lemma block_index_unique:
  fixes a b n i j :: int
  assumes "a * n + i = b * n + j" "0 \<le> i" "i < n" "0 \<le> j" "j < n"
  shows "a = b \<and> i = j"
proof -
  have "a = (a * n + i) div n" "b = (b * n + j) div n" using assms(2-5) by simp_all
  then have "a = b" using assms(1) by simp
  then show ?thesis using assms(1) by simp
qed

lemma column_block_lookup:
  assumes "j < length columns" "0 \<le> columns ! j" "columns ! j < n" "0 \<le> b"
  shows "map_of (column_block n columns (p, v)) (b * int (length columns) + int j + 1)
    = (if p = b * n + columns ! j + 1 then Some v else None)"
proof (cases "p - 1 < 0")
  case True
  have "0 \<le> b * n" using assms by simp
  then have "p \<noteq> b * n + columns ! j + 1" using True assms(2) by linarith
  then show ?thesis using True by (simp add: column_block_def)
next
  case False
  let ?q = "b * int (length columns) + int j + 1"
  have keys: "(q, u) \<in> set (column_block n columns (p, v)) \<longleftrightarrow>
      u = v \<and> (\<exists>i<length columns. q = (p - 1) div n * int (length columns) + int i + 1 \<and> columns ! i = (p - 1) mod n)" for q u
    using False by (auto simp: column_block_def selected_at_def)
  have "(?q, u) \<in> set (column_block n columns (p, v)) \<longleftrightarrow> u = v \<and> p = b * n + columns ! j + 1" for u
  proof -
    have "(\<exists>i<length columns. ?q = (p - 1) div n * int (length columns) + int i + 1 \<and> columns ! i = (p - 1) mod n)
        \<longleftrightarrow> (p - 1) div n = b \<and> columns ! j = (p - 1) mod n"
      using assms(1) block_index_unique [of b "int (length columns)" "int j" "(p - 1) div n"] by auto
    also have "\<dots> \<longleftrightarrow> p = b * n + columns ! j + 1"
      using assms(2,3) div_mult_mod_eq [of "p - 1" n] by (auto simp: algebra_simps)
    finally show ?thesis using keys by simp
  qed
  then have "map_of (column_block n columns (p, v)) ?q = Some u \<Longrightarrow> u = v \<and> p = b * n + columns ! j + 1"
    "p = b * n + columns ! j + 1 \<Longrightarrow> \<exists>u. map_of (column_block n columns (p, v)) ?q = Some u" for u
    using map_of_SomeD weak_map_of_SomeI by fast+
  then show ?thesis by (cases "map_of (column_block n columns (p, v)) ?q") auto
qed

lemma columns_lookup:
  assumes "j < length columns" "0 \<le> columns ! j" "columns ! j < n" "0 \<le> b"
  shows "map_of (concat (map (column_block n columns) L)) (b * int (length columns) + int j + 1) = map_of L (b * n + columns ! j + 1)"
proof (induction L)
  case (Cons en L)
  then show ?case using column_block_lookup [OF assms] by (cases en) (auto simp: map_add_def)
qed simp

lemma map_of_first: "map_of xs p = (case filter (\<lambda>x. fst x = p) xs of [] \<Rightarrow> None | x # _ \<Rightarrow> Some (snd x))"
  by (induction xs) auto

lemma map_of_sort: "map_of (sort_key fst es) p = map_of es p" for es :: "mask_entry list"
  using sort_key_stable [of fst p es] by (simp add: map_of_first [of _ p])

lemma resolve_columns_range: "resolve_columns vs n = Inr cs \<Longrightarrow> c \<in> set cs \<Longrightarrow> 0 \<le> c \<and> c < n"
  by (induction vs arbitrary: cs) (auto simp: Let_def split: sum.splits if_splits)

lemma map_sum_Some: "map_sum id Some x = Inr (Some y) \<longleftrightarrow> x = Inr y"
  by (cases x) auto

lemma kept_columns_range:
  assumes "logits_to_keep_columns keep n = Inr (Some columns)" "c \<in> set columns"
  shows "0 \<le> c \<and> c < n"
proof (cases "\<exists>k. keep = KeepInt k")
  case True
  then show ?thesis using assms by (auto split: if_splits)
next
  case False
  then obtain vs where "resolve_columns vs n = Inr columns" using assms(1)
    by (cases keep) (auto split: if_splits simp: map_sum_Some)
  then show ?thesis using resolve_columns_range assms(2) by blast
qed

text \<open>Slicing gives the encoded entries of the kept columns, unless it keeps every column in place.\<close>

lemma slice_columns_entries:
  assumes res: "slice_for_logits_to_keep (Some m) batch n keep = Inr w" and cols: "logits_to_keep_columns keep n = Inr (Some columns)"
    and sm: "server_masks (Some m)" and "columns \<noteq> [0..n - 1]" "0 < n"
  shows "\<exists>s. action_masks_from_entries s (am_vocab_size m) (concat (map (column_block n columns) (opt_entries (Some m)))) = Inr w
    \<and> list_all (\<lambda>(p, b, ids). p < s \<and> ids \<noteq> []) (concat (map (column_block n columns) (opt_entries (Some m))))"
proof -
  let ?L = "opt_entries (Some m)" and ?s = "batch * int (length columns) + 1"
  obtain sets where w: "well_encoded m sets ?L" and ne: "list_all (\<lambda>(p, b, ids). ids \<noteq> []) ?L" using server_masks_well [OF sm] by blast
  have ok: "check_masks m = Inr m" using w by (simp add: well_encoded_def)
  obtain tes where tes: "tagged_entries () m = Inr tes" "map snd tes = ?L" "row_tagged () m tes"
    using tagged_entries_spec [OF sm, of "()"] by blast
  have tags: "tagged_by (\<lambda>ob. interned_token_id_sets m ! nat (snd ob)) tes"
    using tes(3) by (auto simp: row_tagged_def tagged_by_def list_all_iff)
  obtain new where new: "column_entries batch n columns tes = Inr new" "masks_from_tagged ?s (am_vocab_size m) new = Inr w"
    using res cols assms(4) ok tes(1) by (auto simp: slice_for_logits_to_keep_def split: sum.splits)
  note c = column_entries_spec [OF new(1) tags]
  let ?new = "concat (map (column_block n columns) ?L)"
  have bound: "p < ?s \<and> snd v \<noteq> []" if "(p, v) \<in> set ?new" for p v
  proof -
    obtain p0 i where p0: "(p0, v) \<in> set ?L" "0 \<le> p0 - 1" "p = (p0 - 1) div n * int (length columns) + int i + 1" "i < length columns"
      using \<open>(p, v) \<in> set ?new\<close> by (auto simp: column_block_def selected_at_def split: if_splits)
    have "p0 \<in> fst ` set (map snd tes)" using p0(1) tes(2) by force
    then have "p0 - 1 < batch * n" using c p0(2) by (auto simp: list_all_iff)
    then have "(p0 - 1) div n * n < batch * n"
      using assms(5) div_mult_mod_eq [of "p0 - 1" n] pos_mod_sign [of n "p0 - 1"] by linarith
    then have "(p0 - 1) div n < batch" using assms(5) by simp
    then have "((p0 - 1) div n + 1) * int (length columns) \<le> batch * int (length columns)" by (intro mult_right_mono) simp_all
    then show ?thesis using p0 ne by (auto simp: algebra_simps list_all_iff)
  qed
  have within: "list_all (\<lambda>(p, b, ids). p < ?s \<and> ids \<noteq> []) ?new"
    unfolding list_all_iff
  proof clarify
    fix p b ids assume "(p, b, ids) \<in> set ?new"
    then show "p < ?s \<and> ids \<noteq> []" using bound [of p "(b, ids)"] by simp
  qed
  have snd_new: "map snd new = ?new" using c tes(2) by simp
  have "list_all (\<lambda>te. fst (snd te) < ?s) new"
  proof -
    have "list_all (\<lambda>en. fst en < ?s) (map snd new)" unfolding snd_new by (rule list.pred_mono_strong [OF within]) auto
    then show ?thesis by (simp add: list_all_iff)
  qed
  then have "masks_from_tagged ?s (am_vocab_size m) new = action_masks_from_entries ?s (am_vocab_size m) ?new"
    using masks_from_tagged_same [OF c [THEN conjunct2, THEN conjunct1]] snd_new by simp
  then show ?thesis using new(2) within by (intro exI [of _ ?s]) simp
qed

text \<open>
  C23. Masks follow the columns that are kept. When only selected columns of each sequence of a batch are scored,
  in any order and with repetitions, the scores of kept column \<open>j\<close> of row \<open>b\<close> are masked exactly as those of
  the column it stands for would be in the full batch.
\<close>

theorem kept_columns_masked_alike:
  assumes "slice_for_logits_to_keep v batch n keep = Inr w" "logits_to_keep_columns keep n = Inr (Some columns)" "server_masks v"
    and "0 \<le> b" "j < length columns" "0 \<le> ts" "ts + int r = b * int (length columns) + int j"
    and "tile_dims T rows width" "int width = ve - vs" "r < rows" "c < width"
  shows "\<exists>lm own. action_masks_to_lm_head w = Inr lm \<and> action_masks_to_lm_head v = Inr own
    \<and> cell (apply_lm_head lm ts vs ve T) r c = cell (apply_lm_head own (b * n + columns ! j) vs ve [T ! r]) 0 c"
proof (cases v)
  case None
  then show ?thesis using assms(1) by (simp add: slice_for_logits_to_keep_def action_masks_to_lm_head_def apply_lm_head_def cell_def)
next
  case (Some m)
  let ?L = "opt_entries v" and ?s = "b * n + columns ! j"
  have col: "0 \<le> columns ! j" "columns ! j < n" using kept_columns_range [OF assms(2)] assms(5) by simp_all
  then have s: "0 \<le> ?s" using assms(4) by simp
  have tile: "tile_dims [T ! r] 1 width" using assms(8,10) by (simp add: tile_dims_def)
  have same: "cell [T ! r] 0 c = cell T r c" by (simp add: cell_def)
  have voc: "\<forall>m'. v = Some m' \<longrightarrow> am_vocab_size m' = am_vocab_size m" using Some by simp
  obtain own where own: "action_masks_to_lm_head v = Inr own"
    "cell (apply_lm_head own ?s vs ve [T ! r]) 0 c = constrain ?L (am_vocab_size m) (?s + int 0 + 1) (vs + int c) (cell T r c)"
    using own_masks [OF assms(3) voc tile assms(9) zero_less_one assms(11) s] unfolding same by blast
  show ?thesis
  proof (cases "columns = [0..n - 1]")
    case True
    obtain sets where "well_encoded m sets ?L" using server_masks_well assms(3) Some by blast
    then have "w = v" using assms(1,2) True Some by (simp add: slice_for_logits_to_keep_def well_encoded_def)
    moreover have "ts + int r = ?s" using assms(5,7) True col by (simp add: nth_upto)
    ultimately show ?thesis using own own_masks [OF assms(3) voc assms(8-11,6)] by auto
  next
    case False
    let ?es = "concat (map (column_block n columns) ?L)"
    have "0 < n" using col by simp
    then obtain k where es: "action_masks_from_entries k (am_vocab_size m) ?es = Inr w" "list_all (\<lambda>(p, b, ids). p < k \<and> ids \<noteq> []) ?es"
      using slice_columns_entries [of m batch n keep w columns] assms(1-3) False Some by blast
    have "constrain (sort_key fst ?es) voc (ts + int r + 1) t x = constrain ?L voc (?s + int 0 + 1) t x" for voc t x
      using columns_lookup [OF assms(5) col assms(4)] assms(7) by (simp add: constrain_def map_of_sort)
    then show ?thesis using from_entries_masks [OF es assms(8-11,6)] own by auto
  qed
qed

theorem kept_columns_masked_alike_witness:
  "\<exists>m w lm own. action_masks_from_entries 5 3 [(2, False, [1])] = Inr m \<and> slice_for_logits_to_keep m 1 4 (KeepInt 3) = Inr w
    \<and> action_masks_to_lm_head w = Inr lm \<and> action_masks_to_lm_head m = Inr own
    \<and> cell (apply_lm_head lm 0 0 3 [[Score 1, Score 2, Score 3]]) 0 1 = cell (apply_lm_head own 1 0 3 [[Score 1, Score 2, Score 3]]) 0 1"
proof -
  let ?m = "\<lambda>n p. \<lparr>am_seq_len = n, am_vocab_size = 3, am_positions = [p], am_set_indices = [0], am_set_modes_allow = [False],
    am_set_offsets = [0, 1], am_token_ids = [1]\<rparr>"
  have m: "action_masks_from_entries 5 3 [(2, False, [1])] = Inr (Some (?m 5 2))" by code_simp
  have w: "slice_for_logits_to_keep (Some (?m 5 2)) 1 4 (KeepInt 3) = Inr (Some (?m 4 1))" by code_simp
  have cols: "logits_to_keep_columns (KeepInt 3) 4 = Inr (Some [1, 2, 3])" by code_simp
  have s: "server_masks (Some (?m 5 2))" using m by (auto simp: server_masks_def)
  have "tile_dims [[Score 1, Score 2, Score 3]] 1 3" by (simp add: tile_dims_def)
  then show ?thesis
    using kept_columns_masked_alike [OF w cols s, of 0 0 0 0 "[[Score 1, Score 2, Score 3]]" 1 3 3 0 1] m w by auto
qed

end
